(* ===== verification/Prelude.thy ===== *)
theory Prelude
  imports Complex_Main
begin

text \<open>
  What every component of the development shares: Python's exceptions as values, the result
  type and its sequencing, floats and instants, decimal printing of integers, the dotted names
  of the task compiler, and the generic list facts the component proofs use.

  Conventions.  A Python call that may raise is a function into \<open>'a res\<close>; \<open>Inl\<close> is the
  exception.  Python's unbounded integers are \<open>int\<close> (\<open>nat\<close> where the code can only build
  non-negative ones).  A float is exact or one of the three non-finite values: rounding of
  binary floats is not modelled.  An instant is its number of microseconds since the epoch in
  UTC, the resolution of \<open>datetime\<close>; a \<open>datetime\<close> without offset is \<open>Naive\<close>.
  Strings are ASCII, so that Python's code points, UTF-8 bytes and characters agree.
\<close>

named_theorems wf_intros \<open>well-formedness of the initial states and its preservation by steps\<close>
named_theorems step_defs \<open>the definitions of a component's operations\<close>

section \<open>Exceptions and results\<close>

datatype py_exc =
    ValueError string
  | RuntimeError string
  | TypeError string
  | KeyError string
  | IndexError string
  | CancelledError string
  | SQLAlchemyError string
  | OSError string
  | ZeroDivisionError string

type_synonym 'a res = "py_exc + 'a"

definition rbind :: "'a res \<Rightarrow> ('a \<Rightarrow> 'b res) \<Rightarrow> 'b res" where
  "rbind m f = (case m of Inl e \<Rightarrow> Inl e | Inr x \<Rightarrow> f x)"

definition raise_if :: "bool \<Rightarrow> py_exc \<Rightarrow> unit res" where
  "raise_if b e = (if b then Inl e else Inr ())"

lemma rbind_Inl [simp]: "rbind (Inl e) f = Inl e"
  by (simp add: rbind_def)

lemma rbind_Inr [simp]: "rbind (Inr x) f = f x"
  by (simp add: rbind_def)

lemma rbind_eq_Inr [simp]: "rbind m f = Inr y \<longleftrightarrow> (\<exists>x. m = Inr x \<and> f x = Inr y)"
  by (cases m) simp_all

lemma rbind_cong [fundef_cong]:
  "m = n \<Longrightarrow> (\<And>x. n = Inr x \<Longrightarrow> f x = g x) \<Longrightarrow> rbind m f = rbind n g"
  by (cases n) (simp_all add: rbind_def)

lemma raise_if_eq_Inr [simp]: "raise_if b e = Inr u \<longleftrightarrow> \<not> b"
  by (simp add: raise_if_def)

lemma raise_if_simps [simp]: "raise_if True e = Inl e" "raise_if False e = Inr ()"
  by (simp_all add: raise_if_def)

lemma rbind_assoc: "rbind (rbind m f) g = rbind m (\<lambda>x. rbind (f x) g)"
  by (cases m) simp_all

text \<open>A comprehension or loop whose body may raise: it stops at the first exception.\<close>

fun mapR :: "('a \<Rightarrow> 'b res) \<Rightarrow> 'a list \<Rightarrow> 'b list res" where
  "mapR f [] = Inr []"
| "mapR f (x # xs) = rbind (f x) (\<lambda>y. rbind (mapR f xs) (\<lambda>ys. Inr (y # ys)))"

fun foldR :: "('s \<Rightarrow> 'a \<Rightarrow> 's res) \<Rightarrow> 's \<Rightarrow> 'a list \<Rightarrow> 's res" where
  "foldR f s [] = Inr s"
| "foldR f s (x # xs) = rbind (f s x) (\<lambda>s'. foldR f s' xs)"

lemma mapR_cong [fundef_cong]:
  "xs = ys \<Longrightarrow> (\<And>x. x \<in> set ys \<Longrightarrow> f x = g x) \<Longrightarrow> mapR f xs = mapR g ys"
  by (induction ys arbitrary: xs) auto

lemma mapR_Inr_iff:
  "mapR f xs = Inr ys \<longleftrightarrow> list_all2 (\<lambda>x y. f x = Inr y) xs ys"
  by (induction xs arbitrary: ys) (auto simp: list_all2_Cons1)

lemma mapR_length: "mapR f xs = Inr ys \<Longrightarrow> length ys = length xs"
  by (auto simp: mapR_Inr_iff dest: list_all2_lengthD)

lemma mapR_memberE:
  assumes "mapR f xs = Inr ys" and "y \<in> set ys"
  obtains x where "x \<in> set xs" and "f x = Inr y"
proof -
  from assms obtain i where i: "i < length ys" "y = ys ! i" by (auto simp: in_set_conv_nth)
  with assms(1) have "f (xs ! i) = Inr y" "xs ! i \<in> set xs"
    by (auto simp: mapR_Inr_iff list_all2_conv_all_nth)
  then show ?thesis by (rule that [rotated])
qed

lemma mapR_list_all2:
  assumes "mapR f xs = Inr ys" and "\<And>x y. x \<in> set xs \<Longrightarrow> f x = Inr y \<Longrightarrow> P x y"
  shows "list_all2 P xs ys"
  using assms by (auto simp: mapR_Inr_iff list_all2_conv_all_nth)

lemma mapR_append:
  "mapR f (xs @ ys) = rbind (mapR f xs) (\<lambda>us. rbind (mapR f ys) (\<lambda>vs. Inr (us @ vs)))"
  by (induction xs) (auto simp: rbind_assoc, metis (no_types, lifting) Inr_inject rbind_assoc rbind_Inr old.sum.exhaust rbind_Inl)

lemma foldR_append: "foldR f s (xs @ ys) = rbind (foldR f s xs) (\<lambda>s'. foldR f s' ys)"
  by (induction xs arbitrary: s) (auto simp: rbind_assoc)

text \<open>A property every iteration keeps holds after the loop.\<close>

lemma foldR_invariant:
  assumes "foldR f s xs = Inr t" and "P s"
    and "\<And>s x s'. x \<in> set xs \<Longrightarrow> P s \<Longrightarrow> f s x = Inr s' \<Longrightarrow> P s'"
  shows "P t"
  using assms
proof (induction xs arbitrary: s)
  case (Cons x xs)
  then obtain s' where "f s x = Inr s'" "foldR f s' xs = Inr t" by auto
  moreover from this Cons.prems have "P s'" by auto
  ultimately show ?case using Cons by (metis list.set_intros(2))
qed simp

section \<open>Floats, durations and instants\<close>

datatype pyfloat = Fin rat | PosInf | NegInf | NotANumber

fun is_finite :: "pyfloat \<Rightarrow> bool" where
  "is_finite (Fin _) = True"
| "is_finite _ = False"

fun fl_negative :: "pyfloat \<Rightarrow> bool" where
  "fl_negative (Fin r) \<longleftrightarrow> r < 0"
| "fl_negative NegInf \<longleftrightarrow> True"
| "fl_negative _ \<longleftrightarrow> False"

text \<open>Multiplication by one of the positive unit factors.\<close>

fun fl_scale :: "rat \<Rightarrow> pyfloat \<Rightarrow> pyfloat" where
  "fl_scale k (Fin r) = Fin (r * k)"
| "fl_scale k x = x"

type_synonym instant = int

datatype timestamp = Aware instant | Naive instant

text \<open>\<open>timedelta(seconds = x)\<close> keeps microseconds and rounds a tie to the even neighbour.\<close>

definition round_half_even :: "rat \<Rightarrow> int" where
  "round_half_even x =
     (let f = floor x; d = x - of_int f
      in if d < 1 / 2 then f else if 1 / 2 < d then f + 1
         else if even f then f else f + 1)"

definition timedelta :: "rat \<Rightarrow> int" where
  "timedelta seconds = round_half_even (seconds * 1000000)"

lemma round_half_even_of_int [simp]: "round_half_even (of_int k) = k"
  by (simp add: round_half_even_def)

lemma round_half_even_bounds:
  "of_int (round_half_even x) - 1 / 2 \<le> x \<and> x \<le> of_int (round_half_even x) + 1 / 2"
proof -
  define f where "f = rat_of_int (floor x)"
  have "f \<le> x" "x < f + 1" unfolding f_def by linarith+
  then show ?thesis
    unfolding round_half_even_def Let_def f_def [symmetric]
    by (simp add: f_def [symmetric])
qed

lemma round_half_even_nonneg: "0 \<le> x \<Longrightarrow> 0 \<le> round_half_even x"
  by (auto simp: round_half_even_def Let_def)

lemma timedelta_nonneg: "0 \<le> s \<Longrightarrow> 0 \<le> timedelta s"
  by (simp add: timedelta_def round_half_even_nonneg)

lemma timedelta_0 [simp]: "timedelta 0 = 0"
  by (simp add: timedelta_def round_half_even_def)

section \<open>Decimal printing and dotted names\<close>

definition digit :: "nat \<Rightarrow> char" where
  "digit n = ''0123456789'' ! n"

fun str_nat :: "nat \<Rightarrow> string" where
  "str_nat n = (if n < 10 then [digit n] else str_nat (n div 10) @ [digit (n mod 10)])"

declare str_nat.simps [simp del]

definition str_int :: "int \<Rightarrow> string" where
  "str_int i = (if i < 0 then ''-'' @ str_nat (nat (- i)) else str_nat (nat i))"

text \<open>A zero-padded integer, as in the format \<open>{n:02d}\<close>.\<close>

definition str_pad :: "nat \<Rightarrow> nat \<Rightarrow> string" where
  "str_pad w n = replicate (w - length (str_nat n)) (CHR ''0'') @ str_nat n"

fun join :: "string \<Rightarrow> string list \<Rightarrow> string" where
  "join sep [] = []"
| "join sep [x] = x"
| "join sep (x # y # xs) = x @ sep @ join sep (y # xs)"

lemma digit_inj: "a < 10 \<Longrightarrow> b < 10 \<Longrightarrow> digit a = digit b \<Longrightarrow> a = b"
proof -
  have "distinct ''0123456789''" by simp
  then show "a < 10 \<Longrightarrow> b < 10 \<Longrightarrow> digit a = digit b \<Longrightarrow> a = b"
    by (simp add: digit_def nth_eq_iff_index_eq)
qed

lemma str_nat_nonempty [simp]: "str_nat n \<noteq> []"
  by (subst str_nat.simps) simp

lemma str_nat_inj: "str_nat a = str_nat b \<Longrightarrow> a = b"
proof (induction a arbitrary: b rule: str_nat.induct)
  case (1 a)
  have sa: "str_nat a = (if a < 10 then [digit a] else str_nat (a div 10) @ [digit (a mod 10)])"
    and sb: "str_nat b = (if b < 10 then [digit b] else str_nat (b div 10) @ [digit (b mod 10)])"
    by (rule str_nat.simps)+
  show ?case
  proof (cases "a < 10")
    case True
    have "str_nat (b div 10) @ [digit (b mod 10)] \<noteq> [digit a]" by simp
    with True "1.prems" sa sb show ?thesis by (auto split: if_splits intro: digit_inj)
  next
    case False
    with "1.prems" sa sb have b: "\<not> b < 10" by (auto split: if_splits)
    with False "1.prems" sa sb have "str_nat (a div 10) = str_nat (b div 10)"
      and d: "digit (a mod 10) = digit (b mod 10)" by auto
    with "1.IH" False have "a div 10 = b div 10" by blast
    moreover from d have "a mod 10 = b mod 10" by (rule digit_inj [rotated 2]) simp_all
    ultimately show ?thesis by (metis div_mult_mod_eq)
  qed
qed

lemma str_nat_digit: "c \<in> set (str_nat n) \<Longrightarrow> \<exists>k < 10. c = digit k"
proof (induction n rule: str_nat.induct)
  case (1 n)
  show ?case
  proof (cases "n < 10")
    case True
    with "1.prems" show ?thesis by (auto simp: str_nat.simps [of n])
  next
    case False
    with "1.prems" have "c \<in> set (str_nat (n div 10)) \<or> c = digit (n mod 10)"
      by (auto simp: str_nat.simps [of n])
    moreover have "n mod 10 < 10" by simp
    ultimately show ?thesis using "1.IH" False by blast
  qed
qed

lemma digit_no_dot: "k < 10 \<Longrightarrow> digit k \<noteq> CHR ''.''"
proof -
  have "\<forall>c \<in> set ''0123456789''. c \<noteq> CHR ''.''" by simp
  moreover assume "k < 10"
  then have "digit k \<in> set ''0123456789''" unfolding digit_def by (intro nth_mem) simp
  ultimately show ?thesis by blast
qed

lemma str_nat_no_dot: "CHR ''.'' \<notin> set (str_nat n)"
  using str_nat_digit digit_no_dot by metis

lemma digit_ascii: "k < 10 \<Longrightarrow> digit k \<in> set ''0123456789''"
  unfolding digit_def by (rule nth_mem) simp

lemma str_int_chars: "c \<in> set (str_int i) \<Longrightarrow> c = CHR ''-'' \<or> c \<in> set ''0123456789''"
  using str_nat_digit digit_ascii by (fastforce simp: str_int_def split: if_splits)

lemma str_nat_no_minus: "CHR ''-'' \<notin> set (str_nat n)"
proof
  assume "CHR ''-'' \<in> set (str_nat n)"
  then obtain k where k: "k < 10" "CHR ''-'' = digit k" using str_nat_digit by blast
  from digit_ascii [OF k(1)] have "CHR ''-'' \<in> set ''0123456789''" unfolding k(2) .
  then show False by simp
qed

lemma str_int_inj: "str_int a = str_int b \<Longrightarrow> a = b"
proof -
  assume eq: "str_int a = str_int b"
  have neg: "CHR ''-'' # s \<noteq> str_nat n" for s n using str_nat_no_minus [of n] by (metis list.set_intros(1))
  show "a = b"
  proof (cases "a < 0"; cases "b < 0")
    assume "a < 0" "b < 0"
    with eq have "nat (- a) = nat (- b)" by (intro str_nat_inj) (simp add: str_int_def)
    with \<open>a < 0\<close> \<open>b < 0\<close> show ?thesis by linarith
  next
    assume "\<not> a < 0" "\<not> b < 0"
    with eq have "nat a = nat b" by (intro str_nat_inj) (simp add: str_int_def)
    with \<open>\<not> a < 0\<close> \<open>\<not> b < 0\<close> show ?thesis by linarith
  next
    assume "a < 0" "\<not> b < 0"
    with eq neg [of "str_nat (nat (- a))" "nat b"] show ?thesis by (simp add: str_int_def)
  next
    assume "\<not> a < 0" "b < 0"
    with eq neg [of "str_nat (nat (- b))" "nat a"] show ?thesis by (simp add: str_int_def)
  qed
qed

text \<open>A field that cannot contain its terminator is determined by the text it starts.\<close>

lemma field_unique:
  "c \<notin> set xs \<Longrightarrow> c \<notin> set ys \<Longrightarrow> xs @ c # us = ys @ c # vs \<Longrightarrow> xs = ys \<and> us = vs"
proof (induction xs arbitrary: ys)
  case Nil
  then show ?case by (cases ys) auto
next
  case (Cons x xs)
  then show ?case by (cases ys) auto
qed

section \<open>Generic facts on lists and maps\<close>

text \<open>\<open>tuple(dict.fromkeys(xs))\<close>: the first occurrence of every element, in order.\<close>

fun dedup :: "'a list \<Rightarrow> 'a list" where
  "dedup [] = []"
| "dedup (x # xs) = x # dedup (filter (\<lambda>y. y \<noteq> x) xs)"

lemma set_dedup [simp]: "set (dedup xs) = set xs"
  by (induction xs rule: dedup.induct) auto

lemma distinct_dedup [simp]: "distinct (dedup xs)"
  by (induction xs rule: dedup.induct) auto

lemma sum_list_map_le:
  "(\<And>x. x \<in> set xs \<Longrightarrow> f x \<le> g x) \<Longrightarrow> sum_list (map f xs) \<le> sum_list (map g xs :: nat list)"
  by (induction xs) (auto simp: add_mono)

lemma map_upd_dom_finite [simp]: "finite (dom m) \<Longrightarrow> finite (dom (m(k \<mapsto> v)))"
  by simp

end
