(* ===== verification/Triggers.thy ===== *)
theory Triggers
  imports Prelude
begin

text \<open>
  \<open>runtime/triggers.py\<close>: the pure eligibility conditions shared by the outer workflow
  (\<open>RuntimeCoordinator\<close>) and by Runner progression, and the timers.  \<open>Completion\<close> and
  \<open>Eligibility\<close> are records; each trigger class is one evaluation function, with the checks
  of its \<open>__post_init__\<close> in front.  The lemmas characterise readiness exactly, and show that
  it is stable as time passes and that a failed dependency blocks for good.
\<close>

section \<open>Completions and eligibility\<close>

record completion =
  succeeded :: bool
  completed_at :: timestamp

record eligibility =
  ready :: bool
  el_due_at :: "instant option"
  blocked :: bool

definition eligible :: "bool \<Rightarrow> instant option \<Rightarrow> bool \<Rightarrow> eligibility" where
  "eligible r d b = \<lparr>ready = r, el_due_at = d, blocked = b\<rparr>"

lemma eligible_simps [simp]:
  "ready (eligible r d b) = r" "el_due_at (eligible r d b) = d" "blocked (eligible r d b) = b"
  by (simp_all add: eligible_def)

definition utc_instant :: "timestamp \<Rightarrow> instant res" where
  "utc_instant t = (case t of
     Aware i \<Rightarrow> Inr i
   | Naive _ \<Rightarrow> Inl (ValueError ''trigger timestamps must include a UTC offset''))"

lemma utc_instant_Aware [simp]: "utc_instant (Aware i) = Inr i"
  by (simp add: utc_instant_def)

text \<open>Comparing an aware and a naive \<open>datetime\<close> raises.\<close>

fun ts_less :: "timestamp \<Rightarrow> timestamp \<Rightarrow> bool res" where
  "ts_less (Aware a) (Aware b) = Inr (a < b)"
| "ts_less (Naive a) (Naive b) = Inr (a < b)"
| "ts_less _ _ = Inl (TypeError ''can't compare offset-naive and offset-aware datetimes'')"

text \<open>\<open>max(xs, default=d)\<close> over datetimes.\<close>

fun ts_max :: "timestamp \<Rightarrow> timestamp list \<Rightarrow> timestamp res" where
  "ts_max d [] = Inr d"
| "ts_max d (x # xs) =
     foldR (\<lambda>best y. rbind (ts_less best y) (\<lambda>lt. Inr (if lt then y else best))) x xs"

section \<open>Triggers\<close>

definition date_evaluate :: "timestamp \<Rightarrow> timestamp \<Rightarrow> eligibility res" where
  "date_evaluate due now =
     rbind (utc_instant due) (\<lambda>due_at.
     rbind (utc_instant now) (\<lambda>n. Inr (eligible (due_at \<le> n) (Some due_at) False)))"

text \<open>\<open>DelayTrigger\<close>: the constructor's checks, then \<open>evaluate\<close>.\<close>

definition delay_evaluate :: "timestamp \<Rightarrow> pyfloat \<Rightarrow> timestamp \<Rightarrow> eligibility res" where
  "delay_evaluate anchor seconds now =
     rbind (utc_instant anchor) (\<lambda>a.
       case seconds of
         Fin s \<Rightarrow>
           if s < 0 then Inl (ValueError ''trigger delay must be finite and nonnegative'')
           else date_evaluate (Aware (a + timedelta s)) now
       | _ \<Rightarrow> Inl (ValueError ''trigger delay must be finite and nonnegative''))"

definition dependency_evaluate ::
    "string list \<Rightarrow> timestamp \<Rightarrow> pyfloat \<Rightarrow> timestamp \<Rightarrow> (string \<rightharpoonup> completion) \<Rightarrow> eligibility res" where
  "dependency_evaluate dependencies created_at delay_seconds now completions =
     (if list_ex (\<lambda>i. case completions i of Some c \<Rightarrow> \<not> succeeded c | None \<Rightarrow> False) dependencies
      then Inr (eligible False None True)
      else if list_ex (\<lambda>i. completions i = None) dependencies
      then Inr (eligible False None False)
      else rbind (ts_max created_at
                   (map (\<lambda>i. completed_at (the (completions i))) dependencies))
             (\<lambda>anchor. delay_evaluate anchor delay_seconds now))"

lemmas trigger_defs [step_defs] = date_evaluate_def delay_evaluate_def dependency_evaluate_def

section \<open>What readiness means\<close>

definition all_aware :: "timestamp list \<Rightarrow> bool" where
  "all_aware ts \<longleftrightarrow> list_all (\<lambda>t. case t of Aware _ \<Rightarrow> True | Naive _ \<Rightarrow> False) ts"

fun instant_of :: "timestamp \<Rightarrow> instant" where
  "instant_of (Aware i) = i"
| "instant_of (Naive i) = i"

definition latest :: "instant \<Rightarrow> timestamp list \<Rightarrow> instant" where
  "latest d ts = (if ts = [] then d else Max (instant_of ` set ts))"

lemma ts_max_fold_aware:
  assumes "list_all (\<lambda>t. case t of Aware _ \<Rightarrow> True | Naive _ \<Rightarrow> False) xs"
  shows "foldR (\<lambda>best y. rbind (ts_less best y) (\<lambda>lt. Inr (if lt then y else best))) (Aware a) xs
    = Inr (Aware (Max (insert a (instant_of ` set xs))))"
  using assms
proof (induction xs arbitrary: a)
  case (Cons x xs)
  then obtain b where x: "x = Aware b" by (cases x) auto
  have "Max (insert (max a b) (instant_of ` set xs)) = Max (insert a (insert b (instant_of ` set xs)))"
    by (cases "set xs = {}") (simp_all add: max.assoc)
  moreover have "(if a < b then Aware b else Aware a) = Aware (max a b)" by simp
  ultimately show ?case using Cons x by simp
qed simp

lemma ts_max_aware:
  assumes "all_aware ts"
  shows "ts_max (Aware d) ts = Inr (Aware (latest d ts))"
proof (cases ts)
  case (Cons x xs)
  with assms obtain a where "x = Aware a" by (cases x) (auto simp: all_aware_def)
  with Cons assms show ?thesis
    using ts_max_fold_aware [of xs a] by (simp add: all_aware_def latest_def)
qed (simp add: latest_def)

lemma latest_upper: "t \<in> set ts \<Longrightarrow> instant_of t \<le> latest d ts"
  by (auto simp: latest_def)

text \<open>The instants at which the given dependencies completed.\<close>

definition completion_times :: "(string \<rightharpoonup> completion) \<Rightarrow> string list \<Rightarrow> timestamp list" where
  "completion_times completions deps = map (\<lambda>i. completed_at (the (completions i))) deps"

definition aware_completions :: "(string \<rightharpoonup> completion) \<Rightarrow> bool" where
  "aware_completions m \<longleftrightarrow> (\<forall>c \<in> ran m. \<exists>i. completed_at c = Aware i)"

lemma completion_times_aware:
  "aware_completions m \<Longrightarrow> \<forall>i \<in> set deps. m i \<noteq> None \<Longrightarrow> all_aware (completion_times m deps)"
  by (fastforce simp: aware_completions_def all_aware_def completion_times_def list_all_iff
      ran_def split: timestamp.splits)

lemma dependency_evaluate_cases:
  assumes "aware_completions m" and "0 \<le> s"
  shows "dependency_evaluate deps (Aware c0) (Fin s) (Aware now) m =
    Inr (if \<exists>i \<in> set deps. \<exists>c. m i = Some c \<and> \<not> succeeded c then eligible False None True
         else if \<exists>i \<in> set deps. m i = None then eligible False None False
         else let due = latest c0 (completion_times m deps) + timedelta s
              in eligible (due \<le> now) (Some due) False)"
proof -
  have ex: "list_ex (\<lambda>i. case m i of Some c \<Rightarrow> \<not> succeeded c | None \<Rightarrow> False) deps
      \<longleftrightarrow> (\<exists>i \<in> set deps. \<exists>c. m i = Some c \<and> \<not> succeeded c)"
    by (auto simp: list_ex_iff split: option.splits)
  show ?thesis
  proof (cases "\<exists>i \<in> set deps. m i = None")
    case False
    then have "all_aware (completion_times m deps)"
      by (intro completion_times_aware [OF assms(1)]) simp
    from ts_max_aware [OF this, of c0] False assms(2) ex show ?thesis
      by (auto simp add: trigger_defs completion_times_def [symmetric] Let_def list_ex_iff)
  qed (auto simp: trigger_defs list_ex_iff split: option.splits)
qed

lemma all_completed_iff:
  "(\<forall>i \<in> D. \<exists>c. m i = Some c \<and> P c) \<longleftrightarrow>
   (\<forall>i \<in> D. m i \<noteq> None) \<and> (\<forall>i \<in> D. \<forall>c. m i = Some c \<longrightarrow> P c)"
  by (metis not_None_eq option.inject)

lemma dependency_ready_char:
  assumes "aware_completions m" and "0 \<le> s"
  shows "\<exists>e. dependency_evaluate deps (Aware c0) (Fin s) (Aware now) m = Inr e \<and>
    (ready e \<longleftrightarrow>
       (\<forall>i \<in> set deps. \<exists>c. m i = Some c \<and> succeeded c) \<and>
       latest c0 (completion_times m deps) + timedelta s \<le> now) \<and>
    (ready e \<longrightarrow> el_due_at e = Some (latest c0 (completion_times m deps) + timedelta s)) \<and>
    (blocked e \<longleftrightarrow> (\<exists>i \<in> set deps. \<exists>c. m i = Some c \<and> \<not> succeeded c))"
  unfolding dependency_evaluate_cases [OF assms] by (auto simp: Let_def all_completed_iff)

text \<open>
  A dependency trigger over aware timestamps is ready exactly when every dependency has
  completed successfully and the delay after the last of these completions (after the creation
  time when there is no dependency) has elapsed; and the due time it reports is that instant.
\<close>

theorem dependency_ready_iff:
  assumes "aware_completions m" and "0 \<le> s"
  shows "\<exists>e. dependency_evaluate deps (Aware c0) (Fin s) (Aware now) m = Inr e \<and>
    (ready e \<longleftrightarrow>
       (\<forall>i \<in> set deps. \<exists>c. m i = Some c \<and> succeeded c) \<and>
       latest c0 (completion_times m deps) + timedelta s \<le> now) \<and>
    (ready e \<longrightarrow> el_due_at e = Some (latest c0 (completion_times m deps) + timedelta s)) \<and>
    (blocked e \<longleftrightarrow> (\<exists>i \<in> set deps. \<exists>c. m i = Some c \<and> \<not> succeeded c))"
  using assms by (rule dependency_ready_char)

theorem dependency_ready_iff_witness:
  "\<exists>e. dependency_evaluate [''a''] (Aware 0) (Fin 1) (Aware 2000000)
        [''a'' \<mapsto> \<lparr>succeeded = True, completed_at = Aware 500000\<rparr>] = Inr e \<and> ready e"
proof -
  let ?m = "[''a'' \<mapsto> \<lparr>succeeded = True, completed_at = Aware 500000\<rparr>] :: string \<rightharpoonup> completion"
  have "aware_completions ?m" by (auto simp: aware_completions_def ran_def split: if_splits)
  from dependency_ready_iff [OF this, of 1 "[''a'']" 0 2000000] show ?thesis
    by (auto simp: latest_def completion_times_def timedelta_def round_half_even_def)
qed

text \<open>Readiness and blocking are stable: time only advances, completions are only added.\<close>

lemma completion_times_extend:
  "\<forall>i \<in> set deps. m i \<noteq> None \<Longrightarrow> m \<subseteq>\<^sub>m m' \<Longrightarrow> completion_times m' deps = completion_times m deps"
  by (simp add: completion_times_def map_le_def dom_def)

lemma dependency_stable:
  assumes m: "aware_completions m" and m': "aware_completions m'" and le: "m \<subseteq>\<^sub>m m'"
    and s: "0 \<le> s" and t: "now \<le> later"
    and e: "dependency_evaluate deps (Aware c0) (Fin s) (Aware now) m = Inr e"
    and e': "dependency_evaluate deps (Aware c0) (Fin s) (Aware later) m' = Inr e'"
  shows "(ready e \<longrightarrow> ready e' \<and> el_due_at e' = el_due_at e) \<and> (blocked e \<longrightarrow> blocked e')"
proof -
  have lk: "\<And>i c. m i = Some c \<Longrightarrow> m' i = Some c"
    using le by (auto simp: map_le_def dom_def)
  from dependency_ready_char [OF m s, of deps c0 now] e
  have r: "ready e \<longleftrightarrow> (\<forall>i \<in> set deps. \<exists>c. m i = Some c \<and> succeeded c) \<and>
       latest c0 (completion_times m deps) + timedelta s \<le> now"
    and d: "ready e \<Longrightarrow> el_due_at e = Some (latest c0 (completion_times m deps) + timedelta s)"
    and b: "blocked e \<longleftrightarrow> (\<exists>i \<in> set deps. \<exists>c. m i = Some c \<and> \<not> succeeded c)" by auto
  from dependency_ready_char [OF m' s, of deps c0 later] e'
  have r': "ready e' \<longleftrightarrow> (\<forall>i \<in> set deps. \<exists>c. m' i = Some c \<and> succeeded c) \<and>
       latest c0 (completion_times m' deps) + timedelta s \<le> later"
    and d': "ready e' \<Longrightarrow> el_due_at e' = Some (latest c0 (completion_times m' deps) + timedelta s)"
    and b': "blocked e' \<longleftrightarrow> (\<exists>i \<in> set deps. \<exists>c. m' i = Some c \<and> \<not> succeeded c)" by auto
  have "ready e \<Longrightarrow> completion_times m' deps = completion_times m deps"
    using completion_times_extend [OF _ le] r by (metis option.discI)
  with r r' d d' b b' lk t show ?thesis by (metis order_trans)
qed

section \<open>Timers\<close>

text \<open>
  \<open>TimerSource.fire\<close> reads the wall clock, sleeps at most 60 s and reads it again, until the
  due instant has passed; only then does it publish.  The readings are the argument; the
  result is the list of sleeps and whether the \<open>timer.due\<close> message was published.
\<close>

fun timer_fire :: "instant \<Rightarrow> instant list \<Rightarrow> int list \<times> bool" where
  "timer_fire due [] = ([], False)"
| "timer_fire due (now # clock) =
     (if due - now \<le> 0 then ([], True)
      else let (sleeps, fired) = timer_fire due clock in (min (due - now) 60000000 # sleeps, fired))"

lemma timer_fire_iff: "snd (timer_fire due clock) \<longleftrightarrow> (\<exists>now \<in> set clock. due \<le> now)"
  by (induction clock) (auto split: prod.splits)

lemma timer_fire_sleeps: "\<forall>d \<in> set (fst (timer_fire due clock)). 0 < d \<and> d \<le> 60000000"
  by (induction clock) (auto split: prod.splits)

text \<open>The occurrences \<open>TimerSource.periodic\<close> fires, with their trigger identifiers.\<close>

definition timer_periodic ::
    "string \<Rightarrow> timestamp \<Rightarrow> pyfloat \<Rightarrow> int \<Rightarrow> timestamp option \<Rightarrow> (string \<times> instant) list res" where
  "timer_periodic trigger_id starts_at every_seconds max_occurrences ends_at =
     (case every_seconds of
        Fin every \<Rightarrow>
          if every \<le> 0 \<or> max_occurrences < 1
          then Inl (ValueError ''periodic timers require a positive interval and finite occurrence bound'')
          else rbind (utc_instant starts_at) (\<lambda>origin.
               rbind (case ends_at of None \<Rightarrow> Inr None | Some t \<Rightarrow> rbind (utc_instant t) (\<lambda>i. Inr (Some i)))
                 (\<lambda>end_at. Inr
                   (takeWhile (\<lambda>(_, due). case end_at of None \<Rightarrow> True | Some e \<Rightarrow> due \<le> e)
                     (map (\<lambda>k. (trigger_id @ '':'' @ str_nat k, origin + timedelta (of_nat k * every)))
                        [0 ..< nat max_occurrences]))))
      | _ \<Rightarrow> Inl (ValueError ''periodic timers require a positive interval and finite occurrence bound''))"

lemma timer_periodic_bounds:
  assumes "timer_periodic tid starts every n ends = Inr occ"
  shows "int (length occ) \<le> n" and "distinct (map fst occ)"
    and "\<And>e. ends = Some (Aware e) \<Longrightarrow> \<forall>(_, due) \<in> set occ. due \<le> e"
proof -
  from assms obtain every' origin end_at where every: "every = Fin every'" "1 \<le> n"
    and origin: "utc_instant starts = Inr origin"
    and end_at: "(case ends of None \<Rightarrow> Inr None | Some t \<Rightarrow> rbind (utc_instant t) (\<lambda>i. Inr (Some i))) = Inr end_at"
    and occ: "occ = takeWhile (\<lambda>(_, due). case end_at of None \<Rightarrow> True | Some e \<Rightarrow> due \<le> e)
        (map (\<lambda>k. (tid @ '':'' @ str_nat k, origin + timedelta (of_nat k * every'))) [0 ..< nat n])"
    by (auto simp: timer_periodic_def split: pyfloat.splits if_splits)
  show "int (length occ) \<le> n"
    using every length_takeWhile_le [of "\<lambda>(_, due). case end_at of None \<Rightarrow> True | Some e \<Rightarrow> due \<le> e"]
    unfolding occ by (smt (verit) length_map length_upt minus_nat.diff_0 nat_eq_iff of_nat_le_iff)
  have "distinct (map fst (map (\<lambda>k. (tid @ '':'' @ str_nat k, origin + timedelta (of_nat k * every'))) [0 ..< nat n]))"
    by (auto simp: distinct_map inj_on_def dest: str_nat_inj)
  then show "distinct (map fst occ)"
    unfolding occ by (metis (no_types, lifting) distinct_append map_append takeWhile_dropWhile_id)
  show "\<And>e. ends = Some (Aware e) \<Longrightarrow> \<forall>(_, due) \<in> set occ. due \<le> e"
    using end_at by (auto simp: occ dest!: set_takeWhileD)
qed

end
