(* ===== verification/Requests.thy ===== *)
theory Requests
  imports Triggers
begin

text \<open>
  \<open>compiler/requests.py\<close> with the value types it uses (\<open>configuration/duration.py\<close>,
  \<open>RequestStep\<close> of \<open>benchmark/execution.py\<close>): the Worker template of one Runner, its
  validation, its expansion into a finite graph of Workers, and the static estimates that
  admission relies on.  The lemmas show that the expansion of a validated plan is a graph of
  uniquely named Workers whose dependencies precede them, that it has exactly the announced
  number of Workers, and that the token estimate, computed on one iteration, is the sum over the
  expanded graph.
\<close>

section \<open>Durations\<close>

datatype duration_unit = Milliseconds | Seconds | Minutes | Hours | Days

fun unit_seconds :: "duration_unit \<Rightarrow> rat" where
  "unit_seconds Milliseconds = 1 / 1000"
| "unit_seconds Seconds = 1"
| "unit_seconds Minutes = 60"
| "unit_seconds Hours = 3600"
| "unit_seconds Days = 86400"

record duration =
  dur_value :: pyfloat
  dur_unit :: duration_unit

definition duration_seconds :: "duration \<Rightarrow> pyfloat" where
  "duration_seconds d = fl_scale (unit_seconds (dur_unit d)) (dur_value d)"

text \<open>\<open>Duration.validate_value\<close>.\<close>

definition validate_duration :: "duration \<Rightarrow> duration res" where
  "validate_duration d =
     (if \<not> is_finite (duration_seconds d) \<or> fl_negative (dur_value d)
      then Inl (ValueError ''duration must be finite and nonnegative'') else Inr d)"

lemma unit_seconds_pos: "0 < unit_seconds u"
  by (cases u) simp_all

lemma validate_duration_Inr:
  "validate_duration d = Inr d' \<Longrightarrow> d' = d \<and> (\<exists>s. duration_seconds d = Fin s \<and> 0 \<le> s)"
  using unit_seconds_pos [of "dur_unit d"]
  by (cases "dur_value d") (auto simp: validate_duration_def duration_seconds_def split: if_splits)

section \<open>The declared plan\<close>

record request_dependency =
  dep_step :: string
  reuse_messages :: bool

record request_step_spec =
  spec_name :: string
  spec_input :: "string option"
  spec_depends_on :: "request_dependency list"
  spec_after :: duration
  spec_at :: "timestamp option"

definition spec_dependencies :: "request_step_spec \<Rightarrow> string list" where
  "spec_dependencies s = map dep_step (spec_depends_on s)"

definition spec_message_sources :: "request_step_spec \<Rightarrow> string list" where
  "spec_message_sources s = map dep_step (filter reuse_messages (spec_depends_on s))"

definition validate_dependencies :: "request_dependency list \<Rightarrow> unit res" where
  "validate_dependencies ds =
     raise_if (length (remdups (map dep_step ds)) \<noteq> length ds)
       (ValueError ''depends_on cannot contain duplicate references'')"

lemma validate_dependencies_iff:
  "validate_dependencies ds = Inr () \<longleftrightarrow> distinct (map dep_step ds)"
  by (simp add: validate_dependencies_def) (metis length_map length_remdups_eq remdups_id_iff_distinct)

text \<open>A step without dependencies, delay or instant: the template of \<open>expand\<close>'s default.\<close>

definition plain_spec :: "string \<Rightarrow> string option \<Rightarrow> request_step_spec" where
  "plain_spec n i = \<lparr>spec_name = n, spec_input = i, spec_depends_on = [],
     spec_after = \<lparr>dur_value = Fin 0, dur_unit = Seconds\<rparr>, spec_at = None\<rparr>"

record request_plan =
  plan_repeat :: nat
  plan_every :: "duration option"
  plan_input :: string
  plan_steps :: "request_step_spec list option"

definition MAX_REQUEST_STEPS :: nat where
  "MAX_REQUEST_STEPS = 100000"

definition worker_count :: "request_plan \<Rightarrow> nat" where
  "worker_count p = plan_repeat p * (case plan_steps p of Some ss \<Rightarrow> length ss | None \<Rightarrow> 1)"

fun check_steps :: "string list \<Rightarrow> request_step_spec list \<Rightarrow> unit res" where
  "check_steps seen [] = Inr ()"
| "check_steps seen (s # ss) =
     (if spec_name s \<in> set seen \<or> \<not> set (spec_dependencies s) \<subseteq> set seen
      then Inl (ValueError ''steps need unique names and dependencies on earlier steps'')
      else check_steps (spec_name s # seen) ss)"

text \<open>\<open>RequestPlan.validate_graph\<close>; the steps have passed their own validator.\<close>

definition validate_graph :: "request_plan \<Rightarrow> request_plan res" where
  "validate_graph p =
     rbind (raise_if (plan_every p \<noteq> None \<and> plan_steps p \<noteq> None)
              (ValueError ''worker.every cannot combine with explicit steps'')) (\<lambda>_.
     rbind (raise_if (MAX_REQUEST_STEPS < worker_count p)
              (ValueError ''request expansion exceeds 100000 Workers'')) (\<lambda>_.
     rbind (check_steps [] (case plan_steps p of Some ss \<Rightarrow> ss | None \<Rightarrow> [])) (\<lambda>_. Inr p)))"

section \<open>Expansion\<close>

definition scope_dependency :: "string \<Rightarrow> request_dependency \<Rightarrow> request_dependency" where
  "scope_dependency prefix d = d\<lparr>dep_step := prefix @ dep_step d\<rparr>"

text \<open>\<open>step.input or self.input\<close>: an absent or empty input falls back to the plan's.\<close>

definition or_else :: "string option \<Rightarrow> string \<Rightarrow> string" where
  "or_else v d = (case v of Some x \<Rightarrow> if x = [] then d else x | None \<Rightarrow> d)"

definition scope_step :: "request_plan \<Rightarrow> string \<Rightarrow> request_step_spec \<Rightarrow> request_step_spec" where
  "scope_step p prefix s =
     s\<lparr>spec_name := prefix @ spec_name s,
       spec_input := Some (or_else (spec_input s) (plan_input p)),
       spec_depends_on := map (scope_dependency prefix) (spec_depends_on s)\<rparr>"

definition repetition_prefix :: "request_plan \<Rightarrow> nat \<Rightarrow> string" where
  "repetition_prefix p r = (if 1 < plan_repeat p then str_nat r @ ''.'' else [])"

definition expand_plan :: "request_plan \<Rightarrow> request_step_spec list" where
  "expand_plan p =
     (case plan_steps p of
        None \<Rightarrow> map (\<lambda>i. plain_spec (str_nat i) (Some (plan_input p))) [0 ..< plan_repeat p]
      | Some ss \<Rightarrow>
          concat (map (\<lambda>r. map (scope_step p (repetition_prefix p r)) ss) [0 ..< plan_repeat p]))"

section \<open>Estimates on the raw execution document\<close>

text \<open>
  The keys of the benchmark document that the estimates read; an absent key is \<open>None\<close>.  The
  token setting of a named input is an integer or an object with an optional mean.
\<close>

datatype token_setting = TokenCount int | TokenSpec "int option"

record input_definition =
  input_text :: "string option"
  input_tokens :: "token_setting option"

record cache_probe =
  probe_trials :: int
  probe_repeats_after_prime :: "int option"

record benchmark =
  bm_repeat :: "int option"
  bm_every :: "duration option"
  bm_steps :: "request_step_spec list option"
  bm_input :: "string option"
  bm_inputs :: "(string \<times> input_definition) list"
  bm_prompt :: "string option"
  bm_mean_input_tokens :: "int option"
  bm_mean_output_tokens :: "int option"
  bm_cache_probe :: "cache_probe option"
  bm_concurrent_workers :: "int option"

definition default :: "'a \<Rightarrow> 'a option \<Rightarrow> 'a" where
  "default d v = (case v of Some x \<Rightarrow> x | None \<Rightarrow> d)"

lemma default_simps [simp]: "default d None = d" "default d (Some x) = x"
  by (simp_all add: default_def)

text \<open>\<open>request_plan\<close> decodes and validates the plan portion of a document.\<close>

definition decode_plan :: "benchmark \<Rightarrow> request_plan res" where
  "decode_plan b =
     (let r = default 1 (bm_repeat b)
      in if r < 1 \<or> int MAX_REQUEST_STEPS < r
         then Inl (ValueError ''repeat is out of range'')
         else if bm_steps b = Some [] then Inl (ValueError ''steps must not be empty'')
         else rbind (mapR (\<lambda>s. validate_dependencies (spec_depends_on s)) (default [] (bm_steps b)))
           (\<lambda>_. validate_graph \<lparr>plan_repeat = nat r, plan_every = bm_every b,
                  plan_input = default ''default'' (bm_input b), plan_steps = bm_steps b\<rparr>))"

definition planned_worker_count :: "benchmark \<Rightarrow> int" where
  "planned_worker_count b =
     (case bm_cache_probe b of
        Some probe \<Rightarrow> probe_trials probe * (1 + default 1 (probe_repeats_after_prime probe))
      | None \<Rightarrow> default 1 (bm_repeat b) *
          (case bm_steps b of Some ss \<Rightarrow> int (length ss) | None \<Rightarrow> 1))"

text \<open>The prompt tokens of one step: its named input, or the document's defaults.\<close>

definition step_prompt_tokens :: "benchmark \<Rightarrow> request_plan \<Rightarrow> request_step_spec \<Rightarrow> int" where
  "step_prompt_tokens b p s =
     (let definition_of = map_of (bm_inputs b) (or_else (spec_input s) (plan_input p));
          prompt = (case definition_of of
             Some d \<Rightarrow> (case input_text d of Some t \<Rightarrow> Some t | None \<Rightarrow> bm_prompt b)
           | None \<Rightarrow> bm_prompt b);
          fallback = default 550 (bm_mean_input_tokens b);
          mean = (case Option.bind definition_of input_tokens of
             None \<Rightarrow> fallback
           | Some (TokenSpec m) \<Rightarrow> default fallback m
           | Some (TokenCount n) \<Rightarrow> n)
      in case prompt of Some t \<Rightarrow> max mean (int (length t)) | None \<Rightarrow> mean)"

fun sum_history :: "(string \<rightharpoonup> int) \<Rightarrow> string list \<Rightarrow> int res" where
  "sum_history h [] = Inr 0"
| "sum_history h (x # xs) =
     (case h x of None \<Rightarrow> Inl (KeyError x)
      | Some n \<Rightarrow> rbind (sum_history h xs) (\<lambda>m. Inr (n + m)))"

fun token_loop ::
    "benchmark \<Rightarrow> request_plan \<Rightarrow> (string \<rightharpoonup> int) \<Rightarrow> int \<Rightarrow> request_step_spec list \<Rightarrow> int res" where
  "token_loop b p h acc [] = Inr acc"
| "token_loop b p h acc (s # ss) =
     rbind (sum_history h (spec_message_sources s)) (\<lambda>previous.
       let step_tokens = previous + step_prompt_tokens b p s + default 150 (bm_mean_output_tokens b)
       in token_loop b p (h(spec_name s \<mapsto> step_tokens)) (acc + step_tokens) ss)"

definition planned_token_budget :: "benchmark \<Rightarrow> int res" where
  "planned_token_budget b =
     (if bm_cache_probe b \<noteq> None
      then Inr (planned_worker_count b *
                (default 550 (bm_mean_input_tokens b) + default 150 (bm_mean_output_tokens b)))
      else rbind (decode_plan b) (\<lambda>p.
           rbind (token_loop b p Map.empty 0
                   (case plan_steps p of Some ss \<Rightarrow> ss | None \<Rightarrow> [plain_spec ''request'' None]))
             (\<lambda>iteration. Inr (int (plan_repeat p) * iteration))))"

section \<open>Binding prepared requests to the graph\<close>

text \<open>
  The request configuration (\<open>clients/models.py\<close>) is opaque to the compiler: a type
  variable.  \<open>RequestStep\<close> is the prepared atomic step.
\<close>

record 'req request_step =
  step_id :: string
  step_request :: 'req
  step_dependencies :: "string list"
  step_delay :: pyfloat
  step_due_at :: "timestamp option"
  step_message_sources :: "string list"

definition bind_step :: "request_step_spec \<Rightarrow> 'req request_step \<Rightarrow> 'req request_step" where
  "bind_step s prepared = \<lparr>step_id = spec_name s, step_request = step_request prepared,
     step_dependencies = spec_dependencies s, step_delay = duration_seconds (spec_after s),
     step_due_at = spec_at s, step_message_sources = spec_message_sources s\<rparr>"

definition compile_requests :: "benchmark \<Rightarrow> 'req request_step list \<Rightarrow> 'req request_step list res" where
  "compile_requests b prepared =
     (if bm_steps b = None then Inr prepared
      else rbind (decode_plan b) (\<lambda>p.
        if length (expand_plan p) \<noteq> length prepared
        then Inl (ValueError ''Prepared Workers do not match the declared request expansion'')
        else Inr (map2 bind_step (expand_plan p) prepared)))"

lemmas request_defs [step_defs] = validate_graph_def expand_plan_def decode_plan_def
  planned_worker_count_def planned_token_budget_def compile_requests_def

section \<open>The expanded graph\<close>

text \<open>Every step's name is new and its dependencies name earlier steps.\<close>

fun topological :: "string set \<Rightarrow> (string \<times> string list) list \<Rightarrow> bool" where
  "topological seen [] = True"
| "topological seen ((n, ds) # xs) \<longleftrightarrow>
     n \<notin> seen \<and> set ds \<subseteq> seen \<and> topological (insert n seen) xs"

definition spec_edges :: "request_step_spec list \<Rightarrow> (string \<times> string list) list" where
  "spec_edges ss = map (\<lambda>s. (spec_name s, spec_dependencies s)) ss"

lemma topological_append:
  "topological S (xs @ ys) \<longleftrightarrow> topological S xs \<and> topological (S \<union> fst ` set xs) ys"
  by (induction xs arbitrary: S rule: list.induct) (auto simp: insert_commute)

lemma topological_distinct:
  "topological S xs \<Longrightarrow> distinct (map fst xs) \<and> fst ` set xs \<inter> S = {}"
  by (induction S xs rule: topological.induct) auto

lemma topological_mono:
  "topological S xs \<Longrightarrow> S \<subseteq> T \<Longrightarrow> fst ` set xs \<inter> T = {} \<Longrightarrow> topological T xs"
proof (induction S xs arbitrary: T rule: topological.induct)
  case (2 S n ds xs)
  then have top: "topological (insert n S) xs" by simp
  from topological_distinct [OF this] "2.prems"(3) have "fst ` set xs \<inter> insert n T = {}" by auto
  moreover from "2.prems"(2) have "insert n S \<subseteq> insert n T" by blast
  ultimately have "topological (insert n T) xs" using "2.IH" top by blast
  with "2.prems" show ?case by auto
qed simp

lemma check_steps_topological:
  "check_steps seen ss = Inr () \<longleftrightarrow> topological (set seen) (spec_edges ss)"
  by (induction seen ss rule: check_steps.induct) (auto simp: spec_edges_def)

lemma scope_step_simps [simp]:
  "spec_name (scope_step p x s) = x @ spec_name s"
  "spec_dependencies (scope_step p x s) = map ((@) x) (spec_dependencies s)"
  "spec_message_sources (scope_step p x s) = map ((@) x) (spec_message_sources s)"
  "spec_after (scope_step p x s) = spec_after s"
  "spec_at (scope_step p x s) = spec_at s"
  by (simp_all add: scope_step_def scope_dependency_def spec_dependencies_def
      spec_message_sources_def filter_map comp_def)

lemma topological_scoped:
  "topological S xs \<Longrightarrow> topological ((@) x ` S) (map (\<lambda>(n, ds). (x @ n, map ((@) x) ds)) xs)"
  by (induction S xs rule: topological.induct) (auto simp: image_iff)

lemma spec_edges_scoped:
  "spec_edges (map (scope_step p x) ss) = map (\<lambda>(n, ds). (x @ n, map ((@) x) ds)) (spec_edges ss)"
  by (simp add: spec_edges_def)

text \<open>Distinct repetitions never share a name: the index ends at the first dot.\<close>

lemma dot_prefix_unique:
  assumes "x @ CHR ''.'' # u = y @ CHR ''.'' # v" and "CHR ''.'' \<notin> set x" and "CHR ''.'' \<notin> set y"
  shows "x = y \<and> u = v"
  using assms by (induction x arbitrary: y) (case_tac y; auto)+

lemma repetition_prefix_disjoint:
  assumes "1 < plan_repeat p" and "repetition_prefix p i @ u = repetition_prefix p j @ v"
  shows "i = j"
proof -
  from assms have "str_nat i @ CHR ''.'' # u = str_nat j @ CHR ''.'' # v"
    by (simp add: repetition_prefix_def)
  from dot_prefix_unique [OF this str_nat_no_dot str_nat_no_dot] have "str_nat i = str_nat j" ..
  then show ?thesis by (rule str_nat_inj)
qed

lemma expand_steps_topological:
  assumes "topological {} (spec_edges ss)" and "k \<le> plan_repeat p"
  shows "topological {} (spec_edges (concat (map (\<lambda>r. map (scope_step p (repetition_prefix p r)) ss) [0 ..< k])))
    \<and> (\<forall>n \<in> fst ` set (spec_edges (concat (map (\<lambda>r. map (scope_step p (repetition_prefix p r)) ss) [0 ..< k]))).
        \<exists>r u. r < k \<and> n = repetition_prefix p r @ u)"
  using assms(2)
proof (induction k)
  case 0
  then show ?case by (simp add: spec_edges_def)
next
  case (Suc k)
  let ?es = "\<lambda>k. spec_edges (concat (map (\<lambda>r. map (scope_step p (repetition_prefix p r)) ss) [0 ..< k]))"
  let ?last = "spec_edges (map (scope_step p (repetition_prefix p k)) ss)"
  have split: "?es (Suc k) = ?es k @ ?last" by (simp add: spec_edges_def)
  have fst_last: "fst ` set ?last \<subseteq> range ((@) (repetition_prefix p k))"
    by (auto simp: spec_edges_def)
  have "topological {} ?last"
    unfolding spec_edges_scoped using topological_scoped [OF assms(1)] by simp
  moreover have "fst ` set ?last \<inter> fst ` set (?es k) = {}"
  proof (cases "k = 0")
    case False
    with Suc.prems have "1 < plan_repeat p" by simp
    have False if "x \<in> fst ` set ?last" and "x \<in> fst ` set (?es k)" for x
    proof -
      from that(1) fst_last obtain u where "x = repetition_prefix p k @ u" by blast
      moreover from that(2) Suc obtain r v where "r < k" "x = repetition_prefix p r @ v" by force
      ultimately show False using repetition_prefix_disjoint [OF \<open>1 < plan_repeat p\<close>] by blast
    qed
    then show ?thesis by blast
  qed (simp add: spec_edges_def)
  ultimately have "topological (fst ` set (?es k)) ?last"
    using topological_mono [of "{}" ?last "fst ` set (?es k)"] by blast
  moreover have IH: "topological {} (?es k)"
    "\<forall>n \<in> fst ` set (?es k). \<exists>r u. r < k \<and> n = repetition_prefix p r @ u"
    using Suc by simp_all
  ultimately have "topological {} (?es (Suc k))"
    unfolding split topological_append by simp
  moreover have "\<exists>r u. r < Suc k \<and> n = repetition_prefix p r @ u" if n: "n \<in> fst ` set (?es (Suc k))" for n
  proof -
    from n have "n \<in> fst ` set (?es k) \<or> n \<in> fst ` set ?last" unfolding split by auto
    then show ?thesis
    proof
      assume "n \<in> fst ` set (?es k)"
      with IH(2) show ?thesis using less_SucI by metis
    next
      assume "n \<in> fst ` set ?last"
      with fst_last show ?thesis by blast
    qed
  qed
  ultimately show ?case by blast
qed

lemma plain_expansion_topological:
  "topological {} (spec_edges (map (\<lambda>i. plain_spec (str_nat i) inp) [0 ..< k]))"
proof (induction k)
  case (Suc k)
  have "str_nat k \<notin> fst ` set (spec_edges (map (\<lambda>i. plain_spec (str_nat i) inp) [0 ..< k]))"
    by (auto simp: spec_edges_def plain_spec_def dest: str_nat_inj)
  with Suc show ?case
    by (simp add: spec_edges_def topological_append plain_spec_def spec_dependencies_def)
qed (simp add: spec_edges_def)

lemma length_expand_plan: "length (expand_plan p) = worker_count p"
  by (auto simp: expand_plan_def worker_count_def length_concat comp_def sum_list_triv split: option.splits)

text \<open>
  C40.  A plan that passes validation expands into a finite Worker graph: it has exactly the
  announced number of Workers (at most 100000), their names are distinct, and every dependency
  of a Worker names an earlier Worker of the expansion, so that the graph has no cycle.
\<close>

theorem expand_plan_graph:
  assumes "validate_graph p = Inr p'"
  shows "length (expand_plan p) = worker_count p \<and> worker_count p \<le> MAX_REQUEST_STEPS \<and>
    topological {} (spec_edges (expand_plan p)) \<and> distinct (map spec_name (expand_plan p))"
proof -
  have "topological {} (spec_edges (expand_plan p))"
    using assms expand_steps_topological [of _ "plan_repeat p" p] plain_expansion_topological
    by (auto simp: validate_graph_def expand_plan_def check_steps_topological split: option.splits)
  moreover from topological_distinct [OF this] have "distinct (map spec_name (expand_plan p))"
    by (simp add: spec_edges_def comp_def)
  ultimately show ?thesis
    using assms length_expand_plan by (auto simp: validate_graph_def)
qed

definition example_plan :: request_plan where
  "example_plan = \<lparr>plan_repeat = 2, plan_every = None, plan_input = ''default'',
     plan_steps = Some [plain_spec ''ask'' None,
       (plain_spec ''again'' None)\<lparr>spec_depends_on := [\<lparr>dep_step = ''ask'', reuse_messages = True\<rparr>]\<rparr>]\<rparr>"

theorem expand_plan_graph_witness:
  "map spec_name (expand_plan example_plan) = [''0.ask'', ''0.again'', ''1.ask'', ''1.again''] \<and>
   distinct (map spec_name (expand_plan example_plan))"
proof -
  have v: "validate_graph example_plan = Inr example_plan"
    by (simp add: validate_graph_def example_plan_def worker_count_def MAX_REQUEST_STEPS_def
        plain_spec_def spec_dependencies_def)
  have "map spec_name (expand_plan example_plan) = [''0.ask'', ''0.again'', ''1.ask'', ''1.again'']"
    by (simp add: expand_plan_def example_plan_def repetition_prefix_def plain_spec_def
        str_nat.simps digit_def upt_conv_Cons)
  with expand_plan_graph [OF v] show ?thesis by simp
qed

section \<open>The token estimate\<close>

text \<open>
  The reference: the tokens of a whole Worker graph, each Worker's input being its prompt plus
  the complete history of the Workers whose messages it reuses.
\<close>

lemma step_prompt_tokens_scoped [simp]:
  "step_prompt_tokens b p (scope_step p x s) = step_prompt_tokens b p s"
proof -
  have "or_else (spec_input (scope_step p x s)) (plan_input p) = or_else (spec_input s) (plan_input p)"
    by (simp add: scope_step_def or_else_def split: option.splits)
  then show ?thesis by (simp add: step_prompt_tokens_def)
qed

text \<open>Appending steps whose own estimate does not depend on the history before them.\<close>

lemma token_loop_append:
  "(\<And>h t. token_loop b p h t ys = f t) \<Longrightarrow>
   token_loop b p h t (xs @ ys) = rbind (token_loop b p h t xs) f"
  by (induction xs arbitrary: h t) (auto simp: Let_def rbind_assoc)

lemma token_loop_shift:
  "token_loop b p h t ss = rbind (token_loop b p h 0 ss) (\<lambda>v. Inr (t + v))"
proof (induction ss arbitrary: h t)
  case (Cons s ss)
  show ?case
  proof (cases "sum_history h (spec_message_sources s)")
    case (Inr v)
    define n where "n = v + step_prompt_tokens b p s + default 150 (bm_mean_output_tokens b)"
    define h' where "h' = h(spec_name s \<mapsto> n)"
    have e: "token_loop b p h u (s # ss) = token_loop b p h' (u + n) ss" for u
      by (simp add: Inr n_def h'_def Let_def)
    show ?thesis
      unfolding e using Cons [of h' "t + n"] Cons [of h' n] by (simp add: rbind_assoc add.assoc)
  qed simp
qed simp

lemma sources_subset: "set (spec_message_sources s) \<subseteq> set (spec_dependencies s)"
  by (auto simp: spec_message_sources_def spec_dependencies_def)

lemma sum_history_scoped:
  "\<forall>n \<in> set ns. h (x @ n) = g n \<and> g n \<noteq> None \<Longrightarrow> sum_history h (map ((@) x) ns) = sum_history g ns"
  by (induction ns) auto

lemma sum_history_defined:
  "\<forall>n \<in> set ns. h n \<noteq> None \<Longrightarrow> \<exists>v. sum_history h ns = Inr v"
  by (induction ns) auto

lemma token_loop_scoped:
  assumes "topological seen (spec_edges ss)" and "\<forall>n \<in> seen. h (x @ n) = g n \<and> g n \<noteq> None"
  shows "token_loop b p h t (map (scope_step p x) ss) = token_loop b p g t ss"
  using assms
proof (induction ss arbitrary: seen h g t)
  case (Cons s ss)
  then have src: "\<forall>n \<in> set (spec_message_sources s). h (x @ n) = g n \<and> g n \<noteq> None"
    using sources_subset [of s] by (auto simp: spec_edges_def)
  from Cons.prems have top: "topological (insert (spec_name s) seen) (spec_edges ss)"
    by (simp add: spec_edges_def)
  show ?case
    by (simp add: sum_history_scoped [OF src] Let_def)
      (rule rbind_cong [OF refl], rule Cons.IH [OF top], use Cons.prems(2) in auto)
qed simp

lemma token_loop_defined:
  assumes "topological seen (spec_edges ss)" and "\<forall>n \<in> seen. h n \<noteq> None"
  shows "\<exists>v. token_loop b p h t ss = Inr v"
  using assms
proof (induction ss arbitrary: seen h t)
  case (Cons s ss)
  then have "\<forall>n \<in> set (spec_message_sources s). h n \<noteq> None"
    using sources_subset [of s] by (auto simp: spec_edges_def)
  then obtain v where v: "sum_history h (spec_message_sources s) = Inr v"
    using sum_history_defined by blast
  from Cons.prems have top: "topological (insert (spec_name s) seen) (spec_edges ss)"
    by (simp add: spec_edges_def)
  show ?case
    using Cons.prems(2) by (simp add: v Let_def) (rule Cons.IH [OF top], simp)
qed simp

lemma token_loop_repetitions:
  assumes top: "topological {} (spec_edges ss)" and iter: "token_loop b p Map.empty 0 ss = Inr v"
  shows "token_loop b p h t (concat (map (\<lambda>r. map (scope_step p (pre r)) ss) rs))
    = Inr (t + int (length rs) * v)"
proof (induction rs arbitrary: h t)
  case (Cons r rs)
  have step: "token_loop b p h t (map (scope_step p (pre r)) ss) = Inr (t + v)" for h t
    using token_loop_scoped [OF top, of h "pre r" Map.empty b p t]
      token_loop_shift [of b p Map.empty t ss] iter by simp
  show ?case
    by (simp add: token_loop_append [OF Cons.IH] step algebra_simps)
qed simp

lemma token_loop_plain:
  "token_loop b p h t (map (\<lambda>i. plain_spec (f i) (Some (plan_input p))) xs) =
   Inr (t + int (length xs) * (step_prompt_tokens b p (plain_spec ''request'' None)
     + default 150 (bm_mean_output_tokens b)))"
proof (induction xs arbitrary: h t)
  case (Cons i xs)
  have "step_prompt_tokens b p (plain_spec (f i) (Some (plan_input p))) =
      step_prompt_tokens b p (plain_spec ''request'' None)"
    by (simp add: step_prompt_tokens_def plain_spec_def or_else_def)
  with Cons show ?case
    by (simp add: plain_spec_def spec_message_sources_def algebra_simps)
qed simp

text \<open>
  The token budget of a document whose plan decodes is never an error, and although it is
  computed on one iteration of the declared steps it equals the sum, over every Worker of the
  expanded graph, of its prompt, its reused history and its output.
\<close>

theorem token_budget_of_expansion:
  assumes "decode_plan b = Inr p" and "bm_cache_probe b = None"
  shows "\<exists>n. planned_token_budget b = Inr n \<and>
    token_loop b p Map.empty 0 (expand_plan p) = Inr n"
proof -
  from assms(1) have steps: "plan_steps p = bm_steps b"
    and top: "\<And>ss. plan_steps p = Some ss \<Longrightarrow> topological {} (spec_edges ss)"
    by (auto simp: decode_plan_def validate_graph_def check_steps_topological Let_def split: if_splits)
  show ?thesis
  proof (cases "plan_steps p")
    case None
    then show ?thesis
      using assms by (simp add: planned_token_budget_def expand_plan_def token_loop_plain)
        (simp add: plain_spec_def spec_message_sources_def Let_def)
  next
    case (Some ss)
    obtain v where v: "token_loop b p Map.empty 0 ss = Inr v"
      using token_loop_defined [OF top [OF Some]] by blast
    show ?thesis
      using assms Some v
        token_loop_repetitions [OF top [OF Some] v, of Map.empty 0 "repetition_prefix p" "[0 ..< plan_repeat p]"]
      by (simp add: planned_token_budget_def expand_plan_def)
  qed
qed

definition example_benchmark :: benchmark where
  "example_benchmark = \<lparr>bm_repeat = Some 2, bm_every = None, bm_steps = plan_steps example_plan,
     bm_input = None, bm_inputs = [], bm_prompt = None, bm_mean_input_tokens = Some 10,
     bm_mean_output_tokens = Some 5, bm_cache_probe = None, bm_concurrent_workers = None\<rparr>"

theorem token_budget_of_expansion_witness:
  "planned_token_budget example_benchmark = Inr 90 \<and>
   token_loop example_benchmark example_plan Map.empty 0 (expand_plan example_plan) = Inr 90"
proof -
  have d: "decode_plan example_benchmark = Inr example_plan"
    by (simp add: decode_plan_def example_benchmark_def example_plan_def validate_graph_def
        validate_dependencies_def worker_count_def MAX_REQUEST_STEPS_def plain_spec_def spec_dependencies_def)
  have "planned_token_budget example_benchmark = Inr 90"
    unfolding planned_token_budget_def d
    by (simp add: example_benchmark_def example_plan_def plain_spec_def spec_message_sources_def
        step_prompt_tokens_def or_else_def Let_def)
  with token_budget_of_expansion [OF d] show ?thesis by (simp add: example_benchmark_def)
qed

section \<open>Binding keeps the graph\<close>

lemma compile_requests_graph:
  assumes "compile_requests b prepared = Inr out" and "bm_steps b = Some ss"
  shows "\<exists>p. decode_plan b = Inr p \<and> map step_id out = map spec_name (expand_plan p) \<and>
    map step_dependencies out = map spec_dependencies (expand_plan p) \<and>
    map step_message_sources out = map spec_message_sources (expand_plan p) \<and>
    map step_request out = map step_request prepared"
proof -
  from assms obtain p where p: "decode_plan b = Inr p" "length (expand_plan p) = length prepared"
    "out = map2 bind_step (expand_plan p) prepared"
    by (auto simp: compile_requests_def split: if_splits)
  then show ?thesis
    by (auto simp: bind_step_def comp_def case_prod_unfold zip_map1 [symmetric] simp flip: map_map
        intro!: nth_equalityI)
qed

end
