(* ===== verification/Hashing.thy ===== *)
theory Hashing
  imports Prelude "HOL-Library.Word"
begin

unbundle bit_operations_syntax

text \<open>
  \<open>hashlib.sha256\<close> on ASCII text, as the seed derivations of the compiler use it: the digest as
  eight 32-bit words, its first eight or four bytes as an unsigned big-endian integer, and the
  whole digest as an integer.  Theorems about seeds rest on the ranges proved here, never on the
  absence of collisions.
\<close>

section \<open>SHA-256\<close>

type_synonym u32 = "32 word"

text \<open>
  The constants of the standard: the first 32 bits of the fractional parts of the cube roots of
  the first 64 primes, and of the square roots of the first eight.  \<open>iroot k b n r\<close> finds the
  integer \<open>k\<close>-th root of \<open>n\<close> bit by bit, from bit \<open>b - 1\<close> down.
\<close>

fun iroot :: "nat \<Rightarrow> nat \<Rightarrow> int \<Rightarrow> int \<Rightarrow> int" where
  "iroot k 0 n r = r"
| "iroot k (Suc b) n r = iroot k b n (if (r + 2 ^ b) ^ k \<le> n then r + 2 ^ b else r)"

definition sha_primes :: "int list" where
  "sha_primes =
    [2, 3, 5, 7, 11, 13, 17, 19, 23, 29, 31, 37, 41, 43, 47, 53,
     59, 61, 67, 71, 73, 79, 83, 89, 97, 101, 103, 107, 109, 113, 127, 131,
     137, 139, 149, 151, 157, 163, 167, 173, 179, 181, 191, 193, 197, 199, 211, 223,
     227, 229, 233, 239, 241, 251, 257, 263, 269, 271, 277, 281, 283, 293, 307, 311]"

definition sha_k :: "u32 list" where
  "sha_k = map (\<lambda>p. of_int (iroot 3 36 (p * 2 ^ 96) 0)) sha_primes"

definition sha_init :: "u32 list" where
  "sha_init = map (\<lambda>p. of_int (iroot 2 36 (p * 2 ^ 64) 0)) (take 8 sha_primes)"

definition big_endian :: "int list \<Rightarrow> int" where
  "big_endian bs = foldl (\<lambda>acc b. acc * 256 + b) 0 bs"

fun chunks :: "nat \<Rightarrow> nat \<Rightarrow> 'a list \<Rightarrow> 'a list list" where
  "chunks 0 n xs = []"
| "chunks (Suc k) n xs = take n xs # chunks k n (drop n xs)"

definition sha_pad :: "int list \<Rightarrow> int list" where
  "sha_pad bs =
     (let l = length bs; z = (119 - l mod 64) mod 64
      in bs @ [128] @ replicate z 0 @ map (\<lambda>i. (int l * 8) div 256 ^ (7 - i) mod 256) [0 ..< 8])"

definition small_sigma :: "nat \<Rightarrow> nat \<Rightarrow> nat \<Rightarrow> u32 \<Rightarrow> u32" where
  "small_sigma a b c x = word_rotr a x XOR word_rotr b x XOR drop_bit c x"

definition big_sigma :: "nat \<Rightarrow> nat \<Rightarrow> nat \<Rightarrow> u32 \<Rightarrow> u32" where
  "big_sigma a b c x = word_rotr a x XOR word_rotr b x XOR word_rotr c x"

text \<open>The schedule is extended word by word; newest first.\<close>

fun sha_schedule :: "nat \<Rightarrow> u32 list \<Rightarrow> u32 list" where
  "sha_schedule 0 ws = rev ws"
| "sha_schedule (Suc k) ws =
     sha_schedule k ((small_sigma 17 19 10 (ws ! 1) + ws ! 6 + small_sigma 7 18 3 (ws ! 14) + ws ! 15) # ws)"

fun sha_round :: "u32 list \<Rightarrow> u32 \<times> u32 \<Rightarrow> u32 list" where
  "sha_round [a, b, c, d, e, f, g, h] (k, w) =
     (let t1 = h + big_sigma 6 11 25 e + ((e AND f) XOR (NOT e AND g)) + k + w;
          t2 = big_sigma 2 13 22 a + ((a AND b) XOR (a AND c) XOR (b AND c))
      in [t1 + t2, a, b, c, d + t1, e, f, g])"
| "sha_round s _ = s"

definition sha_block :: "u32 list \<Rightarrow> int list \<Rightarrow> u32 list" where
  "sha_block st block =
     (let ws = map (\<lambda>c. of_int (big_endian c)) (chunks 16 4 block)
      in map2 (+) st (foldl sha_round st (zip sha_k (sha_schedule 48 (rev ws)))))"

definition sha256 :: "string \<Rightarrow> u32 list" where
  "sha256 s =
     (let bs = sha_pad (map of_char s)
      in foldl sha_block sha_init (chunks (length bs div 64) 64 bs))"

section \<open>Seeds\<close>

definition digest_int :: "u32 list \<Rightarrow> int" where
  "digest_int ws = foldl (\<lambda>acc w. acc * 2 ^ 32 + uint w) 0 ws"

text \<open>\<open>int.from_bytes(sha256(material).digest()[:8], "big")\<close>.\<close>

definition seed64 :: "string \<Rightarrow> int" where
  "seed64 material = digest_int (take 2 (sha256 material))"

text \<open>\<open>int.from_bytes(sha256(material).digest()[:4], "big") & 0x7FFFFFFF\<close>.\<close>

definition seed31 :: "string \<Rightarrow> int" where
  "seed31 material = digest_int (take 1 (sha256 material)) AND 0x7FFFFFFF"

definition seed256 :: "string \<Rightarrow> int" where
  "seed256 material = digest_int (sha256 material)"

lemma digest_int_bounds: "0 \<le> digest_int ws \<and> digest_int ws < 2 ^ (32 * length ws)"
proof (induction ws rule: rev_induct)
  case (snoc w ws)
  have w: "0 \<le> uint w" "uint w < 2 ^ 32"
    using uint_bounded [of w] by simp_all
  have "digest_int (ws @ [w]) = digest_int ws * 2 ^ 32 + uint w" by (simp add: digest_int_def)
  moreover have "(digest_int ws + 1) * 2 ^ 32 \<le> 2 ^ (32 * length ws) * 2 ^ 32"
    using snoc by (intro mult_right_mono) auto
  ultimately show ?case using snoc w by (simp add: power_add algebra_simps)
qed (simp add: digest_int_def)

lemma seed64_range: "0 \<le> seed64 m \<and> seed64 m < 2 ^ 64"
proof -
  have "length (take 2 (sha256 m)) \<le> 2" by simp
  then have "(2::int) ^ (32 * length (take 2 (sha256 m))) \<le> 2 ^ 64"
    by (intro power_increasing) auto
  with digest_int_bounds [of "take 2 (sha256 m)"] show ?thesis
    unfolding seed64_def by linarith
qed

lemma seed31_range: "0 \<le> seed31 m \<and> seed31 m < 2 ^ 31"
proof -
  have m: "(0x7FFFFFFF :: int) = mask 31" by (simp add: mask_eq_exp_minus_1)
  have "seed31 m = take_bit 31 (digest_int (take 1 (sha256 m)))"
    unfolding seed31_def m by (rule take_bit_eq_mask [symmetric])
  then show ?thesis using take_bit_int_less_exp [of 31 "digest_int (take 1 (sha256 m))"] by simp
qed

lemma seed256_nonneg: "0 \<le> seed256 m"
  using digest_int_bounds by (simp add: seed256_def)

end
