(* ===== verification/Task_Syntax.thy ===== *)
theory Task_Syntax
  imports Requests Hashing "HOL-Library.List_Lexorder" "HOL-Library.Char_ord"
begin

text \<open>
  The syntax tree of \<open>compiler/tasks.py\<close> and the scalar part of its semantics: task values and
  durations resolved against matrix dimensions, seed pools, the six primitives as one datatype,
  the recipe around them, the per-instance context with its seed derivations, and the
  substitution of a loop variable into a \<open>for_each\<close> template.  The validated Pydantic
  configuration and the semantic node classes (\<open>InvokeConfig\<close> and \<open>InvokeNode\<close>, ...) carry the
  same fields, so both are the datatype \<open>task_node\<close>; \<open>from_config\<close> is then its depth check.
\<close>

section \<open>Bounds\<close>

definition MAX_REPEAT_COUNT :: int where "MAX_REPEAT_COUNT = 100"
definition MAX_GRAPH_DEPTH :: nat where "MAX_GRAPH_DEPTH = 20"
definition MAX_NODES_PER_INSTANCE :: nat where "MAX_NODES_PER_INSTANCE = 10000"
definition MAX_INSTANCES_PER_DEFINITION :: nat where "MAX_INSTANCES_PER_DEFINITION = 10000"
definition MAX_PLANNED_SPAN_SECONDS :: rat where "MAX_PLANNED_SPAN_SECONDS = 86400"

section \<open>Scalars\<close>

type_synonym dimensions = "(string \<times> int) list"

datatype task_value = Literal int | Dimension string

text \<open>\<open>TaskExpression.from_value(v).resolve(dimensions)\<close>.\<close>

definition resolve_value :: "dimensions \<Rightarrow> task_value \<Rightarrow> int res" where
  "resolve_value dims v = (case v of
     Literal i \<Rightarrow> Inr i
   | Dimension d \<Rightarrow> (case map_of dims d of
       Some i \<Rightarrow> Inr i
     | None \<Rightarrow> Inl (ValueError (''task expression references unknown dimension '' @ d))))"

datatype duration_scalar = DurLiteral pyfloat | DurDimension string

record task_duration =
  td_value :: duration_scalar
  td_unit :: duration_unit

definition no_delay :: task_duration where
  "no_delay = \<lparr>td_value = DurLiteral (Fin 0), td_unit = Seconds\<rparr>"

text \<open>\<open>TaskDuration.validate_literal\<close>.\<close>

definition validate_task_duration :: "task_duration \<Rightarrow> task_duration res" where
  "validate_task_duration d = (case td_value d of
     DurLiteral x \<Rightarrow> if \<not> is_finite x \<or> fl_negative x
       then Inl (ValueError ''duration must be finite and nonnegative'') else Inr d
   | DurDimension _ \<Rightarrow> Inr d)"

definition resolve_duration :: "dimensions \<Rightarrow> task_duration \<Rightarrow> rat res" where
  "resolve_duration dims d =
     rbind (case td_value d of
              DurLiteral x \<Rightarrow> Inr x
            | DurDimension n \<Rightarrow> (case map_of dims n of
                Some i \<Rightarrow> Inr (Fin (of_int i))
              | None \<Rightarrow> Inl (ValueError (''task expression references unknown dimension '' @ n))))
       (\<lambda>scalar. case fl_scale (unit_seconds (td_unit d)) scalar of
          Fin s \<Rightarrow> if s < 0 then Inl (ValueError ''task delays must be finite and nonnegative'') else Inr s
        | _ \<Rightarrow> Inl (ValueError ''task delays must be finite and nonnegative''))"

lemma resolve_duration_nonneg: "resolve_duration dims d = Inr s \<Longrightarrow> 0 \<le> s"
proof -
  assume "resolve_duration dims d = Inr s"
  then obtain x where "(case fl_scale (unit_seconds (td_unit d)) x of
      Fin s \<Rightarrow> if s < 0 then Inl (ValueError ''task delays must be finite and nonnegative'') else Inr s
    | _ \<Rightarrow> Inl (ValueError ''task delays must be finite and nonnegative'')) = (Inr s :: rat res)"
    unfolding resolve_duration_def rbind_eq_Inr by blast
  then show ?thesis by (cases "fl_scale (unit_seconds (td_unit d)) x") (auto split: if_splits)
qed

lemma resolve_no_delay [simp]: "resolve_duration dims no_delay = Inr 0"
  by (simp add: resolve_duration_def no_delay_def)

section \<open>Seed pools\<close>

datatype seed_pool = ExplicitPool "int list" | GeneratedPool int nat

definition pool_material :: "int \<Rightarrow> nat \<Rightarrow> string" where
  "pool_material seed index =
     ''prefix-pool-v1'' @ [CHR 0x00] @ str_int seed @ [CHR 0x00] @ str_nat index"

text \<open>
  \<open>while candidate in used: candidate = (candidate + 1) % 2**64\<close>.  One unit of fuel per probe;
  one more than the used values is enough (\<open>probe_enough\<close>), and \<open>generated_values\<close> gives it.
\<close>

fun probe :: "nat \<Rightarrow> int list \<Rightarrow> int \<Rightarrow> int option" where
  "probe 0 used c = None"
| "probe (Suc fuel) used c =
     (if c \<in> set used then probe fuel used ((c + 1) mod 2 ^ 64) else Some c)"

fun generate :: "int \<Rightarrow> int list \<Rightarrow> nat list \<Rightarrow> int list option" where
  "generate seed values [] = Some values"
| "generate seed values (i # is) =
     Option.bind (probe (Suc (length values)) values (seed64 (pool_material seed i)))
       (\<lambda>c. generate seed (values @ [c]) is)"

definition generated_values :: "int \<Rightarrow> nat \<Rightarrow> int list option" where
  "generated_values seed count = generate seed [] [0 ..< count]"

definition pool_values :: "seed_pool \<Rightarrow> int list" where
  "pool_values p = (case p of
     ExplicitPool vs \<Rightarrow> vs
   | GeneratedPool seed count \<Rightarrow> (case generated_values seed count of Some vs \<Rightarrow> vs | None \<Rightarrow> []))"

lemma probe_Some:
  "probe fuel used c = Some c' \<Longrightarrow> 0 \<le> c \<Longrightarrow> c < 2 ^ 64 \<Longrightarrow> c' \<notin> set used \<and> 0 \<le> c' \<and> c' < 2 ^ 64"
  by (induction fuel used c rule: probe.induct) (auto split: if_splits)

lemma probe_None:
  "probe fuel used c = None \<Longrightarrow> \<forall>k < fuel. (c + int k) mod 2 ^ 64 \<in> set used \<or> (k = 0 \<and> c \<in> set used)"
proof (induction fuel used c rule: probe.induct)
  case (2 fuel used c)
  then have c: "c \<in> set used"
    and IH: "\<forall>k < fuel. ((c + 1) mod 2 ^ 64 + int k) mod 2 ^ 64 \<in> set used \<or> (k = 0 \<and> (c + 1) mod 2 ^ 64 \<in> set used)"
    by (auto split: if_splits)
  show ?case
  proof (intro allI impI)
    fix k assume k: "k < Suc fuel"
    show "(c + int k) mod 2 ^ 64 \<in> set used \<or> (k = 0 \<and> c \<in> set used)"
    proof (cases k)
      case (Suc j)
      with k IH have "((c + 1) mod 2 ^ 64 + int j) mod 2 ^ 64 \<in> set used \<or> (j = 0 \<and> (c + 1) mod 2 ^ 64 \<in> set used)"
        by auto
      moreover have "((c + 1) mod 2 ^ 64 + int j) mod 2 ^ 64 = (c + int k) mod 2 ^ 64"
        using mod_add_left_eq [of "c + 1" "2 ^ 64" "int j"] Suc by (simp add: add.assoc)
      moreover have "j = 0 \<Longrightarrow> (c + 1) mod 2 ^ 64 = (c + int k) mod 2 ^ 64" using Suc by simp
      ultimately show ?thesis by metis
    qed (use c in simp)
  qed
qed simp

lemma probe_enough:
  assumes "0 \<le> c" and "c < 2 ^ 64" and "length used < 2 ^ 64"
  shows "\<exists>c'. probe (Suc (length used)) used c = Some c'"
proof (rule ccontr)
  assume "\<nexists>c'. probe (Suc (length used)) used c = Some c'"
  then have "probe (Suc (length used)) used c = None" by simp
  note none = probe_None [OF this]
  have c: "(c + int 0) mod 2 ^ 64 = c" using assms(1,2) by simp
  have "(c + int k) mod 2 ^ 64 \<in> set used" if "k \<le> length used" for k
    using none that c by (metis less_Suc_eq_le)
  then have sub: "(\<lambda>k. (c + int k) mod 2 ^ 64) ` {..length used} \<subseteq> set used" by blast
  have "inj_on (\<lambda>k. (c + int k) mod 2 ^ 64) {..length used}"
  proof (rule inj_onI)
    fix i j assume ij: "i \<in> {..length used}" "j \<in> {..length used}"
      and eq: "(c + int i) mod 2 ^ 64 = (c + int j) mod 2 ^ 64"
    have "int i < 2 ^ 64" "int j < 2 ^ 64" using ij assms(3) by simp_all
    then have small: "\<bar>int i - int j\<bar> < 2 ^ 64" by linarith
    from eq have "(2 ^ 64 :: int) dvd (c + int i) - (c + int j)"
      by (simp only: mod_eq_dvd_iff)
    then have "(2 ^ 64 :: int) dvd \<bar>int i - int j\<bar>" by simp
    with small show "i = j" using zdvd_not_zless [of "\<bar>int i - int j\<bar>" "2 ^ 64"] by linarith
  qed
  then have "card {..length used} \<le> card (set used)"
    using sub by (metis card_image card_mono finite_set)
  then show False using card_length [of used] by simp
qed

definition valid_pool :: "int list \<Rightarrow> bool" where
  "valid_pool vs \<longleftrightarrow> distinct vs \<and> (\<forall>v \<in> set vs. 0 \<le> v \<and> v < 2 ^ 64)"

lemma generate_valid:
  assumes "valid_pool vs" and "length vs + length is < 2 ^ 64"
  shows "\<exists>vs'. generate seed vs is = Some (vs @ vs') \<and> length vs' = length is \<and> valid_pool (vs @ vs')"
  using assms
proof (induction "is" arbitrary: vs)
  case (Cons i "is")
  let ?s = "seed64 (pool_material seed i)"
  from Cons.prems(2) obtain c where c: "probe (Suc (length vs)) vs ?s = Some c"
    using probe_enough [of ?s vs] seed64_range by fastforce
  with probe_Some [OF c] seed64_range Cons.prems have "valid_pool (vs @ [c])"
    by (auto simp: valid_pool_def)
  from Cons.IH [OF this] Cons.prems(2) obtain vs' where
    "generate seed (vs @ [c]) is = Some ((vs @ [c]) @ vs')" "length vs' = length is"
    "valid_pool ((vs @ [c]) @ vs')" by auto
  with c show ?case by (intro exI [of _ "c # vs'"]) simp
qed simp

lemma generate_append:
  "generate seed vs (is @ js) = Option.bind (generate seed vs is) (\<lambda>vs'. generate seed vs' js)"
  by (induction seed vs "is" rule: generate.induct) (auto simp: Option.bind_assoc intro: bind_option_cong)

text \<open>
  A generated seed pool of admissible size always exists: it has the announced number of
  pairwise distinct unsigned 64-bit seeds, whatever collisions the truncated digests have, and
  a smaller pool from the same seed is a prefix of it.
\<close>

theorem generated_pool:
  assumes "m \<le> n" and "n \<le> 10000"
  shows "\<exists>vs. generated_values seed n = Some vs \<and> length vs = n \<and> valid_pool vs \<and>
    generated_values seed m = Some (take m vs)"
proof -
  have "m < 2 ^ 64" "n < 2 ^ 64" using assms by simp_all
  then obtain us where us: "generated_values seed m = Some us" "length us = m" "valid_pool us"
    using generate_valid [of "[]" "[0 ..< m]" seed] by (auto simp: generated_values_def valid_pool_def)
  have "[0 ..< n] = [0 ..< m] @ [m ..< n]" using assms(1) upt_add_eq_append [of 0 m "n - m"] by simp
  then have "generated_values seed n = generate seed us [m ..< n]"
    using us(1) by (simp add: generated_values_def generate_append)
  moreover obtain vs where "generate seed us [m ..< n] = Some (us @ vs)" "length vs = n - m" "valid_pool (us @ vs)"
    using generate_valid [OF us(3), of "[m ..< n]" seed] us(2) assms by auto
  ultimately show ?thesis using us assms by auto
qed

theorem generated_pool_witness:
  "\<exists>vs. generated_values 7 3 = Some vs \<and> length vs = 3 \<and> distinct vs \<and> generated_values 7 2 = Some (take 2 vs)"
  using generated_pool [of 2 3 7] by (auto simp: valid_pool_def)

section \<open>The node tree\<close>

datatype prefix_seed = SeedLiteral int | SeedDimension string | SeedPick seed_pool

text \<open>
  \<open>ParallelConfig\<close> validates that it has branches or both count and node, so it is two
  constructors here.
\<close>

datatype task_node =
    Invoke string string "string option" task_duration "request_dependency list"
  | Run string "string option" task_duration "request_dependency list" "prefix_seed option"
  | Repeat string task_value task_duration task_node
  | Parallel string task_duration "task_node list"
  | ParallelCount string task_duration task_value task_node
  | Sequence string task_duration "task_node list"
  | ForEach string string seed_pool nat task_duration task_node

record payload_spec =
  payload_seed_name :: string
  payload_text :: "string option"

datatype prefix_scope = TrialScope | FamilyScope

record task_instances =
  ti_matrix :: "(string \<times> int list) list"
  ti_trials :: nat
  ti_seed :: int
  ti_scope :: prefix_scope

record task_recipe =
  rc_name :: string
  rc_instances :: task_instances
  rc_payloads :: "(string \<times> payload_spec) list"
  rc_workflow :: "task_node list"

text \<open>\<open>TaskInstancesConfig.count\<close>.\<close>

definition instance_count :: "task_instances \<Rightarrow> nat" where
  "instance_count ti = fold (\<lambda>(_, vs) acc. acc * length vs) (ti_matrix ti) 1 * ti_trials ti"

text \<open>
  The nesting height that the recursions on the tree descend along.  A \<open>for_each\<close> member sits
  under two more sequences once its lanes are built.
\<close>

fun height :: "task_node \<Rightarrow> nat" where
  "height (Invoke _ _ _ _ _) = 1"
| "height (Run _ _ _ _ _) = 1"
| "height (Repeat _ _ _ n) = Suc (height n)"
| "height (Parallel _ _ ns) = Suc (foldr max (map height ns) 0)"
| "height (ParallelCount _ _ _ n) = Suc (height n)"
| "height (Sequence _ _ ns) = Suc (foldr max (map height ns) 0)"
| "height (ForEach _ _ _ _ _ n) = height n + 3"

lemma foldr_max_ge: "x \<in> set xs \<Longrightarrow> f x \<le> foldr max (map f xs) (b::nat)"
  by (induction xs) (auto simp: le_max_iff_disj)

lemma foldr_max_less: "(\<And>x. x \<in> set xs \<Longrightarrow> f x < k) \<Longrightarrow> b < k \<Longrightarrow> foldr max (map f xs) (b::nat) < k"
  by (induction xs) auto

lemma height_child [simp]:
  "n \<in> set ns \<Longrightarrow> height n < height (Sequence x d ns)"
  "n \<in> set ns \<Longrightarrow> height n < height (Parallel x d ns)"
  using foldr_max_ge [of n ns height 0] by simp_all

section \<open>Validation of names and depth\<close>

text \<open>\<open>from_config\<close> of every class: \<open>_validate_depth\<close>, then the nested nodes one level deeper.\<close>

fun check_depth :: "nat \<Rightarrow> task_node \<Rightarrow> unit res" where
  "check_depth depth (Repeat _ _ _ n) =
     rbind (raise_if (MAX_GRAPH_DEPTH < depth) (ValueError ''task graph cannot exceed 20 levels''))
       (\<lambda>_. check_depth (Suc depth) n)"
| "check_depth depth (Parallel _ _ ns) =
     rbind (raise_if (MAX_GRAPH_DEPTH < depth) (ValueError ''task graph cannot exceed 20 levels''))
       (\<lambda>_. rbind (mapR (check_depth (Suc depth)) ns) (\<lambda>_. Inr ()))"
| "check_depth depth (ParallelCount _ _ _ n) =
     rbind (raise_if (MAX_GRAPH_DEPTH < depth) (ValueError ''task graph cannot exceed 20 levels''))
       (\<lambda>_. check_depth (Suc depth) n)"
| "check_depth depth (Sequence _ _ ns) =
     rbind (raise_if (MAX_GRAPH_DEPTH < depth) (ValueError ''task graph cannot exceed 20 levels''))
       (\<lambda>_. rbind (mapR (check_depth (Suc depth)) ns) (\<lambda>_. Inr ()))"
| "check_depth depth (ForEach _ _ _ _ _ n) =
     rbind (raise_if (MAX_GRAPH_DEPTH < depth) (ValueError ''task graph cannot exceed 20 levels''))
       (\<lambda>_. check_depth (Suc depth) n)"
| "check_depth depth _ =
     raise_if (MAX_GRAPH_DEPTH < depth) (ValueError ''task graph cannot exceed 20 levels'')"

text \<open>\<open>_validate_loop_names\<close>: no loop variable is a matrix dimension.\<close>

fun check_loop_names :: "string list \<Rightarrow> task_node \<Rightarrow> unit res" where
  "check_loop_names dims (ForEach _ v _ _ _ n) =
     rbind (raise_if (v \<in> set dims) (ValueError ''for_each variable must not shadow a matrix dimension''))
       (\<lambda>_. check_loop_names dims n)"
| "check_loop_names dims (Repeat _ _ _ n) = check_loop_names dims n"
| "check_loop_names dims (ParallelCount _ _ _ n) = check_loop_names dims n"
| "check_loop_names dims (Parallel _ _ ns) = rbind (mapR (check_loop_names dims) ns) (\<lambda>_. Inr ())"
| "check_loop_names dims (Sequence _ _ ns) = rbind (mapR (check_loop_names dims) ns) (\<lambda>_. Inr ())"
| "check_loop_names dims _ = Inr ()"

section \<open>Binding a loop variable\<close>

text \<open>
  \<open>_bind_loop_value\<close>: a reference to the variable becomes the value wherever a typed scalar
  stands; a nested loop over the same variable is an error.  Names and texts stay.
\<close>

definition bind_value :: "string \<Rightarrow> int \<Rightarrow> task_value \<Rightarrow> task_value" where
  "bind_value var x v = (case v of Dimension d \<Rightarrow> if d = var then Literal x else v | _ \<Rightarrow> v)"

definition bind_duration :: "string \<Rightarrow> int \<Rightarrow> task_duration \<Rightarrow> task_duration" where
  "bind_duration var x d = (case td_value d of
     DurDimension n \<Rightarrow> if n = var then d\<lparr>td_value := DurLiteral (Fin (of_int x))\<rparr> else d
   | _ \<Rightarrow> d)"

definition bind_seed :: "string \<Rightarrow> int \<Rightarrow> prefix_seed \<Rightarrow> prefix_seed" where
  "bind_seed var x s = (case s of SeedDimension d \<Rightarrow> if d = var then SeedLiteral x else s | _ \<Rightarrow> s)"

fun bind_node :: "string \<Rightarrow> int \<Rightarrow> task_node \<Rightarrow> task_node res" where
  "bind_node var x (Invoke n p r a ds) = Inr (Invoke n p r (bind_duration var x a) ds)"
| "bind_node var x (Run n r a ds ps) =
     Inr (Run n r (bind_duration var x a) ds (map_option (bind_seed var x) ps))"
| "bind_node var x (Repeat n c e k) =
     rbind (bind_node var x k) (\<lambda>k'. Inr (Repeat n (bind_value var x c) (bind_duration var x e) k'))"
| "bind_node var x (Parallel n a ks) =
     rbind (mapR (bind_node var x) ks) (\<lambda>ks'. Inr (Parallel n (bind_duration var x a) ks'))"
| "bind_node var x (ParallelCount n a c k) =
     rbind (bind_node var x k) (\<lambda>k'. Inr (ParallelCount n (bind_duration var x a) (bind_value var x c) k'))"
| "bind_node var x (Sequence n a ks) =
     rbind (mapR (bind_node var x) ks) (\<lambda>ks'. Inr (Sequence n (bind_duration var x a) ks'))"
| "bind_node var x (ForEach n v vs par a k) =
     (if v = var
      then Inl (ValueError (''for_each variable shadows an enclosing variable: '' @ var))
      else rbind (bind_node var x k) (\<lambda>k'. Inr (ForEach n v vs par (bind_duration var x a) k')))"

lemma foldr_max_list_all2:
  "list_all2 (\<lambda>x y. f x = (f y :: nat)) xs ys \<Longrightarrow> foldr max (map f xs) b = foldr max (map f ys) b"
  by (induction xs ys rule: list_all2_induct) simp_all

lemma bind_node_height: "bind_node var x k = Inr k' \<Longrightarrow> height k' = height k"
proof (induction var x k arbitrary: k' rule: bind_node.induct)
  case (4 var x n a ks)
  then obtain ks' where ks': "mapR (bind_node var x) ks = Inr ks'" "k' = Parallel n (bind_duration var x a) ks'"
    by auto
  then have "list_all2 (\<lambda>x y. height x = height y) ks ks'"
    using 4 by (intro mapR_list_all2 [OF ks'(1)]) simp
  from foldr_max_list_all2 [OF this, of 0] ks' show ?case by simp
next
  case (6 var x n a ks)
  then obtain ks' where ks': "mapR (bind_node var x) ks = Inr ks'" "k' = Sequence n (bind_duration var x a) ks'"
    by auto
  then have "list_all2 (\<lambda>x y. height x = height y) ks ks'"
    using 6 by (intro mapR_list_all2 [OF ks'(1)]) simp
  from foldr_max_list_all2 [OF this, of 0] ks' show ?case by simp
qed (auto split: if_splits)

text \<open>
  \<open>ForEachNode.expanded_lanes\<close>: the values are cut into contiguous lanes, the first lanes
  taking one value more when the division leaves a rest.
\<close>

fun cut_lanes :: "nat \<Rightarrow> nat \<Rightarrow> nat \<Rightarrow> nat \<Rightarrow> 'a list \<Rightarrow> 'a list list" where
  "cut_lanes 0 index lane_size extra vs = []"
| "cut_lanes (Suc k) index lane_size extra vs =
     (let member_count = lane_size + (if index < extra then 1 else 0)
      in take member_count vs # cut_lanes k (Suc index) lane_size extra (drop member_count vs))"

definition lanes :: "nat \<Rightarrow> 'a list \<Rightarrow> 'a list list" where
  "lanes parallelism vs =
     (let lane_count = min parallelism (length vs)
      in cut_lanes lane_count 0 (length vs div lane_count) (length vs mod lane_count) vs)"

definition lane_member :: "string \<Rightarrow> task_node \<Rightarrow> nat \<times> int \<Rightarrow> task_node res" where
  "lane_member var template = (\<lambda>(member_index, x).
     rbind (bind_node var x template) (\<lambda>bound.
       Inr (Sequence (''member_'' @ str_pad 2 (Suc member_index)) no_delay [bound])))"

definition expanded_lanes :: "string \<Rightarrow> seed_pool \<Rightarrow> nat \<Rightarrow> task_node \<Rightarrow> task_node list res" where
  "expanded_lanes var values parallelism template =
     mapR (\<lambda>(lane_index, vs).
         rbind (mapR (lane_member var template) (enumerate 0 vs)) (\<lambda>members.
           Inr (Sequence (''lane_'' @ str_pad 2 (Suc lane_index)) no_delay members)))
       (enumerate 0 (lanes parallelism (pool_values values)))"

lemma lane_member_height: "lane_member var k iv = Inr m \<Longrightarrow> height m = Suc (height k)"
  by (cases iv) (auto simp: lane_member_def dest: bind_node_height)

lemma expanded_lanes_height:
  assumes "expanded_lanes var vs par k = Inr ls" and "l \<in> set ls"
  shows "height l < height k + 3"
proof -
  from assms(1) have "mapR (\<lambda>(lane_index, vs).
       rbind (mapR (lane_member var k) (enumerate 0 vs)) (\<lambda>members.
         Inr (Sequence (''lane_'' @ str_pad 2 (Suc lane_index)) no_delay members)))
     (enumerate 0 (lanes par (pool_values vs))) = Inr ls"
    by (simp add: expanded_lanes_def)
  from this assms(2) obtain iv where "(case iv of (lane_index, vs) \<Rightarrow>
       rbind (mapR (lane_member var k) (enumerate 0 vs)) (\<lambda>members.
         Inr (Sequence (''lane_'' @ str_pad 2 (Suc lane_index)) no_delay members))) = Inr l"
    by (rule mapR_memberE)
  then obtain ivs members idx where ms: "mapR (lane_member var k) ivs = Inr members"
    and l: "l = Sequence (''lane_'' @ str_pad 2 (Suc idx)) no_delay members"
    by (cases iv) auto
  have "m \<in> set members \<Longrightarrow> height m < Suc (Suc (height k))" for m
    using ms by (auto elim!: mapR_memberE dest!: lane_member_height)
  then have "foldr max (map height members) 0 < Suc (Suc (height k))" by (intro foldr_max_less) auto
  with l show ?thesis by simp
qed

lemma concat_cut_lanes:
  "index + k = n \<Longrightarrow> length vs = k * q + (if index < e then e - index else 0) \<Longrightarrow> e \<le> n \<Longrightarrow>
   concat (cut_lanes k index q e vs) = vs"
proof (induction k index q e vs rule: cut_lanes.induct)
  case (2 k index q e vs)
  let ?m = "q + (if index < e then 1 else 0)"
  have "length (drop ?m vs) = k * q + (if Suc index < e then e - Suc index else 0)"
    using 2(3) by auto
  with 2 have "concat (cut_lanes k (Suc index) q e (drop ?m vs)) = drop ?m vs" by simp
  then show ?case by (simp add: Let_def)
qed auto

lemma length_cut_lanes: "length (cut_lanes k i q e vs) = k"
  by (induction k i q e vs rule: cut_lanes.induct) (simp_all add: Let_def)

lemma cut_lanes_sizes:
  "index + k = n \<Longrightarrow> length vs = k * q + (if index < e then e - index else 0) \<Longrightarrow> e \<le> n \<Longrightarrow>
   \<forall>l \<in> set (cut_lanes k index q e vs). length l = q \<or> length l = Suc q"
proof (induction k index q e vs rule: cut_lanes.induct)
  case (2 k index q e vs)
  let ?m = "q + (if index < e then 1 else 0)"
  have "length (drop ?m vs) = k * q + (if Suc index < e then e - Suc index else 0)"
    using 2(3) by auto
  with 2 have "\<forall>l \<in> set (cut_lanes k (Suc index) q e (drop ?m vs)). length l = q \<or> length l = Suc q"
    by simp
  moreover have "?m \<le> length vs" using 2(3) by auto
  ultimately show ?case by (auto simp: Let_def)
qed auto

text \<open>
  The lanes of a \<open>for_each\<close> cut its values without loss, duplication or reordering, there
  are as many as the parallelism and the number of values allow, and their sizes differ by at
  most one.
\<close>

theorem lanes_partition:
  assumes "1 \<le> parallelism" and "vs \<noteq> []"
  shows "concat (lanes parallelism vs) = vs \<and>
    length (lanes parallelism vs) = min parallelism (length vs) \<and>
    (\<forall>l \<in> set (lanes parallelism vs). l \<noteq> [] \<and>
       (length l = length vs div min parallelism (length vs) \<or>
        length l = Suc (length vs div min parallelism (length vs))))"
proof -
  define k where "k = min parallelism (length vs)"
  have k: "0 < k" "k \<le> length vs" using assms by (auto simp: k_def)
  have eq: "lanes parallelism vs = cut_lanes k 0 (length vs div k) (length vs mod k) vs"
    by (simp add: lanes_def k_def Let_def)
  have len: "length vs = k * (length vs div k) +
      (if 0 < length vs mod k then length vs mod k - 0 else 0)"
    using mult_div_mod_eq [of k "length vs"] by (cases "length vs mod k") simp_all
  have le: "length vs mod k \<le> k" using k by (simp add: less_imp_le)
  have pos: "0 < length vs div k" using k by (simp add: div_greater_zero_iff)
  from concat_cut_lanes [OF _ len le] cut_lanes_sizes [OF _ len le] pos show ?thesis
    unfolding eq k_def [symmetric] by (auto simp: length_cut_lanes)
qed

theorem lanes_partition_witness:
  "lanes 2 [10, 20, 30 :: int] = [[10, 20], [30]] \<and> concat (lanes 2 [10, 20, 30 :: int]) = [10, 20, 30]"
proof -
  have "lanes 2 [10, 20, 30 :: int] = [[10, 20], [30]]"
    by code_simp
  with lanes_partition [of 2 "[10, 20, 30 :: int]"] show ?thesis by simp
qed

end
