(* ===== verification/Task_Expand.thy ===== *)
theory Task_Expand
  imports Task_Syntax
begin

text \<open>
  The expansion of the task tree into logical node rows (\<open>compiler/tasks.py\<close>): the instance
  context with its seed derivations, the graph builder with the guards of \<open>emit\<close>, and
  \<open>expand\<close> of the six primitives.  \<open>expand_node\<close> is one function over the datatype; each
  equation is the \<open>expand\<close> method of one class.
\<close>

section \<open>Instance contexts\<close>

record instance_context =
  ic_seed :: int
  ic_dimensions :: dimensions
  ic_trial_index :: nat
  ic_payloads :: "(string \<times> payload_spec) list"
  ic_scope :: prefix_scope

definition NUL :: string where "NUL = [CHR 0x00]"

text \<open>\<open>";".join(f"{key}={value}" for key, value in sorted(dimensions.items()))\<close>.\<close>

definition coordinates :: "dimensions \<Rightarrow> string" where
  "coordinates dims = join '';'' (map (\<lambda>(k, v). k @ ''='' @ str_int v) (sort_key fst dims))"

text \<open>\<open>resolve_prefix_seed\<close>: an empty pool, excluded by validation, would divide by zero.\<close>

definition resolve_prefix_seed :: "instance_context \<Rightarrow> prefix_seed \<Rightarrow> string \<Rightarrow> int res" where
  "resolve_prefix_seed ic value node_id =
     (case value of
        SeedPick pool \<Rightarrow>
          (let material = ''prefix-pick-v1'' @ NUL @ str_int (ic_seed ic) @ NUL @
                 coordinates (ic_dimensions ic) @ NUL @ str_nat (ic_trial_index ic) @ NUL @ node_id;
               vs = pool_values pool
           in if vs = [] then Inl (IndexError ''empty seed pool'')
              else Inr (vs ! nat (seed256 material mod int (length vs))))
      | _ \<Rightarrow>
          rbind (resolve_value (ic_dimensions ic)
                  (case value of SeedDimension d \<Rightarrow> Dimension d | SeedLiteral i \<Rightarrow> Literal i))
            (\<lambda>s. if 0 \<le> s \<and> s \<le> 2 ^ 64 - 1 then Inr s
                 else Inl (ValueError ''prefix_seed must be an unsigned 64-bit integer'')))"

definition family_prefix_seed :: "instance_context \<Rightarrow> int" where
  "family_prefix_seed ic =
     seed64 (''family-prefix-v1'' @ NUL @ str_int (ic_seed ic) @ NUL @ coordinates (ic_dimensions ic))"

definition batch_seed :: "instance_context \<Rightarrow> string \<Rightarrow> int" where
  "batch_seed ic node_id =
     (if ic_scope ic = FamilyScope
      then seed64 (''family-suffix-v1'' @ NUL @ str_int (family_prefix_seed ic) @ NUL @
             str_nat (ic_trial_index ic) @ NUL @ node_id)
      else seed64 (''batch-v1'' @ NUL @ str_int (ic_seed ic) @ NUL @ coordinates (ic_dimensions ic) @
             NUL @ str_nat (ic_trial_index ic) @ NUL @ node_id))"

definition payload_seed :: "instance_context \<Rightarrow> string \<Rightarrow> int res" where
  "payload_seed ic payload_id =
     (case map_of (ic_payloads ic) payload_id of
        None \<Rightarrow> Inl (ValueError (''task invoke references unknown payload '' @ payload_id))
      | Some spec \<Rightarrow> Inr (seed31 (str_int (ic_seed ic) @ NUL @ coordinates (ic_dimensions ic) @ NUL @
          str_nat (ic_trial_index ic) @ NUL @ payload_seed_name spec)))"

section \<open>The graph builder\<close>

datatype execution_kind = Atomic | Batch

record compiled_node =
  cn_instance_key :: string
  cn_node_id :: string
  cn_dependencies :: "string list"
  cn_after_seconds :: rat
  cn_role :: string
  cn_payload_id :: "string option"
  cn_payload_seed :: int
  cn_prompt_text :: "string option"
  cn_kind :: execution_kind
  cn_message_sources :: "string list"
  cn_prefix_seed :: "int option"

text \<open>The keyword arguments of \<open>emit\<close>.\<close>

record emission =
  em_node_id :: string
  em_dependencies :: "string list"
  em_after_seconds :: rat
  em_role :: string
  em_payload_id :: "string option"
  em_message_sources :: "string list"
  em_kind :: execution_kind
  em_prefix_seed :: "int option"

text \<open>
  The builder's state is the list of rows; its set of identifiers is the identifiers of the
  rows.  The guards come in the order of the code.
\<close>

definition emit :: "instance_context \<Rightarrow> string \<Rightarrow> compiled_node list \<Rightarrow> emission \<Rightarrow> compiled_node list res" where
  "emit ic key rows e =
     (if em_node_id e = [] \<or> 120 < length (em_node_id e)
      then Inl (ValueError ''expanded task node IDs must contain 1-120 chars'')
      else if em_node_id e \<in> set (map cn_node_id rows)
      then Inl (ValueError (''expanded task node ID is not unique: '' @ em_node_id e))
      else if em_after_seconds e < 0 then Inl (ValueError ''task delays cannot be negative'')
      else if MAX_NODES_PER_INSTANCE \<le> length rows
      then Inl (ValueError ''task instance cannot exceed 10000 nodes'')
      else if em_kind e = Atomic \<and> em_payload_id e = None
      then Inl (ValueError ''atomic invocation requires a payload'')
      else rbind (case em_payload_id e of
                    Some p \<Rightarrow> payload_seed ic p
                  | None \<Rightarrow> Inr (batch_seed ic (em_node_id e)))
        (\<lambda>seed. Inr (rows @ [
          \<lparr>cn_instance_key = key, cn_node_id = em_node_id e, cn_dependencies = em_dependencies e,
           cn_after_seconds = em_after_seconds e, cn_role = em_role e,
           cn_payload_id = em_payload_id e, cn_payload_seed = seed,
           cn_prompt_text = Option.bind (em_payload_id e)
             (\<lambda>p. Option.bind (map_of (ic_payloads ic) p) payload_text),
           cn_kind = em_kind e, cn_message_sources = em_message_sources e,
           cn_prefix_seed = em_prefix_seed e\<rparr>])))"

definition qualified_name :: "string list \<Rightarrow> string \<Rightarrow> string" where
  "qualified_name path name = join ''.'' (path @ [name])"

definition qualified_reference :: "string list \<Rightarrow> string \<Rightarrow> string" where
  "qualified_reference path name =
     (if CHR ''.'' \<notin> set name then qualified_name path name else name)"

text \<open>What \<open>InvokeNode.expand\<close> and \<open>RunNode.expand\<close> hand to \<open>emit\<close>, the frontier aside.\<close>

definition node_references :: "string list \<Rightarrow> request_dependency list \<Rightarrow> string list" where
  "node_references path ds = map (\<lambda>d. qualified_reference path (dep_step d)) ds"

definition invoke_emission ::
    "instance_context \<Rightarrow> string list \<Rightarrow> rat \<Rightarrow> string \<Rightarrow> string \<Rightarrow> string option \<Rightarrow> task_duration \<Rightarrow>
     request_dependency list \<Rightarrow> emission res" where
  "invoke_emission ic path inherited name payload r after ds =
     rbind (resolve_duration (ic_dimensions ic) after) (\<lambda>own.
       Inr \<lparr>em_node_id = qualified_name path name, em_dependencies = node_references path ds,
            em_after_seconds = inherited + own, em_role = or_else r name,
            em_payload_id = Some payload,
            em_message_sources = node_references path (filter reuse_messages ds),
            em_kind = Atomic, em_prefix_seed = None\<rparr>)"

definition run_emission ::
    "instance_context \<Rightarrow> string list \<Rightarrow> rat \<Rightarrow> string \<Rightarrow> string option \<Rightarrow> task_duration \<Rightarrow>
     request_dependency list \<Rightarrow> prefix_seed option \<Rightarrow> emission res" where
  "run_emission ic path inherited name r after ds ps =
     rbind (resolve_duration (ic_dimensions ic) after) (\<lambda>own.
     rbind (case ps of None \<Rightarrow> Inr None
            | Some s \<Rightarrow> rbind (resolve_prefix_seed ic s (qualified_name path name)) (\<lambda>v. Inr (Some v)))
       (\<lambda>prefix. Inr \<lparr>em_node_id = qualified_name path name, em_dependencies = node_references path ds,
            em_after_seconds = inherited + own, em_role = or_else r name,
            em_payload_id = None, em_message_sources = [],
            em_kind = Batch, em_prefix_seed = prefix\<rparr>))"

text \<open>\<open>tuple(dict.fromkeys((*incoming_frontier, *dependencies)))\<close>, then \<open>emit\<close>.\<close>

definition emit_after ::
    "instance_context \<Rightarrow> string \<Rightarrow> compiled_node list \<Rightarrow> string list \<Rightarrow> emission \<Rightarrow>
     (compiled_node list \<times> string list) res" where
  "emit_after ic key rows incoming e =
     rbind (emit ic key rows (e\<lparr>em_dependencies := dedup (incoming @ em_dependencies e)\<rparr>))
       (\<lambda>rows'. Inr (rows', [em_node_id e]))"

section \<open>Expansion of the primitives\<close>

text \<open>The iterations of a repeat, the steps of a sequence and the branches of a parallel node.\<close>

definition repeat_items :: "string list \<Rightarrow> task_node \<Rightarrow> int \<Rightarrow> rat \<Rightarrow> rat \<Rightarrow> (task_node \<times> string list \<times> rat) list" where
  "repeat_items path child count interval inherited =
     map (\<lambda>i. (child, path @ [str_nat i], if i = 1 then interval + inherited else interval))
       [1 ..< Suc (nat count)]"

definition sequence_items :: "string list \<Rightarrow> task_node list \<Rightarrow> rat \<Rightarrow> (task_node \<times> string list \<times> rat) list" where
  "sequence_items path steps delay =
     map (\<lambda>(i, s). (s, path, if i = 0 then delay else 0)) (enumerate 0 steps)"

definition counted_branches :: "string list \<Rightarrow> task_node \<Rightarrow> int \<Rightarrow> (task_node \<times> string list) list res" where
  "counted_branches path child count =
     (if \<not> (1 \<le> count \<and> count \<le> int MAX_NODES_PER_INSTANCE)
      then Inl (ValueError ''expanded parallel count must be between 1 and 10000'')
      else Inr (map (\<lambda>i. (child, path @ [str_nat i])) [1 ..< Suc (nat count)]))"

text \<open>
  Serial composition threads the frontier; parallel composition gives every branch the incoming
  frontier and joins the outgoing ones.
\<close>

definition serially ::
    "(task_node \<Rightarrow> 'b \<Rightarrow> string list \<Rightarrow> string list \<Rightarrow> rat \<Rightarrow> ('b \<times> string list) res) \<Rightarrow>
     'b \<Rightarrow> string list \<Rightarrow> (task_node \<times> string list \<times> rat) list \<Rightarrow> ('b \<times> string list) res" where
  "serially ex rows incoming items =
     foldR (\<lambda>(rows, frontier) (child, path, delay). ex child rows frontier path delay) (rows, incoming) items"

definition in_parallel ::
    "(task_node \<Rightarrow> 'b \<Rightarrow> string list \<Rightarrow> string list \<Rightarrow> rat \<Rightarrow> ('b \<times> string list) res) \<Rightarrow>
     'b \<Rightarrow> string list \<Rightarrow> rat \<Rightarrow> (task_node \<times> string list) list \<Rightarrow> ('b \<times> string list) res" where
  "in_parallel ex rows incoming delay branches =
     foldR (\<lambda>(rows, out) (child, path).
         rbind (ex child rows incoming path delay) (\<lambda>(rows', frontier). Inr (rows', out @ frontier)))
       (rows, []) branches"

lemma foldR_cong':
  "s = t \<Longrightarrow> xs = ys \<Longrightarrow> (\<And>s x. x \<in> set ys \<Longrightarrow> f s x = g s x) \<Longrightarrow> foldR f s xs = foldR g t ys"
  by (induction ys arbitrary: s t xs) (auto intro: rbind_cong)

lemma serially_cong [fundef_cong]:
  "rows = rows' \<Longrightarrow> inc = inc' \<Longrightarrow> items = items' \<Longrightarrow>
   (\<And>c p d r f. (c, p, d) \<in> set items' \<Longrightarrow> ex c r f p d = ex' c r f p d) \<Longrightarrow>
   serially ex rows inc items = serially ex' rows' inc' items'"
  unfolding serially_def by (rule foldR_cong') auto

lemma in_parallel_cong [fundef_cong]:
  "rows = rows' \<Longrightarrow> inc = inc' \<Longrightarrow> d = d' \<Longrightarrow> bs = bs' \<Longrightarrow>
   (\<And>c p r. (c, p) \<in> set bs' \<Longrightarrow> ex c r inc' p d' = ex' c r inc' p d') \<Longrightarrow>
   in_parallel ex rows inc d bs = in_parallel ex' rows' inc' d' bs'"
  unfolding in_parallel_def by (rule foldR_cong') auto

function (sequential) expand_node ::
    "instance_context \<Rightarrow> string \<Rightarrow> task_node \<Rightarrow> compiled_node list \<Rightarrow> string list \<Rightarrow> string list \<Rightarrow> rat \<Rightarrow>
     (compiled_node list \<times> string list) res" where
  "expand_node ic key (Invoke name payload r after ds) rows incoming path inherited =
     rbind (invoke_emission ic path inherited name payload r after ds) (emit_after ic key rows incoming)"
| "expand_node ic key (Run name r after ds ps) rows incoming path inherited =
     rbind (run_emission ic path inherited name r after ds ps) (emit_after ic key rows incoming)"
| "expand_node ic key (Repeat name count every child) rows incoming path inherited =
     rbind (resolve_value (ic_dimensions ic) count) (\<lambda>n.
     rbind (raise_if (\<not> (0 \<le> n \<and> n \<le> MAX_REPEAT_COUNT))
              (ValueError ''expanded repeat count must be between 0 and 100'')) (\<lambda>_.
     rbind (resolve_duration (ic_dimensions ic) every) (\<lambda>interval.
     rbind (raise_if (interval < 0) (ValueError ''task delays cannot be negative'')) (\<lambda>_.
       serially (\<lambda>c r f p d. expand_node ic key c r f p d) rows incoming
         (repeat_items (path @ [name]) child n interval inherited)))))"
| "expand_node ic key (Parallel name after branches) rows incoming path inherited =
     rbind (resolve_duration (ic_dimensions ic) after) (\<lambda>own.
       in_parallel (\<lambda>c r f p d. expand_node ic key c r f p d) rows incoming (inherited + own)
         (map (\<lambda>b. (b, path @ [name])) branches))"
| "expand_node ic key (ParallelCount name after count child) rows incoming path inherited =
     rbind (resolve_duration (ic_dimensions ic) after) (\<lambda>own.
     rbind (resolve_value (ic_dimensions ic) count) (\<lambda>n.
     rbind (counted_branches (path @ [name]) child n) (\<lambda>branches.
       in_parallel (\<lambda>c r f p d. expand_node ic key c r f p d) rows incoming (inherited + own) branches)))"
| "expand_node ic key (Sequence name after steps) rows incoming path inherited =
     rbind (resolve_duration (ic_dimensions ic) after) (\<lambda>own.
       serially (\<lambda>c r f p d. expand_node ic key c r f p d) rows incoming
         (sequence_items (path @ [name]) steps (inherited + own)))"
| "expand_node ic key (ForEach name var values parallelism after template) rows incoming path inherited =
     rbind (resolve_duration (ic_dimensions ic) after) (\<lambda>own.
     rbind (expanded_lanes var values parallelism template) (\<lambda>ls.
       in_parallel (\<lambda>c r f p d. expand_node ic key c r f p d) rows incoming (inherited + own)
         (map (\<lambda>l. (l, path @ [name])) ls)))"
  by pat_completeness auto

lemma repeat_items_child: "(c, p, d) \<in> set (repeat_items path child n i inh) \<Longrightarrow> c = child"
  by (auto simp: repeat_items_def)

lemma sequence_items_child: "(c, p, d) \<in> set (sequence_items path steps delay) \<Longrightarrow> c \<in> set steps"
  by (auto simp: sequence_items_def in_set_enumerate_eq)

lemma counted_branches_child:
  "counted_branches path child n = Inr bs \<Longrightarrow> (c, p) \<in> set bs \<Longrightarrow> c = child"
  by (auto simp: counted_branches_def split: if_splits)

termination expand_node
  by (relation "measure (\<lambda>(ic, key, node, rest). height node)")
     (auto dest: repeat_items_child sequence_items_child counted_branches_child expanded_lanes_height
       simp: less_Suc_eq_le intro: foldr_max_ge)

section \<open>The graph of a recipe\<close>

text \<open>\<open>TaskGraph.from_recipe\<close>.\<close>

definition graph_from_recipe :: "task_recipe \<Rightarrow> task_node list res" where
  "graph_from_recipe rc =
     rbind (mapR (check_loop_names (map fst (ti_matrix (rc_instances rc)))) (rc_workflow rc)) (\<lambda>_.
     rbind (mapR (check_depth 1) (rc_workflow rc)) (\<lambda>_. Inr (rc_workflow rc)))"

text \<open>
  The checks after expansion: dependencies name earlier rows, and every message source is an
  atomic strict ancestor.  Ancestors are only collected when some row reuses messages.
\<close>

definition check_row ::
    "bool \<Rightarrow> (string \<rightharpoonup> string set) \<Rightarrow> (string \<rightharpoonup> compiled_node) \<Rightarrow> compiled_node \<Rightarrow> string set res" where
  "check_row requires_history ancestors prior row =
     rbind (raise_if (\<not> list_all (\<lambda>d. prior d \<noteq> None) (cn_dependencies row))
              (ValueError ''depends_on must reference an earlier node'')) (\<lambda>_.
       let predecessors = (if requires_history
             then set (cn_dependencies row) \<union>
                  \<Union> ((\<lambda>d. case ancestors d of Some s \<Rightarrow> s | None \<Rightarrow> {}) ` set (cn_dependencies row))
             else {})
       in rbind (mapR (\<lambda>src.
              if src \<notin> predecessors
              then Inl (ValueError ''message sources must reference an earlier dependency node'')
              else case prior src of
                None \<Rightarrow> Inl (KeyError src)
              | Some source \<Rightarrow> raise_if (cn_kind source \<noteq> Atomic)
                  (ValueError ''message sources must reference one atomic request; use request.steps for history within run''))
              (cn_message_sources row))
            (\<lambda>_. Inr predecessors))"

fun check_rows ::
    "bool \<Rightarrow> (string \<rightharpoonup> string set) \<Rightarrow> (string \<rightharpoonup> compiled_node) \<Rightarrow> compiled_node list \<Rightarrow> unit res" where
  "check_rows h ancestors prior [] = Inr ()"
| "check_rows h ancestors prior (row # rows) =
     rbind (check_row h ancestors prior row) (\<lambda>predecessors.
       check_rows h (if h then ancestors(cn_node_id row \<mapsto> predecessors) else ancestors)
         (prior(cn_node_id row \<mapsto> row)) rows)"

text \<open>\<open>TaskGraph.expand\<close>: the roots in series, starting from the empty frontier.\<close>

definition expand_roots ::
    "instance_context \<Rightarrow> string \<Rightarrow> task_node list \<Rightarrow> (compiled_node list \<times> string list) res" where
  "expand_roots ic key roots =
     serially (\<lambda>c r f p d. expand_node ic key c r f p d) [] [] (map (\<lambda>n. (n, [], 0)) roots)"

definition graph_expand :: "task_node list \<Rightarrow> instance_context \<Rightarrow> string \<Rightarrow> compiled_node list res" where
  "graph_expand roots ic key =
     rbind (expand_roots ic key roots) (\<lambda>(rows, _).
     rbind (check_rows (list_ex (\<lambda>r. cn_message_sources r \<noteq> []) rows) Map.empty Map.empty rows)
       (\<lambda>_. Inr rows))"

end
