(* ===== verification/Task_Config.thy ===== *)
theory Task_Config
  imports Task_Expand
begin

text \<open>
  The validators of the external syntax of \<open>compiler/tasks.py\<close>: what a \<open>TaskNodeSpec\<close> and the
  instance block must satisfy before the compiler sees them.  The compiler's theorems need three
  of these bounds (a parallel node has branches, a loop has values and lanes, a run never reuses
  messages); they are shown to survive the substitution of loop variables.
\<close>

section \<open>Validators\<close>

text \<open>The bounded name fields, \<open>Field(min_length=1, max_length=64)\<close>.\<close>

definition check_name :: "string \<Rightarrow> unit res" where
  "check_name n = raise_if (n = [] \<or> 64 < length n) (ValueError ''names need 1-64 characters'')"

definition check_role :: "string option \<Rightarrow> unit res" where
  "check_role r = (case r of None \<Rightarrow> Inr () | Some n \<Rightarrow> check_name n)"

definition check_seed_integer :: "int \<Rightarrow> unit res" where
  "check_seed_integer s =
     raise_if (\<not> (0 \<le> s \<and> s \<le> 2 ^ 64 - 1)) (ValueError ''seeds are unsigned 64-bit integers'')"

text \<open>\<open>RandomPick.validate_pool\<close>, \<open>ForEachConfig.validate_values\<close> and \<open>GeneratedSeedPool\<close>.\<close>

definition check_pool :: "seed_pool \<Rightarrow> unit res" where
  "check_pool p = (case p of
     ExplicitPool vs \<Rightarrow>
       rbind (mapR check_seed_integer vs) (\<lambda>_.
       rbind (raise_if (vs = [] \<or> 10000 < length vs) (ValueError ''seed pools need 1-10000 values'')) (\<lambda>_.
       raise_if (length (remdups vs) \<noteq> length vs) (ValueError ''pool values must be unique'')))
   | GeneratedPool seed count \<Rightarrow>
       rbind (check_seed_integer seed) (\<lambda>_.
       raise_if (\<not> (1 \<le> count \<and> count \<le> 10000)) (ValueError ''seed pools need 1-10000 values'')))"

definition check_prefix_seed :: "prefix_seed option \<Rightarrow> unit res" where
  "check_prefix_seed s = (case s of
     None \<Rightarrow> Inr ()
   | Some (SeedLiteral i) \<Rightarrow> check_seed_integer i
   | Some (SeedDimension d) \<Rightarrow> check_name d
   | Some (SeedPick p) \<Rightarrow> check_pool p)"

definition check_children :: "'a list \<Rightarrow> unit res" where
  "check_children ns = raise_if (ns = [] \<or> 100 < length ns) (ValueError ''nodes need 1-100 children'')"

fun validate_node :: "task_node \<Rightarrow> unit res" where
  "validate_node (Invoke name payload r after ds) =
     rbind (check_name name) (\<lambda>_. rbind (check_name payload) (\<lambda>_. rbind (check_role r) (\<lambda>_.
     rbind (validate_task_duration after) (\<lambda>_. validate_dependencies ds))))"
| "validate_node (Run name r after ds ps) =
     rbind (check_name name) (\<lambda>_. rbind (check_role r) (\<lambda>_. rbind (validate_task_duration after) (\<lambda>_.
     rbind (check_prefix_seed ps) (\<lambda>_. rbind (validate_dependencies ds) (\<lambda>_.
     raise_if (list_ex reuse_messages ds)
       (ValueError ''run dependencies only wait; define message reuse in request.steps or invoke''))))))"
| "validate_node (Repeat name count every child) =
     rbind (check_name name) (\<lambda>_. rbind (validate_task_duration every) (\<lambda>_. validate_node child))"
| "validate_node (Parallel name after branches) =
     rbind (check_name name) (\<lambda>_. rbind (validate_task_duration after) (\<lambda>_.
     rbind (check_children branches) (\<lambda>_. rbind (mapR validate_node branches) (\<lambda>_. Inr ()))))"
| "validate_node (ParallelCount name after count child) =
     rbind (check_name name) (\<lambda>_. rbind (validate_task_duration after) (\<lambda>_. validate_node child))"
| "validate_node (Sequence name after steps) =
     rbind (check_name name) (\<lambda>_. rbind (validate_task_duration after) (\<lambda>_.
     rbind (check_children steps) (\<lambda>_. rbind (mapR validate_node steps) (\<lambda>_. Inr ()))))"
| "validate_node (ForEach name var values parallelism after child) =
     rbind (check_name name) (\<lambda>_. rbind (check_name var) (\<lambda>_. rbind (check_pool values) (\<lambda>_.
     rbind (raise_if (\<not> (1 \<le> parallelism \<and> parallelism \<le> 10000)) (ValueError ''parallelism is out of range'')) (\<lambda>_.
     rbind (validate_task_duration after) (\<lambda>_. validate_node child)))))"

text \<open>\<open>TaskInstancesConfig\<close> with \<open>validate_matrix\<close>; the matrix is a dict, so its names differ.\<close>

definition validate_instances :: "task_instances \<Rightarrow> unit res" where
  "validate_instances ti =
     rbind (raise_if (\<not> (1 \<le> ti_trials ti \<and> ti_trials ti \<le> 1000)) (ValueError ''trials are out of range'')) (\<lambda>_.
     rbind (check_seed_integer (ti_seed ti)) (\<lambda>_.
     rbind (mapR (\<lambda>(name, vs).
         rbind (raise_if (name = [] \<or> 64 < length name)
                  (ValueError ''task matrix dimension names must contain 1-64 chars'')) (\<lambda>_.
         rbind (raise_if (vs = [] \<or> 100 < length vs)
                  (ValueError ''task matrix dimensions require 1-100 values'')) (\<lambda>_.
         raise_if (length (remdups vs) \<noteq> length vs)
           (ValueError ''task matrix dimension values must be unique''))))
       (ti_matrix ti)) (\<lambda>_. Inr ())))"

section \<open>What the compiler relies on\<close>

fun wf_node :: "task_node \<Rightarrow> bool" where
  "wf_node (Invoke _ _ _ _ _) \<longleftrightarrow> True"
| "wf_node (Run _ _ _ ds _) \<longleftrightarrow> list_all (\<lambda>d. \<not> reuse_messages d) ds"
| "wf_node (Repeat _ _ _ n) \<longleftrightarrow> wf_node n"
| "wf_node (Parallel _ _ ns) \<longleftrightarrow> ns \<noteq> [] \<and> list_all wf_node ns"
| "wf_node (ParallelCount _ _ _ n) \<longleftrightarrow> wf_node n"
| "wf_node (Sequence _ _ ns) \<longleftrightarrow> list_all wf_node ns"
| "wf_node (ForEach _ _ vs par _ n) \<longleftrightarrow> pool_values vs \<noteq> [] \<and> 1 \<le> par \<and> wf_node n"

lemma check_pool_nonempty: "check_pool p = Inr () \<Longrightarrow> pool_values p \<noteq> []"
proof (cases p)
  case (GeneratedPool seed count)
  assume "check_pool p = Inr ()"
  with GeneratedPool have n: "1 \<le> count" "count \<le> 10000" by (auto simp: check_pool_def)
  then have "length ([] :: int list) + length [0 ..< count] < 2 ^ 64" by simp
  from generate_valid [OF _ this, of seed] n GeneratedPool show ?thesis
    by (auto simp: pool_values_def generated_values_def valid_pool_def)
qed (auto simp: check_pool_def pool_values_def)

lemma validate_node_wf: "validate_node n = Inr () \<Longrightarrow> wf_node n"
proof (induction n rule: validate_node.induct)
  case (4 name after branches)
  then obtain us where us: "mapR validate_node branches = Inr us" and ne: "branches \<noteq> []"
    by (auto simp: check_children_def)
  then have "list_all2 (\<lambda>x y. wf_node x) branches us"
    using 4 by (intro mapR_list_all2 [OF us]) auto
  with ne show ?case by (auto simp: list_all_length list_all2_conv_all_nth)
next
  case (6 name after steps)
  then obtain us where us: "mapR validate_node steps = Inr us" by auto
  then have "list_all2 (\<lambda>x y. wf_node x) steps us"
    using 6 by (intro mapR_list_all2 [OF us]) auto
  then show ?case by (auto simp: list_all_length list_all2_conv_all_nth)
next
  case (7 name var vs par after child)
  then show ?case using check_pool_nonempty by auto
qed (auto simp: list_all_iff list_ex_iff)

lemma bind_node_wf: "bind_node var x n = Inr n' \<Longrightarrow> wf_node n \<Longrightarrow> wf_node n'"
proof (induction var x n arbitrary: n' rule: bind_node.induct)
  case (4 var x name a ks)
  then obtain ks' where ks': "mapR (bind_node var x) ks = Inr ks'"
    and n': "n' = Parallel name (bind_duration var x a) ks'" by auto
  have wf: "list_all wf_node ks" "ks \<noteq> []" using 4(3) by simp_all
  have "list_all2 (\<lambda>k k'. wf_node k') ks ks'"
    using 4(1) wf(1) by (intro mapR_list_all2 [OF ks']) (auto simp: list_all_iff)
  with wf(2) show ?case unfolding n' by (auto simp: list_all_length list_all2_conv_all_nth)
next
  case (6 var x name a ks)
  then obtain ks' where ks': "mapR (bind_node var x) ks = Inr ks'"
    and n': "n' = Sequence name (bind_duration var x a) ks'" by auto
  have wf: "list_all wf_node ks" using 6(3) by simp
  have "list_all2 (\<lambda>k k'. wf_node k') ks ks'"
    using 6(1) wf by (intro mapR_list_all2 [OF ks']) (auto simp: list_all_iff)
  then show ?case unfolding n' by (auto simp: list_all_length list_all2_conv_all_nth)
qed (auto split: if_splits)

lemma lane_member_wf: "lane_member var k iv = Inr m \<Longrightarrow> wf_node k \<Longrightarrow> wf_node m"
  by (cases iv) (auto simp: lane_member_def dest: bind_node_wf)

lemma expanded_lanes_memberE:
  assumes "expanded_lanes var vs par k = Inr ls" and "l \<in> set ls"
  obtains name ivs members where "l = Sequence name no_delay members"
    and "mapR (lane_member var k) ivs = Inr members"
proof -
  from assms obtain iv where "(case iv of (lane_index, vs) \<Rightarrow>
       rbind (mapR (lane_member var k) (enumerate 0 vs)) (\<lambda>members.
         Inr (Sequence (''lane_'' @ str_pad 2 (Suc lane_index)) no_delay members))) = Inr l"
    unfolding expanded_lanes_def by (rule mapR_memberE)
  then show ?thesis by (cases iv) (auto intro: that)
qed

lemma expanded_lanes_wf:
  assumes "expanded_lanes var vs par k = Inr ls" and "wf_node k" and "l \<in> set ls"
  shows "wf_node l"
proof -
  from assms(1,3) obtain name ivs members where "l = Sequence name no_delay members"
    and ms: "mapR (lane_member var k) ivs = Inr members" by (rule expanded_lanes_memberE)
  moreover have "list_all wf_node members"
    unfolding list_all_iff using mapR_memberE [OF ms] lane_member_wf [OF _ assms(2)] by metis
  ultimately show ?thesis by simp
qed

lemma expanded_lanes_nonempty:
  assumes "expanded_lanes var vs par k = Inr ls" and "pool_values vs \<noteq> []" and "1 \<le> par"
  shows "ls \<noteq> []"
proof -
  from assms(1) have "length ls = length (enumerate 0 (lanes par (pool_values vs)))"
    unfolding expanded_lanes_def by (rule mapR_length)
  also have "\<dots> = min par (length (pool_values vs))"
    by (simp add: lanes_def Let_def length_cut_lanes)
  finally show ?thesis using assms(2,3) by (cases "pool_values vs") auto
qed

end
