(* ===== verification/Task_Graph.thy ===== *)
theory Task_Graph
  imports Task_Config
begin

text \<open>
  What the expansion of \<open>compiler/tasks.py\<close> guarantees.  The first part follows the guards of
  \<open>emit\<close> and the final row checks: identifiers, sizes, order and message sources of the expanded
  graph.  The second part models \<open>_weighted_peak\<close> and shows why admission may rely on it: the
  bound it computes on the tree dominates every set of nodes that the expanded graph allows to be
  active together.
\<close>

section \<open>The overlap bound\<close>

text \<open>\<open>_weighted_peak\<close>: leaves weigh in, serial composition takes the maximum, parallel the sum.\<close>

function (sequential) weighted_peak ::
    "dimensions \<Rightarrow> (string \<rightharpoonup> nat) \<Rightarrow> string list \<Rightarrow> task_node \<Rightarrow> nat res" where
  "weighted_peak dims weights path (Invoke name payload r after ds) =
     Inr (default 0 (weights (qualified_name path name)))"
| "weighted_peak dims weights path (Run name r after ds ps) =
     Inr (default 0 (weights (qualified_name path name)))"
| "weighted_peak dims weights path (ForEach name var values parallelism after template) =
     rbind (expanded_lanes var values parallelism template) (\<lambda>ls.
     rbind (mapR (\<lambda>lane. weighted_peak dims weights (path @ [name]) lane) ls) (\<lambda>ks. Inr (sum_list ks)))"
| "weighted_peak dims weights path (Parallel name after branches) =
     rbind (mapR (\<lambda>b. weighted_peak dims weights (path @ [name]) b) branches) (\<lambda>ks. Inr (sum_list ks))"
| "weighted_peak dims weights path (ParallelCount name after count child) =
     rbind (resolve_value dims count) (\<lambda>n.
     rbind (counted_branches (path @ [name]) child n) (\<lambda>branches.
     rbind (mapR (\<lambda>(b, p). weighted_peak dims weights p b) branches) (\<lambda>ks. Inr (sum_list ks))))"
| "weighted_peak dims weights path (Sequence name after steps) =
     rbind (mapR (\<lambda>s. weighted_peak dims weights (path @ [name]) s) steps) (\<lambda>ks. Inr (foldr max ks 0))"
| "weighted_peak dims weights path (Repeat name count every child) =
     rbind (resolve_value dims count) (\<lambda>n.
     rbind (mapR (\<lambda>i. weighted_peak dims weights (path @ [name] @ [str_nat i]) child) [1 ..< Suc (nat n)])
       (\<lambda>ks. Inr (foldr max ks 0)))"
  by pat_completeness auto

termination weighted_peak
  by (relation "measure (\<lambda>(dims, weights, path, node). height node)")
     (auto dest: counted_branches_child expanded_lanes_height simp: less_Suc_eq_le intro: foldr_max_ge)

section \<open>Rows and their dependency relation\<close>

definition ids :: "compiled_node list \<Rightarrow> string set" where
  "ids rows = cn_node_id ` set rows"

definition dep_rel :: "compiled_node list \<Rightarrow> (string \<times> string) set" where
  "dep_rel rows = {(d, cn_node_id r) | d r. r \<in> set rows \<and> d \<in> set (cn_dependencies r)}"

lemma ids_simps [simp]: "ids [] = {}" "ids (rows @ rows') = ids rows \<union> ids rows'"
  "ids (r # rows) = insert (cn_node_id r) (ids rows)"
  by (auto simp: ids_def)

lemma finite_ids [simp]: "finite (ids rows)"
  by (simp add: ids_def)

lemma dep_rel_append [simp]: "dep_rel (rows @ rows') = dep_rel rows \<union> dep_rel rows'"
  by (auto simp: dep_rel_def)

lemma dep_rel_nil [simp]: "dep_rel [] = {}"
  by (simp add: dep_rel_def)

section \<open>Invariants of the builder\<close>

text \<open>What every emission keeps, the expansion keeps.\<close>

lemma serially_invariant:
  assumes "serially ex rows inc items = Inr (rows', out)" and "P rows"
    and "\<And>c p d r f r' f'. (c, p, d) \<in> set items \<Longrightarrow> P r \<Longrightarrow> ex c r f p d = Inr (r', f') \<Longrightarrow> P r'"
  shows "P rows'"
  using foldR_invariant [OF assms(1) [unfolded serially_def], of "\<lambda>(r, f). P r"] assms(2,3) by fastforce

lemma in_parallel_invariant:
  assumes "in_parallel ex rows inc d items = Inr (rows', out)" and "P rows"
    and "\<And>c p r r' f'. (c, p) \<in> set items \<Longrightarrow> P r \<Longrightarrow> ex c r inc p d = Inr (r', f') \<Longrightarrow> P r'"
  shows "P rows'"
  using foldR_invariant [OF assms(1) [unfolded in_parallel_def], of "\<lambda>(r, f). P r"] assms(2,3) by fastforce

definition emit_keeps :: "(compiled_node list \<Rightarrow> bool) \<Rightarrow> instance_context \<Rightarrow> string \<Rightarrow> bool" where
  "emit_keeps P ic key \<longleftrightarrow> (\<forall>rows e rows'. P rows \<longrightarrow> emit ic key rows e = Inr rows' \<longrightarrow> P rows')"

lemma expand_node_invariant:
  "expand_node ic key n rows inc path inh = Inr (rows', out) \<Longrightarrow> emit_keeps P ic key \<Longrightarrow> P rows \<Longrightarrow> P rows'"
proof (induction ic key n rows inc path inh arbitrary: rows' out rule: expand_node.induct)
  case (3 ic key name count every child rows inc path inh)
  then show ?case by (auto elim!: serially_invariant)
next
  case (4 ic key name after branches rows inc path inh)
  then show ?case by (auto elim!: in_parallel_invariant)
next
  case (5 ic key name after count child rows inc path inh)
  then show ?case by (auto elim!: in_parallel_invariant)
next
  case (6 ic key name after steps rows inc path inh)
  then show ?case by (auto elim!: serially_invariant)
next
  case (7 ic key name var vs par after template rows inc path inh)
  then show ?case by (auto elim!: in_parallel_invariant)
qed (auto simp: emit_after_def emit_keeps_def)

lemma expand_roots_invariant:
  assumes "expand_roots ic key roots = Inr (rows, out)" and "emit_keeps P ic key" and "P []"
  shows "P rows"
  using assms(1) unfolding expand_roots_def
  by (rule serially_invariant) (use assms(2,3) in \<open>auto intro: expand_node_invariant\<close>)

text \<open>What the guards of \<open>emit\<close> establish of the rows, and what the recorded payload means.\<close>

definition row_ok :: "instance_context \<Rightarrow> string \<Rightarrow> compiled_node \<Rightarrow> bool" where
  "row_ok ic key r \<longleftrightarrow> cn_instance_key r = key \<and> cn_node_id r \<noteq> [] \<and> length (cn_node_id r) \<le> 120 \<and>
     0 \<le> cn_after_seconds r \<and>
     (case cn_payload_id r of
        Some p \<Rightarrow> payload_seed ic p = Inr (cn_payload_seed r)
      | None \<Rightarrow> cn_kind r = Batch \<and> cn_payload_seed r = batch_seed ic (cn_node_id r))"

definition rows_ok :: "instance_context \<Rightarrow> string \<Rightarrow> compiled_node list \<Rightarrow> bool" where
  "rows_ok ic key rows \<longleftrightarrow> list_all (row_ok ic key) rows \<and> distinct (map cn_node_id rows) \<and>
     length rows \<le> MAX_NODES_PER_INSTANCE"

lemma emit_rows_ok: "emit_keeps (rows_ok ic key) ic key"
  unfolding emit_keeps_def
proof (intro allI impI)
  fix rows e rows' assume ok: "rows_ok ic key rows" and e: "emit ic key rows e = Inr rows'"
  from e obtain r where rows': "rows' = rows @ [r]" and r: "row_ok ic key r"
    and new: "cn_node_id r \<notin> set (map cn_node_id rows)" and len: "length rows < MAX_NODES_PER_INSTANCE"
    by (cases "em_payload_id e"; cases "em_kind e") (auto simp: emit_def row_ok_def split: if_splits)
  with ok show "rows_ok ic key rows'" by (simp add: rows_ok_def)
qed

lemma graph_expand_rows_ok:
  assumes "graph_expand roots ic key = Inr rows"
  shows "rows_ok ic key rows"
proof -
  from assms obtain out where "expand_roots ic key roots = Inr (rows, out)"
    by (auto simp: graph_expand_def split: prod.splits)
  moreover have "rows_ok ic key []" by (simp add: rows_ok_def)
  ultimately show ?thesis by (rule expand_roots_invariant [OF _ emit_rows_ok])
qed

section \<open>The row checks\<close>

definition node_edges :: "compiled_node list \<Rightarrow> (string \<times> string list) list" where
  "node_edges rows = map (\<lambda>r. (cn_node_id r, cn_dependencies r)) rows"

lemma dom_prior_upd: "dom (prior(k \<mapsto> v)) = insert k (dom prior)"
  by auto

lemma check_row_deps: "check_row h ancestors prior r = Inr s \<Longrightarrow> set (cn_dependencies r) \<subseteq> dom prior"
  by (auto simp: check_row_def Let_def list_all_iff)

lemma check_rows_topological:
  "check_rows h ancestors prior rows = Inr () \<Longrightarrow> distinct (map cn_node_id rows) \<Longrightarrow>
   ids rows \<inter> dom prior = {} \<Longrightarrow> topological (dom prior) (node_edges rows)"
proof (induction rows arbitrary: ancestors prior)
  case (Cons r rows)
  then obtain s where s: "check_row h ancestors prior r = Inr s"
    and rest: "check_rows h (if h then ancestors(cn_node_id r \<mapsto> s) else ancestors) (prior(cn_node_id r \<mapsto> r)) rows = Inr ()"
    by auto
  have "ids rows \<inter> dom (prior(cn_node_id r \<mapsto> r)) = {}"
    using Cons.prems(2,3) by (auto simp: ids_def)
  from Cons.IH [OF rest _ this] Cons.prems(2)
  have "topological (insert (cn_node_id r) (dom prior)) (node_edges rows)"
    by (simp only: dom_prior_upd) simp
  with check_row_deps [OF s] Cons.prems(3) show ?case by (auto simp: node_edges_def)
qed (simp add: node_edges_def)

text \<open>The collected ancestors are ancestors in the dependency relation.\<close>

definition sound_ancestors :: "(string \<times> string) set \<Rightarrow> (string \<rightharpoonup> string set) \<Rightarrow> bool" where
  "sound_ancestors R m \<longleftrightarrow> (\<forall>n s. m n = Some s \<longrightarrow> s \<subseteq> {x. (x, n) \<in> R\<^sup>+})"

lemma check_row_predecessors:
  assumes "check_row h ancestors prior r = Inr s" and "sound_ancestors R ancestors" and "dep_rel [r] \<subseteq> R"
  shows "s \<subseteq> {x. (x, cn_node_id r) \<in> R\<^sup>+}"
proof -
  have edge: "(d, cn_node_id r) \<in> R" if "d \<in> set (cn_dependencies r)" for d
    using that assms(3) by (auto simp: dep_rel_def)
  from assms(1) have "s = (if h then set (cn_dependencies r) \<union>
      \<Union> ((\<lambda>d. case ancestors d of Some s \<Rightarrow> s | None \<Rightarrow> {}) ` set (cn_dependencies r)) else {})"
    by (auto simp: check_row_def Let_def)
  moreover have "x \<in> {x. (x, cn_node_id r) \<in> R\<^sup>+}"
    if "d \<in> set (cn_dependencies r)" and "x \<in> (case ancestors d of Some s \<Rightarrow> s | None \<Rightarrow> {})" for x d
    using that(2) assms(2) edge [OF that(1)]
    by (auto simp: sound_ancestors_def split: option.splits intro: trancl_into_trancl)
  ultimately show ?thesis using edge by (auto split: if_splits)
qed

lemma mapR_raise_cases:
  assumes "mapR f xs = Inr (us :: unit list)" and "x \<in> set xs"
  shows "f x = Inr ()"
proof -
  from assms(1) have "list_all2 (\<lambda>x y. f x = Inr y) xs us" by (simp add: mapR_Inr_iff)
  with assms(2) show ?thesis by (auto simp: in_set_conv_nth list_all2_conv_all_nth)
qed

lemma check_row_sources:
  assumes "check_row h ancestors prior r = Inr s" and "m \<in> set (cn_message_sources r)"
  shows "m \<in> s \<and> (\<exists>source. prior m = Some source \<and> cn_kind source = Atomic)"
proof -
  from assms(1) obtain us where "mapR (\<lambda>src.
      if src \<notin> s then Inl (ValueError ''message sources must reference an earlier dependency node'')
      else case prior src of
        None \<Rightarrow> Inl (KeyError src)
      | Some source \<Rightarrow> raise_if (cn_kind source \<noteq> Atomic)
          (ValueError ''message sources must reference one atomic request; use request.steps for history within run''))
      (cn_message_sources r) = Inr us"
    unfolding check_row_def Let_def by auto
  from mapR_raise_cases [OF this assms(2)] show ?thesis
    by (auto split: if_splits option.splits)
qed

lemma check_rows_sources:
  "check_rows h ancestors prior rows = Inr () \<Longrightarrow> sound_ancestors R ancestors \<Longrightarrow> dep_rel rows \<subseteq> R \<Longrightarrow>
   (\<And>n x. prior n = Some x \<Longrightarrow> x \<in> T \<and> cn_node_id x = n) \<Longrightarrow> set rows \<subseteq> T \<Longrightarrow>
   \<forall>r \<in> set rows. \<forall>m \<in> set (cn_message_sources r).
     (m, cn_node_id r) \<in> R\<^sup>+ \<and> (\<exists>x \<in> T. cn_node_id x = m \<and> cn_kind x = Atomic)"
proof (induction rows arbitrary: ancestors prior)
  case (Cons r rows)
  then obtain s where s: "check_row h ancestors prior r = Inr s"
    and rest: "check_rows h (if h then ancestors(cn_node_id r \<mapsto> s) else ancestors) (prior(cn_node_id r \<mapsto> r)) rows = Inr ()"
    by auto
  have "dep_rel [r] \<subseteq> R" "dep_rel rows \<subseteq> R" using Cons.prems(3) by (auto simp: dep_rel_def)
  with check_row_predecessors [OF s Cons.prems(2)] have pre: "s \<subseteq> {x. (x, cn_node_id r) \<in> R\<^sup>+}" by blast
  then have snd: "sound_ancestors R (if h then ancestors(cn_node_id r \<mapsto> s) else ancestors)"
    using Cons.prems(2) by (simp add: sound_ancestors_def)
  have prior: "x \<in> T \<and> cn_node_id x = n" if "(prior(cn_node_id r \<mapsto> r)) n = Some x" for n x
    using that Cons.prems(4,5) by (auto split: if_splits)
  have "\<forall>m \<in> set (cn_message_sources r).
      (m, cn_node_id r) \<in> R\<^sup>+ \<and> (\<exists>x \<in> T. cn_node_id x = m \<and> cn_kind x = Atomic)"
    using check_row_sources [OF s] pre Cons.prems(4) by blast
  moreover have "\<forall>r \<in> set rows. \<forall>m \<in> set (cn_message_sources r).
      (m, cn_node_id r) \<in> R\<^sup>+ \<and> (\<exists>x \<in> T. cn_node_id x = m \<and> cn_kind x = Atomic)"
    using Cons.prems(5) by (intro Cons.IH [OF rest snd \<open>dep_rel rows \<subseteq> R\<close> prior]) auto
  ultimately show ?case by simp
qed simp

lemma graph_expand_checked:
  assumes "graph_expand roots ic key = Inr rows"
  obtains h where "check_rows h Map.empty Map.empty rows = Inr ()"
  using assms by (auto simp: graph_expand_def split: prod.splits)

lemma graph_expand_topological:
  assumes "graph_expand roots ic key = Inr rows"
  shows "topological {} (node_edges rows)"
proof -
  from assms obtain h where chk: "check_rows h Map.empty Map.empty rows = Inr ()"
    by (rule graph_expand_checked)
  have "distinct (map cn_node_id rows)" using graph_expand_rows_ok [OF assms] by (simp add: rows_ok_def)
  from check_rows_topological [OF chk this] show ?thesis by simp
qed

lemma graph_expand_sources:
  assumes "graph_expand roots ic key = Inr rows"
  shows "\<forall>r \<in> set rows. \<forall>m \<in> set (cn_message_sources r).
     (m, cn_node_id r) \<in> (dep_rel rows)\<^sup>+ \<and> (\<exists>x \<in> set rows. cn_node_id x = m \<and> cn_kind x = Atomic)"
proof -
  from assms obtain h where chk: "check_rows h Map.empty Map.empty rows = Inr ()"
    by (rule graph_expand_checked)
  show ?thesis by (rule check_rows_sources [OF chk]) (auto simp: sound_ancestors_def)
qed

text \<open>
  C29.  The rows of an expanded graph are a valid static DAG: identifiers are pairwise distinct,
  1 to 120 characters long and at most 10000, delays are non-negative, every dependency is an
  earlier row, and a message source is an atomic node on which its user depends, directly or
  through other nodes.
\<close>

theorem graph_expand_dag:
  assumes "graph_expand roots ic key = Inr rows"
  shows "length rows \<le> 10000 \<and> topological {} (node_edges rows) \<and>
    (\<forall>r \<in> set rows. 1 \<le> length (cn_node_id r) \<and> length (cn_node_id r) \<le> 120 \<and> 0 \<le> cn_after_seconds r \<and>
       (\<forall>m \<in> set (cn_message_sources r). (m, cn_node_id r) \<in> (dep_rel rows)\<^sup>+ \<and>
          (\<exists>x \<in> set rows. cn_node_id x = m \<and> cn_kind x = Atomic)))"
proof -
  from graph_expand_rows_ok [OF assms] have ok: "list_all (row_ok ic key) rows"
    and len: "length rows \<le> 10000"
    by (auto simp: rows_ok_def MAX_NODES_PER_INSTANCE_def)
  have "\<forall>r \<in> set rows. 1 \<le> length (cn_node_id r) \<and> length (cn_node_id r) \<le> 120 \<and> 0 \<le> cn_after_seconds r"
    using ok by (auto simp: list_all_iff row_ok_def Suc_le_eq)
  with len graph_expand_topological [OF assms] graph_expand_sources [OF assms] show ?thesis by blast
qed

definition example_context :: instance_context where
  "example_context = \<lparr>ic_seed = 11111, ic_dimensions = [], ic_trial_index = 0,
     ic_payloads = [(''p'', \<lparr>payload_seed_name = ''s'', payload_text = None\<rparr>)], ic_scope = TrialScope\<rparr>"

definition example_roots :: "task_node list" where
  "example_roots =
     [Invoke ''a'' ''p'' None no_delay [],
      Parallel ''both'' no_delay
        [Invoke ''b'' ''p'' None no_delay [],
         Repeat ''again'' (Literal 2) no_delay (Invoke ''c'' ''p'' None no_delay [])],
      Invoke ''z'' ''p'' None no_delay [\<lparr>dep_step = ''a'', reuse_messages = True\<rparr>]]"

text \<open>The seeds of the example stay symbolic: the rows are computed up to their digests.\<close>

lemma example_expands:
  "\<exists>rows. graph_expand example_roots example_context ''trial=0'' = Inr rows \<and>
     map cn_node_id rows = [''a'', ''both.b'', ''both.again.1.c'', ''both.again.2.c'', ''z''] \<and>
     map cn_dependencies rows = [[], [''a''], [''a''], [''both.again.1.c''],
       [''both.b'', ''both.again.2.c'', ''a'']]"
proof -
  show ?thesis
    by (simp add: graph_expand_def expand_roots_def serially_def in_parallel_def example_roots_def
      example_context_def invoke_emission_def emit_after_def emit_def payload_seed_def
      repeat_items_def resolve_value_def MAX_REPEAT_COUNT_def MAX_NODES_PER_INSTANCE_def
      qualified_name_def qualified_reference_def node_references_def check_row_def Let_def
      upt_rec str_nat.simps digit_def)
qed

theorem graph_expand_dag_witness:
  "\<exists>rows. graph_expand example_roots example_context ''trial=0'' = Inr rows \<and>
     map cn_node_id rows = [''a'', ''both.b'', ''both.again.1.c'', ''both.again.2.c'', ''z''] \<and>
     topological {} (node_edges rows)"
  using example_expands graph_expand_dag [of example_roots example_context "''trial=0''"] by metis

section \<open>Serial and parallel composition of the expanded graph\<close>

text \<open>
  \<open>spans R w inc new out k\<close>: the new rows all depend on the whole incoming frontier, each of
  them is an ancestor of (or is) an outgoing frontier node, and no pairwise independent set of
  them weighs more than \<open>k\<close>.  \<open>covers\<close> says the same of the incoming frontier itself.
\<close>

definition antichain :: "('n \<times> 'n) set \<Rightarrow> 'n set \<Rightarrow> bool" where
  "antichain R A \<longleftrightarrow> (\<forall>a \<in> A. \<forall>b \<in> A. (a, b) \<notin> R\<^sup>+)"

definition covers :: "('n \<times> 'n) set \<Rightarrow> 'n set \<Rightarrow> 'n list \<Rightarrow> bool" where
  "covers R A out \<longleftrightarrow> (\<forall>x \<in> A. \<exists>f \<in> set out. (x, f) \<in> R\<^sup>*)"

definition spans ::
    "(string \<times> string) set \<Rightarrow> (string \<Rightarrow> nat) \<Rightarrow> string list \<Rightarrow> compiled_node list \<Rightarrow> string list \<Rightarrow> nat \<Rightarrow> bool" where
  "spans R w inc new out k \<longleftrightarrow>
     (\<forall>x \<in> set inc. \<forall>n \<in> ids new. (x, n) \<in> R\<^sup>+) \<and> covers R (ids new) out \<and>
     (\<forall>A. A \<subseteq> ids new \<longrightarrow> antichain R A \<longrightarrow> sum w A \<le> k)"

lemma antichain_subset: "antichain R A \<Longrightarrow> B \<subseteq> A \<Longrightarrow> antichain R B"
  by (auto simp: antichain_def)

lemma covers_mono: "covers R A out \<Longrightarrow> set out \<subseteq> set out' \<Longrightarrow> covers R A out'"
  by (auto simp: covers_def)

lemma covers_self [simp]: "covers R (set inc) inc"
  by (auto simp: covers_def)

lemma covers_trans: "covers R A mid \<Longrightarrow> covers R (set mid) out \<Longrightarrow> covers R A out"
  unfolding covers_def by (meson rtrancl_trans)

lemma spans_nil [simp]: "spans R w inc [] out 0"
  by (simp add: spans_def covers_def)

lemma spans_leaf:
  assumes "set inc \<subseteq> set (cn_dependencies r)" and "dep_rel [r] \<subseteq> R"
  shows "spans R w inc [r] [cn_node_id r] (w (cn_node_id r))"
proof -
  have "(x, cn_node_id r) \<in> R" if "x \<in> set inc" for x
    using that assms by (auto simp: dep_rel_def)
  moreover have "sum w A \<le> w (cn_node_id r)" if "A \<subseteq> {cn_node_id r}" for A
    using that by (auto simp: subset_singleton_iff)
  ultimately show ?thesis by (auto simp: spans_def covers_def)
qed

lemma spans_serial:
  assumes a: "spans R w inc n1 mid k1" and b: "spans R w mid n2 out k2"
    and c: "covers R (set inc) mid" and d: "covers R (set mid) out"
  shows "spans R w inc (n1 @ n2) out (max k1 k2)"
proof -
  have before: "(x, n) \<in> R\<^sup>+" if "x \<in> set inc \<union> ids n1" and "n \<in> ids n2" for x n
  proof -
    from that(1) a c obtain f where "f \<in> set mid" "(x, f) \<in> R\<^sup>*"
      by (auto simp: spans_def covers_def)
    with b that(2) show ?thesis unfolding spans_def by (meson rtrancl_trancl_trancl)
  qed
  have "sum w A \<le> max k1 k2" if A: "A \<subseteq> ids (n1 @ n2)" and anti: "antichain R A" for A
  proof -
    have "A \<subseteq> ids n1 \<or> A \<subseteq> ids n2"
      using A anti before unfolding antichain_def ids_simps by blast
    with a b anti have "sum w A \<le> k1 \<or> sum w A \<le> k2" by (auto simp: spans_def)
    then show ?thesis by auto
  qed
  moreover have "covers R (ids (n1 @ n2)) out"
    using a b covers_trans [OF _ d, of "ids n1"] by (auto simp: spans_def covers_def)
  ultimately show ?thesis using a before by (auto simp: spans_def)
qed

lemma spans_parallel:
  assumes a: "spans R w inc n1 o1 k1" and b: "spans R w inc n2 o2 k2"
  shows "spans R w inc (n1 @ n2) (o1 @ o2) (k1 + k2)"
proof -
  have "sum w A \<le> k1 + k2" if A: "A \<subseteq> ids (n1 @ n2)" and anti: "antichain R A" for A
  proof -
    have fin: "finite A" using A finite_subset finite_ids by blast
    have "A = (A \<inter> ids n1) \<union> (A \<inter> ids n2)" using A by auto
    with sum.union_inter [of "A \<inter> ids n1" "A \<inter> ids n2" w] fin
    have "sum w A \<le> sum w (A \<inter> ids n1) + sum w (A \<inter> ids n2)"
      by (metis finite_Int le_add1)
    moreover have "sum w (A \<inter> ids n1) \<le> k1" "sum w (A \<inter> ids n2) \<le> k2"
      using a b antichain_subset [OF anti] unfolding spans_def by (metis Int_lower1 Int_lower2)+
    ultimately show ?thesis by linarith
  qed
  with a b show ?thesis by (auto simp: spans_def covers_def)
qed

text \<open>
  One expansion step \<open>ex\<close> of a child is \<open>bounded\<close> by \<open>pk\<close> when it only appends rows that span
  from its incoming to its outgoing frontier, with \<open>pk\<close> as the weight.
\<close>

definition bounded ::
    "(string \<Rightarrow> nat) \<Rightarrow> compiled_node list \<Rightarrow> string list \<Rightarrow> (compiled_node list \<times> string list) res \<Rightarrow> nat res \<Rightarrow> bool" where
  "bounded w rows inc result pk \<longleftrightarrow>
     (\<forall>rows' out. result = Inr (rows', out) \<longrightarrow>
        (\<exists>new k. rows' = rows @ new \<and> pk = Inr k \<and>
           (\<forall>R. dep_rel new \<subseteq> R \<longrightarrow> spans R w inc new out k \<and> covers R (set inc) out)))"

lemma mapR_Cons_result:
  assumes "pk x = Inr k1" and "rbind (mapR pk xs) (\<lambda>ks. Inr (f ks)) = Inr k2"
    and "\<And>ks. f (k1 # ks) = g k1 (f ks)"
  shows "rbind (mapR pk (x # xs)) (\<lambda>ks. Inr (f ks)) = Inr (g k1 k2)"
proof -
  from assms(2) obtain ks where "mapR pk xs = Inr ks" "f ks = k2" by auto
  with assms(1,3) show ?thesis by simp
qed

lemma serially_bounded:
  assumes "\<And>c p d r f. (c, p, d) \<in> set items \<Longrightarrow> bounded w r f (ex c r f p d) (pk (c, p, d))"
  shows "bounded w rows inc (serially ex rows inc items) (rbind (mapR pk items) (\<lambda>ks. Inr (foldr max ks 0)))"
  using assms
proof (induction items arbitrary: rows inc)
  case Nil
  show ?case by (auto simp: bounded_def serially_def)
next
  case (Cons item items)
  obtain c p d where item: "item = (c, p, d)" by (cases item)
  show ?case
    unfolding bounded_def
  proof (intro allI impI)
    fix rows' out assume "serially ex rows inc (item # items) = Inr (rows', out)"
    then obtain r1 mid where r1: "ex c rows inc p d = Inr (r1, mid)"
      and rest: "serially ex r1 mid items = Inr (rows', out)"
      by (auto simp: serially_def item)
    have "bounded w rows inc (ex c rows inc p d) (pk (c, p, d))"
      using Cons.prems by (simp add: item)
    with r1 obtain n1 k1 where n1: "r1 = rows @ n1" "pk (c, p, d) = Inr k1"
      and s1: "\<And>R. dep_rel n1 \<subseteq> R \<Longrightarrow> spans R w inc n1 mid k1 \<and> covers R (set inc) mid"
      unfolding bounded_def by blast
    have "bounded w r1 mid (serially ex r1 mid items) (rbind (mapR pk items) (\<lambda>ks. Inr (foldr max ks 0)))"
      using Cons.prems by (intro Cons.IH) simp
    with rest obtain n2 k2 where n2: "rows' = r1 @ n2" "rbind (mapR pk items) (\<lambda>ks. Inr (foldr max ks 0)) = Inr k2"
      and s2: "\<And>R. dep_rel n2 \<subseteq> R \<Longrightarrow> spans R w mid n2 out k2 \<and> covers R (set mid) out"
      unfolding bounded_def by blast
    have sp: "spans R w inc (n1 @ n2) out (max k1 k2) \<and> covers R (set inc) out" if "dep_rel (n1 @ n2) \<subseteq> R" for R
    proof -
      from that have R: "dep_rel n1 \<subseteq> R" "dep_rel n2 \<subseteq> R" by simp_all
      note c1 = s1 [OF R(1)] and c2 = s2 [OF R(2)]
      show ?thesis
        using spans_serial [OF conjunct1 [OF c1] conjunct1 [OF c2] conjunct2 [OF c1] conjunct2 [OF c2]]
          covers_trans [OF conjunct2 [OF c1] conjunct2 [OF c2]] by (rule conjI)
    qed
    from n1(2) n2(2) have pk: "rbind (mapR pk (item # items)) (\<lambda>ks. Inr (foldr max ks 0)) = Inr (max k1 k2)"
      unfolding item by (rule mapR_Cons_result) simp
    show "\<exists>new k. rows' = rows @ new \<and>
        rbind (mapR pk (item # items)) (\<lambda>ks. Inr (foldr max ks 0)) = Inr k \<and>
        (\<forall>R. dep_rel new \<subseteq> R \<longrightarrow> spans R w inc new out k \<and> covers R (set inc) out)"
    proof (intro exI conjI allI impI)
      show "rows' = rows @ (n1 @ n2)" using n1(1) n2(1) by simp
    qed (use pk sp in \<open>blast+\<close>)
  qed
qed

text \<open>In parallel the frontiers accumulate; the incoming frontier is covered once a branch ran.\<close>

lemma in_parallel_bounded:
  assumes "\<And>c p r. (c, p) \<in> set items \<Longrightarrow> bounded w r inc (ex c r inc p d) (pk (c, p))"
    and "foldR (\<lambda>(rows, out) (child, path).
         rbind (ex child rows inc path d) (\<lambda>(rows', frontier). Inr (rows', out @ frontier)))
       (rows, out0) items = Inr (rows', out)"
  shows "\<exists>new k front. rows' = rows @ new \<and> out = out0 @ front \<and>
    rbind (mapR pk items) (\<lambda>ks. Inr (sum_list ks)) = Inr k \<and>
    (\<forall>R. dep_rel new \<subseteq> R \<longrightarrow> spans R w inc new front k \<and> (items \<noteq> [] \<longrightarrow> covers R (set inc) front))"
  using assms
proof (induction items arbitrary: rows out0)
  case (Cons item items)
  obtain c p where item: "item = (c, p)" by (cases item)
  from Cons.prems(2) obtain r1 o1 where r1: "ex c rows inc p d = Inr (r1, o1)"
    and rest: "foldR (\<lambda>(rows, out) (child, path).
         rbind (ex child rows inc path d) (\<lambda>(rows', frontier). Inr (rows', out @ frontier)))
       (r1, out0 @ o1) items = Inr (rows', out)"
    by (auto simp: item)
  have "bounded w rows inc (ex c rows inc p d) (pk (c, p))"
    using Cons.prems(1) by (simp add: item)
  with r1 obtain n1 k1 where n1: "r1 = rows @ n1" "pk (c, p) = Inr k1"
    and s1: "\<And>R. dep_rel n1 \<subseteq> R \<Longrightarrow> spans R w inc n1 o1 k1 \<and> covers R (set inc) o1"
    unfolding bounded_def by blast
  from Cons.IH [OF _ rest] Cons.prems(1) obtain n2 k2 o2 where
    n2: "rows' = r1 @ n2" "out = (out0 @ o1) @ o2" "rbind (mapR pk items) (\<lambda>ks. Inr (sum_list ks)) = Inr k2"
    and s2: "\<And>R. dep_rel n2 \<subseteq> R \<Longrightarrow> spans R w inc n2 o2 k2"
    by (metis (no_types, lifting) list.set_intros(2))
  have sp: "spans R w inc (n1 @ n2) (o1 @ o2) (k1 + k2) \<and> (item # items \<noteq> [] \<longrightarrow> covers R (set inc) (o1 @ o2))"
    if "dep_rel (n1 @ n2) \<subseteq> R" for R
  proof -
    from that have "dep_rel n1 \<subseteq> R" "dep_rel n2 \<subseteq> R" by simp_all
    then have "spans R w inc n1 o1 k1" "covers R (set inc) o1" "spans R w inc n2 o2 k2"
      using s1 s2 by blast+
    moreover from this(2) have "covers R (set inc) (o1 @ o2)" by (rule covers_mono) simp
    ultimately show ?thesis using spans_parallel by blast
  qed
  from n1(2) n2(3) have pk: "rbind (mapR pk (item # items)) (\<lambda>ks. Inr (sum_list ks)) = Inr (k1 + k2)"
    unfolding item by (rule mapR_Cons_result) simp
  show ?case
  proof (intro exI conjI allI impI)
    show "rows' = rows @ (n1 @ n2)" using n1(1) n2(1) by simp
    show "out = out0 @ (o1 @ o2)" using n2(2) by simp
  qed (use pk sp in \<open>blast+\<close>)
qed simp

lemma parallel_bounded:
  assumes "\<And>c p r. (c, p) \<in> set items \<Longrightarrow> bounded w r inc (ex c r inc p d) (pk (c, p))"
    and "items \<noteq> []"
  shows "bounded w rows inc (in_parallel ex rows inc d items) (rbind (mapR pk items) (\<lambda>ks. Inr (sum_list ks)))"
  unfolding bounded_def in_parallel_def
proof (intro allI impI)
  fix rows' out
  assume "foldR (\<lambda>(rows, out) (child, path).
         rbind (ex child rows inc path d) (\<lambda>(rows', frontier). Inr (rows', out @ frontier)))
       (rows, []) items = Inr (rows', out)"
  from in_parallel_bounded [of items w inc ex d pk, OF assms(1) this] assms(2)
  show "\<exists>new k. rows' = rows @ new \<and> rbind (mapR pk items) (\<lambda>ks. Inr (sum_list ks)) = Inr k \<and>
      (\<forall>R. dep_rel new \<subseteq> R \<longrightarrow> spans R w inc new out k \<and> covers R (set inc) out)"
    by (metis append_Nil)
qed

lemma mapR_map: "mapR f (map g xs) = mapR (\<lambda>x. f (g x)) xs"
  by (induction xs) simp_all

lemma bounded_bind:
  assumes "\<And>x. m = Inr x \<Longrightarrow> bounded w rows inc (f x) pk"
  shows "bounded w rows inc (rbind m f) pk"
  using assms by (cases m) (auto simp: bounded_def)

lemma emit_appends:
  assumes "emit ic key rows e = Inr rows'"
  shows "\<exists>r. rows' = rows @ [r] \<and> cn_node_id r = em_node_id e \<and> cn_dependencies r = em_dependencies e"
  using assms by (auto simp: emit_def split: if_splits)

lemma emit_after_bounded:
  "bounded w rows inc (emit_after ic key rows inc e) (Inr (w (em_node_id e)))"
  unfolding bounded_def
proof (intro allI impI)
  fix rows' out assume "emit_after ic key rows inc e = Inr (rows', out)"
  then have em: "emit ic key rows (e\<lparr>em_dependencies := dedup (inc @ em_dependencies e)\<rparr>) = Inr rows'"
    and out: "out = [em_node_id e]" by (auto simp: emit_after_def)
  from emit_appends [OF em] obtain r where r: "rows' = rows @ [r]" "cn_node_id r = em_node_id e"
    "cn_dependencies r = dedup (inc @ em_dependencies e)" by auto
  have "spans R w inc [r] out (w (em_node_id e)) \<and> covers R (set inc) out" if R: "dep_rel [r] \<subseteq> R" for R
  proof
    have "set inc \<subseteq> set (cn_dependencies r)" using r by auto
    from spans_leaf [OF this R, of w] show "spans R w inc [r] out (w (em_node_id e))"
      by (simp add: out r)
    show "covers R (set inc) out"
      using R r out by (auto simp: covers_def dep_rel_def)
  qed
  with r(1) show "\<exists>new k. rows' = rows @ new \<and> (Inr (w (em_node_id e)) :: nat res) = Inr k \<and>
      (\<forall>R. dep_rel new \<subseteq> R \<longrightarrow> spans R w inc new out k \<and> covers R (set inc) out)"
    by blast
qed

lemma invoke_emission_id: "invoke_emission ic path inh name p r a ds = Inr e \<Longrightarrow> em_node_id e = qualified_name path name"
  by (auto simp: invoke_emission_def)

lemma run_emission_id: "run_emission ic path inh name r a ds ps = Inr e \<Longrightarrow> em_node_id e = qualified_name path name"
  by (auto simp: run_emission_def)

text \<open>The main induction: every node is bounded by its weighted peak.\<close>

lemma expand_node_bounded:
  "wf_node n \<Longrightarrow> bounded (\<lambda>i. default 0 (weights i)) rows inc (expand_node ic key n rows inc path inh)
     (weighted_peak (ic_dimensions ic) weights path n)"
proof (induction ic key n rows inc path inh rule: expand_node.induct)
  case (1 ic key name payload r after ds rows inc path inh)
  show ?case unfolding expand_node.simps weighted_peak.simps
  proof (rule bounded_bind)
    fix e assume "invoke_emission ic path inh name payload r after ds = Inr e"
    from invoke_emission_id [OF this]
    show "bounded (\<lambda>i. default 0 (weights i)) rows inc (emit_after ic key rows inc e)
        (Inr (default 0 (weights (qualified_name path name))))"
      using emit_after_bounded by metis
  qed
next
  case (2 ic key name r after ds ps rows inc path inh)
  show ?case unfolding expand_node.simps weighted_peak.simps
  proof (rule bounded_bind)
    fix e assume "run_emission ic path inh name r after ds ps = Inr e"
    from run_emission_id [OF this]
    show "bounded (\<lambda>i. default 0 (weights i)) rows inc (emit_after ic key rows inc e)
        (Inr (default 0 (weights (qualified_name path name))))"
      using emit_after_bounded by metis
  qed
next
  case (3 ic key name count every child rows inc path inh)
  have wf: "wf_node child" using 3(2) by simp
  show ?case unfolding expand_node.simps
  proof (intro bounded_bind)
    fix n u i u'
    assume n: "resolve_value (ic_dimensions ic) count = Inr n"
      and u: "raise_if (\<not> (0 \<le> n \<and> n \<le> MAX_REPEAT_COUNT)) (ValueError ''expanded repeat count must be between 0 and 100'') = Inr u"
      and i: "resolve_duration (ic_dimensions ic) every = Inr i"
      and u': "raise_if (i < 0) (ValueError ''task delays cannot be negative'') = Inr u'"
    let ?items = "repeat_items (path @ [name]) child n i inh"
    let ?pk = "\<lambda>(c, p, d). weighted_peak (ic_dimensions ic) weights p c"
    have b: "bounded (\<lambda>i. default 0 (weights i)) r f (expand_node ic key c r f p d) (?pk (c, p, d))"
      if "(c, p, d) \<in> set ?items" for c p d r f
      using 3(1) [OF n u i u' that] repeat_items_child [OF that] wf by simp
    have "weighted_peak (ic_dimensions ic) weights path (Repeat name count every child) =
        rbind (mapR ?pk ?items) (\<lambda>ks. Inr (foldr max ks 0))"
      by (simp add: n repeat_items_def mapR_map)
    with serially_bounded [of ?items _ "expand_node ic key" ?pk, OF b]
    show "bounded (\<lambda>i. default 0 (weights i)) rows inc
        (serially (\<lambda>c r f p d. expand_node ic key c r f p d) rows inc ?items)
        (weighted_peak (ic_dimensions ic) weights path (Repeat name count every child))" by simp
  qed
next
  case (4 ic key name after branches rows inc path inh)
  have wf: "branches \<noteq> []" "list_all wf_node branches" using 4(2) by simp_all
  show ?case unfolding expand_node.simps
  proof (intro bounded_bind)
    fix own assume own: "resolve_duration (ic_dimensions ic) after = Inr own"
    let ?items = "map (\<lambda>b. (b, path @ [name])) branches"
    let ?pk = "\<lambda>(c, p). weighted_peak (ic_dimensions ic) weights p c"
    have b: "bounded (\<lambda>i. default 0 (weights i)) r inc (expand_node ic key c r inc p (inh + own)) (?pk (c, p))"
      if "(c, p) \<in> set ?items" for c p r
      using 4(1) [OF own that] that wf(2) by (auto simp: list_all_iff)
    have "weighted_peak (ic_dimensions ic) weights path (Parallel name after branches) =
        rbind (mapR ?pk ?items) (\<lambda>ks. Inr (sum_list ks))"
      by (simp add: mapR_map)
    with parallel_bounded [of ?items _ _ "expand_node ic key" _ ?pk, OF b] wf(1)
    show "bounded (\<lambda>i. default 0 (weights i)) rows inc
        (in_parallel (\<lambda>c r f p d. expand_node ic key c r f p d) rows inc (inh + own) ?items)
        (weighted_peak (ic_dimensions ic) weights path (Parallel name after branches))" by simp
  qed
next
  case (5 ic key name after count child rows inc path inh)
  have wf: "wf_node child" using 5(2) by simp
  show ?case unfolding expand_node.simps
  proof (intro bounded_bind)
    fix own n items
    assume own: "resolve_duration (ic_dimensions ic) after = Inr own"
      and n: "resolve_value (ic_dimensions ic) count = Inr n"
      and items: "counted_branches (path @ [name]) child n = Inr items"
    let ?pk = "\<lambda>(c, p). weighted_peak (ic_dimensions ic) weights p c"
    have b: "bounded (\<lambda>i. default 0 (weights i)) r inc (expand_node ic key c r inc p (inh + own)) (?pk (c, p))"
      if "(c, p) \<in> set items" for c p r
      using 5(1) [OF own n items that] counted_branches_child [OF items that] wf by simp
    have ne: "items \<noteq> []" using items by (auto simp: counted_branches_def split: if_splits)
    have "weighted_peak (ic_dimensions ic) weights path (ParallelCount name after count child) =
        rbind (mapR ?pk items) (\<lambda>ks. Inr (sum_list ks))"
      by (simp add: n items)
    with parallel_bounded [of items _ _ "expand_node ic key" _ ?pk, OF b ne]
    show "bounded (\<lambda>i. default 0 (weights i)) rows inc
        (in_parallel (\<lambda>c r f p d. expand_node ic key c r f p d) rows inc (inh + own) items)
        (weighted_peak (ic_dimensions ic) weights path (ParallelCount name after count child))" by simp
  qed
next
  case (6 ic key name after steps rows inc path inh)
  have wf: "list_all wf_node steps" using 6(2) by simp
  show ?case unfolding expand_node.simps
  proof (intro bounded_bind)
    fix own assume own: "resolve_duration (ic_dimensions ic) after = Inr own"
    let ?items = "sequence_items (path @ [name]) steps (inh + own)"
    let ?pk = "\<lambda>(c, p, d). weighted_peak (ic_dimensions ic) weights p c"
    have b: "bounded (\<lambda>i. default 0 (weights i)) r f (expand_node ic key c r f p d) (?pk (c, p, d))"
      if "(c, p, d) \<in> set ?items" for c p d r f
      using 6(1) [OF own that] sequence_items_child [OF that] wf by (simp add: list_all_iff)
    have "mapR ?pk ?items = mapR (\<lambda>s. weighted_peak (ic_dimensions ic) weights (path @ [name]) s) (map snd (enumerate 0 steps))"
      unfolding sequence_items_def mapR_map by (simp add: case_prod_beta)
    then have "weighted_peak (ic_dimensions ic) weights path (Sequence name after steps) =
        rbind (mapR ?pk ?items) (\<lambda>ks. Inr (foldr max ks 0))"
      by simp
    with serially_bounded [of ?items _ "expand_node ic key" ?pk, OF b]
    show "bounded (\<lambda>i. default 0 (weights i)) rows inc
        (serially (\<lambda>c r f p d. expand_node ic key c r f p d) rows inc ?items)
        (weighted_peak (ic_dimensions ic) weights path (Sequence name after steps))" by simp
  qed
next
  case (7 ic key name var vs par after template rows inc path inh)
  have wf: "pool_values vs \<noteq> []" "1 \<le> par" "wf_node template" using 7(2) by simp_all
  show ?case unfolding expand_node.simps
  proof (intro bounded_bind)
    fix own ls
    assume own: "resolve_duration (ic_dimensions ic) after = Inr own"
      and ls: "expanded_lanes var vs par template = Inr ls"
    let ?items = "map (\<lambda>l. (l, path @ [name])) ls"
    let ?pk = "\<lambda>(c, p). weighted_peak (ic_dimensions ic) weights p c"
    have b: "bounded (\<lambda>i. default 0 (weights i)) r inc (expand_node ic key c r inc p (inh + own)) (?pk (c, p))"
      if "(c, p) \<in> set ?items" for c p r
      using 7(1) [OF own ls that] that expanded_lanes_wf [OF ls wf(3)] by auto
    have ne: "?items \<noteq> []" using expanded_lanes_nonempty [OF ls wf(1,2)] by simp
    have "weighted_peak (ic_dimensions ic) weights path (ForEach name var vs par after template) =
        rbind (mapR ?pk ?items) (\<lambda>ks. Inr (sum_list ks))"
      by (simp add: ls mapR_map)
    with parallel_bounded [of ?items _ _ "expand_node ic key" _ ?pk, OF b ne]
    show "bounded (\<lambda>i. default 0 (weights i)) rows inc
        (in_parallel (\<lambda>c r f p d. expand_node ic key c r f p d) rows inc (inh + own) ?items)
        (weighted_peak (ic_dimensions ic) weights path (ForEach name var vs par after template))" by simp
  qed
qed

lemma expand_roots_bounded:
  assumes "list_all wf_node roots"
  shows "bounded (\<lambda>i. default 0 (weights i)) [] [] (expand_roots ic key roots)
     (rbind (mapR (weighted_peak (ic_dimensions ic) weights []) roots) (\<lambda>ks. Inr (foldr max ks 0)))"
proof -
  let ?items = "map (\<lambda>n. (n, [] :: string list, 0 :: rat)) roots"
  let ?pk = "\<lambda>(c, p, d). weighted_peak (ic_dimensions ic) weights p c"
  have "bounded (\<lambda>i. default 0 (weights i)) r f (expand_node ic key c r f p d) (?pk (c, p, d))"
    if "(c, p, d) \<in> set ?items" for c p d r f
    using that assms expand_node_bounded by (auto simp: list_all_iff)
  from serially_bounded [of ?items _ "expand_node ic key" ?pk, OF this] show ?thesis
    by (simp add: expand_roots_def mapR_map comp_def)
qed

text \<open>
  C28.  The overlap bound is safe: whatever the weights, \<open>_weighted_peak\<close> is defined on every root
  of an expandable graph, and no set of nodes without a dependency path between two of them
  weighs more than the maximum over the roots.
\<close>

theorem weighted_peak_bounds_overlap:
  assumes "graph_expand roots ic key = Inr rows" and "list_all (\<lambda>n. validate_node n = Inr ()) roots"
    and "A \<subseteq> ids rows" and "antichain (dep_rel rows) A"
  shows "\<exists>ks. mapR (weighted_peak (ic_dimensions ic) weights []) roots = Inr ks \<and>
    (\<Sum>n\<in>A. default 0 (weights n)) \<le> foldr max ks 0"
proof -
  from assms(1) obtain out where ex: "expand_roots ic key roots = Inr (rows, out)"
    by (auto simp: graph_expand_def split: prod.splits)
  from assms(2) have "list_all wf_node roots"
    by (auto simp: list_all_iff intro: validate_node_wf)
  from expand_roots_bounded [OF this, of weights ic key] ex obtain k where
    k: "rbind (mapR (weighted_peak (ic_dimensions ic) weights []) roots) (\<lambda>ks. Inr (foldr max ks 0)) = Inr k"
    and sp: "spans (dep_rel rows) (\<lambda>i. default 0 (weights i)) [] rows out k"
    by (auto simp: bounded_def simp del: rbind_eq_Inr)
  from sp assms(3,4) have "(\<Sum>n\<in>A. default 0 (weights n)) \<le> k" by (auto simp: spans_def)
  with k show ?thesis by auto
qed

lemma dep_rel_zip:
  "dep_rel rows = (\<Union>(n, ds) \<in> set (zip (map cn_node_id rows) (map cn_dependencies rows)). {(d, n) | d. d \<in> set ds})"
  unfolding dep_rel_def zip_map_map zip_same_conv_map by auto

lemma trancl_closed:
  "(x, y) \<in> R\<^sup>+ \<Longrightarrow> (\<And>a b. (a, b) \<in> R \<Longrightarrow> a = x \<or> a \<in> S \<Longrightarrow> b \<in> S) \<Longrightarrow> y \<in> S"
  by (induction rule: trancl_induct) blast+

theorem weighted_peak_bounds_overlap_witness:
  "\<exists>ks. mapR (weighted_peak [] [''both.b'' \<mapsto> 1, ''both.again.2.c'' \<mapsto> 1] []) example_roots = Inr ks
     \<and> 2 \<le> foldr max ks 0"
proof -
  from example_expands obtain rows where
    rows: "graph_expand example_roots example_context ''trial=0'' = Inr rows"
    and names: "map cn_node_id rows = [''a'', ''both.b'', ''both.again.1.c'', ''both.again.2.c'', ''z'']"
    and deps: "map cn_dependencies rows = [[], [''a''], [''a''], [''both.again.1.c''],
       [''both.b'', ''both.again.2.c'', ''a'']]" by metis
  let ?A = "{''both.b'', ''both.again.2.c''}"
  have "ids rows = set (map cn_node_id rows)" by (simp add: ids_def)
  then have sub: "?A \<subseteq> ids rows" by (simp add: names)
  have rel: "dep_rel rows = {(''a'', ''both.b''), (''a'', ''both.again.1.c''), (''both.again.1.c'', ''both.again.2.c''),
      (''both.b'', ''z''), (''both.again.2.c'', ''z''), (''a'', ''z'')}"
    unfolding dep_rel_zip names deps by auto
  have last: "b = ''z''" if "(a, b) \<in> (dep_rel rows)\<^sup>+" and "a \<in> ?A" for a b
  proof -
    have "b' \<in> {''z''}" if "(a', b') \<in> dep_rel rows" and "a' = a \<or> a' \<in> {''z''}" for a' b'
      using that \<open>a \<in> ?A\<close> unfolding rel by safe
    from trancl_closed [OF \<open>(a, b) \<in> (dep_rel rows)\<^sup>+\<close> this] show ?thesis by simp
  qed
  have anti: "antichain (dep_rel rows) ?A" unfolding antichain_def
  proof (intro ballI notI)
    fix a b assume "a \<in> ?A" "b \<in> ?A" "(a, b) \<in> (dep_rel rows)\<^sup>+"
    with last [of a b] show False by simp
  qed
  have ok: "list_all (\<lambda>n. validate_node n = Inr ()) example_roots"
    by (simp add: example_roots_def check_name_def check_role_def validate_task_duration_def no_delay_def
        validate_dependencies_def check_children_def)
  from weighted_peak_bounds_overlap [OF rows ok sub anti, of "[''both.b'' \<mapsto> 1, ''both.again.2.c'' \<mapsto> 1]"]
  show ?thesis by (simp add: example_context_def numeral_2_eq_2)
qed

end
