(* ===== verification/Task_Compile.thy ===== *)
theory Task_Compile
  imports Task_Graph
begin

text \<open>
  The compiler proper of \<open>compiler/tasks.py\<close>: the matrix coordinates, the semantic validation of
  a recipe, the static estimates, compilation into the indexed table, and the assembly of the
  table into runtime identities and Runner templates.
\<close>

section \<open>The Runner template as the compiler reads it\<close>

text \<open>
  The benchmark document of the template: the request plan's keys (\<open>benchmark\<close>), the adapter
  and the keys of the additional sampling parameters.
\<close>

record worker_template =
  wt_benchmark :: benchmark
  wt_adapter :: "string option"
  wt_sampling_keys :: "string list"

definition empty_benchmark :: benchmark where
  "empty_benchmark = \<lparr>bm_repeat = None, bm_every = None, bm_steps = None, bm_input = None, bm_inputs = [],
     bm_prompt = None, bm_mean_input_tokens = None, bm_mean_output_tokens = None,
     bm_cache_probe = None, bm_concurrent_workers = None\<rparr>"

definition empty_template :: worker_template where
  "empty_template = \<lparr>wt_benchmark = empty_benchmark, wt_adapter = None, wt_sampling_keys = []\<rparr>"

definition requires_single_worker :: "benchmark \<Rightarrow> bool" where
  "requires_single_worker b \<longleftrightarrow> bm_steps b = None \<and> default 1 (bm_repeat b) = 1"

text \<open>\<open>_validate_worker_template\<close>.\<close>

definition validate_worker_template :: "compiled_node list \<Rightarrow> worker_template \<Rightarrow> unit res" where
  "validate_worker_template rows wt =
     rbind (raise_if (list_ex (\<lambda>r. cn_kind r = Atomic) rows \<and> \<not> requires_single_worker (wt_benchmark wt))
              (ValueError ''invoke requires a single Worker template; use run for request steps or repetition'')) (\<lambda>_.
     rbind (raise_if (list_ex (\<lambda>r. cn_message_sources r \<noteq> []) rows \<and> wt_adapter wt = Some ''vertexai'')
              (ValueError ''VertexAI prediction adapter does not support structured message reuse'')) (\<lambda>_.
     raise_if (list_ex (\<lambda>r. cn_message_sources r \<noteq> []) rows \<and> ''messages'' \<in> set (wt_sampling_keys wt))
              (ValueError ''Reused messages cannot be overridden by sampling messages'')))"

section \<open>Coordinates and instances\<close>

text \<open>\<open>_matrix_coordinates\<close>: the product over the sorted dimension names.\<close>

definition dimension_names :: "task_recipe \<Rightarrow> string list" where
  "dimension_names rc = sort (map fst (ti_matrix (rc_instances rc)))"

definition matrix_coordinates :: "task_recipe \<Rightarrow> dimensions list" where
  "matrix_coordinates rc =
     (let names = dimension_names rc;
          matrix = map_of (ti_matrix (rc_instances rc))
      in map (zip names) (product_lists (map (\<lambda>n. default [] (matrix n)) names)))"

definition instance_context_of :: "task_recipe \<Rightarrow> dimensions \<Rightarrow> nat \<Rightarrow> instance_context" where
  "instance_context_of rc dims trial =
     \<lparr>ic_seed = ti_seed (rc_instances rc), ic_dimensions = dims, ic_trial_index = trial,
      ic_payloads = rc_payloads rc, ic_scope = ti_scope (rc_instances rc)\<rparr>"

section \<open>The planned span\<close>

text \<open>\<open>max(xs, default=d)\<close>.\<close>

definition py_max :: "'a::linorder \<Rightarrow> 'a list \<Rightarrow> 'a" where
  "py_max d xs = (case xs of [] \<Rightarrow> d | y # ys \<Rightarrow> fold max ys y)"

definition lookup :: "(string \<rightharpoonup> 'a) \<Rightarrow> string \<Rightarrow> 'a res" where
  "lookup m k = (case m k of Some v \<Rightarrow> Inr v | None \<Rightarrow> Inl (KeyError k))"

text \<open>\<open>_planned_span\<close>; the offsets are kept in the order the dict has them.\<close>

fun span_loop :: "(string \<rightharpoonup> rat) \<Rightarrow> rat list \<Rightarrow> compiled_node list \<Rightarrow> rat list res" where
  "span_loop offsets acc [] = Inr acc"
| "span_loop offsets acc (r # rows) =
     rbind (mapR (lookup offsets) (cn_dependencies r)) (\<lambda>ds.
       let offset = py_max 0 ds + cn_after_seconds r
       in span_loop (offsets(cn_node_id r \<mapsto> offset)) (acc @ [offset]) rows)"

definition planned_span :: "compiled_node list \<Rightarrow> rat res" where
  "planned_span rows = rbind (span_loop Map.empty [] rows) (\<lambda>offsets. Inr (py_max 0 offsets))"

section \<open>Validation and estimates\<close>

text \<open>\<open>TaskCompiler.validate_recipe\<close>.\<close>

definition validate_coordinate :: "task_recipe \<Rightarrow> task_node list \<Rightarrow> nat \<times> dimensions \<Rightarrow> unit res" where
  "validate_coordinate rc graph = (\<lambda>(coordinate_index, dims).
     rbind (graph_expand graph (instance_context_of rc dims 0) (''validation-'' @ str_nat coordinate_index)) (\<lambda>rows.
     rbind (raise_if (ti_scope (rc_instances rc) = FamilyScope \<and> list_ex (\<lambda>r. cn_kind r \<noteq> Batch) rows)
              (ValueError ''family prefix seeds require run-only workflows'')) (\<lambda>_.
     rbind (planned_span rows) (\<lambda>span.
       raise_if (MAX_PLANNED_SPAN_SECONDS < span) (ValueError ''task planned span cannot exceed 24 hours'')))))"

definition validate_recipe :: "task_recipe \<Rightarrow> unit res" where
  "validate_recipe rc =
     rbind (raise_if (MAX_INSTANCES_PER_DEFINITION < instance_count (rc_instances rc))
              (ValueError ''task definition cannot exceed 10000 instances'')) (\<lambda>_.
     rbind (graph_from_recipe rc) (\<lambda>graph.
     rbind (mapR (validate_coordinate rc graph) (enumerate 0 (matrix_coordinates rc))) (\<lambda>_. Inr ())))"

record workload_estimate =
  we_instances :: nat
  we_nodes :: nat
  we_runners :: nat
  we_requests :: nat
  we_peak_runners :: nat
  we_max_concurrency :: nat
  we_peak_requests :: nat
  we_peak_actors :: nat

definition parallel_request_groups :: "compiled_node list \<Rightarrow> compiled_node list list" where
  "parallel_request_groups rows = map (\<lambda>r. [r]) rows"

text \<open>The Workers of one batch Runner, and how many of them run together.\<close>

definition batch_concurrency :: "benchmark \<Rightarrow> int" where
  "batch_concurrency b =
     (let limit = planned_worker_count b;
          bound = min limit (case bm_concurrent_workers b of
                    Some c \<Rightarrow> if c = 0 then limit else c | None \<Rightarrow> limit)
      in if bm_every b \<noteq> None then min bound 1 else bound)"

text \<open>What one coordinate adds: requests, peaks and its widest node; weights are non-negative.\<close>

definition kind_weight :: "nat \<Rightarrow> compiled_node \<Rightarrow> nat" where
  "kind_weight batch r = (if cn_kind r = Batch then batch else 1)"

definition weights_of :: "(compiled_node \<Rightarrow> nat) \<Rightarrow> compiled_node list \<Rightarrow> string \<rightharpoonup> nat" where
  "weights_of f rows = map_of (map (\<lambda>r. (cn_node_id r, f r)) rows)"

definition graph_peak :: "task_node list \<Rightarrow> dimensions \<Rightarrow> (string \<rightharpoonup> nat) \<Rightarrow> nat res" where
  "graph_peak roots dims weights =
     rbind (mapR (weighted_peak dims weights []) roots) (\<lambda>ks. Inr (foldr max ks 0))"

definition estimate_coordinate ::
    "task_recipe \<Rightarrow> task_node list \<Rightarrow> worker_template \<Rightarrow> workload_estimate \<Rightarrow> nat \<times> dimensions \<Rightarrow>
     workload_estimate res" where
  "estimate_coordinate rc graph wt e = (\<lambda>(coordinate_index, dims).
     rbind (graph_expand graph (instance_context_of rc dims 0) (''estimate-'' @ str_nat coordinate_index)) (\<lambda>rows.
     rbind (validate_worker_template rows wt) (\<lambda>_.
     let trials = ti_trials (rc_instances rc);
         batch_limit = nat (planned_worker_count (wt_benchmark wt));
         batch = nat (batch_concurrency (wt_benchmark wt))
     in rbind (graph_peak graph dims (weights_of (\<lambda>_. 1) rows)) (\<lambda>runner_peak.
        rbind (graph_peak graph dims (weights_of (kind_weight batch) rows)) (\<lambda>request_peak.
          Inr (e\<lparr>we_nodes := we_nodes e + length rows * trials,
                 we_runners := we_runners e + length (parallel_request_groups rows) * trials,
                 we_requests := we_requests e + sum_list (map (kind_weight batch_limit) rows) * trials,
                 we_peak_runners := we_peak_runners e + runner_peak * trials,
                 we_max_concurrency := max (we_max_concurrency e) (py_max 0 (map (kind_weight batch) rows)),
                 we_peak_requests := we_peak_requests e + request_peak * trials\<rparr>))))))"

definition no_estimate :: workload_estimate where
  "no_estimate = \<lparr>we_instances = 0, we_nodes = 0, we_runners = 0, we_requests = 0, we_peak_runners = 0,
     we_max_concurrency = 0, we_peak_requests = 0, we_peak_actors = 0\<rparr>"

text \<open>\<open>TaskCompiler.estimate\<close>; an absent benchmark is the empty one.\<close>

definition estimate :: "task_recipe \<Rightarrow> int \<Rightarrow> worker_template option \<Rightarrow> workload_estimate res" where
  "estimate rc requests_per_actor wt =
     rbind (raise_if (requests_per_actor < 1) (ValueError ''requests_per_actor must be positive'')) (\<lambda>_.
     rbind (graph_from_recipe rc) (\<lambda>graph.
     rbind (foldR (estimate_coordinate rc graph (default empty_template wt)) no_estimate
              (enumerate 0 (matrix_coordinates rc))) (\<lambda>e.
       Inr (e\<lparr>we_instances := length (matrix_coordinates rc) * ti_trials (rc_instances rc),
              we_peak_actors := nat ((int (we_peak_requests e) + requests_per_actor - 1) div requests_per_actor)\<rparr>))))"

text \<open>
  \<open>TaskCompiler.estimate_token_budget\<close>.  The batch budget is computed at the first batch node;
  recomputing it is the same, so only its first failure point matters here.
\<close>

definition prompt_tokens :: "int \<Rightarrow> compiled_node \<Rightarrow> int" where
  "prompt_tokens mean_in r = (case cn_prompt_text r of
     Some t \<Rightarrow> if t = [] then mean_in else max mean_in (int (length t))
   | None \<Rightarrow> mean_in)"

definition batch_budget :: "int \<Rightarrow> int \<Rightarrow> benchmark option \<Rightarrow> int res" where
  "batch_budget mean_in mean_out b =
     planned_token_budget (default (empty_benchmark\<lparr>bm_mean_input_tokens := Some mean_in,
       bm_mean_output_tokens := Some mean_out\<rparr>) b)"

definition budget_row ::
    "nat \<Rightarrow> int \<Rightarrow> int \<Rightarrow> benchmark option \<Rightarrow> int \<times> (string \<rightharpoonup> int) \<Rightarrow> compiled_node \<Rightarrow>
     (int \<times> (string \<rightharpoonup> int)) res" where
  "budget_row trials mean_in mean_out b = (\<lambda>(total_tokens, histories) r.
     if cn_kind r = Batch
     then rbind (batch_budget mean_in mean_out b) (\<lambda>budget.
            Inr (total_tokens + budget * int trials, histories))
     else rbind (mapR (lookup histories) (cn_message_sources r)) (\<lambda>hs.
            let n = sum_list hs + prompt_tokens mean_in r + mean_out
            in Inr (total_tokens + n * int trials, histories(cn_node_id r \<mapsto> n))))"

definition budget_coordinate ::
    "task_recipe \<Rightarrow> task_node list \<Rightarrow> int \<Rightarrow> int \<Rightarrow> benchmark option \<Rightarrow> int \<Rightarrow> nat \<times> dimensions \<Rightarrow> int res" where
  "budget_coordinate rc graph mean_in mean_out b total_tokens = (\<lambda>(index, dims).
     rbind (graph_expand graph (instance_context_of rc dims 0) (''budget-'' @ str_nat index)) (\<lambda>rows.
     rbind (foldR (budget_row (ti_trials (rc_instances rc)) mean_in mean_out b)
              (total_tokens, Map.empty) rows) (\<lambda>(t, _). Inr t)))"

definition estimate_token_budget :: "task_recipe \<Rightarrow> int \<Rightarrow> int \<Rightarrow> benchmark option \<Rightarrow> int res" where
  "estimate_token_budget rc mean_in mean_out b =
     rbind (graph_from_recipe rc) (\<lambda>graph.
       foldR (budget_coordinate rc graph mean_in mean_out b) 0 (enumerate 0 (matrix_coordinates rc)))"

section \<open>Compilation\<close>

record compiled_instance =
  ci_key :: string
  ci_dimensions :: dimensions
  ci_trial_index :: nat

record compilation_table =
  ct_instances :: "compiled_instance list"
  ct_nodes :: "compiled_node list"

text \<open>\<open>CompilationTable.__init__\<close> and \<open>nodes_for\<close>.\<close>

definition make_table :: "compiled_instance list \<Rightarrow> compiled_node list \<Rightarrow> compilation_table res" where
  "make_table instances nodes =
     (if length (remdups (map ci_key instances)) \<noteq> length instances
      then Inl (ValueError ''compiled task instance keys must be unique'')
      else rbind (mapR (\<lambda>r. raise_if (cn_instance_key r \<notin> set (map ci_key instances))
                    (ValueError (''compiled node references unknown instance '' @ cn_instance_key r))) nodes)
             (\<lambda>_. Inr \<lparr>ct_instances = instances, ct_nodes = nodes\<rparr>))"

definition nodes_for :: "compilation_table \<Rightarrow> string \<Rightarrow> compiled_node list res" where
  "nodes_for t key =
     (if key \<in> set (map ci_key (ct_instances t))
      then Inr (filter (\<lambda>r. cn_instance_key r = key) (ct_nodes t))
      else Inl (ValueError (''unknown compiled instance '' @ key)))"

definition instance_key :: "dimensions \<Rightarrow> nat \<Rightarrow> string" where
  "instance_key dims trial =
     (if coordinates dims \<noteq> [] then coordinates dims @ '';trial='' @ str_nat trial
      else ''trial='' @ str_nat trial)"

definition all_instances :: "task_recipe \<Rightarrow> compiled_instance list" where
  "all_instances rc = concat (map (\<lambda>dims. map (\<lambda>trial.
       \<lparr>ci_key = instance_key dims trial, ci_dimensions = dims, ci_trial_index = trial\<rparr>)
     [0 ..< ti_trials (rc_instances rc)]) (matrix_coordinates rc))"

definition compile_instance ::
    "task_recipe \<Rightarrow> worker_template \<Rightarrow> task_node list \<Rightarrow> compiled_instance \<Rightarrow> compiled_node list res" where
  "compile_instance rc wt graph inst =
     rbind (graph_expand graph (instance_context_of rc (ci_dimensions inst) (ci_trial_index inst)) (ci_key inst)) (\<lambda>rows.
     rbind (validate_worker_template rows wt) (\<lambda>_. Inr rows))"

text \<open>\<open>TaskCompiler(...).compile()\<close>; the cached second call returns the same table.\<close>

definition compile :: "task_recipe \<Rightarrow> worker_template \<Rightarrow> compilation_table res" where
  "compile rc wt =
     rbind (graph_from_recipe rc) (\<lambda>graph.
     rbind (mapR (compile_instance rc wt graph) (all_instances rc)) (\<lambda>rowss.
       make_table (all_instances rc) (concat rowss)))"

end
