(* ===== verification/Task_Estimate.thy ===== *)
theory Task_Estimate
  imports Task_Compile
begin

text \<open>
  Why the static estimate of \<open>compiler/tasks.py\<close> is exact.  The structure of an expanded graph
  depends on the matrix coordinate only, not on trial, seed or instance key, so expanding one
  trial per coordinate counts them all; and the instance keys built from the coordinates never
  collide, so the compilation table accepts them.
\<close>

section \<open>Structure does not depend on the trial\<close>

definition skeleton :: "compiled_node \<Rightarrow> compiled_node" where
  "skeleton r = r\<lparr>cn_instance_key := [], cn_payload_seed := 0, cn_prefix_seed := None\<rparr>"

lemma skeleton_fields:
  assumes "skeleton r = skeleton r'"
  shows "cn_node_id r = cn_node_id r'" "cn_dependencies r = cn_dependencies r'" "cn_kind r = cn_kind r'"
    "cn_message_sources r = cn_message_sources r'" "cn_after_seconds r = cn_after_seconds r'"
    "cn_prompt_text r = cn_prompt_text r'"
  using assms by (cases r, cases r', simp add: skeleton_def)+

lemma skeleton_map_fields:
  assumes "map skeleton rows = map skeleton rows'" and "\<And>r r'. skeleton r = skeleton r' \<Longrightarrow> f r = f r'"
  shows "map f rows = map f rows'"
proof -
  from assms(1) have "length rows = length rows'" by (metis length_map)
  then show ?thesis using assms(1)
  proof (induction rows rows' rule: list_induct2)
    case (Cons x xs y ys)
    then show ?case using assms(2) [of x y] by simp
  qed simp
qed

lemma list_ex_same:
  assumes "map skeleton rows' = map skeleton rows" and "\<And>r r'. skeleton r = skeleton r' \<Longrightarrow> P r = P r'"
  shows "list_ex P rows' = list_ex P rows"
proof -
  have "list_ex P rs = list_ex id (map P rs)" for rs by (simp add: list_ex_iff)
  then show ?thesis using skeleton_map_fields [OF assms(1), of P] assms(2) by metis
qed

definition same_structure :: "(compiled_node list \<times> 'a) res \<Rightarrow> (compiled_node list \<times> 'a) res \<Rightarrow> bool" where
  "same_structure x y \<longleftrightarrow> (case x of
     Inl e \<Rightarrow> y = Inl e
   | Inr (rows, f) \<Rightarrow> \<exists>rows'. y = Inr (rows', f) \<and> map skeleton rows' = map skeleton rows)"

definition same_coordinate :: "instance_context \<Rightarrow> instance_context \<Rightarrow> bool" where
  "same_coordinate ic ic' \<longleftrightarrow> ic_dimensions ic = ic_dimensions ic' \<and> ic_payloads ic = ic_payloads ic'"

lemma same_structure_bind:
  assumes "same_structure x y"
    and "\<And>rows rows' f. map skeleton rows' = map skeleton rows \<Longrightarrow> same_structure (g (rows, f)) (h (rows', f))"
  shows "same_structure (rbind x g) (rbind y h)"
proof (cases x)
  case (Inl e)
  with assms(1) show ?thesis by (simp add: same_structure_def)
next
  case (Inr r)
  obtain rows f where r: "r = (rows, f)" by (cases r)
  with Inr assms(1) obtain rows' where "y = Inr (rows', f)" "map skeleton rows' = map skeleton rows"
    by (auto simp: same_structure_def)
  with assms(2) Inr r show ?thesis by simp
qed

lemma same_structure_rbind:
  assumes "\<And>x. m = Inr x \<Longrightarrow> same_structure (f x) (g x)"
  shows "same_structure (rbind m f) (rbind m g)"
  using assms by (cases m) (simp_all add: same_structure_def)

lemma emit_same:
  assumes "same_coordinate ic ic'" and "map skeleton rows' = map skeleton rows"
    and "e' = e\<lparr>em_prefix_seed := s\<rparr>"
  shows "same_structure (rbind (emit ic key rows e) (\<lambda>r. Inr (r, f))) (rbind (emit ic' key' rows' e') (\<lambda>r. Inr (r, f)))"
proof -
  have ids: "map cn_node_id rows' = map cn_node_id rows"
    using skeleton_map_fields [OF assms(2)] skeleton_fields(1) by metis
  have len: "length rows' = length rows" using assms(2) by (metis length_map)
  show ?thesis
  proof (cases "em_payload_id e")
    case None
    then show ?thesis
      unfolding emit_def assms(3) by (simp add: ids len assms(2) same_structure_def skeleton_def)
  next
    case (Some p)
    then show ?thesis
      using assms(1) unfolding emit_def assms(3) payload_seed_def same_coordinate_def
      by (cases "map_of (ic_payloads ic) p") (simp_all add: ids len assms(2) same_structure_def skeleton_def)
  qed
qed

lemma resolve_prefix_seed_same:
  assumes "same_coordinate ic ic'"
  shows "(\<exists>v v'. resolve_prefix_seed ic s n = Inr v \<and> resolve_prefix_seed ic' s n = Inr v') \<or>
    (\<exists>e. resolve_prefix_seed ic s n = Inl e \<and> resolve_prefix_seed ic' s n = Inl e)"
proof (cases s)
  case (SeedPick p)
  then show ?thesis by (cases "pool_values p") (simp_all add: resolve_prefix_seed_def)
next
  case (SeedLiteral i)
  then show ?thesis by (simp add: resolve_prefix_seed_def resolve_value_def)
next
  case (SeedDimension d)
  with assms show ?thesis
    by (cases "map_of (ic_dimensions ic) d") (simp_all add: resolve_prefix_seed_def resolve_value_def same_coordinate_def)
qed

lemma run_emission_same:
  assumes "same_coordinate ic ic'"
  shows "(\<exists>e s. run_emission ic path inh name r a ds ps = Inr e \<and>
      run_emission ic' path inh name r a ds ps = Inr (e\<lparr>em_prefix_seed := s\<rparr>)) \<or>
    (\<exists>x. run_emission ic path inh name r a ds ps = Inl x \<and> run_emission ic' path inh name r a ds ps = Inl x)"
proof (cases "resolve_duration (ic_dimensions ic) a")
  case (Inl x)
  with assms show ?thesis by (simp add: run_emission_def same_coordinate_def)
next
  case (Inr own)
  then have own: "resolve_duration (ic_dimensions ic') a = Inr own" using assms by (simp add: same_coordinate_def)
  show ?thesis
  proof (cases ps)
    case None
    with Inr own show ?thesis by (auto simp: run_emission_def)
  next
    case (Some s)
    with resolve_prefix_seed_same [OF assms, of s "qualified_name path name"] Inr own show ?thesis
      by (auto simp: run_emission_def)
  qed
qed

lemma serially_same:
  assumes "\<And>c p d r r' f. (c, p, d) \<in> set items \<Longrightarrow> map skeleton r' = map skeleton r \<Longrightarrow>
      same_structure (ex c r f p d) (ex' c r' f p d)"
    and "map skeleton rows' = map skeleton rows"
  shows "same_structure (serially ex rows inc items) (serially ex' rows' inc items)"
  using assms
proof (induction items arbitrary: rows rows' inc)
  case Nil
  then show ?case by (simp add: serially_def same_structure_def)
next
  case (Cons item items)
  obtain c p d where item: "item = (c, p, d)" by (cases item)
  have "same_structure (rbind (ex c rows inc p d) (\<lambda>(r, f). serially ex r f items))
      (rbind (ex' c rows' inc p d) (\<lambda>(r, f). serially ex' r f items))"
  proof (rule same_structure_bind)
    show "same_structure (ex c rows inc p d) (ex' c rows' inc p d)"
      using Cons.prems by (simp add: item)
    fix r r' f assume "map skeleton r' = map skeleton r"
    then show "same_structure (case (r, f) of (r, f) \<Rightarrow> serially ex r f items)
        (case (r', f) of (r, f) \<Rightarrow> serially ex' r f items)"
      using Cons.prems(1) by (auto intro!: Cons.IH)
  qed
  then show ?case by (simp add: serially_def item case_prod_beta')
qed

lemma parallel_same_fold:
  assumes "\<And>c p r r'. (c, p) \<in> set items \<Longrightarrow> map skeleton r' = map skeleton r \<Longrightarrow>
      same_structure (ex c r inc p d) (ex' c r' inc p d)"
    and "map skeleton rows' = map skeleton rows"
  shows "same_structure
    (foldR (\<lambda>(rows, out) (child, path). rbind (ex child rows inc path d) (\<lambda>(r, f). Inr (r, out @ f))) (rows, out) items)
    (foldR (\<lambda>(rows, out) (child, path). rbind (ex' child rows inc path d) (\<lambda>(r, f). Inr (r, out @ f))) (rows', out) items)"
  using assms
proof (induction items arbitrary: rows rows' out)
  case Nil
  then show ?case by (simp add: same_structure_def)
next
  case (Cons item items)
  obtain c p where item: "item = (c, p)" by (cases item)
  have "same_structure (ex c rows inc p d) (ex' c rows' inc p d)"
    using Cons.prems by (simp add: item)
  then show ?case
    unfolding item foldR.simps prod.case rbind_assoc
  proof (rule same_structure_bind)
    fix r r' f assume "map skeleton r' = map skeleton r"
    then show "same_structure
      (rbind (case (r, f) of (r, f) \<Rightarrow> Inr (r, out @ f)) (\<lambda>s'. foldR (\<lambda>(rows, out) (child, path).
         rbind (ex child rows inc path d) (\<lambda>(r, f). Inr (r, out @ f))) s' items))
      (rbind (case (r', f) of (r, f) \<Rightarrow> Inr (r, out @ f)) (\<lambda>s'. foldR (\<lambda>(rows, out) (child, path).
         rbind (ex' child rows inc path d) (\<lambda>(r, f). Inr (r, out @ f))) s' items))"
      using Cons.prems(1) by (auto intro!: Cons.IH)
  qed
qed

lemma in_parallel_same:
  assumes "\<And>c p r r'. (c, p) \<in> set items \<Longrightarrow> map skeleton r' = map skeleton r \<Longrightarrow>
      same_structure (ex c r inc p d) (ex' c r' inc p d)"
    and "map skeleton rows' = map skeleton rows"
  shows "same_structure (in_parallel ex rows inc d items) (in_parallel ex' rows' inc d items)"
  unfolding in_parallel_def
  by (rule parallel_same_fold [of items ex inc d ex', OF assms(1) assms(2)])

lemma emit_after_same:
  assumes "same_coordinate ic ic'" and "map skeleton rows' = map skeleton rows"
  shows "same_structure (emit_after ic key rows inc e) (emit_after ic' key' rows' inc (e\<lparr>em_prefix_seed := s\<rparr>))"
  unfolding emit_after_def using assms
  by (auto intro!: emit_same [where s = s] simp del: append.simps)

lemma expand_node_same:
  "same_coordinate ic ic' \<Longrightarrow> map skeleton rows' = map skeleton rows \<Longrightarrow>
   same_structure (expand_node ic key n rows inc path inh) (expand_node ic' key' n rows' inc path inh)"
proof (induction ic key n rows inc path inh arbitrary: rows' rule: expand_node.induct)
  case (1 ic key name payload r after ds rows inc path inh)
  have eq: "invoke_emission ic' path inh name payload r after ds = invoke_emission ic path inh name payload r after ds"
    using 1(1) by (simp add: invoke_emission_def same_coordinate_def)
  show ?case unfolding expand_node.simps eq
  proof (rule same_structure_rbind)
    fix e show "same_structure (emit_after ic key rows inc e) (emit_after ic' key' rows' inc e)"
      using emit_after_same [OF 1, of key inc e key' "em_prefix_seed e"] by simp
  qed
next
  case (2 ic key name r after ds ps rows inc path inh)
  from run_emission_same [OF 2(1), of path inh name r after ds ps] show ?case
  proof
    assume "\<exists>e s. run_emission ic path inh name r after ds ps = Inr e \<and>
      run_emission ic' path inh name r after ds ps = Inr (e\<lparr>em_prefix_seed := s\<rparr>)"
    then show ?thesis using emit_after_same [OF 2] by auto
  qed (auto simp: same_structure_def)
next
  case (3 ic key name count every child rows inc path inh)
  have dims: "ic_dimensions ic' = ic_dimensions ic" using 3(2) by (simp add: same_coordinate_def)
  show ?case unfolding expand_node.simps dims
    by (intro same_structure_rbind serially_same 3(1) [OF _ _ _ _ _ 3(2)] 3(3))
next
  case (4 ic key name after branches rows inc path inh)
  have dims: "ic_dimensions ic' = ic_dimensions ic" using 4(2) by (simp add: same_coordinate_def)
  show ?case unfolding expand_node.simps dims
    by (intro same_structure_rbind in_parallel_same 4(1) [OF _ _ 4(2)] 4(3))
next
  case (5 ic key name after count child rows inc path inh)
  have dims: "ic_dimensions ic' = ic_dimensions ic" using 5(2) by (simp add: same_coordinate_def)
  show ?case unfolding expand_node.simps dims
    by (intro same_structure_rbind in_parallel_same 5(1) [OF _ _ _ _ 5(2)] 5(3))
next
  case (6 ic key name after steps rows inc path inh)
  have dims: "ic_dimensions ic' = ic_dimensions ic" using 6(2) by (simp add: same_coordinate_def)
  show ?case unfolding expand_node.simps dims
    by (intro same_structure_rbind serially_same 6(1) [OF _ _ 6(2)] 6(3))
next
  case (7 ic key name var vs par after template rows inc path inh)
  have dims: "ic_dimensions ic' = ic_dimensions ic" using 7(2) by (simp add: same_coordinate_def)
  show ?case unfolding expand_node.simps dims
    by (intro same_structure_rbind in_parallel_same 7(1) [OF _ _ _ 7(2)] 7(3))
qed

text \<open>The row checks and the template checks read the structure only.\<close>

lemma check_row_same:
  assumes "skeleton r' = skeleton r" and "dom prior' = dom prior"
    and "\<And>n x x'. prior n = Some x \<Longrightarrow> prior' n = Some x' \<Longrightarrow> cn_kind x' = cn_kind x"
  shows "check_row h ancestors prior' r' = check_row h ancestors prior r"
proof -
  note f = skeleton_fields [OF assms(1)]
  have d: "prior' n = None \<longleftrightarrow> prior n = None" for n using assms(2) by (metis domIff)
  have src: "(case prior' s of None \<Rightarrow> Inl (KeyError s) | Some x \<Rightarrow> raise_if (cn_kind x \<noteq> Atomic) m) =
      (case prior s of None \<Rightarrow> Inl (KeyError s) | Some x \<Rightarrow> raise_if (cn_kind x \<noteq> Atomic) m)" for s m
  proof (cases "prior s")
    case (Some x)
    with d [of s] obtain x' where "prior' s = Some x'" by auto
    with Some assms(3) show ?thesis by simp
  qed (use d [of s] in simp)
  show ?thesis unfolding check_row_def f d src by (rule refl)
qed

lemma check_rows_same:
  assumes "map skeleton rows' = map skeleton rows" and "dom prior' = dom prior"
    and "\<And>n x x'. prior n = Some x \<Longrightarrow> prior' n = Some x' \<Longrightarrow> cn_kind x' = cn_kind x"
  shows "check_rows h ancestors prior' rows' = check_rows h ancestors prior rows"
proof -
  from assms(1) have "length rows' = length rows" by (metis length_map)
  then show ?thesis using assms
  proof (induction rows' rows arbitrary: ancestors prior prior' rule: list_induct2)
    case (Cons r' rows' r rows)
    then have sk: "skeleton r' = skeleton r" by simp
    note f = skeleton_fields [OF sk]
    have row: "check_row h ancestors prior' r' = check_row h ancestors prior r"
      by (rule check_row_same [OF sk]) (use Cons.prems in blast)+
    have rest: "check_rows h a (prior'(cn_node_id r' \<mapsto> r')) rows' = check_rows h a (prior(cn_node_id r \<mapsto> r)) rows" for a
    proof (rule Cons.IH)
      show "dom (prior'(cn_node_id r' \<mapsto> r')) = dom (prior(cn_node_id r \<mapsto> r))"
        using Cons.prems(2) by (simp add: f(1) dom_prior_upd del: fun_upd_apply)
    qed (use Cons.prems f in \<open>auto split: if_splits\<close>)
    show ?case unfolding check_rows.simps row rest unfolding f(1) by (rule refl)
  qed simp
qed

lemma graph_expand_same:
  assumes "same_coordinate ic ic'" and "graph_expand roots ic key = Inr rows"
  shows "\<exists>rows'. graph_expand roots ic' key' = Inr rows' \<and> map skeleton rows' = map skeleton rows"
proof -
  from assms(2) obtain out where ex: "expand_roots ic key roots = Inr (rows, out)"
    and chk: "check_rows (list_ex (\<lambda>r. cn_message_sources r \<noteq> []) rows) Map.empty Map.empty rows = Inr ()"
    by (auto simp: graph_expand_def split: prod.splits)
  have "same_structure (expand_roots ic key roots) (expand_roots ic' key' roots)"
    unfolding expand_roots_def by (intro serially_same expand_node_same [OF assms(1)]) simp_all
  with ex obtain rows' where ex': "expand_roots ic' key' roots = Inr (rows', out)"
    and sk: "map skeleton rows' = map skeleton rows"
    by (auto simp: same_structure_def)
  have "list_ex (\<lambda>r. cn_message_sources r \<noteq> []) rows' = list_ex (\<lambda>r. cn_message_sources r \<noteq> []) rows"
    by (rule list_ex_same [OF sk]) (drule skeleton_fields(4), simp)
  with ex' chk check_rows_same [OF sk, of Map.empty Map.empty] sk show ?thesis
    by (simp add: graph_expand_def)
qed

lemma validate_worker_template_same:
  assumes sk: "map skeleton rows' = map skeleton rows"
  shows "validate_worker_template rows' wt = validate_worker_template rows wt"
proof -
  have "list_ex (\<lambda>r. cn_message_sources r \<noteq> []) rows' = list_ex (\<lambda>r. cn_message_sources r \<noteq> []) rows"
    by (rule list_ex_same [OF sk]) (drule skeleton_fields(4), simp)
  moreover have "list_ex (\<lambda>r. cn_kind r = Atomic) rows' = list_ex (\<lambda>r. cn_kind r = Atomic) rows"
    by (rule list_ex_same [OF sk]) (drule skeleton_fields(3), simp)
  ultimately show ?thesis by (simp add: validate_worker_template_def)
qed

section \<open>Counting\<close>

definition instances_at :: "task_recipe \<Rightarrow> dimensions \<Rightarrow> compiled_instance list" where
  "instances_at rc dims = map (\<lambda>trial.
     \<lparr>ci_key = instance_key dims trial, ci_dimensions = dims, ci_trial_index = trial\<rparr>)
     [0 ..< ti_trials (rc_instances rc)]"

lemma all_instances_concat: "all_instances rc = concat (map (instances_at rc) (matrix_coordinates rc))"
  by (simp add: all_instances_def instances_at_def [abs_def])

lemma same_coordinate_trials: "same_coordinate (instance_context_of rc dims t) (instance_context_of rc dims t')"
  by (simp add: same_coordinate_def instance_context_of_def)

lemma compile_instance_same:
  assumes "graph_expand graph (instance_context_of rc dims 0) key = Inr rows"
    and "validate_worker_template rows wt = Inr ()" and "inst \<in> set (instances_at rc dims)"
  shows "\<exists>rows'. compile_instance rc wt graph inst = Inr rows' \<and> map skeleton rows' = map skeleton rows"
proof -
  from assms(3) have "ci_dimensions inst = dims" by (auto simp: instances_at_def)
  with graph_expand_same [OF same_coordinate_trials assms(1), of "ci_trial_index inst" "ci_key inst"]
  obtain rows' where "graph_expand graph (instance_context_of rc (ci_dimensions inst) (ci_trial_index inst)) (ci_key inst) = Inr rows'"
    and sk: "map skeleton rows' = map skeleton rows" by metis
  with validate_worker_template_same [OF sk, of wt] assms(2) show ?thesis
    by (simp add: compile_instance_def)
qed

lemma mapR_uniform:
  assumes "\<And>x. x \<in> set xs \<Longrightarrow> \<exists>y. f x = Inr y \<and> map skeleton y = map skeleton rows"
  shows "\<exists>ys. mapR f xs = Inr ys \<and> map skeleton (concat ys) = concat (replicate (length xs) (map skeleton rows))"
  using assms
proof (induction xs)
  case (Cons x xs)
  then obtain y ys where "f x = Inr y" "map skeleton y = map skeleton rows"
    "mapR f xs = Inr ys" "map skeleton (concat ys) = concat (replicate (length xs) (map skeleton rows))"
    by (metis list.set_intros(1,2))
  then show ?case by simp
qed simp

lemma skeleton_kind_weight: "skeleton r = skeleton r' \<Longrightarrow> kind_weight b r = kind_weight b r'"
  by (drule skeleton_fields(3)) (simp add: kind_weight_def)

lemma kind_weight_skeleton [simp]: "kind_weight b (skeleton r) = kind_weight b r"
  by (simp add: kind_weight_def skeleton_def)

lemma sum_weights_skeleton:
  "sum_list (map (kind_weight b) rows) = sum_list (map (kind_weight b) (map skeleton rows))"
  by (simp add: comp_def)

lemma sum_list_concat_replicate:
  "sum_list (map f (concat (replicate n xs))) = sum_list (map f xs) * (n::nat)"
  by (induction n) simp_all

lemma estimate_coordinate_counts:
  assumes "estimate_coordinate rc graph wt e (i, dims) = Inr e'"
  shows "\<exists>rowss. mapR (compile_instance rc wt graph) (instances_at rc dims) = Inr rowss \<and>
    we_nodes e' = we_nodes e + length (concat rowss) \<and> we_runners e' = we_runners e + length (concat rowss) \<and>
    we_requests e' = we_requests e +
      sum_list (map (kind_weight (nat (planned_worker_count (wt_benchmark wt)))) (concat rowss))"
proof -
  let ?trials = "ti_trials (rc_instances rc)" and ?w = "kind_weight (nat (planned_worker_count (wt_benchmark wt)))"
  from assms obtain rows where
    rows: "graph_expand graph (instance_context_of rc dims 0) (''estimate-'' @ str_nat i) = Inr rows"
    and wt: "validate_worker_template rows wt = Inr ()"
    and e': "we_nodes e' = we_nodes e + length rows * ?trials"
      "we_runners e' = we_runners e + length rows * ?trials"
      "we_requests e' = we_requests e + sum_list (map ?w rows) * ?trials"
    by (auto simp: estimate_coordinate_def Let_def parallel_request_groups_def)
  have len: "length (instances_at rc dims) = ?trials" by (simp add: instances_at_def)
  obtain rowss where rowss: "mapR (compile_instance rc wt graph) (instances_at rc dims) = Inr rowss"
    and sk: "map skeleton (concat rowss) = concat (replicate ?trials (map skeleton rows))"
    using mapR_uniform [of "instances_at rc dims" "compile_instance rc wt graph", OF compile_instance_same [OF rows wt]]
    unfolding len by blast
  have "length (concat rowss) = length (map skeleton (concat rowss))" by (rule length_map [symmetric])
  also have "\<dots> = length rows * ?trials" unfolding sk by (simp add: length_concat sum_list_replicate)
  finally have n: "length (concat rowss) = length rows * ?trials" .
  have "sum_list (map ?w (concat rowss)) = sum_list (map ?w rows) * ?trials"
    unfolding sum_weights_skeleton [of _ "concat rowss"] sum_weights_skeleton [of _ rows] sk
    by (rule sum_list_concat_replicate)
  with rowss n e' show ?thesis by simp
qed

lemma estimate_fold_counts:
  assumes "foldR (estimate_coordinate rc graph wt) e (enumerate i coords) = Inr e'"
  shows "\<exists>rowss. mapR (compile_instance rc wt graph) (concat (map (instances_at rc) coords)) = Inr rowss \<and>
    we_nodes e' = we_nodes e + length (concat rowss) \<and> we_runners e' = we_runners e + length (concat rowss) \<and>
    we_requests e' = we_requests e +
      sum_list (map (kind_weight (nat (planned_worker_count (wt_benchmark wt)))) (concat rowss))"
  using assms
proof (induction coords arbitrary: i e)
  case (Cons dims coords)
  then obtain e1 where e1: "estimate_coordinate rc graph wt e (i, dims) = Inr e1"
    and rest: "foldR (estimate_coordinate rc graph wt) e1 (enumerate (Suc i) coords) = Inr e'" by auto
  from estimate_coordinate_counts [OF e1] obtain r1 where
    r1: "mapR (compile_instance rc wt graph) (instances_at rc dims) = Inr r1"
    "we_nodes e1 = we_nodes e + length (concat r1)" "we_runners e1 = we_runners e + length (concat r1)"
    "we_requests e1 = we_requests e +
      sum_list (map (kind_weight (nat (planned_worker_count (wt_benchmark wt)))) (concat r1))" by blast
  from Cons.IH [OF rest] obtain r2 where
    r2: "mapR (compile_instance rc wt graph) (concat (map (instances_at rc) coords)) = Inr r2"
    "we_nodes e' = we_nodes e1 + length (concat r2)" "we_runners e' = we_runners e1 + length (concat r2)"
    "we_requests e' = we_requests e1 +
      sum_list (map (kind_weight (nat (planned_worker_count (wt_benchmark wt)))) (concat r2))" by blast
  from r1(1) r2(1) have "mapR (compile_instance rc wt graph) (concat (map (instances_at rc) (dims # coords))) = Inr (r1 @ r2)"
    by (simp add: mapR_append)
  with r1(2-) r2(2-) show ?case by (intro exI [of _ "r1 @ r2"]) simp
qed simp

section \<open>Instance keys\<close>

text \<open>Every coordinate lists the same sorted names, so a key is a sequence of terminated fields.\<close>

definition key_fields :: "dimensions \<Rightarrow> string" where
  "key_fields dims = concat (map (\<lambda>(k, v). k @ ''='' @ str_int v @ '';'') dims)"

lemma join_terminated: "xs \<noteq> [] \<Longrightarrow> join '';'' xs @ '';'' = concat (map (\<lambda>x. x @ '';'') xs)"
  by (induction xs rule: induct_list012) auto

lemma join_nonempty: "xs \<noteq> [] \<Longrightarrow> hd xs \<noteq> [] \<Longrightarrow> join s xs \<noteq> []"
  by (cases xs rule: list.exhaust; cases "tl xs") auto

lemma instance_key_fields:
  assumes "sorted (map fst dims)"
  shows "instance_key dims t = key_fields dims @ ''trial='' @ str_nat t"
proof (cases dims)
  case Nil
  then show ?thesis by (simp add: instance_key_def coordinates_def key_fields_def)
next
  case (Cons kv rest)
  let ?kv = "\<lambda>(k, v). k @ ''='' @ str_int v"
  have "sort_key fst dims = dims" using assms by (rule sort_key_id_if_sorted)
  then have c: "coordinates dims = join '';'' (map ?kv dims)" by (simp add: coordinates_def)
  have "coordinates dims \<noteq> []" unfolding c by (rule join_nonempty) (use Cons in \<open>auto split: prod.splits\<close>)
  moreover have "coordinates dims @ '';'' = key_fields dims"
  proof -
    have "key_fields dims = concat (map (\<lambda>x. x @ '';'') (map ?kv dims))"
      by (simp add: key_fields_def comp_def case_prod_unfold)
    with join_terminated [of "map ?kv dims"] Cons show ?thesis unfolding c by simp
  qed
  ultimately show ?thesis unfolding instance_key_def by (metis append_Cons append_Nil append_assoc)
qed

lemma key_fields_inj:
  "length vs = length ns \<Longrightarrow> length vs' = length ns \<Longrightarrow>
   key_fields (zip ns vs) @ s = key_fields (zip ns vs') @ s' \<Longrightarrow> vs = vs' \<and> s = s'"
proof (induction ns arbitrary: vs vs')
  case (Cons n ns)
  then obtain v us v' us' where vs: "vs = v # us" "vs' = v' # us'" by (metis length_Suc_conv)
  from Cons.prems(3) have "str_int v @ CHR '';'' # (key_fields (zip ns us) @ s) =
      str_int v' @ CHR '';'' # (key_fields (zip ns us') @ s')"
    by (simp add: key_fields_def vs)
  moreover have "CHR '';'' \<notin> set (str_int i)" for i using str_int_chars [of "CHR '';''" i] by auto
  ultimately have eq: "str_int v = str_int v' \<and> key_fields (zip ns us) @ s = key_fields (zip ns us') @ s'"
    using field_unique by metis
  have "length us = length ns" "length us' = length ns" using Cons.prems vs by simp_all
  with Cons.IH eq str_int_inj show ?case unfolding vs by blast
qed (simp add: key_fields_def)

definition recipe_ok :: "task_recipe \<Rightarrow> bool" where
  "recipe_ok rc \<longleftrightarrow> distinct (map fst (ti_matrix (rc_instances rc))) \<and> validate_instances (rc_instances rc) = Inr ()"

lemma recipe_ok_values:
  assumes "recipe_ok rc" and "(n, vs) \<in> set (ti_matrix (rc_instances rc))"
  shows "distinct vs"
proof -
  from assms obtain us where "mapR (\<lambda>(name, vs).
         rbind (raise_if (name = [] \<or> 64 < length name)
                  (ValueError ''task matrix dimension names must contain 1-64 chars'')) (\<lambda>_.
         rbind (raise_if (vs = [] \<or> 100 < length vs)
                  (ValueError ''task matrix dimensions require 1-100 values'')) (\<lambda>_.
         raise_if (length (remdups vs) \<noteq> length vs)
           (ValueError ''task matrix dimension values must be unique''))))
       (ti_matrix (rc_instances rc)) = Inr us"
    unfolding recipe_ok_def validate_instances_def by auto
  from mapR_raise_cases [OF this assms(2)] show ?thesis
    by (simp add: length_remdups_eq remdups_id_iff_distinct)
qed

lemma coordinates_vector:
  assumes "dims \<in> set (matrix_coordinates rc)"
  obtains vs where "dims = zip (dimension_names rc) vs" and "length vs = length (dimension_names rc)"
  using assms in_set_product_lists_length by (fastforce simp: matrix_coordinates_def Let_def)

lemma map_fst_coordinates:
  "dims \<in> set (matrix_coordinates rc) \<Longrightarrow> map fst dims = dimension_names rc"
  by (erule coordinates_vector) simp

lemma distinct_matrix_coordinates:
  assumes "recipe_ok rc"
  shows "distinct (matrix_coordinates rc)"
proof -
  let ?xss = "map (\<lambda>n. default [] (map_of (ti_matrix (rc_instances rc)) n)) (dimension_names rc)"
  have "distinct xs" if "xs \<in> set ?xss" for xs
  proof -
    from that obtain n where n: "xs = default [] (map_of (ti_matrix (rc_instances rc)) n)" by auto
    show ?thesis
    proof (cases "map_of (ti_matrix (rc_instances rc)) n")
      case (Some vs)
      from recipe_ok_values [OF assms map_of_SomeD [OF this]] n Some show ?thesis by simp
    qed (use n in simp)
  qed
  then have "distinct (product_lists ?xss)" by (intro distinct_product_lists) simp
  moreover have "inj_on (zip (dimension_names rc)) (set (product_lists ?xss))"
    by (rule inj_onI) (metis in_set_product_lists_length length_map map_snd_zip)
  ultimately show ?thesis by (simp add: matrix_coordinates_def Let_def distinct_map)
qed

lemma instance_key_inj:
  assumes "dims \<in> set (matrix_coordinates rc)" and "dims' \<in> set (matrix_coordinates rc)"
    and "instance_key dims t = instance_key dims' t'"
  shows "dims = dims' \<and> t = t'"
proof -
  from assms(1) obtain vs where d: "dims = zip (dimension_names rc) vs" and l: "length vs = length (dimension_names rc)"
    by (rule coordinates_vector)
  from assms(2) obtain vs' where d': "dims' = zip (dimension_names rc) vs'" and l': "length vs' = length (dimension_names rc)"
    by (rule coordinates_vector)
  have "sorted (dimension_names rc)" by (simp add: dimension_names_def)
  with assms map_fst_coordinates have "key_fields dims @ ''trial='' @ str_nat t = key_fields dims' @ ''trial='' @ str_nat t'"
    by (metis instance_key_fields)
  from key_fields_inj [OF l l' this [unfolded d d']] str_nat_inj show ?thesis by (auto simp: d d')
qed

lemma distinct_instance_keys:
  assumes "recipe_ok rc"
  shows "distinct (map ci_key (all_instances rc))"
proof -
  have "distinct (map ci_key (concat (map (instances_at rc) coords)))"
    if "set coords \<subseteq> set (matrix_coordinates rc)" and "distinct coords" for coords
    using that
  proof (induction coords)
    case (Cons dims coords)
    then have dims: "dims \<in> set (matrix_coordinates rc)" by simp
    have "distinct (map ci_key (instances_at rc dims))"
      unfolding instances_at_def by (auto simp: distinct_map inj_on_def dest: instance_key_inj [OF dims dims])
    moreover have "ci_key ` set (instances_at rc dims) \<inter> ci_key ` set (concat (map (instances_at rc) coords)) = {}"
    proof -
      have "instance_key dims t \<noteq> instance_key dims' t'" if "dims' \<in> set coords" for dims' t t'
        using instance_key_inj [OF dims, of dims' t t'] that Cons.prems by auto
      then show ?thesis by (force simp: instances_at_def)
    qed
    ultimately show ?case using Cons by simp
  qed simp
  then show ?thesis using distinct_matrix_coordinates [OF assms] by (simp add: all_instances_concat)
qed

section \<open>The estimate is exact\<close>

lemma compile_instance_key:
  assumes "compile_instance rc wt graph inst = Inr rows" and "r \<in> set rows"
  shows "cn_instance_key r = ci_key inst"
proof -
  from assms(1) have "graph_expand graph (instance_context_of rc (ci_dimensions inst) (ci_trial_index inst)) (ci_key inst) = Inr rows"
    by (auto simp: compile_instance_def)
  from graph_expand_rows_ok [OF this] assms(2) show ?thesis by (auto simp: rows_ok_def list_all_iff row_ok_def)
qed

lemma mapR_all_ok: "(\<And>x. x \<in> set xs \<Longrightarrow> f x = Inr ()) \<Longrightarrow> mapR f xs = Inr (map (\<lambda>_. ()) xs)"
  by (induction xs) simp_all

lemma make_table_ok:
  assumes "recipe_ok rc" and "mapR (compile_instance rc wt graph) (all_instances rc) = Inr rowss"
  shows "make_table (all_instances rc) (concat rowss) = Inr \<lparr>ct_instances = all_instances rc, ct_nodes = concat rowss\<rparr>"
proof -
  have "cn_instance_key r \<in> set (map ci_key (all_instances rc))" if "r \<in> set (concat rowss)" for r
  proof -
    from that obtain rows where rows: "rows \<in> set rowss" "r \<in> set rows" by auto
    from assms(2) rows(1) obtain inst where inst: "inst \<in> set (all_instances rc)"
      and c: "compile_instance rc wt graph inst = Inr rows" by (rule mapR_memberE)
    from compile_instance_key [OF c rows(2)] inst show ?thesis by simp
  qed
  then have "mapR (\<lambda>r. raise_if (cn_instance_key r \<notin> set (map ci_key (all_instances rc)))
        (ValueError (''compiled node references unknown instance '' @ cn_instance_key r))) (concat rowss)
      = Inr (map (\<lambda>_. ()) (concat rowss))"
    by (intro mapR_all_ok) simp
  moreover have "length (remdups (map ci_key (all_instances rc))) = length (all_instances rc)"
    using distinct_instance_keys [OF assms(1)] by (metis distinct_remdups_id length_map)
  ultimately show ?thesis unfolding make_table_def by simp
qed

lemma length_all_instances:
  "length (all_instances rc) = length (matrix_coordinates rc) * ti_trials (rc_instances rc)"
  by (simp add: all_instances_def length_concat comp_def sum_list_triv)

text \<open>
  C30.  What \<open>estimate\<close> admits, \<open>compile\<close> produces: whenever the estimate of a validated recipe
  succeeds, compilation with the same Runner template succeeds too, for every trial, and the
  table has exactly the estimated number of instances and nodes, one Runner per node, and as many
  Workers as estimated (the batch size for a run, one for an invocation).
\<close>

theorem compile_matches_estimate:
  assumes "recipe_ok rc" and "estimate rc requests_per_actor (Some wt) = Inr e"
  shows "\<exists>t. compile rc wt = Inr t \<and> length (ct_instances t) = we_instances e \<and>
    length (ct_nodes t) = we_nodes e \<and> length (ct_nodes t) = we_runners e \<and>
    sum_list (map (kind_weight (nat (planned_worker_count (wt_benchmark wt)))) (ct_nodes t)) = we_requests e \<and>
    distinct (map ci_key (ct_instances t))"
proof -
  from assms(2) obtain graph e1 where graph: "graph_from_recipe rc = Inr graph"
    and fold: "foldR (estimate_coordinate rc graph wt) no_estimate (enumerate 0 (matrix_coordinates rc)) = Inr e1"
    and e: "e = e1\<lparr>we_instances := length (matrix_coordinates rc) * ti_trials (rc_instances rc),
        we_peak_actors := nat ((int (we_peak_requests e1) + requests_per_actor - 1) div requests_per_actor)\<rparr>"
    by (auto simp: estimate_def)
  from estimate_fold_counts [OF fold] obtain rowss where
    rowss: "mapR (compile_instance rc wt graph) (all_instances rc) = Inr rowss"
    and counts: "we_nodes e1 = length (concat rowss)" "we_runners e1 = length (concat rowss)"
      "we_requests e1 = sum_list (map (kind_weight (nat (planned_worker_count (wt_benchmark wt)))) (concat rowss))"
    unfolding all_instances_concat no_estimate_def by auto
  let ?t = "\<lparr>ct_instances = all_instances rc, ct_nodes = concat rowss\<rparr>"
  have "compile rc wt = Inr ?t"
    unfolding compile_def by (simp add: graph rowss make_table_ok [OF assms(1) rowss] del: rbind_eq_Inr)
  then show ?thesis
    using counts distinct_instance_keys [OF assms(1)]
    by (intro exI [of _ ?t]) (simp add: e length_all_instances)
qed

definition example_recipe :: task_recipe where
  "example_recipe = \<lparr>rc_name = ''example'',
     rc_instances = \<lparr>ti_matrix = [(''n'', [1, 2])], ti_trials = 3, ti_seed = 11111, ti_scope = TrialScope\<rparr>,
     rc_payloads = [(''p'', \<lparr>payload_seed_name = ''s'', payload_text = None\<rparr>)],
     rc_workflow = [Repeat ''warm'' (Dimension ''n'') no_delay (Invoke ''a'' ''p'' None no_delay [])]\<rparr>"

lemma example_recipe_estimate:
  "estimate example_recipe 4 (Some empty_template) =
     Inr \<lparr>we_instances = 6, we_nodes = 9, we_runners = 9, we_requests = 9, we_peak_runners = 6,
          we_max_concurrency = 1, we_peak_requests = 6, we_peak_actors = 2\<rparr>"
proof -
  have coords: "matrix_coordinates example_recipe = [[(''n'', 1)], [(''n'', 2)]]"
    by (simp add: matrix_coordinates_def dimension_names_def example_recipe_def Let_def)
  have graph: "graph_from_recipe example_recipe = Inr (rc_workflow example_recipe)"
    by (simp add: graph_from_recipe_def example_recipe_def MAX_GRAPH_DEPTH_def)
  show ?thesis
    unfolding estimate_def graph coords
    by (simp add: estimate_coordinate_def graph_expand_def expand_roots_def serially_def
      example_recipe_def instance_context_of_def invoke_emission_def emit_after_def emit_def payload_seed_def
      repeat_items_def resolve_value_def MAX_REPEAT_COUNT_def MAX_NODES_PER_INSTANCE_def
      qualified_name_def qualified_reference_def node_references_def check_row_def Let_def
      upt_rec str_nat.simps digit_def validate_worker_template_def empty_template_def empty_benchmark_def
      requires_single_worker_def graph_peak_def weights_of_def kind_weight_def batch_concurrency_def
      planned_worker_count_def parallel_request_groups_def no_estimate_def py_max_def)
qed

theorem compile_matches_estimate_witness:
  "\<exists>t. compile example_recipe empty_template = Inr t \<and> length (ct_instances t) = 6 \<and> length (ct_nodes t) = 9"
proof -
  have "recipe_ok example_recipe"
    by (simp add: recipe_ok_def example_recipe_def validate_instances_def check_seed_integer_def)
  from compile_matches_estimate [OF this example_recipe_estimate] show ?thesis by auto
qed

end
