(* ===== verification/Task_Assemble.thy ===== *)
theory Task_Assemble
  imports Task_Estimate
begin

text \<open>
  \<open>TaskAssembler\<close> of \<open>compiler/tasks.py\<close>: runtime identities for the compiled rows and the
  Runner template of every node.  Identifiers come from a factory; its \<open>i\<close>-th call returns
  \<open>ident i\<close>, and the theorems assume that two calls never return the same identifier, which is
  what \<open>uuid4\<close> is used for.  The configuration models that re-validate the benchmark document
  are outside: the template is the document handed to them.
\<close>

section \<open>Templates\<close>

record task_context =
  tc_definition_id :: string
  tc_instance_id :: string
  tc_node_id :: string
  tc_role :: string
  tc_trial_index :: nat
  tc_dimensions :: dimensions
  tc_kind :: execution_kind
  tc_dataset_seed :: "int option"
  tc_seed_version :: "string option"
  tc_shared_prefix_seed :: "int option"
  tc_prefix_seed_version :: "string option"
  tc_payload_id :: "string option"
  tc_payload_seed :: "int option"
  tc_message_sources :: "string list option"
  tc_prompt_text :: "string option"

record runner_template =
  rt_label :: string
  rt_benchmark :: benchmark
  rt_dataset_seed :: int
  rt_shared_prefix_seed :: "int option"
  rt_task_context :: task_context

record compile_context =
  cc_definition_id :: string
  cc_definition_name :: string
  cc_definition :: task_recipe
  cc_label :: "string option"
  cc_template :: worker_template

text \<open>The seed fields a batch node adds, and those an atomic invocation adds.\<close>

definition batch_context :: "task_recipe \<Rightarrow> compiled_instance \<Rightarrow> compiled_node \<Rightarrow> task_context \<Rightarrow> task_context" where
  "batch_context rc inst r tc =
     (let tc = tc\<lparr>tc_dataset_seed := Some (cn_payload_seed r), tc_seed_version := Some ''batch-v1''\<rparr>;
          family = (ti_scope (rc_instances rc) = FamilyScope)
      in case cn_prefix_seed r of
           Some s \<Rightarrow> tc\<lparr>tc_seed_version := Some (if family then ''family-suffix-v1'' else ''batch-v1''),
                        tc_shared_prefix_seed := Some s, tc_prefix_seed_version := Some ''explicit-prefix-v1''\<rparr>
         | None \<Rightarrow>
             if family
             then tc\<lparr>tc_seed_version := Some ''family-suffix-v1'',
                     tc_shared_prefix_seed := Some (family_prefix_seed
                       \<lparr>ic_seed = ti_seed (rc_instances rc), ic_dimensions = ci_dimensions inst,
                        ic_trial_index = ci_trial_index inst, ic_payloads = rc_payloads rc,
                        ic_scope = FamilyScope\<rparr>),
                     tc_prefix_seed_version := Some ''family-prefix-v1''\<rparr>
             else tc)"

definition base_context :: "compile_context \<Rightarrow> compiled_instance \<Rightarrow> compiled_node \<Rightarrow> string \<Rightarrow> task_context" where
  "base_context cc inst r instance_id =
     \<lparr>tc_definition_id = cc_definition_id cc, tc_instance_id = instance_id, tc_node_id = cn_node_id r,
      tc_role = cn_role r, tc_trial_index = ci_trial_index inst, tc_dimensions = ci_dimensions inst,
      tc_kind = cn_kind r, tc_dataset_seed = None, tc_seed_version = None, tc_shared_prefix_seed = None,
      tc_prefix_seed_version = None, tc_payload_id = None, tc_payload_seed = None,
      tc_message_sources = None, tc_prompt_text = None\<rparr>"

definition runner_label :: "compile_context \<Rightarrow> compiled_node \<Rightarrow> string" where
  "runner_label cc r = take 200 (or_else (cc_label cc) (cc_definition_name cc) @ '':'' @ cn_node_id r)"

text \<open>\<open>_runner_template\<close>.\<close>

definition make_template :: "compile_context \<Rightarrow> compiled_instance \<Rightarrow> compiled_node \<Rightarrow> string \<Rightarrow> runner_template res" where
  "make_template cc inst r instance_id =
     (let b = wt_benchmark (cc_template cc); tc = base_context cc inst r instance_id
      in rbind (raise_if (cn_message_sources r \<noteq> [] \<and> wt_adapter (cc_template cc) = Some ''vertexai'')
                 (ValueError ''VertexAI prediction adapter does not support structured message reuse'')) (\<lambda>_.
         rbind (raise_if (cn_message_sources r \<noteq> [] \<and> ''messages'' \<in> set (wt_sampling_keys (cc_template cc)))
                 (ValueError ''Reused messages cannot be overridden by sampling messages'')) (\<lambda>_.
         if cn_kind r = Batch
         then let tc = batch_context (cc_definition cc) inst r tc
              in Inr \<lparr>rt_label = runner_label cc r, rt_benchmark = b, rt_dataset_seed = cn_payload_seed r,
                      rt_shared_prefix_seed = tc_shared_prefix_seed tc, rt_task_context = tc\<rparr>
         else if \<not> requires_single_worker b
         then Inl (ValueError ''invoke requires a single Worker template; use run for request steps or repetition'')
         else Inr \<lparr>rt_label = runner_label cc r,
                   rt_benchmark = b\<lparr>bm_repeat := Some 1, bm_concurrent_workers := Some 1\<rparr>,
                   rt_dataset_seed = cn_payload_seed r, rt_shared_prefix_seed = None,
                   rt_task_context = tc\<lparr>tc_payload_id := cn_payload_id r, tc_payload_seed := Some (cn_payload_seed r),
                     tc_message_sources := Some (cn_message_sources r), tc_prompt_text := cn_prompt_text r\<rparr>\<rparr>)))"

section \<open>Assembly\<close>

record node_assembly =
  na_node_id :: string
  na_dispatch_id :: string
  na_dependencies :: "string list"
  na_after_seconds :: rat
  na_runner_template :: runner_template
  na_role :: string
  na_payload_id :: "string option"
  na_parallel_leader :: "string option"
  na_parallel_size :: nat

record instance_assembly =
  ia_instance_id :: string
  ia_instance_key :: string
  ia_dimensions :: dimensions
  ia_trial_index :: nat
  ia_nodes :: "node_assembly list"

definition assemble_node ::
    "compile_context \<Rightarrow> compiled_instance \<Rightarrow> string \<Rightarrow> (string \<rightharpoonup> string) \<Rightarrow> (string \<rightharpoonup> string \<times> nat) \<Rightarrow>
     compiled_node \<Rightarrow> node_assembly res" where
  "assemble_node cc inst instance_id dispatch_ids memberships r =
     rbind (mapR (lookup dispatch_ids) (cn_dependencies r)) (\<lambda>deps.
     rbind (lookup dispatch_ids (cn_node_id r)) (\<lambda>dispatch.
     rbind (make_template cc inst r instance_id) (\<lambda>template.
       Inr \<lparr>na_node_id = cn_node_id r, na_dispatch_id = dispatch, na_dependencies = deps,
            na_after_seconds = cn_after_seconds r, na_runner_template = template, na_role = cn_role r,
            na_payload_id = cn_payload_id r,
            na_parallel_leader = map_option fst (memberships (cn_node_id r)),
            na_parallel_size = (case memberships (cn_node_id r) of Some (_, n) \<Rightarrow> n | None \<Rightarrow> 1)\<rparr>)))"

definition dispatch_map :: "(nat \<Rightarrow> string) \<Rightarrow> nat \<Rightarrow> compiled_node list \<Rightarrow> string \<rightharpoonup> string" where
  "dispatch_map ident k rows = map_of (rev (zip (map cn_node_id rows) (map ident [k ..< k + length rows])))"

definition group_memberships :: "(string \<rightharpoonup> string) \<Rightarrow> compiled_node list \<Rightarrow> string \<rightharpoonup> string \<times> nat" where
  "group_memberships dispatch_ids rows =
     map_of (concat (map (\<lambda>g. map (\<lambda>r. (cn_node_id r, (default [] (dispatch_ids (cn_node_id (hd g))), length g))) g)
       (filter (\<lambda>g. 1 < length g) (parallel_request_groups rows))))"

definition assemble_instance ::
    "compile_context \<Rightarrow> compilation_table \<Rightarrow> (nat \<Rightarrow> string) \<Rightarrow> instance_assembly list \<times> nat \<Rightarrow> compiled_instance \<Rightarrow>
     (instance_assembly list \<times> nat) res" where
  "assemble_instance cc t ident = (\<lambda>(done, k) inst.
     rbind (nodes_for t (ci_key inst)) (\<lambda>rows.
       let dispatch_ids = dispatch_map ident (Suc k) rows
       in rbind (mapR (assemble_node cc inst (ident k) dispatch_ids (group_memberships dispatch_ids rows)) rows) (\<lambda>nodes.
            Inr (done @ [\<lparr>ia_instance_id = ident k, ia_instance_key = ci_key inst,
                          ia_dimensions = ci_dimensions inst, ia_trial_index = ci_trial_index inst,
                          ia_nodes = nodes\<rparr>], Suc k + length rows))))"

definition assemble :: "compile_context \<Rightarrow> compilation_table \<Rightarrow> (nat \<Rightarrow> string) \<Rightarrow> instance_assembly list res" where
  "assemble cc t ident =
     rbind (foldR (assemble_instance cc t ident) ([], 0) (ct_instances t)) (\<lambda>(assemblies, _). Inr assemblies)"

section \<open>The assembled graph\<close>

definition assembly_edges :: "node_assembly list \<Rightarrow> (string \<times> string list) list" where
  "assembly_edges nodes = map (\<lambda>n. (na_dispatch_id n, na_dependencies n)) nodes"

lemma topological_rename:
  "topological S xs \<Longrightarrow> inj_on f (S \<union> fst ` set xs) \<Longrightarrow>
   topological (f ` S) (map (\<lambda>(n, ds). (f n, map f ds)) xs)"
proof (induction S xs rule: topological.induct)
  case (2 S n ds xs)
  have "inj_on f (insert n S \<union> fst ` set xs)" by (rule inj_on_subset [OF "2.prems"(2)]) auto
  with 2 have "topological (f ` insert n S) (map (\<lambda>(n, ds). (f n, map f ds)) xs)" by simp
  moreover have "f n \<notin> f ` S"
    using "2.prems" by (auto simp: inj_on_def)
  ultimately show ?case using "2.prems"(1) by auto
qed simp

lemma dispatch_map_nth:
  assumes "distinct (map cn_node_id rows)" and "i < length rows"
  shows "dispatch_map ident k rows (cn_node_id (rows ! i)) = Some (ident (k + i))"
proof -
  let ?z = "zip (map cn_node_id rows) (map ident [k ..< k + length rows])"
  have "distinct (map fst (rev ?z))" using assms(1) by (simp add: rev_map [symmetric])
  moreover have "(cn_node_id (rows ! i), ident (k + i)) \<in> set (rev ?z)"
    using assms(2) by (auto simp: set_zip intro!: exI [of _ i])
  ultimately show ?thesis unfolding dispatch_map_def by (rule map_of_is_SomeI)
qed

lemma dispatch_map_range:
  assumes "distinct (map cn_node_id rows)" and "n \<in> ids rows"
  shows "\<exists>i. i < length rows \<and> n = cn_node_id (rows ! i) \<and> dispatch_map ident k rows n = Some (ident (k + i))"
proof -
  from assms(2) obtain i where "i < length rows" "n = cn_node_id (rows ! i)"
    by (auto simp: ids_def in_set_conv_nth)
  with dispatch_map_nth [OF assms(1), of i ident k] show ?thesis by blast
qed

lemma dispatch_map_inj:
  assumes "distinct (map cn_node_id rows)" and "inj ident"
  shows "inj_on (\<lambda>n. the (dispatch_map ident k rows n)) (ids rows)"
proof (rule inj_onI)
  fix a b assume a: "a \<in> ids rows" and b: "b \<in> ids rows"
    and eq: "the (dispatch_map ident k rows a) = the (dispatch_map ident k rows b)"
  from dispatch_map_range [OF assms(1) a, of ident k] dispatch_map_range [OF assms(1) b, of ident k] eq
  obtain i j where "a = cn_node_id (rows ! i)" "b = cn_node_id (rows ! j)" "ident (k + i) = ident (k + j)" by auto
  with injD [OF assms(2)] show "a = b" by fastforce
qed

lemma mapR_lookup: "(\<And>x. x \<in> set xs \<Longrightarrow> m x \<noteq> None) \<Longrightarrow> mapR (lookup m) xs = Inr (map (\<lambda>x. the (m x)) xs)"
proof (induction xs)
  case (Cons x xs)
  then obtain v where "m x = Some v" by auto
  with Cons show ?case by (simp add: lookup_def)
qed simp

lemma topological_members: "topological S xs \<Longrightarrow> (n, ds) \<in> set xs \<Longrightarrow> set ds \<subseteq> S \<union> fst ` set xs"
  by (induction S xs rule: topological.induct) auto

lemma node_edges_ids: "fst ` set (node_edges rows) = ids rows"
  by (force simp: node_edges_def ids_def)

text \<open>What assembly needs of the rows of one instance.\<close>

definition assemblable :: "compile_context \<Rightarrow> compilation_table \<Rightarrow> compiled_instance \<Rightarrow> compiled_node list \<Rightarrow> bool" where
  "assemblable cc t inst rows \<longleftrightarrow> nodes_for t (ci_key inst) = Inr rows \<and> topological {} (node_edges rows) \<and>
     (\<forall>r \<in> set rows. \<forall>iid. \<exists>tm. make_template cc inst r iid = Inr tm)"

lemma assemble_nodes_ok:
  assumes top: "topological {} (node_edges rows)"
    and tm: "\<And>r iid. r \<in> set rows \<Longrightarrow> \<exists>tm. make_template cc inst r iid = Inr tm"
    and inj: "inj ident" and d_def: "d = dispatch_map ident k rows"
  shows "\<exists>nodes. mapR (assemble_node cc inst iid d ms) rows = Inr nodes \<and>
    map na_node_id nodes = map cn_node_id rows \<and> topological {} (assembly_edges nodes) \<and>
    fst ` set (assembly_edges nodes) \<subseteq> ident ` {k ..< k + length rows}"
proof -
  let ?f = "\<lambda>n. the (d n)"
  have dist: "distinct (map cn_node_id rows)"
    using topological_distinct [OF top] by (simp add: node_edges_def comp_def)
  have dom: "d n \<noteq> None" if "n \<in> ids rows" for n
    using dispatch_map_range [OF dist that, of ident k] by (auto simp: d_def)
  have "\<exists>n. assemble_node cc inst iid d ms r = Inr n \<and> na_node_id n = cn_node_id r \<and>
      na_dispatch_id n = ?f (cn_node_id r) \<and> na_dependencies n = map ?f (cn_dependencies r)" if r: "r \<in> set rows" for r
  proof -
    have "(cn_node_id r, cn_dependencies r) \<in> set (node_edges rows)" using r by (auto simp: node_edges_def)
    from topological_members [OF top this] have "set (cn_dependencies r) \<subseteq> ids rows" by (simp add: node_edges_ids)
    then have "mapR (lookup d) (cn_dependencies r) = Inr (map ?f (cn_dependencies r))"
      using dom by (intro mapR_lookup) blast
    moreover have "lookup d (cn_node_id r) = Inr (?f (cn_node_id r))"
      using dom [of "cn_node_id r"] r by (auto simp: lookup_def ids_def)
    moreover obtain tm where "make_template cc inst r iid = Inr tm" using tm [OF r] by blast
    ultimately show ?thesis by (simp add: assemble_node_def)
  qed
  then have "\<exists>nodes. mapR (assemble_node cc inst iid d ms) rows = Inr nodes \<and>
      map na_node_id nodes = map cn_node_id rows \<and>
      assembly_edges nodes = map (\<lambda>(n, ds). (?f n, map ?f ds)) (node_edges rows)"
    by (induction rows) (fastforce simp: assembly_edges_def node_edges_def)+
  then obtain nodes where nodes: "mapR (assemble_node cc inst iid d ms) rows = Inr nodes"
    "map na_node_id nodes = map cn_node_id rows"
    and edges: "assembly_edges nodes = map (\<lambda>(n, ds). (?f n, map ?f ds)) (node_edges rows)" by blast
  have "topological {} (assembly_edges nodes)"
    unfolding edges using topological_rename [OF top, of ?f] dispatch_map_inj [OF dist inj, of k]
    by (simp add: node_edges_ids d_def)
  moreover have "fst ` set (assembly_edges nodes) = ?f ` ids rows"
    unfolding edges node_edges_ids [symmetric] by force
  moreover have "?f ` ids rows \<subseteq> ident ` {k ..< k + length rows}"
    using dispatch_map_range [OF dist, of _ ident k] by (fastforce simp: d_def)
  ultimately show ?thesis using nodes by auto
qed

lemma topological_disjoint_append:
  assumes "topological {} xs" and "topological {} ys" and "fst ` set xs \<inter> fst ` set ys = {}"
  shows "topological {} (xs @ ys)"
  using assms topological_mono [OF assms(2), of "fst ` set xs"] by (auto simp: topological_append Int_commute)

lemma assemble_fold:
  assumes "list_all2 (assemblable cc t) insts rowss" and "inj ident"
    and "topological {} (assembly_edges (concat (map ia_nodes done)))"
    and "fst ` set (assembly_edges (concat (map ia_nodes done))) \<subseteq> ident ` {..< k}"
  shows "\<exists>as k'. foldR (assemble_instance cc t ident) (done, k) insts = Inr (done @ as, k') \<and>
    map ia_instance_key as = map ci_key insts \<and>
    map na_node_id (concat (map ia_nodes as)) = map cn_node_id (concat rowss) \<and>
    topological {} (assembly_edges (concat (map ia_nodes (done @ as))))"
  using assms(1,3,4)
proof (induction insts rowss arbitrary: "done" k rule: list_all2_induct)
  case Nil
  then show ?case by simp
next
  case (Cons inst insts rows rowss)
  from Cons.hyps(1) have nf: "nodes_for t (ci_key inst) = Inr rows" and top: "topological {} (node_edges rows)"
    and tm: "\<And>r iid. r \<in> set rows \<Longrightarrow> \<exists>tm. make_template cc inst r iid = Inr tm"
    by (auto simp: assemblable_def)
  let ?d = "dispatch_map ident (Suc k) rows"
  obtain nodes where nodes: "mapR (assemble_node cc inst (ident k) ?d (group_memberships ?d rows)) rows = Inr nodes"
    and names: "map na_node_id nodes = map cn_node_id rows" and ntop: "topological {} (assembly_edges nodes)"
    and range: "fst ` set (assembly_edges nodes) \<subseteq> ident ` {Suc k ..< Suc k + length rows}"
    using assemble_nodes_ok [OF top tm assms(2) refl, of "ident k" "Suc k" "group_memberships ?d rows"] by blast
  let ?a = "\<lparr>ia_instance_id = ident k, ia_instance_key = ci_key inst, ia_dimensions = ci_dimensions inst,
      ia_trial_index = ci_trial_index inst, ia_nodes = nodes\<rparr>"
  have step: "assemble_instance cc t ident (done, k) inst = Inr (done @ [?a], Suc k + length rows)"
    using nf nodes by (simp add: assemble_instance_def Let_def)
  have edges: "assembly_edges (concat (map ia_nodes (done @ [?a]))) =
      assembly_edges (concat (map ia_nodes done)) @ assembly_edges nodes"
    by (simp add: assembly_edges_def)
  have "ident ` {..< k} \<inter> ident ` {Suc k ..< Suc k + length rows} = {}"
    unfolding image_Int [OF assms(2), symmetric] by auto
  with Cons.prems(2) range have disj: "fst ` set (assembly_edges (concat (map ia_nodes done))) \<inter>
      fst ` set (assembly_edges nodes) = {}" by blast
  have top': "topological {} (assembly_edges (concat (map ia_nodes (done @ [?a]))))"
    unfolding edges by (rule topological_disjoint_append [OF Cons.prems(1) ntop disj])
  have "{..< k} \<subseteq> {..< Suc k + length rows}" "{Suc k ..< Suc k + length rows} \<subseteq> {..< Suc k + length rows}" by auto
  note le = image_mono [OF this(1), of ident] image_mono [OF this(2), of ident]
  then have range': "fst ` set (assembly_edges (concat (map ia_nodes (done @ [?a])))) \<subseteq> ident ` {..< Suc k + length rows}"
    unfolding edges set_append image_Un
    by (intro Un_least order_trans [OF Cons.prems(2) le(1)] order_trans [OF range le(2)])
  from Cons.IH [OF top' range'] obtain as k' where
    as: "foldR (assemble_instance cc t ident) (done @ [?a], Suc k + length rows) insts = Inr ((done @ [?a]) @ as, k')"
    "map ia_instance_key as = map ci_key insts" "map na_node_id (concat (map ia_nodes as)) = map cn_node_id (concat rowss)"
    "topological {} (assembly_edges (concat (map ia_nodes ((done @ [?a]) @ as))))" by blast
  show ?case
  proof (intro exI conjI)
    show "foldR (assemble_instance cc t ident) (done, k) (inst # insts) = Inr (done @ (?a # as), k')"
      using step as(1) by simp
    show "map ia_instance_key (?a # as) = map ci_key (inst # insts)" using as(2) by simp
    show "map na_node_id (concat (map ia_nodes (?a # as))) = map cn_node_id (concat (rows # rowss))"
      using names as(3) by simp
    show "topological {} (assembly_edges (concat (map ia_nodes (done @ ?a # as))))" using as(4) by simp
  qed
qed

section \<open>From the recipe to the assembled graph\<close>

lemma nodes_of_instance:
  assumes "list_all2 (\<lambda>inst rows. \<forall>r \<in> set rows. cn_instance_key r = ci_key inst) insts rowss"
    and "distinct (map ci_key insts)"
  shows "list_all2 (\<lambda>inst rows. filter (\<lambda>r. cn_instance_key r = ci_key inst) (concat rowss) = rows) insts rowss"
  using assms
proof (induction insts rowss rule: list_all2_induct)
  case (Cons inst insts rows rowss)
  have own: "filter (\<lambda>r. cn_instance_key r = ci_key inst) rows = rows"
    using Cons.hyps(1) by simp
  have "cn_instance_key r \<noteq> ci_key inst" if "r \<in> set (concat rowss)" for r
  proof -
    from that obtain j where "j < length rowss" "r \<in> set (rowss ! j)" by (metis in_set_conv_nth set_concat UN_E)
    with Cons.hyps(2) have "cn_instance_key r = ci_key (insts ! j)" "insts ! j \<in> set insts"
      by (auto simp: list_all2_conv_all_nth)
    with Cons.prems show ?thesis by (metis distinct.simps(2) imageI list.set_map list.simps(9))
  qed
  then have none: "filter (\<lambda>r. cn_instance_key r = ci_key inst) (concat rowss) = []"
    by (simp add: filter_empty_conv)
  have other: "filter (\<lambda>r. cn_instance_key r = ci_key i) rows = []" if "i \<in> set insts" for i
    using Cons.hyps(1) Cons.prems that by (auto simp: filter_empty_conv)
  have "list_all2 (\<lambda>i rs. filter (\<lambda>r. cn_instance_key r = ci_key i) (concat rowss) = rs) insts rowss"
    using Cons.IH Cons.prems by simp
  then have "list_all2 (\<lambda>i rs. filter (\<lambda>r. cn_instance_key r = ci_key i) (rows @ concat rowss) = rs) insts rowss"
    using other by (auto simp: list_all2_conv_all_nth)
  with own none show ?case by simp
qed simp

lemma make_template_ok:
  assumes "validate_worker_template rows (cc_template cc) = Inr ()" and "r \<in> set rows"
  shows "\<exists>tm. make_template cc inst r iid = Inr tm"
  using assms by (cases "cn_kind r") (auto simp: make_template_def validate_worker_template_def Let_def list_ex_iff)

lemma compile_assemblable:
  assumes "recipe_ok rc" and "compile rc (cc_template cc) = Inr t"
  shows "\<exists>rowss. list_all2 (assemblable cc t) (ct_instances t) rowss \<and> ct_nodes t = concat rowss"
proof -
  from assms(2) obtain graph rowss where graph: "graph_from_recipe rc = Inr graph"
    and rowss: "mapR (compile_instance rc (cc_template cc) graph) (all_instances rc) = Inr rowss"
    and mk: "make_table (all_instances rc) (concat rowss) = Inr t"
    by (auto simp: compile_def)
  from mk make_table_ok [OF assms(1) rowss] have t: "t = \<lparr>ct_instances = all_instances rc, ct_nodes = concat rowss\<rparr>" by simp
  have each: "list_all2 (\<lambda>inst rows. compile_instance rc (cc_template cc) graph inst = Inr rows) (all_instances rc) rowss"
    using rowss by (simp add: mapR_Inr_iff)
  have keys: "list_all2 (\<lambda>inst rows. \<forall>r \<in> set rows. cn_instance_key r = ci_key inst) (all_instances rc) rowss"
    by (rule list_all2_mono [OF each]) (use compile_instance_key in blast)
  note filt = nodes_of_instance [OF keys distinct_instance_keys [OF assms(1)]]
  have "assemblable cc t (all_instances rc ! i) (rowss ! i)" if i: "i < length (all_instances rc)" for i
  proof -
    let ?inst = "all_instances rc ! i" and ?rows = "rowss ! i"
    from each i have c: "compile_instance rc (cc_template cc) graph ?inst = Inr ?rows"
      by (auto simp: list_all2_conv_all_nth)
    then have g: "graph_expand graph (instance_context_of rc (ci_dimensions ?inst) (ci_trial_index ?inst)) (ci_key ?inst) = Inr ?rows"
      and v: "validate_worker_template ?rows (cc_template cc) = Inr ()" by (auto simp: compile_instance_def)
    from filt i have "filter (\<lambda>r. cn_instance_key r = ci_key ?inst) (concat rowss) = ?rows"
      by (auto simp: list_all2_conv_all_nth)
    then have "nodes_for t (ci_key ?inst) = Inr ?rows" using i by (simp add: t nodes_for_def)
    with graph_expand_topological [OF g] make_template_ok [OF v] show ?thesis by (simp add: assemblable_def)
  qed
  moreover have "length rowss = length (all_instances rc)" using each by (simp add: list_all2_lengthD)
  ultimately have "list_all2 (assemblable cc t) (ct_instances t) rowss" by (simp add: t list_all2_conv_all_nth)
  with t show ?thesis by auto
qed

text \<open>
  Assembly of a compiled table always succeeds and yields, over all instances, a graph of
  pairwise distinct dispatch identifiers in which every dependency is the identifier of an
  earlier node, in the order of the compiled rows, provided the factory never repeats itself.
\<close>

theorem assemble_graph:
  assumes "recipe_ok rc" and "compile rc (cc_template cc) = Inr t" and "inj ident"
  shows "\<exists>as. assemble cc t ident = Inr as \<and>
    map ia_instance_key as = map ci_key (ct_instances t) \<and>
    map na_node_id (concat (map ia_nodes as)) = map cn_node_id (ct_nodes t) \<and>
    topological {} (assembly_edges (concat (map ia_nodes as)))"
proof -
  from compile_assemblable [OF assms(1,2)] obtain rowss where
    rowss: "list_all2 (assemblable cc t) (ct_instances t) rowss" and n: "ct_nodes t = concat rowss" by blast
  from assemble_fold [OF rowss assms(3), of "[]" 0] show ?thesis
    unfolding assemble_def n by (auto simp: assembly_edges_def)
qed

definition example_compile_context :: compile_context where
  "example_compile_context = \<lparr>cc_definition_id = ''d'', cc_definition_name = ''example'',
     cc_definition = example_recipe, cc_label = None, cc_template = empty_template\<rparr>"

lemma inj_numbered: "inj (\<lambda>i. ''id-'' @ str_nat i)"
  by (auto intro!: injI dest: str_nat_inj)

lemma example_compiles: "\<exists>t. compile example_recipe empty_template = Inr t"
proof -
  have "foldR (estimate_coordinate example_recipe (rc_workflow example_recipe) empty_template) no_estimate
      (enumerate 0 (matrix_coordinates example_recipe)) \<noteq> Inl x" for x
    using example_recipe_estimate
    by (cases "foldR (estimate_coordinate example_recipe (rc_workflow example_recipe) empty_template) no_estimate
      (enumerate 0 (matrix_coordinates example_recipe))")
       (auto simp: estimate_def graph_from_recipe_def)
  then obtain e where "foldR (estimate_coordinate example_recipe (rc_workflow example_recipe) empty_template) no_estimate
      (enumerate 0 (matrix_coordinates example_recipe)) = Inr e"
    by (metis sum.exhaust)
  from estimate_fold_counts [OF this] obtain rowss where
    "mapR (compile_instance example_recipe empty_template (rc_workflow example_recipe)) (all_instances example_recipe) = Inr rowss"
    unfolding all_instances_concat by blast
  moreover have "recipe_ok example_recipe"
    by (simp add: recipe_ok_def example_recipe_def validate_instances_def check_seed_integer_def)
  moreover have "graph_from_recipe example_recipe = Inr (rc_workflow example_recipe)"
    by (simp add: graph_from_recipe_def example_recipe_def MAX_GRAPH_DEPTH_def)
  ultimately show ?thesis using make_table_ok by (auto simp: compile_def)
qed

theorem assemble_graph_witness:
  "\<exists>t as. compile example_recipe empty_template = Inr t \<and>
     assemble example_compile_context t (\<lambda>i. ''id-'' @ str_nat i) = Inr as \<and>
     topological {} (assembly_edges (concat (map ia_nodes as)))"
proof -
  from example_compiles obtain t where t: "compile example_recipe (cc_template example_compile_context) = Inr t"
    by (auto simp: example_compile_context_def)
  have "recipe_ok example_recipe"
    by (simp add: recipe_ok_def example_recipe_def validate_instances_def check_seed_integer_def)
  from assemble_graph [OF this t inj_numbered] t show ?thesis by (auto simp: example_compile_context_def)
qed

end
