(* ===== verification/Task_Span.thy ===== *)
theory Task_Span
  imports Task_Assemble
begin

text \<open>
  The two graph-level estimates of \<open>compiler/tasks.py\<close> that validation and admission read:
  \<open>_planned_span\<close> is the critical path of the delays, and \<open>estimate_token_budget\<close> never meets a
  message source whose history it has not computed.
\<close>

section \<open>The planned span is the critical path\<close>

text \<open>A dependency chain, latest node first.\<close>

fun linked :: "compiled_node list \<Rightarrow> bool" where
  "linked [] \<longleftrightarrow> True"
| "linked [x] \<longleftrightarrow> True"
| "linked (y # x # zs) \<longleftrightarrow> cn_node_id x \<in> set (cn_dependencies y) \<and> linked (x # zs)"

definition chain_seconds :: "compiled_node list \<Rightarrow> rat" where
  "chain_seconds c = sum_list (map cn_after_seconds c)"

lemma py_max_Max: "py_max d xs = (if xs = [] then d else Max (set xs))"
  by (cases xs) (simp_all add: py_max_def Max.set_eq_fold del: list.set)

lemma py_max_ge: "x \<in> set xs \<Longrightarrow> x \<le> py_max d xs"
  by (auto simp: py_max_Max)

lemma py_max_mem: "xs \<noteq> [] \<Longrightarrow> py_max d xs \<in> set xs"
  by (simp add: py_max_Max)

definition solves_span :: "(string \<Rightarrow> rat) \<Rightarrow> compiled_node list \<Rightarrow> bool" where
  "solves_span off rows \<longleftrightarrow> (\<forall>r \<in> set rows.
     off (cn_node_id r) = py_max 0 (map off (cn_dependencies r)) + cn_after_seconds r)"

lemma span_loop_solution:
  "topological (dom m) (node_edges rows) \<Longrightarrow>
   \<exists>off. (\<forall>n v. m n = Some v \<longrightarrow> off n = v) \<and> solves_span off rows \<and>
     span_loop m acc rows = Inr (acc @ map (\<lambda>r. off (cn_node_id r)) rows)"
proof (induction m acc rows rule: span_loop.induct)
  case (1 m acc)
  have "\<forall>n v. m n = Some v \<longrightarrow> the (m n) = v" by simp
  then show ?case by (intro exI [of _ "\<lambda>n. the (m n)"]) (simp add: solves_span_def)
next
  case (2 m acc r rows)
  then have deps: "set (cn_dependencies r) \<subseteq> dom m" and new: "cn_node_id r \<notin> dom m"
    and top: "topological (insert (cn_node_id r) (dom m)) (node_edges rows)" by (auto simp: node_edges_def)
  let ?ds = "map (\<lambda>d. the (m d)) (cn_dependencies r)"
  let ?v = "py_max 0 ?ds + cn_after_seconds r"
  have ds: "mapR (lookup m) (cn_dependencies r) = Inr ?ds"
    using deps by (intro mapR_lookup) blast
  have "topological (dom (m(cn_node_id r \<mapsto> ?v))) (node_edges rows)" using top by (simp only: dom_prior_upd)
  from "2.IH" [OF ds refl this] obtain off where
    ext: "\<And>n v. (m(cn_node_id r \<mapsto> ?v)) n = Some v \<Longrightarrow> off n = v" and sol: "solves_span off rows"
    and loop: "span_loop (m(cn_node_id r \<mapsto> ?v)) (acc @ [?v]) rows =
      Inr ((acc @ [?v]) @ map (\<lambda>r. off (cn_node_id r)) rows)" by blast
  have old: "off n = v" if "m n = Some v" for n v
  proof -
    from that new have "n \<noteq> cn_node_id r" by auto
    with that show ?thesis by (intro ext) simp
  qed
  have "off (cn_node_id r) = ?v" using ext [of "cn_node_id r"] by simp
  moreover have "map off (cn_dependencies r) = ?ds"
    using deps old by (force intro: map_cong)
  ultimately have "solves_span off (r # rows)" using sol by (simp add: solves_span_def del: map_eq_conv)
  moreover have "span_loop m acc (r # rows) = Inr (acc @ map (\<lambda>r. off (cn_node_id r)) (r # rows))"
    using ds loop \<open>off (cn_node_id r) = ?v\<close> by (simp add: Let_def)
  ultimately show ?case using old by blast
qed

lemma chain_below_offset:
  "solves_span off rows \<Longrightarrow> linked (y # c) \<Longrightarrow> set (y # c) \<subseteq> set rows \<Longrightarrow> \<forall>r \<in> set rows. 0 \<le> off (cn_node_id r) \<Longrightarrow>
   \<forall>r \<in> set rows. \<forall>d \<in> set (cn_dependencies r). d \<in> ids rows \<Longrightarrow>
   chain_seconds (y # c) \<le> off (cn_node_id y)"
proof (induction c arbitrary: y)
  case Nil
  then have eq: "off (cn_node_id y) = py_max 0 (map off (cn_dependencies y)) + cn_after_seconds y"
    by (auto simp: solves_span_def)
  have "0 \<le> py_max 0 (map off (cn_dependencies y))"
  proof (cases "cn_dependencies y = []")
    case False
    then have "py_max 0 (map off (cn_dependencies y)) \<in> off ` set (cn_dependencies y)"
      using py_max_mem [of "map off (cn_dependencies y)"] by simp
    then obtain d where d: "d \<in> set (cn_dependencies y)" "py_max 0 (map off (cn_dependencies y)) = off d" by auto
    with Nil.prems have "d \<in> ids rows" by auto
    with Nil.prems(4) d(2) show ?thesis by (auto simp: ids_def)
  qed (simp add: py_max_def)
  with eq show ?case by (simp add: chain_seconds_def)
next
  case (Cons x c)
  then have "chain_seconds (x # c) \<le> off (cn_node_id x)" by simp
  moreover have "off (cn_node_id x) \<le> py_max 0 (map off (cn_dependencies y))"
    using Cons.prems(2) by (intro py_max_ge) simp
  moreover have "off (cn_node_id y) = py_max 0 (map off (cn_dependencies y)) + cn_after_seconds y"
    using Cons.prems(1,3) by (simp add: solves_span_def)
  ultimately show ?case by (simp add: chain_seconds_def)
qed

lemma offset_attained:
  "topological {} (node_edges rows) \<Longrightarrow> solves_span off rows \<Longrightarrow> r \<in> set rows \<Longrightarrow>
   \<exists>c. linked (r # c) \<and> set c \<subseteq> set rows \<and> chain_seconds (r # c) = off (cn_node_id r)"
proof (induction rows arbitrary: r rule: rev_induct)
  case (snoc x rows)
  have top: "topological {} (node_edges rows)" and deps: "set (cn_dependencies x) \<subseteq> ids rows"
    using snoc.prems(1) by (auto simp: node_edges_def topological_append ids_def)
  have sol: "solves_span off rows"
    and x: "off (cn_node_id x) = py_max 0 (map off (cn_dependencies x)) + cn_after_seconds x"
    using snoc.prems(2) by (auto simp: solves_span_def)
  show ?case
  proof (cases "r \<in> set rows")
    case True
    from snoc.IH [OF top sol True] show ?thesis by auto
  next
    case False
    with snoc.prems(3) have r: "r = x" by simp
    show ?thesis
    proof (cases "cn_dependencies x = []")
      case True
      with x r show ?thesis by (intro exI [of _ "[]"]) (simp add: py_max_def chain_seconds_def)
    next
      case False
      then have "py_max 0 (map off (cn_dependencies x)) \<in> off ` set (cn_dependencies x)"
        using py_max_mem [of "map off (cn_dependencies x)"] by simp
      with deps obtain p where p: "p \<in> set rows" "cn_node_id p \<in> set (cn_dependencies x)"
        "py_max 0 (map off (cn_dependencies x)) = off (cn_node_id p)" by (auto simp: ids_def)
      from snoc.IH [OF top sol p(1)] obtain c where
        "linked (p # c)" "set c \<subseteq> set rows" "chain_seconds (p # c) = off (cn_node_id p)" by blast
      with p x r show ?thesis by (intro exI [of _ "p # c"]) (auto simp: chain_seconds_def)
    qed
  qed
qed simp

lemma offsets_nonneg:
  "topological {} (node_edges rows) \<Longrightarrow> solves_span off rows \<Longrightarrow> \<forall>r \<in> set rows. 0 \<le> cn_after_seconds r \<Longrightarrow>
   r \<in> set rows \<Longrightarrow> 0 \<le> off (cn_node_id r)"
proof -
  assume a: "topological {} (node_edges rows)" "solves_span off rows" "r \<in> set rows"
    and b: "\<forall>r \<in> set rows. 0 \<le> cn_after_seconds r"
  from offset_attained [OF a] obtain c where "set (r # c) \<subseteq> set rows" "chain_seconds (r # c) = off (cn_node_id r)"
    using a(3) by auto
  moreover from this(1) b have "0 \<le> chain_seconds (r # c)"
    unfolding chain_seconds_def by (intro sum_list_nonneg) auto
  ultimately show ?thesis by simp
qed

text \<open>
  C35.  The planned span of an expanded graph is defined and is its critical path: no dependency
  chain accumulates more delay, and some chain accumulates exactly that much.
\<close>

theorem planned_span_critical_path:
  assumes "graph_expand roots ic key = Inr rows" and "rows \<noteq> []"
  shows "\<exists>s. planned_span rows = Inr s \<and>
    (\<forall>c. c \<noteq> [] \<and> set c \<subseteq> set rows \<and> linked c \<longrightarrow> chain_seconds c \<le> s) \<and>
    (\<exists>c. c \<noteq> [] \<and> set c \<subseteq> set rows \<and> linked c \<and> chain_seconds c = s)"
proof -
  note top = graph_expand_topological [OF assms(1)]
  from span_loop_solution [of Map.empty rows "[]"] top obtain off where sol: "solves_span off rows"
    and loop: "span_loop Map.empty [] rows = Inr (map (\<lambda>r. off (cn_node_id r)) rows)" by auto
  let ?offs = "map (\<lambda>r. off (cn_node_id r)) rows"
  have after: "\<forall>r \<in> set rows. 0 \<le> cn_after_seconds r"
    using graph_expand_rows_ok [OF assms(1)] by (auto simp: rows_ok_def list_all_iff row_ok_def)
  note nonneg = offsets_nonneg [OF top sol after]
  have deps: "\<forall>r \<in> set rows. \<forall>d \<in> set (cn_dependencies r). d \<in> ids rows"
    using topological_members [OF top] by (force simp: node_edges_def ids_def)
  have "chain_seconds c \<le> py_max 0 ?offs" if c: "c \<noteq> []" "set c \<subseteq> set rows" "linked c" for c
  proof -
    obtain y zs where y: "c = y # zs" using c(1) by (cases c) auto
    have "chain_seconds (y # zs) \<le> off (cn_node_id y)"
      by (rule chain_below_offset [OF sol]) (use c y deps nonneg in auto)
    also have "\<dots> \<le> py_max 0 ?offs" using c(2) y by (intro py_max_ge) auto
    finally show ?thesis by (simp add: y)
  qed
  moreover have "py_max 0 ?offs \<in> set ?offs" using assms(2) by (intro py_max_mem) simp
  then obtain r where r: "r \<in> set rows" "py_max 0 ?offs = off (cn_node_id r)" by auto
  from offset_attained [OF top sol r(1)] obtain c where "linked (r # c)" "set c \<subseteq> set rows"
    "chain_seconds (r # c) = py_max 0 ?offs" using r(2) by auto
  with r(1) have "\<exists>c. c \<noteq> [] \<and> set c \<subseteq> set rows \<and> linked c \<and> chain_seconds c = py_max 0 ?offs"
    by (intro exI [of _ "r # c"]) simp
  ultimately show ?thesis by (auto simp: planned_span_def loop)
qed

theorem planned_span_critical_path_witness:
  "\<exists>rows s. graph_expand example_roots example_context ''trial=0'' = Inr rows \<and> planned_span rows = Inr s"
proof -
  from example_expands obtain rows where rows: "graph_expand example_roots example_context ''trial=0'' = Inr rows"
    and "map cn_node_id rows = [''a'', ''both.b'', ''both.again.1.c'', ''both.again.2.c'', ''z'']" by metis
  then have "rows \<noteq> []" by auto
  from planned_span_critical_path [OF rows this] rows show ?thesis by blast
qed

section \<open>The token budget is total\<close>

lemma foldR_total: "(\<And>s x. x \<in> set xs \<Longrightarrow> \<exists>s'. f s x = Inr s') \<Longrightarrow> \<exists>t. foldR f s xs = Inr t"
proof (induction xs arbitrary: s)
  case (Cons x xs)
  then obtain s' where "f s x = Inr s'" by (metis list.set_intros(1))
  with Cons show ?case by simp
qed simp

lemma budget_rows_total:
  assumes "batch_budget mean_in mean_out b = Inr bb"
    and "\<And>pre r post m. rows = pre @ r # post \<Longrightarrow> cn_kind r = Atomic \<Longrightarrow> m \<in> set (cn_message_sources r) \<Longrightarrow>
      h m \<noteq> None \<or> (\<exists>x \<in> set pre. cn_node_id x = m \<and> cn_kind x = Atomic)"
  shows "\<exists>v. foldR (budget_row trials mean_in mean_out b) (acc, h) rows = Inr v"
  using assms(2)
proof (induction rows arbitrary: acc h)
  case (Cons r rows)
  have later: "h' m \<noteq> None \<or> (\<exists>x \<in> set pre. cn_node_id x = m \<and> cn_kind x = Atomic)"
    if "rows = pre @ q # post" "cn_kind q = Atomic" "m \<in> set (cn_message_sources q)"
      and "\<And>n. h n \<noteq> None \<or> (n = cn_node_id r \<and> cn_kind r = Atomic) \<Longrightarrow> h' n \<noteq> None" for pre q post m h'
    using Cons.prems [of "r # pre" q post m] that by auto
  show ?case
  proof (cases "cn_kind r")
    case Batch
    have "\<exists>v. foldR (budget_row trials mean_in mean_out b) (acc + bb * int trials, h) rows = Inr v"
      by (rule Cons.IH) (use later [of _ _ _ _ h] Batch in auto)
    with Batch assms(1) show ?thesis by (auto simp: budget_row_def)
  next
    case Atomic
    have "mapR (lookup h) (cn_message_sources r) = Inr (map (\<lambda>x. the (h x)) (cn_message_sources r))"
      using Cons.prems [of "[]" r rows] Atomic by (intro mapR_lookup) auto
    then obtain n where n: "budget_row trials mean_in mean_out b (acc, h) r =
        Inr (acc + n * int trials, h(cn_node_id r \<mapsto> n))"
      using Atomic by (auto simp: budget_row_def Let_def)
    have "\<exists>v. foldR (budget_row trials mean_in mean_out b) (acc + n * int trials, h(cn_node_id r \<mapsto> n)) rows = Inr v"
      by (rule Cons.IH) (rule later, auto)
    with n show ?thesis by auto
  qed
qed simp

lemma edge_earlier:
  assumes top: "topological {} (node_edges (pre @ r # post))"
    and "(m, k) \<in> dep_rel (pre @ r # post)" and k: "k \<in> insert (cn_node_id r) (ids pre)"
  shows "m \<in> ids pre"
proof -
  from assms(2) obtain q where q: "q \<in> set (pre @ r # post)" "cn_node_id q = k" "m \<in> set (cn_dependencies q)"
    by (auto simp: dep_rel_def)
  have ntop: "topological {} (node_edges pre)" "set (cn_dependencies r) \<subseteq> ids pre"
    "topological (insert (cn_node_id r) (ids pre)) (node_edges post)"
    using top by (simp_all add: node_edges_def topological_append ids_def image_image)
  from topological_distinct [OF ntop(3)] have "ids post \<inter> insert (cn_node_id r) (ids pre) = {}"
    by (simp add: node_edges_ids)
  with k q(2) have "q \<notin> set post" unfolding ids_def by blast
  with q(1) consider "q \<in> set pre" | "q = r" by auto
  then show ?thesis
  proof cases
    case 1
    then have "(cn_node_id q, cn_dependencies q) \<in> set (node_edges pre)" by (auto simp: node_edges_def)
    from topological_members [OF ntop(1) this] q(3) show ?thesis by (auto simp: node_edges_ids)
  qed (use q(3) ntop(2) in auto)
qed

lemma ancestor_earlier:
  assumes top: "topological {} (node_edges (pre @ r # post))"
    and "(m, cn_node_id r) \<in> (dep_rel (pre @ r # post))\<^sup>+"
  shows "m \<in> ids pre"
  using assms(2)
  by (induction rule: converse_trancl_induct) (use edge_earlier [OF top] in blast)+

lemma graph_budget_total:
  assumes "graph_expand graph ic key = Inr rows" and "batch_budget mean_in mean_out b = Inr bb"
  shows "\<exists>v. foldR (budget_row trials mean_in mean_out b) (acc, Map.empty) rows = Inr v"
proof (rule budget_rows_total [OF assms(2)])
  fix pre r post m
  assume rows: "rows = pre @ r # post" and m: "m \<in> set (cn_message_sources r)"
  note top = graph_expand_topological [OF assms(1)]
  have "r \<in> set rows" using rows by simp
  with graph_expand_sources [OF assms(1)] m obtain x where anc: "(m, cn_node_id r) \<in> (dep_rel rows)\<^sup>+"
    and x: "x \<in> set rows" "cn_node_id x = m" "cn_kind x = Atomic" by blast
  from ancestor_earlier [of pre r post m] top anc rows have "m \<in> ids pre" by simp
  then obtain x' where x': "x' \<in> set pre" "cn_node_id x' = m" by (auto simp: ids_def)
  have "distinct (map cn_node_id rows)" using graph_expand_rows_ok [OF assms(1)] by (simp add: rows_ok_def)
  with x x' rows have "x' = x" by (metis Un_iff distinct_map inj_onD set_append)
  with x' x(3) show "Map.empty m \<noteq> None \<or> (\<exists>x \<in> set pre. cn_node_id x = m \<and> cn_kind x = Atomic)" by auto
qed

text \<open>
  On a recipe whose coordinates all expand, the token estimate is defined as soon as the
  batch template's own estimate is: the history of every message source is known when its user
  is reached.
\<close>

theorem token_budget_total:
  assumes "graph_from_recipe rc = Inr graph"
    and "\<forall>(i, dims) \<in> set (enumerate 0 (matrix_coordinates rc)).
      \<exists>rows. graph_expand graph (instance_context_of rc dims 0) (''budget-'' @ str_nat i) = Inr rows"
    and "batch_budget mean_in mean_out b = Inr bb"
  shows "\<exists>n. estimate_token_budget rc mean_in mean_out b = Inr n"
proof -
  have "\<exists>n. foldR (budget_coordinate rc graph mean_in mean_out b) 0 (enumerate 0 (matrix_coordinates rc)) = Inr n"
  proof (rule foldR_total)
    fix acc c assume "c \<in> set (enumerate 0 (matrix_coordinates rc))"
    with assms(2) obtain i dims rows where c: "c = (i, dims)"
      and rows: "graph_expand graph (instance_context_of rc dims 0) (''budget-'' @ str_nat i) = Inr rows" by auto
    from graph_budget_total [OF rows assms(3), of "ti_trials (rc_instances rc)" acc] rows
    show "\<exists>n. budget_coordinate rc graph mean_in mean_out b acc c = Inr n"
      by (auto simp: c budget_coordinate_def)
  qed
  then show ?thesis by (simp add: estimate_token_budget_def assms(1))
qed

theorem token_budget_total_witness:
  "\<exists>n. estimate_token_budget example_recipe 550 150 None = Inr n"
proof (rule token_budget_total)
  show graph: "graph_from_recipe example_recipe = Inr (rc_workflow example_recipe)"
    by (simp add: graph_from_recipe_def example_recipe_def MAX_GRAPH_DEPTH_def)
  show "batch_budget 550 150 None = Inr 700"
    by (simp add: batch_budget_def planned_token_budget_def decode_plan_def empty_benchmark_def Let_def
        MAX_REQUEST_STEPS_def validate_graph_def worker_count_def step_prompt_tokens_def plain_spec_def
        spec_message_sources_def)
  have coords: "matrix_coordinates example_recipe = [[(''n'', 1)], [(''n'', 2)]]"
    by (simp add: matrix_coordinates_def dimension_names_def example_recipe_def Let_def)
  show "\<forall>(i, dims) \<in> set (enumerate 0 (matrix_coordinates example_recipe)).
      \<exists>rows. graph_expand (rc_workflow example_recipe) (instance_context_of example_recipe dims 0)
        (''budget-'' @ str_nat i) = Inr rows"
    unfolding coords
    by (simp add: graph_expand_def expand_roots_def serially_def
      example_recipe_def instance_context_of_def invoke_emission_def emit_after_def emit_def payload_seed_def
      repeat_items_def resolve_value_def MAX_REPEAT_COUNT_def MAX_NODES_PER_INSTANCE_def
      qualified_name_def qualified_reference_def node_references_def check_row_def Let_def
      upt_rec str_nat.simps digit_def)
qed

end
