(* ===== verification/Documents.thy ===== *)
theory Documents
  imports Triggers
begin

text \<open>
  The untyped values the backend stores and sends: what \<open>json_safe\<close> of
  \<open>storage/repository.py\<close> makes of an arbitrary Python value, and the redaction \<open>_log_value\<close> of
  \<open>runtime/messages.py\<close> that every completion passes before it reaches a log file.

  A document is a Python value.  A string in the format of \<open>datetime.isoformat\<close> is the
  constructor \<open>PTime\<close> with the time it denotes; every other string is \<open>PStr\<close>, and
  \<open>datetime.fromisoformat\<close> raises on it.  \<open>PScalar\<close> is an object with an \<open>item()\<close> method (a NumPy
  scalar) and what that method returns; \<open>PObject\<close> is any other object, by what \<open>str\<close> makes of it.
  A dictionary is the list of its items in insertion order.

  The lemmas show that \<open>json_safe\<close> always produces strict JSON and keeps strict JSON as it is, and
  that no path of a redacted document passes through a credential-bearing name.
\<close>

section \<open>Values\<close>

datatype pykey = KStr string | KOther string

datatype pyval =
    PNone
  | PBool bool
  | PInt int
  | PFloat pyfloat
  | PStr string
  | PTime timestamp
  | PList "pyval list"
  | PTuple "pyval list"
  | PDict "(pykey \<times> pyval) list"
  | PScalar pyval
  | PDatetime timestamp
  | PObject string

type_synonym pydict = "(pykey \<times> pyval) list"

fun key_text :: "pykey \<Rightarrow> string" where
  "key_text (KStr s) = s"
| "key_text (KOther s) = s"

text \<open>\<open>d[k] = v\<close>: an existing key keeps its position.\<close>

fun dict_set :: "'k \<Rightarrow> 'v \<Rightarrow> ('k \<times> 'v) list \<Rightarrow> ('k \<times> 'v) list" where
  "dict_set k v [] = [(k, v)]"
| "dict_set k v ((j, w) # d) = (if j = k then (k, v) # d else (j, w) # dict_set k v d)"

text \<open>\<open>d.get(name)\<close>.\<close>

definition dict_get :: "string \<Rightarrow> pydict \<Rightarrow> pyval" where
  "dict_get name d = (case map_of d (KStr name) of Some v \<Rightarrow> v | None \<Rightarrow> PNone)"

text \<open>\<open>x or {}\<close> for a document field that holds a dictionary or nothing, and \<open>dict.get\<close> on it.\<close>

fun as_dict :: "pyval \<Rightarrow> pydict" where
  "as_dict (PDict d) = d"
| "as_dict _ = []"

definition field :: "string \<Rightarrow> pyval \<Rightarrow> pyval" where
  "field name v = dict_get name (as_dict v)"

fun is_str :: "pyval \<Rightarrow> bool" where
  "is_str (PStr _) = True"
| "is_str (PTime _) = True"
| "is_str _ = False"

fun is_mapping :: "pyval \<Rightarrow> bool" where
  "is_mapping (PDict _) = True"
| "is_mapping _ = False"

text \<open>Python's truth value.\<close>

fun truthy :: "pyval \<Rightarrow> bool" where
  "truthy PNone = False"
| "truthy (PBool b) = b"
| "truthy (PInt i) = (i \<noteq> 0)"
| "truthy (PFloat x) = (x \<noteq> Fin 0)"
| "truthy (PStr s) = (s \<noteq> [])"
| "truthy (PList xs) = (xs \<noteq> [])"
| "truthy (PTuple xs) = (xs \<noteq> [])"
| "truthy (PDict d) = (d \<noteq> [])"
| "truthy (PScalar v) = truthy v"
| "truthy _ = True"

lemma map_of_dict_set [simp]: "map_of (dict_set k v d) = (map_of d)(k \<mapsto> v)"
  by (induction d) auto

lemma keys_dict_set: "fst ` set (dict_set k v d) = insert k (fst ` set d)"
  by (simp add: dom_map_of_conv_image_fst [symmetric])

lemma distinct_dict_set: "distinct (map fst d) \<Longrightarrow> distinct (map fst (dict_set k v d))"
proof (induction d)
  case (Cons a d)
  have "set (map fst (dict_set k v d)) = insert k (set (map fst d))"
    using keys_dict_set [of k v d] by simp
  with Cons show ?case by (cases a) auto
qed simp

lemma dict_get_set [simp]: "dict_get n (dict_set (KStr m) v d) = (if n = m then v else dict_get n d)"
  by (simp add: dict_get_def)

lemma field_PDict [simp]: "field n (PDict d) = dict_get n d"
  by (simp add: field_def)

text \<open>\<open>{f(k): g(v) for k, v in d.items()}\<close>: a later item replaces the value of an earlier one.\<close>

definition dict_of :: "('k \<times> 'v) list \<Rightarrow> ('k \<times> 'v) list" where
  "dict_of kvs = fold (\<lambda>(k, v). dict_set k v) kvs []"

lemma fold_dict_set_distinct:
  "distinct (map fst d) \<Longrightarrow> distinct (map fst (fold (\<lambda>(k, v). dict_set k v) kvs d))"
  by (induction kvs arbitrary: d) (auto simp: distinct_dict_set)

lemma fold_dict_set_append:
  "distinct (map fst (d @ kvs)) \<Longrightarrow> fold (\<lambda>(k, v). dict_set k v) kvs d = d @ kvs"
proof (induction kvs arbitrary: d)
  case (Cons kv kvs)
  obtain k v where kv: "kv = (k, v)" by (cases kv)
  have "k \<notin> fst ` set d \<Longrightarrow> dict_set k v d = d @ [(k, v)]" for k :: 'a and v :: 'b and d
    by (induction d) auto
  with Cons.prems kv have "dict_set k v d = d @ [(k, v)]" by auto
  with Cons kv show ?case by simp
qed simp

lemma dict_of_distinct: "distinct (map fst kvs) \<Longrightarrow> dict_of kvs = kvs"
  using fold_dict_set_append [of "[]" kvs] by (simp add: dict_of_def)

lemma distinct_dict_of: "distinct (map fst (dict_of kvs))"
  by (simp add: dict_of_def fold_dict_set_distinct)

lemma fold_dict_set_members:
  "set (fold (\<lambda>(k, v). dict_set k v) kvs d) \<subseteq> set d \<union> set kvs"
proof (induction kvs arbitrary: d)
  case (Cons kv kvs)
  have "set (dict_set k v d) \<subseteq> insert (k, v) (set d)" for k :: 'a and v :: 'b and d
    by (induction d) (auto split: if_splits)
  with Cons [of "dict_set (fst kv) (snd kv) d"] show ?case by (cases kv) fastforce
qed simp

lemma dict_of_members: "set (dict_of kvs) \<subseteq> set kvs"
  using fold_dict_set_members [of kvs "[]"] by (simp add: dict_of_def)

section \<open>Strict JSON\<close>

fun json_safe :: "pyval \<Rightarrow> pyval" where
  "json_safe (PFloat x) = (if is_finite x then PFloat x else PNone)"
| "json_safe (PDict d) = PDict (dict_of (map (\<lambda>(k, v). (KStr (key_text k), json_safe v)) d))"
| "json_safe (PList xs) = PList (map json_safe xs)"
| "json_safe (PTuple xs) = PList (map json_safe xs)"
| "json_safe (PScalar v) = json_safe v"
| "json_safe (PDatetime t) = PTime t"
| "json_safe (PObject s) = PStr s"
| "json_safe v = v"

text \<open>What PostgreSQL's encoder accepts: string keys, no duplicates, finite numbers.\<close>

fun is_json :: "pyval \<Rightarrow> bool" where
  "is_json (PFloat x) = is_finite x"
| "is_json (PDict d) \<longleftrightarrow> distinct (map fst d) \<and> (\<forall>(k, v) \<in> set d. (\<exists>s. k = KStr s) \<and> is_json v)"
| "is_json (PList xs) \<longleftrightarrow> (\<forall>x \<in> set xs. is_json x)"
| "is_json (PTuple _) = False"
| "is_json (PScalar _) = False"
| "is_json (PDatetime _) = False"
| "is_json (PObject _) = False"
| "is_json _ = True"

lemma json_safe_json: "is_json (json_safe v)"
proof (induction v rule: json_safe.induct)
  case (2 d)
  let ?kvs = "map (\<lambda>(k, v). (KStr (key_text k), json_safe v)) d"
  have "\<forall>(k, v) \<in> set ?kvs. (\<exists>s. k = KStr s) \<and> is_json v" using 2 by fastforce
  then show ?case using dict_of_members [of ?kvs] distinct_dict_of [of ?kvs] by auto
qed auto

lemma json_safe_id: "is_json v \<Longrightarrow> json_safe v = v"
proof (induction v rule: json_safe.induct)
  case (2 d)
  have "(case kv of (k, v) \<Rightarrow> (KStr (key_text k), json_safe v)) = kv" if kv: "kv \<in> set d" for kv
  proof -
    obtain k v where e: "kv = (k, v)" by (cases kv)
    with 2 kv have "json_safe v = v" "\<exists>s. k = KStr s" by fastforce+
    with e show ?thesis by auto
  qed
  then have "map (\<lambda>(k, v). (KStr (key_text k), json_safe v)) d = d"
    by (simp add: map_idI)
  with 2 show ?case by (simp add: dict_of_distinct)
qed (auto simp: map_idI split: if_splits)

text \<open>
  C26.  \<open>json_safe\<close> turns every Python value into strict JSON (finite numbers, string keys without
  duplicates, no tuples, times or objects), and returns strict JSON unchanged; so it is
  idempotent, and rewriting an already stored document does not alter it.
\<close>

theorem json_safe_type:
  "is_json (json_safe v) \<and> (is_json v \<longleftrightarrow> json_safe v = v) \<and> json_safe (json_safe v) = json_safe v"
  using json_safe_json [of v] json_safe_id [of v] json_safe_id [OF json_safe_json, of v] by metis

section \<open>Redaction\<close>

text \<open>\<open>name.lower().replace("-", "_")\<close> on ASCII names.\<close>

definition lower_char :: "char \<Rightarrow> char" where
  "lower_char c =
     (let n = of_char c :: nat in if 65 \<le> n \<and> n \<le> 90 then char_of (n + 32) else c)"

definition normalize_name :: "string \<Rightarrow> string" where
  "normalize_name s = map (\<lambda>c. let l = lower_char c in if l = CHR ''-'' then CHR ''_'' else l) s"

fun starts_with :: "string \<Rightarrow> string \<Rightarrow> bool" where
  "starts_with [] s = True"
| "starts_with (c # p) [] = False"
| "starts_with (c # p) (d # s) = (c = d \<and> starts_with p s)"

fun contains_text :: "string \<Rightarrow> string \<Rightarrow> bool" where
  "contains_text p [] = (p = [])"
| "contains_text p (c # s) = (starts_with p (c # s) \<or> contains_text p s)"

definition redacted_names :: "string list" where
  "redacted_names = [''headers'', ''response_headers'', ''base_url'', ''api_base'', ''error_msg'']"

definition redacted_fragments :: "string list" where
  "redacted_fragments = [''api_key'', ''apikey'', ''authorization'', ''password'', ''secret'',
     ''credential'', ''private_key'']"

definition sensitive :: "string \<Rightarrow> bool" where
  "sensitive name \<longleftrightarrow> (let n = normalize_name name
     in n \<in> set redacted_names \<or> list_ex (\<lambda>f. contains_text f n) redacted_fragments)"

fun log_value :: "pyval \<Rightarrow> pyval" where
  "log_value (PFloat x) = (if is_finite x then PFloat x else PNone)"
| "log_value (PList xs) = PList (map log_value xs)"
| "log_value (PDict d) =
     PDict (map (\<lambda>(k, v). (k, log_value v)) (filter (\<lambda>(k, v). \<not> sensitive (key_text k)) d))"
| "log_value v = v"

text \<open>The names on the way to a position of a document, and all such ways.\<close>

fun name_paths :: "pyval \<Rightarrow> string list set" where
  "name_paths (PDict d) =
     insert [] (\<Union>(k, v) \<in> set d. (\<lambda>p. key_text k # p) ` name_paths v)"
| "name_paths (PList xs) = insert [] (\<Union>x \<in> set xs. name_paths x)"
| "name_paths v = {[]}"

lemma contains_text_iff: "contains_text p s \<longleftrightarrow> (\<exists>a b. s = a @ p @ b)"
proof -
  have sw: "starts_with p s \<longleftrightarrow> (\<exists>b. s = p @ b)" for p s
    by (induction p s rule: starts_with.induct) auto
  show ?thesis
  proof (induction s)
    case (Cons c s)
    have "(\<exists>a b. c # s = a @ p @ b) \<longleftrightarrow> (\<exists>b. c # s = p @ b) \<or> (\<exists>a b. s = a @ p @ b)"
      by (metis Cons_eq_append_conv append_Cons append_Nil)
    with Cons sw show ?case by auto
  qed auto
qed

lemma log_value_paths:
  "name_paths (log_value v) = {p \<in> name_paths v. \<forall>n \<in> set p. \<not> sensitive n}"
proof (induction v rule: log_value.induct)
  case (3 d)
  have IH: "(k, v) \<in> set d \<Longrightarrow> \<not> sensitive (key_text k) \<Longrightarrow>
      name_paths (log_value v) = {p \<in> name_paths v. \<forall>n \<in> set p. \<not> sensitive n}" for k v
    using 3 [of "(k, v)" k v] by simp
  show ?case
    by (auto simp: IH image_iff) (use IH in fastforce)+
qed (auto split: if_splits)

lemma log_value_json: "is_json v \<Longrightarrow> is_json (log_value v)"
proof (induction v rule: log_value.induct)
  case (3 d)
  let ?d = "filter (\<lambda>(k, v). \<not> sensitive (key_text k)) d"
  have "map fst (map (\<lambda>(k, v). (k, log_value v)) ?d) = map fst ?d" by (auto simp: comp_def)
  moreover have "distinct (map fst ?d)" using 3(2) by (simp add: distinct_map_filter)
  moreover have "is_json (log_value v)" if "(k, v) \<in> set d" "\<not> sensitive (key_text k)" for k v
    using 3(1) [of "(k, v)" k v] 3(2) that by auto
  ultimately show ?case using 3(2) by (fastforce simp del: map_map)
qed auto

text \<open>
  C23.  Redaction removes exactly the positions of a document that lie under a credential-bearing
  name at any depth (a name that, lower-cased and with hyphens read as underscores, is one of the
  listed transport fields or contains one of the listed fragments), keeps every other position,
  and maps JSON to JSON.
\<close>

theorem log_value_redacts:
  "name_paths (log_value v) =
     {p \<in> name_paths v. \<forall>n \<in> set p. normalize_name n \<notin> set redacted_names \<and>
        (\<forall>f \<in> set redacted_fragments. \<nexists>a b. normalize_name n = a @ f @ b)} \<and>
   (is_json v \<longrightarrow> is_json (log_value v))"
proof -
  have "sensitive n \<longleftrightarrow> \<not> (normalize_name n \<notin> set redacted_names \<and>
        (\<forall>f \<in> set redacted_fragments. \<nexists>a b. normalize_name n = a @ f @ b))" for n
    by (simp add: sensitive_def Let_def list_ex_iff contains_text_iff)
  then show ?thesis using log_value_paths [of v] log_value_json [of v] by simp
qed

theorem log_value_redacts_witness:
  "log_value (PDict [(KStr ''X-Api-Key'', PStr ''k''), (KStr ''usage'', PList [PInt 3])])
     = PDict [(KStr ''usage'', PList [PInt 3])] \<and>
   name_paths (log_value (PDict [(KStr ''X-Api-Key'', PStr ''k''), (KStr ''usage'', PList [PInt 3])]))
     \<subseteq> name_paths (PDict [(KStr ''X-Api-Key'', PStr ''k''), (KStr ''usage'', PList [PInt 3])])"
proof
  show "log_value (PDict [(KStr ''X-Api-Key'', PStr ''k''), (KStr ''usage'', PList [PInt 3])])
     = PDict [(KStr ''usage'', PList [PInt 3])]"
    by code_simp
qed (use log_value_redacts in blast)

end
