(* ===== verification/Identifiers.thy ===== *)
theory Identifiers
  imports Hashing
begin

unbundle bit_operations_syntax

text \<open>
  The stable identifiers of \<open>storage/workers.py\<close> and \<open>storage/repository.py\<close>:
  \<open>uuid5(NAMESPACE_URL, name)\<close>, that is SHA-1 of the namespace and the name, cut to 128 bits with
  the version and variant bits set, in the usual grouping.  As for seeds, no theorem rests on the
  absence of collisions: identifiers are primary keys, and a collision is an insertion that fails.
\<close>

definition sha1_init :: "u32 list" where
  "sha1_init = [0x67452301, 0xEFCDAB89, 0x98BADCFE, 0x10325476, 0xC3D2E1F0]"

text \<open>\<open>2 ^ 30\<close> times the square roots of 2, 3, 5 and 10.\<close>

definition sha1_constant :: "nat \<Rightarrow> u32" where
  "sha1_constant t = of_int (iroot 2 34 ([2, 3, 5, 10] ! (t div 20) * 2 ^ 60) 0)"

definition sha1_mix :: "nat \<Rightarrow> u32 \<Rightarrow> u32 \<Rightarrow> u32 \<Rightarrow> u32" where
  "sha1_mix t b c d =
     (if t < 20 then (b AND c) OR (NOT b AND d)
      else if 40 \<le> t \<and> t < 60 then (b AND c) OR (b AND d) OR (c AND d)
      else b XOR c XOR d)"

fun sha1_schedule :: "nat \<Rightarrow> u32 list \<Rightarrow> u32 list" where
  "sha1_schedule 0 ws = rev ws"
| "sha1_schedule (Suc k) ws =
     sha1_schedule k (word_rotl 1 (ws ! 2 XOR ws ! 7 XOR ws ! 13 XOR ws ! 15) # ws)"

fun sha1_round :: "u32 list \<Rightarrow> nat \<times> u32 \<Rightarrow> u32 list" where
  "sha1_round [a, b, c, d, e] (t, w) =
     [word_rotl 5 a + sha1_mix t b c d + e + sha1_constant t + w, a, word_rotl 30 b, c, d]"
| "sha1_round s _ = s"

definition sha1_block :: "u32 list \<Rightarrow> int list \<Rightarrow> u32 list" where
  "sha1_block st block =
     (let ws = map (\<lambda>c. of_int (big_endian c)) (chunks 16 4 block)
      in map2 (+) st (foldl sha1_round st (zip [0 ..< 80] (sha1_schedule 64 (rev ws)))))"

definition sha1 :: "int list \<Rightarrow> u32 list" where
  "sha1 bytes =
     (let bs = sha_pad bytes in foldl sha1_block sha1_init (chunks (length bs div 64) 64 bs))"

section \<open>Version 5 identifiers\<close>

definition word_bytes :: "u32 \<Rightarrow> int list" where
  "word_bytes w = map (\<lambda>i. uint w div 256 ^ (3 - i) mod 256) [0 ..< 4]"

definition NAMESPACE_URL :: "int list" where
  "NAMESPACE_URL = [0x6b, 0xa7, 0xb8, 0x11, 0x9d, 0xad, 0x11, 0xd1,
                    0x80, 0xb4, 0x00, 0xc0, 0x4f, 0xd4, 0x30, 0xc8]"

definition hex_byte :: "int \<Rightarrow> string" where
  "hex_byte b = [''0123456789abcdef'' ! nat (b div 16), ''0123456789abcdef'' ! nat (b mod 16)]"

definition uuid_text :: "int list \<Rightarrow> string" where
  "uuid_text bs =
     (let h = concat (map hex_byte bs)
      in take 8 h @ ''-'' @ take 4 (drop 8 h) @ ''-'' @ take 4 (drop 12 h) @ ''-''
         @ take 4 (drop 16 h) @ ''-'' @ drop 20 h)"

definition uuid5 :: "int list \<Rightarrow> string \<Rightarrow> string" where
  "uuid5 namespace name =
     (let bs = take 16 (concat (map word_bytes (sha1 (namespace @ map of_char name))))
      in uuid_text (bs[6 := bs ! 6 mod 16 + 0x50, 8 := bs ! 8 mod 64 + 0x80]))"

definition worker_identity :: "string \<Rightarrow> string \<Rightarrow> string" where
  "worker_identity runner_id step_id =
     uuid5 NAMESPACE_URL (''llmperf:worker:'' @ runner_id @ '':'' @ step_id)"

definition completion_identity :: "string \<Rightarrow> string \<Rightarrow> string" where
  "completion_identity runner_id step_id =
     uuid5 NAMESPACE_URL (''llmperf:'' @ runner_id @ '':'' @ step_id @ '':completed'')"

end
