(* ===== verification/Planner.thy ===== *)
theory Planner
  imports Requests
begin

text \<open>
  The recurrence calculation of \<open>runtime/planner.py\<close>.  A wall-clock time is its number of
  microseconds since the epoch without offset; the time-zone database is a parameter: a zone gives
  the wall-clock time of an instant and the instant of a wall-clock time for either value of
  \<open>fold\<close>.  Configurations have passed their model validators.

  The lemmas show that an occurrence is never before the start and always strictly after the
  previous one, that intervals of whole microseconds stay on their grid, what a calendar
  occurrence is, and that intervals with a fraction of a microsecond can fire twice in a row.
\<close>

section \<open>Zones and recurrences\<close>

record zone =
  to_local :: "instant \<Rightarrow> int"
  from_local :: "int \<Rightarrow> bool \<Rightarrow> instant"

definition day_us :: int where
  "day_us = 86400000000"

datatype frequency = Daily | Weekly

record calendar =
  cal_frequency :: frequency
  cal_interval :: "nat option"
  cal_weekdays :: "nat list"
  cal_clock :: int

datatype recurrence = Interval duration | Calendar calendar

definition local_day :: "zone \<Rightarrow> instant \<Rightarrow> int" where
  "local_day z t = to_local z t div day_us"

text \<open>\<open>date.weekday()\<close>: the epoch was a Thursday.\<close>

definition weekday :: "int \<Rightarrow> nat" where
  "weekday day = nat ((day + 3) mod 7)"

text \<open>\<open>datetime.combine(day, clock)\<close> and the instants whose wall-clock time it is.\<close>

definition wall_time :: "int \<Rightarrow> int \<Rightarrow> int" where
  "wall_time day clk = day * day_us + clk"

definition local_candidates :: "int \<Rightarrow> int \<Rightarrow> zone \<Rightarrow> instant list" where
  "local_candidates day clk z =
     (let naive = wall_time day clk
      in sort (dedup (filter (\<lambda>i. to_local z i = naive) (map (from_local z naive) [False, True]))))"

definition calendar_matches :: "int \<Rightarrow> calendar \<Rightarrow> bool" where
  "calendar_matches day c \<longleftrightarrow> cal_frequency c = Daily \<or> weekday day \<in> set (cal_weekdays c)"

definition cal_step :: "calendar \<Rightarrow> int" where
  "cal_step c = (case cal_interval c of Some n \<Rightarrow> if n = 0 then 1 else int n | None \<Rightarrow> 1)"

definition period_matches :: "calendar \<Rightarrow> int \<Rightarrow> int \<Rightarrow> bool" where
  "period_matches c start_day day \<longleftrightarrow>
     (let distance = day - start_day
      in 0 \<le> distance \<and>
         (if cal_frequency c = Daily then distance mod cal_step c = 0
          else (distance div 7) mod cal_step c = 0))"

datatype adjustment =
    Nonexistent_Local_Time int
  | Ambiguous_Local_Time int instant "instant list"

section \<open>Occurrences\<close>

fun calendar_loop ::
    "nat \<Rightarrow> zone \<Rightarrow> calendar \<Rightarrow> int \<Rightarrow> instant \<Rightarrow> int \<Rightarrow> adjustment list \<Rightarrow> (instant \<times> adjustment list) res" where
  "calendar_loop 0 z c start_day lower day adj =
     Inl (ValueError ''unable to find a bounded calendar occurrence'')"
| "calendar_loop (Suc n) z c start_day lower day adj =
     (if period_matches c start_day day \<and> calendar_matches day c
      then case local_candidates day (cal_clock c) z of
        [] \<Rightarrow> calendar_loop n z c start_day lower (day + 1)
                (adj @ [Nonexistent_Local_Time (wall_time day (cal_clock c))])
      | i # is \<Rightarrow>
          if lower \<le> i
          then Inr (i, adj @ (if is = [] then [] else
                 [Ambiguous_Local_Time (wall_time day (cal_clock c)) i (i # is)]))
          else calendar_loop n z c start_day lower (day + 1) adj
      else calendar_loop n z c start_day lower (day + 1) adj)"

definition CALENDAR_DAYS :: nat where
  "CALENDAR_DAYS = 366 * 200"

definition lower_bound :: "instant \<Rightarrow> instant option \<Rightarrow> instant" where
  "lower_bound start after = (case after of None \<Rightarrow> start | Some a \<Rightarrow> max start (a + 1))"

definition next_interval :: "rat \<Rightarrow> instant \<Rightarrow> instant \<Rightarrow> instant" where
  "next_interval seconds start lower =
     (let elapsed = of_int (lower - start) / 1000000;
          steps = \<lfloor>elapsed / seconds\<rfloor>;
          candidate = start + timedelta (of_int steps * seconds)
      in if candidate < lower then candidate + timedelta seconds else candidate)"

definition next_fire_details ::
    "zone \<Rightarrow> recurrence \<Rightarrow> instant \<Rightarrow> instant option \<Rightarrow> (instant \<times> adjustment list) res" where
  "next_fire_details z rec start after =
     (let lower = lower_bound start after
      in case rec of
           Interval every \<Rightarrow>
             if lower \<le> start then Inr (start, [])
             else (case duration_seconds every of
               Fin s \<Rightarrow> if s = 0 then Inl (ZeroDivisionError ''float floor division by zero'')
                        else Inr (next_interval s start lower, [])
             | _ \<Rightarrow> Inl (ValueError ''cannot convert float NaN to integer''))
         | Calendar c \<Rightarrow>
             calendar_loop CALENDAR_DAYS z c (local_day z start) lower (local_day z lower) [])"

record plan_timing =
  tm_starts_at :: "instant option"
  tm_ends_at :: "instant option"
  tm_max_occurrences :: "nat option"
  tm_recurrence :: recurrence

record preview_item =
  pv_occurrence :: nat
  pv_scheduled_for :: instant
  pv_local_time :: int
  pv_adjustments :: "adjustment list"

fun preview_loop ::
    "zone \<Rightarrow> plan_timing \<Rightarrow> instant \<Rightarrow> instant option \<Rightarrow> nat list \<Rightarrow> preview_item list res" where
  "preview_loop z tm start previous [] = Inr []"
| "preview_loop z tm start previous (k # ks) =
     rbind (if tm_starts_at tm = None \<and> previous = None then Inr (start, [])
            else next_fire_details z (tm_recurrence tm) start previous) (\<lambda>(fire, adj).
       if (case tm_ends_at tm of Some e \<Rightarrow> e < fire | None \<Rightarrow> False) then Inr []
       else rbind (preview_loop z tm start (Some fire) ks) (\<lambda>items.
         Inr (\<lparr>pv_occurrence = k, pv_scheduled_for = fire, pv_local_time = to_local z fire,
               pv_adjustments = adj\<rparr> # items)))"

text \<open>\<open>now\<close> is the default start: the argument \<open>default_starts_at\<close> or the current time.\<close>

definition preview_fires :: "zone \<Rightarrow> plan_timing \<Rightarrow> nat \<Rightarrow> instant \<Rightarrow> preview_item list res" where
  "preview_fires z tm count now =
     (let start = (case tm_starts_at tm of Some t \<Rightarrow> t | None \<Rightarrow> now);
          limit = (case tm_max_occurrences tm of Some m \<Rightarrow> min count m | None \<Rightarrow> count)
      in preview_loop z tm start None [0 ..< limit])"

section \<open>Progress\<close>

lemma next_interval_lower:
  assumes "0 < s" and "start \<le> lower"
  shows "lower \<le> next_interval s start lower"
proof -
  define e :: rat where "e = of_int (lower - start) / 1000000"
  define k where "k = \<lfloor>e / s\<rfloor>"
  let ?a = "timedelta (of_int k * s)"
  have k: "of_int k * s + s > e"
  proof -
    have "e / s < of_int k + 1" unfolding k_def by linarith
    then have "e < (of_int k + 1) * s" using assms(1) by (simp add: pos_divide_less_eq)
    then show ?thesis by (simp add: algebra_simps)
  qed
  have a: "of_int k * s * 1000000 \<le> of_int ?a + 1 / 2" "s * 1000000 \<le> of_int (timedelta s) + 1 / 2"
    unfolding timedelta_def using round_half_even_bounds by blast+
  have "e * 1000000 < of_int (?a + timedelta s) + 1" using k a by (simp add: algebra_simps)
  then have "lower - start < ?a + timedelta s + 1" unfolding e_def by (simp add: of_int_less_iff [symmetric, where 'a = rat])
  then show ?thesis
    unfolding next_interval_def Let_def e_def [symmetric] k_def [symmetric] by simp
qed

lemma calendar_loop_lower:
  "calendar_loop n z c start_day lower day adj = Inr (i, adj') \<Longrightarrow> lower \<le> i"
  by (induction n arbitrary: day adj) (auto split: if_splits list.splits)

text \<open>Intervals are positive once validated.\<close>

definition recurrence_ok :: "recurrence \<Rightarrow> bool" where
  "recurrence_ok rec = (case rec of
     Interval every \<Rightarrow> (case duration_seconds every of Fin s \<Rightarrow> 1 / 1000000 \<le> s \<and> s \<le> 31536000 | _ \<Rightarrow> False)
   | Calendar c \<Rightarrow> cal_interval c \<noteq> Some 0 \<and> (cal_frequency c = Weekly \<longrightarrow> cal_weekdays c \<noteq> []))"

lemma next_fire_lower:
  assumes "recurrence_ok rec" and "next_fire_details z rec start after = Inr (i, adj)"
  shows "lower_bound start after \<le> i"
proof (cases rec)
  case (Interval every)
  with assms show ?thesis
    by (auto simp: next_fire_details_def recurrence_ok_def Let_def split: if_splits pyfloat.splits
        intro!: next_interval_lower)
next
  case (Calendar c)
  with assms(2) show ?thesis by (auto simp: next_fire_details_def Let_def dest: calendar_loop_lower)
qed

lemma preview_loop_sorted:
  assumes rec: "recurrence_ok (tm_recurrence tm)"
  shows "preview_loop z tm start previous ks = Inr items \<Longrightarrow>
    sorted_wrt (\<lambda>a b. pv_scheduled_for a < pv_scheduled_for b) items \<and>
    map pv_occurrence items = take (length items) ks \<and>
    (\<forall>x \<in> set items. start \<le> pv_scheduled_for x \<and>
       (case previous of Some p \<Rightarrow> p < pv_scheduled_for x | None \<Rightarrow> True) \<and>
       (case tm_ends_at tm of Some e \<Rightarrow> pv_scheduled_for x \<le> e | None \<Rightarrow> True))"
proof (induction ks arbitrary: previous items)
  case (Cons k ks)
  from Cons.prems obtain fire adj where f: "(if tm_starts_at tm = None \<and> previous = None then Inr (start, [])
      else next_fire_details z (tm_recurrence tm) start previous) = Inr (fire, adj)"
    by auto
  have "lower_bound start previous \<le> fire"
    using f next_fire_lower [OF rec] by (auto simp: lower_bound_def split: if_splits)
  then have low: "start \<le> fire" "case previous of Some p \<Rightarrow> p < fire | None \<Rightarrow> True"
    by (auto simp: lower_bound_def split: option.splits)
  show ?case
  proof (cases "case tm_ends_at tm of Some e \<Rightarrow> e < fire | None \<Rightarrow> False")
    case True
    with Cons.prems f have "items = []" by simp
    then show ?thesis by simp
  next
    case False
    with Cons.prems f obtain rest where r: "preview_loop z tm start (Some fire) ks = Inr rest"
      and items: "items = \<lparr>pv_occurrence = k, pv_scheduled_for = fire, pv_local_time = to_local z fire,
               pv_adjustments = adj\<rparr> # rest"
      by auto
    note IH = Cons.IH [OF r]
    have "case tm_ends_at tm of Some e \<Rightarrow> fire \<le> e | None \<Rightarrow> True" using False by (auto split: option.splits)
    with IH low show ?thesis unfolding items by (fastforce split: option.splits)
  qed
qed simp

text \<open>
  A preview of a validated plan lists at most the requested number of occurrences, numbered
  from zero, at strictly increasing instants, none before the start, after the end, or beyond the
  declared maximum.
\<close>

theorem preview_fires_increasing:
  assumes "recurrence_ok (tm_recurrence tm)" and "preview_fires z tm count now = Inr items"
  shows "sorted_wrt (\<lambda>a b. pv_scheduled_for a < pv_scheduled_for b) items \<and>
    map pv_occurrence items = [0 ..< length items] \<and> length items \<le> count \<and>
    (\<forall>m. tm_max_occurrences tm = Some m \<longrightarrow> length items \<le> m) \<and>
    (\<forall>x \<in> set items. (\<forall>t. tm_starts_at tm = Some t \<longrightarrow> t \<le> pv_scheduled_for x) \<and>
       (\<forall>e. tm_ends_at tm = Some e \<longrightarrow> pv_scheduled_for x \<le> e))"
proof -
  let ?n = "case tm_max_occurrences tm of Some m \<Rightarrow> min count m | None \<Rightarrow> count"
  let ?s = "case tm_starts_at tm of Some t \<Rightarrow> t | None \<Rightarrow> now"
  have "preview_loop z tm ?s None [0 ..< ?n] = Inr items"
    using assms(2) by (simp add: preview_fires_def Let_def)
  note p = preview_loop_sorted [OF assms(1) this]
  from p have m: "map pv_occurrence items = take (length items) [0 ..< ?n]" by blast
  then have len: "length items \<le> ?n" by (metis length_map length_take length_upt diff_zero min.cobounded2 min.commute)
  with m have "map pv_occurrence items = [0 ..< length items]" by (simp add: take_upt)
  moreover from len have "length items \<le> count" by (auto split: option.splits)
  ultimately show ?thesis using p len by (auto split: option.splits)
qed

definition half_hour_plan :: plan_timing where
  "half_hour_plan = \<lparr>tm_starts_at = Some 0, tm_ends_at = Some 3600000000, tm_max_occurrences = Some 5,
     tm_recurrence = Interval \<lparr>dur_value = Fin 30, dur_unit = Minutes\<rparr>\<rparr>"

definition utc_zone :: zone where
  "utc_zone = \<lparr>to_local = (\<lambda>t. t), from_local = (\<lambda>t _. t)\<rparr>"

theorem preview_fires_increasing_witness:
  "\<exists>items. preview_fires utc_zone half_hour_plan 9 0 = Inr items \<and>
     map pv_scheduled_for items = [0, 1800000000, 3600000000] \<and>
     sorted_wrt (\<lambda>a b. pv_scheduled_for a < pv_scheduled_for b) items"
proof -
  have r: "recurrence_ok (tm_recurrence half_hour_plan)" by code_simp
  have "preview_fires utc_zone half_hour_plan 9 0 = Inr (map (\<lambda>(k, t).
      \<lparr>pv_occurrence = k, pv_scheduled_for = t, pv_local_time = t, pv_adjustments = []\<rparr>)
      [(0, 0), (1, 1800000000), (2, 3600000000)])" by code_simp
  from this preview_fires_increasing [OF r this] show ?thesis by simp
qed

section \<open>The grid of an interval\<close>

lemma timedelta_whole: "timedelta (of_int n / 1000000) = n"
  by (simp add: timedelta_def)

lemma div_offset: "0 \<le> r \<Longrightarrow> r < n \<Longrightarrow> (r + k * n) div n = k" for r n k :: int
  by simp

lemma next_interval_grid:
  assumes "0 < n" and "start < lower"
  shows "next_interval (of_int n / 1000000) start lower = start + n * ((lower - start + n - 1) div n)"
proof -
  let ?k = "(lower - start) div n"
  have q: "of_int (lower - start) / 1000000 / (of_int n / 1000000 :: rat) = of_int (lower - start) / of_int n"
    using assms(1) by (simp add: divide_simps del: of_int_diff)
  have "\<lfloor>of_int (lower - start) / of_int n :: rat\<rfloor> = ?k" by (rule floor_divide_of_int_eq)
  then have k: "\<lfloor>of_int (lower - start) / 1000000 / (of_int n / 1000000 :: rat)\<rfloor> = ?k" using q by simp
  have t: "timedelta (of_int ?k * (of_int n / 1000000)) = ?k * n"
    using timedelta_whole [of "?k * n"] by simp
  have e: "next_interval (of_int n / 1000000) start lower =
      (if start + ?k * n < lower then start + ?k * n + n else start + ?k * n)"
    unfolding next_interval_def Let_def k t timedelta_whole ..
  have m: "lower - start = ?k * n + (lower - start) mod n" by simp
  have r: "0 \<le> (lower - start) mod n" "(lower - start) mod n < n" using assms(1) by simp_all
  have "(lower - start + n - 1) div n = (if (lower - start) mod n = 0 then ?k else ?k + 1)"
  proof (cases "(lower - start) mod n = 0")
    case True
    then have "lower - start + n - 1 = (n - 1) + ?k * n" using m by linarith
    moreover have "((n - 1) + ?k * n) div n = ?k" by (rule div_offset) (use assms(1) in simp_all)
    ultimately show ?thesis using True by metis
  next
    case False
    then have "lower - start + n - 1 = ((lower - start) mod n - 1) + (?k + 1) * n" using m by (simp add: algebra_simps)
    moreover have "(((lower - start) mod n - 1) + (?k + 1) * n) div n = ?k + 1"
      by (rule div_offset) (use False r in linarith)+
    ultimately show ?thesis using False by metis
  qed
  note c = this
  have "start + ?k * n < lower \<longleftrightarrow> (lower - start) mod n \<noteq> 0" using m r by linarith
  then show ?thesis unfolding e c by (simp add: algebra_simps)
qed

text \<open>
  With an interval of a whole number \<open>n\<close> of microseconds, the next occurrence is the earliest
  point of the grid \<open>start + m * n\<close> that is not before the start and strictly after the previous
  occurrence.
\<close>

theorem interval_grid:
  assumes "duration_seconds every = Fin (of_int n / 1000000)" and "0 < n"
  shows "\<exists>m \<ge> 0. next_fire_details z (Interval every) start after = Inr (start + m * n, []) \<and>
    (\<forall>a. after = Some a \<longrightarrow> a < start + m * n) \<and>
    (\<forall>j \<ge> 0. (\<forall>a. after = Some a \<longrightarrow> a < start + j * n) \<longrightarrow> m \<le> j)"
proof (cases "lower_bound start after \<le> start")
  case True
  with assms show ?thesis
    by (intro exI [of _ 0]) (auto simp: next_fire_details_def Let_def lower_bound_def split: option.splits)
next
  case False
  then obtain a where a: "after = Some a" "lower_bound start after = a + 1" "start \<le> a"
    by (auto simp: lower_bound_def split: option.splits)
  define m where "m = (a + 1 - start + n - 1) div n"
  have eq: "next_fire_details z (Interval every) start after = Inr (start + m * n, [])"
    using assms False a next_interval_grid [OF assms(2), of start "a + 1"]
    by (simp add: next_fire_details_def Let_def m_def mult.commute)
  have qr: "a - start = n * ((a - start) div n) + (a - start) mod n" "(a - start) mod n < n"
    using assms(2) by simp_all
  have "a + 1 - start + n - 1 = (a - start) + n" by simp
  then have m: "m = (a - start) div n + 1" unfolding m_def using assms(2) by (simp only: div_add_self2)
  have "m * n = n * ((a - start) div n) + n" unfolding m by (simp add: algebra_simps)
  with qr have gt: "a < start + m * n" by linarith
  have "m \<le> j" if j: "a < start + j * n" for j
  proof -
    have "n * ((a - start) div n) \<le> a - start" using qr(1) assms(2) by (smt (verit) pos_mod_sign)
    also have "\<dots> < n * j" using j by (simp add: algebra_simps)
    finally have "(a - start) div n < j" using assms(2) by simp
    with m show ?thesis by simp
  qed
  with eq gt a assms(2) show ?thesis
    by (intro exI [of _ m]) (auto simp: m pos_imp_zdiv_nonneg_iff)
qed

theorem interval_grid_witness:
  "\<exists>m \<ge> (0::int). next_fire_details utc_zone (Interval \<lparr>dur_value = Fin 1, dur_unit = Seconds\<rparr>) 0 (Some 1500000)
      = Inr (0 + m * 1000000, [])"
proof -
  have "duration_seconds \<lparr>dur_value = Fin 1, dur_unit = Seconds\<rparr> = Fin (of_int 1000000 / 1000000)"
    by (simp add: duration_seconds_def)
  from interval_grid [OF this, of utc_zone 0 "Some 1500000"] show ?thesis by auto
qed

text \<open>
  The grid is lost when the interval is not a whole number of microseconds: both the step
  already taken and the increment are rounded.  With an interval of a third of a second, which the
  configuration accepts, the occurrence at 0.666666 s is followed by one at 0.666667 s, one
  microsecond later.
\<close>

theorem interval_fires_twice:
  "recurrence_ok (Interval \<lparr>dur_value = Fin (1 / 3), dur_unit = Seconds\<rparr>) \<and>
   next_fire_details z (Interval \<lparr>dur_value = Fin (1 / 3), dur_unit = Seconds\<rparr>) 0 (Some 333333) = Inr (666666, []) \<and>
   next_fire_details z (Interval \<lparr>dur_value = Fin (1 / 3), dur_unit = Seconds\<rparr>) 0 (Some 666666) = Inr (666667, [])"
proof (intro conjI)
  show "recurrence_ok (Interval \<lparr>dur_value = Fin (1 / 3), dur_unit = Seconds\<rparr>)" by code_simp
  have "next_interval (1 / 3) 0 333334 = 666666" "next_interval (1 / 3) 0 666667 = 666667" by code_simp+
  then show "next_fire_details z (Interval \<lparr>dur_value = Fin (1 / 3), dur_unit = Seconds\<rparr>) 0 (Some 333333) = Inr (666666, [])"
    "next_fire_details z (Interval \<lparr>dur_value = Fin (1 / 3), dur_unit = Seconds\<rparr>) 0 (Some 666666) = Inr (666667, [])"
    by (simp_all add: next_fire_details_def duration_seconds_def lower_bound_def)
qed

section \<open>Calendar occurrences\<close>

definition due_day :: "calendar \<Rightarrow> int \<Rightarrow> int \<Rightarrow> bool" where
  "due_day c start_day day \<longleftrightarrow> period_matches c start_day day \<and> calendar_matches day c"

text \<open>A day offers no usable instant: its wall-clock time does not exist or is already past.\<close>

definition passed_day :: "zone \<Rightarrow> calendar \<Rightarrow> instant \<Rightarrow> int \<Rightarrow> bool" where
  "passed_day z c lower day \<longleftrightarrow>
     (case local_candidates day (cal_clock c) z of [] \<Rightarrow> True | i # _ \<Rightarrow> i < lower)"

lemma calendar_loop_first:
  "calendar_loop n z c sd lower day adj = Inr (i, adj') \<Longrightarrow>
   \<exists>k is. due_day c sd (day + int k) \<and> local_candidates (day + int k) (cal_clock c) z = i # is \<and> lower \<le> i \<and>
     (\<forall>j < k. due_day c sd (day + int j) \<longrightarrow> passed_day z c lower (day + int j))"
proof (induction n arbitrary: day adj)
  case (Suc n)
  show ?case
  proof (cases "due_day c sd day \<and> \<not> passed_day z c lower day")
    case True
    with Suc.prems show ?thesis
      by (intro exI [of _ 0]) (auto simp: due_day_def passed_day_def split: list.splits if_splits)
  next
    case False
    then obtain adj1 where "calendar_loop n z c sd lower (day + 1) adj1 = Inr (i, adj')"
      using Suc.prems by (auto simp: due_day_def passed_day_def split: list.splits if_splits)
    from Suc.IH [OF this] obtain k "is" where k: "due_day c sd (day + 1 + int k)"
      "local_candidates (day + 1 + int k) (cal_clock c) z = i # is" "lower \<le> i"
      "\<forall>j < k. due_day c sd (day + 1 + int j) \<longrightarrow> passed_day z c lower (day + 1 + int j)" by blast
    have "passed_day z c lower (day + int j)" if "j < Suc k" "due_day c sd (day + int j)" for j
      using that k(4) False by (cases j) (auto simp: algebra_simps)
    with k show ?thesis by (intro exI [of _ "Suc k"] exI [of _ "is"]) (auto simp: algebra_simps)
  qed
qed simp

lemma local_candidates_members:
  "i \<in> set (local_candidates day clk z) \<Longrightarrow> to_local z i = wall_time day clk"
  by (auto simp: local_candidates_def Let_def split: if_splits)

lemma local_candidates_sorted: "sorted (local_candidates day clk z)"
  by (simp add: local_candidates_def Let_def)

text \<open>
  C27.  A calendar occurrence has exactly the configured wall-clock time in its zone, on a day that
  matches the frequency, the weekdays and the period counted from the start day; it is the
  earliest instant with that wall-clock time, not before the lower bound, and no matching day
  between the lower bound's day and it offered an instant at or after the lower bound: such a day
  either skips the wall-clock time (a clock change) or has it already behind.
\<close>

theorem calendar_occurrence:
  assumes "next_fire_details z (Calendar c) start after = Inr (i, adj)"
  shows "\<exists>day \<ge> local_day z (lower_bound start after).
    due_day c (local_day z start) day \<and> to_local z i = wall_time day (cal_clock c) \<and>
    (\<forall>x \<in> set (local_candidates day (cal_clock c) z). i \<le> x) \<and> lower_bound start after \<le> i \<and>
    (\<forall>d. local_day z (lower_bound start after) \<le> d \<and> d < day \<and> due_day c (local_day z start) d \<longrightarrow>
       passed_day z c (lower_bound start after) d)"
proof -
  let ?l = "lower_bound start after"
  from assms have "calendar_loop CALENDAR_DAYS z c (local_day z start) ?l (local_day z ?l) [] = Inr (i, adj)"
    by (simp add: next_fire_details_def Let_def)
  from calendar_loop_first [OF this] obtain k "is" where k: "due_day c (local_day z start) (local_day z ?l + int k)"
    and cand: "local_candidates (local_day z ?l + int k) (cal_clock c) z = i # is" and low: "?l \<le> i"
    and before: "\<forall>j < k. due_day c (local_day z start) (local_day z ?l + int j) \<longrightarrow> passed_day z c ?l (local_day z ?l + int j)"
    by blast
  have "passed_day z c ?l d" if "local_day z ?l \<le> d" "d < local_day z ?l + int k" "due_day c (local_day z start) d" for d
    using before [rule_format, of "nat (d - local_day z ?l)"] that by simp
  moreover have "to_local z i = wall_time (local_day z ?l + int k) (cal_clock c)"
    by (rule local_candidates_members) (simp add: cand)
  moreover have "\<forall>x \<in> set (i # is). i \<le> x"
    using local_candidates_sorted [of "local_day z ?l + int k" "cal_clock c" z] by (simp add: cand)
  ultimately show ?thesis using k low by (intro exI [of _ "local_day z ?l + int k"]) (simp add: cand)
qed

definition weekly_calendar :: calendar where
  "weekly_calendar = \<lparr>cal_frequency = Weekly, cal_interval = None, cal_weekdays = [0], cal_clock = 3600000000\<rparr>"

theorem calendar_occurrence_witness:
  "\<exists>day \<ge> 0. due_day weekly_calendar 0 day \<and> to_local utc_zone 349200000000 = wall_time day 3600000000"
proof -
  have l: "local_candidates d c utc_zone = [wall_time d c]" for d c
    by (simp add: local_candidates_def utc_zone_def)
  have loop: "calendar_loop (Suc (Suc (Suc (Suc (Suc n))))) utc_zone weekly_calendar 0 0 0 [] = Inr (349200000000, [])" for n
    by (simp add: l weekly_calendar_def period_matches_def calendar_matches_def weekday_def wall_time_def
        day_us_def cal_step_def)
  have days: "CALENDAR_DAYS = Suc (Suc (Suc (Suc (Suc 73195))))" by (simp add: CALENDAR_DAYS_def)
  have "calendar_loop CALENDAR_DAYS utc_zone weekly_calendar 0 0 0 [] = Inr (349200000000, [])"
    unfolding days by (rule loop)
  then have "next_fire_details utc_zone (Calendar weekly_calendar) 0 None = Inr (349200000000, [])"
    by (simp add: next_fire_details_def lower_bound_def local_day_def utc_zone_def)
  from calendar_occurrence [OF this] show ?thesis
    by (auto simp: lower_bound_def local_day_def utc_zone_def weekly_calendar_def)
qed

end
