(* ===== verification/Storage.thy ===== *)
theory Storage
  imports Documents Identifiers Planner
begin

text \<open>
  The database of \<open>storage/repository.py\<close> and the runtime lease.  A table is the list of its rows
  in insertion order; a transaction is a function from a database to a result and a database, or
  an exception, which rolls it back.  Transactions on one Runner hold its row lock from their
  first read to their commit, so each is one atomic step; what the clock (\<open>utcnow()\<close>) and
  \<open>uuid4()\<close> return are arguments.  A repository handle is what one backend process keeps about
  the lease.

  The lemmas show what the lease promises: generations only grow, and once another handle has
  acquired the lease every fenced transaction of the earlier handle fails, however the two are
  interleaved.
\<close>

section \<open>Tables\<close>

definition get_row :: "('r \<Rightarrow> 'k) \<Rightarrow> 'k \<Rightarrow> 'r list \<Rightarrow> 'r option" where
  "get_row key k rows = find (\<lambda>r. key r = k) rows"

definition update_where :: "('r \<Rightarrow> bool) \<Rightarrow> ('r \<Rightarrow> 'r) \<Rightarrow> 'r list \<Rightarrow> 'r list" where
  "update_where p f rows = map (\<lambda>r. if p r then f r else r) rows"

text \<open>Inserting a row whose primary key exists is an \<open>IntegrityError\<close>.\<close>

definition insert_row :: "('r \<Rightarrow> 'k) \<Rightarrow> 'r \<Rightarrow> 'r list \<Rightarrow> 'r list res" where
  "insert_row key r rows =
     (if key r \<in> set (map key rows) then Inl (SQLAlchemyError ''IntegrityError'')
      else Inr (rows @ [r]))"

text \<open>\<open>scalar_one_or_none()\<close>.\<close>

definition one_or_none :: "'r list \<Rightarrow> 'r option res" where
  "one_or_none rows =
     (case rows of [] \<Rightarrow> Inr None | [r] \<Rightarrow> Inr (Some r)
      | _ \<Rightarrow> Inl (SQLAlchemyError ''MultipleResultsFound''))"

lemma get_row_Some: "get_row key k rows = Some r \<Longrightarrow> r \<in> set rows \<and> key r = k"
  by (auto simp: get_row_def find_Some_iff)

lemma get_row_None: "get_row key k rows = None \<longleftrightarrow> k \<notin> key ` set rows"
  by (auto simp: get_row_def find_None_iff)

lemma get_row_unique:
  "distinct (map key rows) \<Longrightarrow> r \<in> set rows \<Longrightarrow> get_row key (key r) rows = Some r"
  by (induction rows) (auto simp: get_row_def)

lemma get_row_Nil [simp]: "get_row key k [] = None"
  by (simp add: get_row_def)

lemma get_row_Cons [simp]:
  "get_row key k (r # rows) = (if key r = k then Some r else get_row key k rows)"
  by (simp add: get_row_def)

lemma get_row_append:
  "get_row key k (rows @ [r]) =
     (case get_row key k rows of Some x \<Rightarrow> Some x | None \<Rightarrow> if key r = k then Some r else None)"
  by (induction rows) auto

lemma update_where_simps [simp]:
  "update_where p f [] = []"
  "update_where p f (r # rows) = (if p r then f r else r) # update_where p f rows"
  by (simp_all add: update_where_def)

lemma set_update_where: "set (update_where p f rows) = (\<lambda>r. if p r then f r else r) ` set rows"
  by (simp add: update_where_def)

lemma update_where_keys:
  assumes "\<And>r. key (f r) = key r"
  shows "map key (update_where p f rows) = map key rows"
  using assms by (induction rows) auto

lemma get_row_update_where:
  assumes "\<And>r. key (f r) = key r"
  shows "get_row key k (update_where p f rows) =
    map_option (\<lambda>r. if p r then f r else r) (get_row key k rows)"
  using assms by (induction rows) auto

lemma insert_row_Inr [simp]:
  "insert_row key r rows = Inr rows' \<longleftrightarrow> key r \<notin> key ` set rows \<and> rows' = rows @ [r]"
  by (auto simp: insert_row_def)

lemma one_or_none_Inr:
  "one_or_none rows = Inr v \<Longrightarrow> (case v of Some r \<Rightarrow> rows = [r] | None \<Rightarrow> rows = [])"
  by (auto simp: one_or_none_def split: list.splits)

lemma one_or_none_simps [simp]:
  "one_or_none [] = Inr None" "one_or_none [r] = Inr (Some r)"
  by (simp_all add: one_or_none_def)

section \<open>Rows\<close>

record lease =
  lease_owner :: string
  lease_generation :: int
  lease_expires_at :: instant

datatype runner_status = Queued | Running | Succeeded | Failed | Cancelled

fun terminal :: "runner_status \<Rightarrow> bool" where
  "terminal Succeeded = True"
| "terminal Failed = True"
| "terminal Cancelled = True"
| "terminal _ = False"

fun status_text :: "runner_status \<Rightarrow> string" where
  "status_text Queued = ''queued''"
| "status_text Running = ''running''"
| "status_text Succeeded = ''succeeded''"
| "status_text Failed = ''failed''"
| "status_text Cancelled = ''cancelled''"

record runner_row =
  run_id :: string
  run_campaign_id :: "string option"
  run_plan_id :: "string option"
  run_plan_occurrence :: "int option"
  run_scheduled_for :: "instant option"
  run_template_version :: "string option"
  run_label :: "string option"
  run_created_by :: string
  run_status :: runner_status
  run_benchmark_config :: pyval
  run_user_metadata :: pyval
  run_created_at :: instant
  run_started_at :: "instant option"
  run_finished_at :: "instant option"
  run_heartbeat_at :: "instant option"
  run_cancel_requested :: bool
  run_scheduler_id :: "string option"
  run_exit_code :: "int option"
  run_summary :: pyval
  run_request_count :: nat
  run_planned_workers :: nat
  run_error_message :: "string option"
  run_log_key :: "string option"
  run_runtime_id :: "string option"

datatype attempt_state = Executing | AttemptEnded runner_status | AttemptIndeterminate

record attempt_row =
  att_id :: string
  att_runner_id :: string
  att_generation :: int
  att_state :: attempt_state
  att_started_at :: instant
  att_completed_at :: "instant option"

datatype worker_state = WCreated | WSubmitted | WSucceeded | WFailed | WCancelled | WIndeterminate

record worker_row =
  wk_id :: string
  wk_runner_id :: string
  wk_step_id :: string
  wk_generation :: int
  wk_state :: worker_state
  wk_created_at :: instant
  wk_submitted_at :: "instant option"
  wk_completed_at :: "instant option"
  wk_metadata :: pydict
  wk_log_key :: "string option"
  wk_completion_hash :: "string option"

text \<open>A message and its stored row carry the same fields.\<close>

record runner_message =
  msg_runner_id :: string
  msg_topic :: string
  msg_payload :: pydict
  msg_id :: string
  msg_source :: "string option"
  msg_destination :: string
  msg_created_at :: instant

record receipt_row =
  rcp_message_id :: string
  rcp_consumer :: string
  rcp_acknowledged_at :: instant

datatype node_state = NBlocked | NPending | NEmitted | NCancelled

record node_row =
  nd_id :: string
  nd_campaign_id :: string
  nd_plan_id :: "string option"
  nd_dispatch_key :: "string option"
  nd_instance_id :: "string option"
  nd_node_id :: "string option"
  nd_due_at :: "instant option"
  nd_state :: node_state
  nd_template :: pyval
  nd_lineage :: pydict
  nd_runner_id :: "string option"
  nd_created_at :: instant
  nd_emitted_at :: "instant option"

datatype instance_state = IPlanned | IActive | ICompleted | IFailed | ICancelled

fun instance_terminal :: "instance_state \<Rightarrow> bool" where
  "instance_terminal ICompleted = True"
| "instance_terminal IFailed = True"
| "instance_terminal ICancelled = True"
| "instance_terminal _ = False"

record instance_row =
  in_id :: string
  in_campaign_id :: string
  in_state :: instance_state
  in_checkpoint :: pydict
  in_outcome :: pydict
  in_error :: "string option"
  in_created_at :: instant
  in_updated_at :: instant

datatype plan_status = PlanActive | PlanPaused | PlanCompleted | PlanCancelled

record plan_row =
  pl_id :: string
  pl_campaign_id :: string
  pl_status :: plan_status
  pl_timezone :: string
  pl_recurrence :: recurrence
  pl_overlap_skip :: bool
  pl_template :: pyval
  pl_template_version :: string
  pl_starts_at :: instant
  pl_ends_at :: "instant option"
  pl_max_occurrences :: "nat option"
  pl_next_fire_at :: "instant option"
  pl_last_fire_at :: "instant option"
  pl_occurrence_cursor :: nat
  pl_emitted_count :: nat
  pl_skipped_count :: nat
  pl_misfire_grace_seconds :: int
  pl_created_by :: string
  pl_updated_at :: instant
  pl_runtime_id :: "string option"

record plan_event =
  pe_plan_id :: string
  pe_type :: string
  pe_occurrence :: "nat option"
  pe_scheduled_for :: "instant option"
  pe_runner_id :: "string option"
  pe_message :: "string option"
  pe_details :: pyval

record result_row =
  rs_runner_id :: string
  rs_sequence :: nat
  rs_metrics :: pyval

record event_row =
  ev_runner_id :: string
  ev_status :: runner_status
  ev_message :: string

record runtime_row =
  rt_id :: string
  rt_parent_id :: "string option"
  rt_concurrent_workers :: "nat option"

record campaign_row =
  cp_id :: string
  cp_runtime_id :: "string option"

record db =
  leases :: "lease option"
  runners :: "runner_row list"
  attempts :: "attempt_row list"
  workers :: "worker_row list"
  messages :: "runner_message list"
  receipts :: "receipt_row list"
  results :: "result_row list"
  events :: "event_row list"
  nodes :: "node_row list"
  instances :: "instance_row list"
  campaigns :: "campaign_row list"
  plans :: "plan_row list"
  plan_events :: "plan_event list"
  runtimes :: "runtime_row list"

type_synonym 'a tx = "('a \<times> db) res"

abbreviation get_runner :: "string \<Rightarrow> db \<Rightarrow> runner_row option" where
  "get_runner i d \<equiv> get_row run_id i (runners d)"

abbreviation get_worker :: "string \<Rightarrow> db \<Rightarrow> worker_row option" where
  "get_worker i d \<equiv> get_row wk_id i (workers d)"

abbreviation get_message :: "string \<Rightarrow> db \<Rightarrow> runner_message option" where
  "get_message i d \<equiv> get_row msg_id i (messages d)"

abbreviation get_instance :: "string \<Rightarrow> db \<Rightarrow> instance_row option" where
  "get_instance i d \<equiv> get_row in_id i (instances d)"

definition update_runner :: "string \<Rightarrow> (runner_row \<Rightarrow> runner_row) \<Rightarrow> db \<Rightarrow> db" where
  "update_runner i f d = d\<lparr>runners := update_where (\<lambda>r. run_id r = i) f (runners d)\<rparr>"

definition update_worker :: "string \<Rightarrow> (worker_row \<Rightarrow> worker_row) \<Rightarrow> db \<Rightarrow> db" where
  "update_worker i f d = d\<lparr>workers := update_where (\<lambda>w. wk_id w = i) f (workers d)\<rparr>"

definition update_instance :: "string \<Rightarrow> (instance_row \<Rightarrow> instance_row) \<Rightarrow> db \<Rightarrow> db" where
  "update_instance i f d = d\<lparr>instances := update_where (\<lambda>r. in_id r = i) f (instances d)\<rparr>"

definition add_event :: "string \<Rightarrow> runner_status \<Rightarrow> string \<Rightarrow> db \<Rightarrow> db" where
  "add_event i s m d = d\<lparr>events := events d @ [\<lparr>ev_runner_id = i, ev_status = s, ev_message = m\<rparr>]\<rparr>"

section \<open>The runtime lease\<close>

record repo =
  runtime_owner :: "string option"
  runtime_generation :: int

definition new_repo :: repo where
  "new_repo = \<lparr>runtime_owner = None, runtime_generation = 0\<rparr>"

text \<open>\<open>timedelta(seconds=self.lease_seconds)\<close> in microseconds.\<close>

definition lease_duration :: int where
  "lease_duration = timedelta 30"

definition acquire_runtime :: "string \<Rightarrow> instant \<Rightarrow> lease option \<Rightarrow> (repo \<times> lease option) res" where
  "acquire_runtime owner now l =
     (if (case l of Some x \<Rightarrow> now < lease_expires_at x | None \<Rightarrow> False)
      then Inl (RuntimeError ''Another Backend owns the runtime lease'')
      else let g = (case l of Some x \<Rightarrow> lease_generation x + 1 | None \<Rightarrow> 1)
        in Inr (\<lparr>runtime_owner = Some owner, runtime_generation = g\<rparr>,
             Some \<lparr>lease_owner = owner, lease_generation = g, lease_expires_at = now + lease_duration\<rparr>))"

definition check_runtime :: "repo \<Rightarrow> instant \<Rightarrow> lease option \<Rightarrow> unit res" where
  "check_runtime h now l =
     (case runtime_owner h of
        None \<Rightarrow> Inr ()
      | Some owner \<Rightarrow>
          raise_if (case l of
              None \<Rightarrow> True
            | Some x \<Rightarrow> lease_owner x \<noteq> owner \<or> lease_generation x \<noteq> runtime_generation h
                       \<or> lease_expires_at x \<le> now)
            (RuntimeError ''Runtime ownership expired or was fenced''))"

text \<open>\<open>_check_runtime(renew=True)\<close>; without an owner it returns before the renewal.\<close>

definition renew_runtime :: "repo \<Rightarrow> instant \<Rightarrow> lease option \<Rightarrow> lease option res" where
  "renew_runtime h now l =
     rbind (check_runtime h now l) (\<lambda>_.
       Inr (if runtime_owner h = None then l
            else map_option (\<lambda>x. x\<lparr>lease_expires_at := now + lease_duration\<rparr>) l))"

definition release_runtime :: "repo \<Rightarrow> instant \<Rightarrow> lease option \<Rightarrow> repo \<times> lease option" where
  "release_runtime h now l =
     (h\<lparr>runtime_owner := None\<rparr>,
      map_option (\<lambda>x. if Some (lease_owner x) = runtime_owner h \<and> lease_generation x = runtime_generation h
                      then x\<lparr>lease_expires_at := now\<rparr> else x) l)"

lemmas lease_defs [step_defs] = acquire_runtime_def check_runtime_def renew_runtime_def release_runtime_def

text \<open>A fenced transaction of a handle that owns a lease passes only while that lease is current.\<close>

lemma check_runtime_owner:
  "check_runtime h now l = Inr u \<Longrightarrow> runtime_owner h = Some w \<Longrightarrow>
     \<exists>x. l = Some x \<and> lease_owner x = w \<and> lease_generation x = runtime_generation h \<and> now < lease_expires_at x"
  by (auto simp: check_runtime_def split: option.splits)

section \<open>Fencing\<close>

text \<open>
  Several backends, each with its handle, share one lease; the clock never runs backwards.
\<close>

record cluster =
  clock :: instant
  cl_lease :: "lease option"
  handle :: "nat \<Rightarrow> repo"

inductive lease_step :: "cluster \<Rightarrow> cluster \<Rightarrow> bool" where
  tick: "clock s \<le> t \<Longrightarrow> lease_step s (s\<lparr>clock := t\<rparr>)"
| acquire: "acquire_runtime owner (clock s) (cl_lease s) = Inr (h, l) \<Longrightarrow>
    lease_step s (s\<lparr>cl_lease := l, handle := (handle s)(p := h)\<rparr>)"
| renew: "renew_runtime (handle s p) (clock s) (cl_lease s) = Inr l \<Longrightarrow>
    lease_step s (s\<lparr>cl_lease := l\<rparr>)"
| release: "release_runtime (handle s p) (clock s) (cl_lease s) = (h, l) \<Longrightarrow>
    lease_step s (s\<lparr>cl_lease := l, handle := (handle s)(p := h)\<rparr>)"

definition lease_gen :: "cluster \<Rightarrow> int" where
  "lease_gen s = (case cl_lease s of Some x \<Rightarrow> lease_generation x | None \<Rightarrow> 0)"

text \<open>Handles hold generations the lease has reached, and never the same one.\<close>

definition lease_inv :: "cluster \<Rightarrow> bool" where
  "lease_inv s \<longleftrightarrow>
     (\<forall>p. 0 \<le> runtime_generation (handle s p) \<and> runtime_generation (handle s p) \<le> lease_gen s \<and>
          (runtime_owner (handle s p) \<noteq> None \<longrightarrow> 0 < runtime_generation (handle s p))) \<and>
     (\<forall>p q. runtime_owner (handle s p) \<noteq> None \<longrightarrow> p \<noteq> q \<longrightarrow>
          runtime_generation (handle s p) \<noteq> runtime_generation (handle s q)) \<and> 0 \<le> lease_gen s"

lemma acquire_generation:
  assumes "acquire_runtime owner now l = Inr (h, l')"
  shows "runtime_owner h = Some owner \<and>
     runtime_generation h = (case l of Some x \<Rightarrow> lease_generation x | None \<Rightarrow> 0) + 1 \<and>
     l' = Some \<lparr>lease_owner = owner, lease_generation = runtime_generation h,
                 lease_expires_at = now + lease_duration\<rparr>"
  using assms by (auto simp: acquire_runtime_def Let_def split: if_splits option.splits)

lemma renew_generation:
  assumes "renew_runtime h now l = Inr l'"
  shows "map_option lease_generation l' = map_option lease_generation l"
  using assms by (auto simp: renew_runtime_def option.map_comp comp_def split: if_splits)

lemma release_generation:
  assumes "release_runtime h now l = (h', l')"
  shows "map_option lease_generation l' = map_option lease_generation l \<and>
     runtime_owner h' = None \<and> runtime_generation h' = runtime_generation h"
  using assms by (cases l) (auto simp: release_runtime_def)

lemma lease_gen_cong:
  "map_option lease_generation (cl_lease s') = map_option lease_generation (cl_lease s) \<Longrightarrow>
   lease_gen s' = lease_gen s"
  by (auto simp: lease_gen_def split: option.splits)

lemma lease_step_gen:
  assumes "lease_step s s'"
  shows "lease_gen s \<le> lease_gen s'"
  using assms
proof (cases rule: lease_step.cases)
  case (acquire owner h l p)
  with acquire_generation [of owner "clock s" "cl_lease s" h l] show ?thesis
    by (auto simp: lease_gen_def split: option.splits)
next
  case (renew p l)
  with renew_generation [of "handle s p" "clock s" "cl_lease s" l] have "lease_gen s' = lease_gen s"
    by (intro lease_gen_cong) simp
  then show ?thesis by simp
next
  case (release p h l)
  with release_generation [of "handle s p" "clock s" "cl_lease s" h l]
  have "lease_gen s' = lease_gen s" by (intro lease_gen_cong) simp
  then show ?thesis by simp
qed (simp add: lease_gen_def)

lemma lease_invI:
  assumes "\<And>p. 0 \<le> runtime_generation (handle s p)"
    and "\<And>p. runtime_generation (handle s p) \<le> lease_gen s"
    and "\<And>p. runtime_owner (handle s p) \<noteq> None \<Longrightarrow> 0 < runtime_generation (handle s p)"
    and "\<And>p q. runtime_owner (handle s p) \<noteq> None \<Longrightarrow> p \<noteq> q \<Longrightarrow>
          runtime_generation (handle s p) \<noteq> runtime_generation (handle s q)"
    and "0 \<le> lease_gen s"
  shows "lease_inv s"
  using assms unfolding lease_inv_def by blast

lemma lease_invD:
  assumes "lease_inv s"
  shows "0 \<le> runtime_generation (handle s p)" "runtime_generation (handle s p) \<le> lease_gen s"
    "runtime_owner (handle s p) \<noteq> None \<Longrightarrow> 0 < runtime_generation (handle s p)"
    "runtime_owner (handle s p) \<noteq> None \<Longrightarrow> p \<noteq> q \<Longrightarrow>
      runtime_generation (handle s p) \<noteq> runtime_generation (handle s q)" "0 \<le> lease_gen s"
  using assms unfolding lease_inv_def by blast+

lemma lease_step_inv [wf_intros]:
  assumes "lease_step s s'" and inv: "lease_inv s"
  shows "lease_inv s'"
  using assms(1)
proof (cases rule: lease_step.cases)
  case (tick t)
  with inv show ?thesis by (simp add: lease_inv_def lease_gen_def)
next
  case (acquire owner h l p)
  note g = acquire_generation [OF acquire(2)]
  have gen: "runtime_generation h = lease_gen s + 1" "lease_gen s' = lease_gen s + 1"
    using g acquire(1) by (auto simp: lease_gen_def split: option.splits)
  have hnd: "handle s' q = (if q = p then h else handle s q)" for q using acquire(1) by simp
  note d = lease_invD [OF inv]
  show ?thesis
  proof (rule lease_invI)
    fix q r assume "runtime_owner (handle s' q) \<noteq> None" "q \<noteq> r"
    then show "runtime_generation (handle s' q) \<noteq> runtime_generation (handle s' r)"
      using gen d(2) [of q] d(2) [of r] d(4) [of q r] by (auto simp: hnd)
  next
    fix q
    show "0 \<le> runtime_generation (handle s' q)" "runtime_generation (handle s' q) \<le> lease_gen s'"
      using gen d(1,2) [of q] d(5) by (auto simp: hnd)
    show "runtime_owner (handle s' q) \<noteq> None \<Longrightarrow> 0 < runtime_generation (handle s' q)"
      using gen d(3) [of q] d(5) by (auto simp: hnd split: if_splits)
  qed (use gen d(5) in simp)
next
  case (renew p l)
  with renew_generation [of "handle s p" "clock s" "cl_lease s" l] have "lease_gen s' = lease_gen s"
    by (intro lease_gen_cong) simp
  with inv renew(1) show ?thesis by (simp add: lease_inv_def)
next
  case (release p h l)
  note g = release_generation [OF release(2)]
  with release(1) have gen: "lease_gen s' = lease_gen s" by (intro lease_gen_cong) simp
  have hnd: "runtime_generation (handle s' q) = runtime_generation (handle s q)"
    "runtime_owner (handle s' q) \<noteq> None \<Longrightarrow> runtime_owner (handle s q) \<noteq> None" for q
    using release(1) g by (auto split: if_splits)
  note d = lease_invD [OF inv]
  show ?thesis by (rule lease_invI) (use d gen hnd in auto)
qed

definition initial_cluster :: "instant \<Rightarrow> cluster" where
  "initial_cluster t = \<lparr>clock = t, cl_lease = None, handle = (\<lambda>_. new_repo)\<rparr>"

lemma initial_cluster_inv [wf_intros]: "lease_inv (initial_cluster t)"
  by (simp add: lease_inv_def initial_cluster_def new_repo_def lease_gen_def)

lemma lease_steps_inv: "lease_step\<^sup>*\<^sup>* s s' \<Longrightarrow> lease_inv s \<Longrightarrow> lease_inv s' \<and> lease_gen s \<le> lease_gen s'"
proof (induction rule: rtranclp_induct)
  case (step s' s'')
  with lease_step_inv [of s' s''] lease_step_gen [of s' s''] show ?case by auto
qed simp

lemma fenced_generation:
  "runtime_owner h \<noteq> None \<Longrightarrow> lease_generation x \<noteq> runtime_generation h \<Longrightarrow>
   check_runtime h t (Some x) = Inl (RuntimeError ''Runtime ownership expired or was fenced'')"
  by (auto simp: check_runtime_def)

text \<open>
  C16.  Fencing.  Backends start without ownership and acquire, renew and release the lease in any
  interleaving.  At every moment at most one handle that took ownership passes the check in front
  of fenced transactions; and once the lease has moved to a later generation, a handle that has
  not acquired again fails that check forever, at whatever time it reads the clock.
\<close>

theorem lease_fencing:
  assumes "lease_step\<^sup>*\<^sup>* (initial_cluster t0) s" and "runtime_owner (handle s p) \<noteq> None"
    and "check_runtime (handle s p) t (cl_lease s) = Inr ()"
  shows "(runtime_owner (handle s q) \<noteq> None \<and> check_runtime (handle s q) t' (cl_lease s) = Inr () \<longrightarrow> q = p) \<and>
    (lease_step\<^sup>*\<^sup>* s s' \<and> handle s' p = handle s p \<and> lease_gen s' \<noteq> lease_gen s \<longrightarrow>
     check_runtime (handle s' p) t'' (cl_lease s') =
       Inl (RuntimeError ''Runtime ownership expired or was fenced''))"
proof -
  have inv: "lease_inv s" using lease_steps_inv [OF assms(1)] initial_cluster_inv by blast
  obtain x where x: "cl_lease s = Some x" "lease_generation x = runtime_generation (handle s p)"
    using check_runtime_owner [OF assms(3)] assms(2) by blast
  have "q = p" if q: "runtime_owner (handle s q) \<noteq> None" "check_runtime (handle s q) t' (cl_lease s) = Inr ()"
  proof (rule ccontr)
    assume "q \<noteq> p"
    then have "runtime_generation (handle s q) \<noteq> runtime_generation (handle s p)"
      using lease_invD(4) [OF inv q(1)] by blast
    with check_runtime_owner [OF q(2)] q(1) x show False by auto
  qed
  moreover have "check_runtime (handle s' p) t'' (cl_lease s') =
       Inl (RuntimeError ''Runtime ownership expired or was fenced'')"
    if s': "lease_step\<^sup>*\<^sup>* s s'" "handle s' p = handle s p" "lease_gen s' \<noteq> lease_gen s"
  proof -
    have "lease_gen s < lease_gen s'" "0 \<le> lease_gen s"
      using lease_steps_inv [OF s'(1) inv] s'(3) lease_invD(5) [OF inv] by auto
    then obtain y where "cl_lease s' = Some y" "lease_generation y = lease_gen s'"
      by (auto simp: lease_gen_def split: option.splits)
    moreover have "runtime_generation (handle s p) = lease_gen s" using x by (simp add: lease_gen_def)
    ultimately show ?thesis
      unfolding s'(2) using s'(3) assms(2) fenced_generation [of "handle s p" y t''] by simp
  qed
  ultimately show ?thesis by blast
qed

definition held_cluster :: cluster where
  "held_cluster = (initial_cluster 0)
     \<lparr>cl_lease := Some \<lparr>lease_owner = ''a'', lease_generation = 1, lease_expires_at = lease_duration\<rparr>,
      handle := (\<lambda>_. new_repo)(0 := \<lparr>runtime_owner = Some ''a'', runtime_generation = 1\<rparr>)\<rparr>"

lemma lease_duration_value: "lease_duration = 30000000"
proof -
  have "(30 :: rat) * 1000000 = of_int 30000000" by simp
  then have "round_half_even (30 * 1000000) = 30000000" by (metis round_half_even_of_int)
  then show ?thesis unfolding lease_duration_def timedelta_def .
qed

lemma held_cluster_reachable: "lease_step (initial_cluster 0) held_cluster"
proof -
  have "acquire_runtime ''a'' 0 None = Inr (\<lparr>runtime_owner = Some ''a'', runtime_generation = 1\<rparr>,
      Some \<lparr>lease_owner = ''a'', lease_generation = 1, lease_expires_at = lease_duration\<rparr>)"
    by (simp add: acquire_runtime_def)
  then show ?thesis
    using lease_step.acquire [of "''a''" "initial_cluster 0" _ _ 0]
    by (simp add: held_cluster_def initial_cluster_def)
qed

theorem lease_fencing_witness:
  "check_runtime (handle held_cluster 0) 1 (cl_lease held_cluster) = Inr () \<and>
   \<not> (runtime_owner (handle held_cluster 1) \<noteq> None \<and>
      check_runtime (handle held_cluster 1) 1 (cl_lease held_cluster) = Inr ())"
proof -
  have c: "check_runtime (handle held_cluster 0) 1 (cl_lease held_cluster) = Inr ()"
    by (simp add: held_cluster_def check_runtime_def lease_duration_value)
  have "runtime_owner (handle held_cluster 0) \<noteq> None" by (simp add: held_cluster_def)
  from lease_fencing [OF r_into_rtranclp [of lease_step, OF held_cluster_reachable] this c, of 1 1] c
  show ?thesis by auto
qed

end
