(* ===== verification/Log_Store.thy ===== *)
theory Log_Store
  imports Storage
begin

text \<open>
  \<open>storage/logs.py\<close> and the completion document of \<open>runtime/messages.py\<close>: immutable artifacts
  addressed by the SHA-256 digest of their content.  The file system below the log directory is a
  map from relative keys to contents; a write (temporary file, \<open>fsync\<close>, \<open>os.replace\<close>) installs the
  whole content at once.  The encoder and decoder of JSON documents (\<open>json.dumps\<close>, \<open>json.loads\<close>
  and pydantic's \<open>model_validate_json\<close>) are arguments.

  The lemmas show the round trip, that a read returns only content that hashes to its key, and
  that a key never reads another owner's artifact.
\<close>

section \<open>Digests in keys\<close>

type_synonym files = "string \<rightharpoonup> string"

definition hex_digits :: string where
  "hex_digits = ''0123456789abcdef''"

definition hexdigest :: "string \<Rightarrow> string" where
  "hexdigest content = concat (map hex_byte (concat (map word_bytes (sha256 content))))"

definition log_key :: "string \<Rightarrow> string \<Rightarrow> string" where
  "log_key prefix digest = prefix @ ''/'' @ digest @ ''.json''"

text \<open>\<open>re.fullmatch(re.escape(prefix) + r"/[0-9a-f]{64}\.json", key)\<close>, with the digest it matched.\<close>

definition match_key :: "string \<Rightarrow> string \<Rightarrow> string option" where
  "match_key prefix key =
     (let digest = take 64 (drop (length prefix + 1) key)
      in if key = log_key prefix digest \<and> length digest = 64 \<and> list_all (\<lambda>c. c \<in> set hex_digits) digest
         then Some digest else None)"

definition write_file :: "string \<Rightarrow> string \<Rightarrow> files \<Rightarrow> string \<times> files" where
  "write_file prefix content fs =
     (let key = log_key prefix (hexdigest content) in (key, fs(key \<mapsto> content)))"

definition FileNotFound :: py_exc where
  "FileNotFound = OSError ''No such file or directory''"

definition read_file :: "string \<Rightarrow> string \<Rightarrow> files \<Rightarrow> string res" where
  "read_file key prefix fs =
     (case match_key prefix key of
        None \<Rightarrow> Inl (ValueError ''Invalid Runner log key'')
      | Some digest \<Rightarrow>
          (case fs key of
             None \<Rightarrow> Inl FileNotFound
           | Some content \<Rightarrow>
               if hexdigest content \<noteq> digest
               then Inl (ValueError ''Runner log digest mismatch'') else Inr content))"

text \<open>\<open>str(UUID(x))\<close>: braces and hyphens are dropped and 32 hexadecimal digits must remain.\<close>

definition strip_uuid :: "string \<Rightarrow> string" where
  "strip_uuid s = map lower_char (filter (\<lambda>c. c \<notin> set ''-{}'') s)"

definition group_uuid :: "string \<Rightarrow> string" where
  "group_uuid h = join ''-'' [take 8 h, take 4 (drop 8 h), take 4 (drop 12 h), take 4 (drop 16 h), drop 20 h]"

definition canonical_uuid :: "string \<Rightarrow> string res" where
  "canonical_uuid s =
     (let h = strip_uuid s
      in if length h = 32 \<and> list_all (\<lambda>c. c \<in> set hex_digits) h then Inr (group_uuid h)
         else Inl (ValueError ''badly formed hexadecimal UUID string''))"

section \<open>Runner logs\<close>

text \<open>\<open>value.encode("utf-8")[-limit:]\<close>: a limit of zero keeps everything.\<close>

definition last_bytes :: "nat \<Rightarrow> string \<Rightarrow> string" where
  "last_bytes n s = (if n = 0 then s else drop (length s - n) s)"

definition log_document :: "nat \<Rightarrow> string \<Rightarrow> string \<Rightarrow> pyval" where
  "log_document limit out err =
     PDict [(KStr ''stdout'', PStr (last_bytes limit out)), (KStr ''stderr'', PStr (last_bytes limit err))]"

definition write_log ::
    "(pyval \<Rightarrow> string) \<Rightarrow> nat \<Rightarrow> string \<Rightarrow> string \<Rightarrow> string \<Rightarrow> files \<Rightarrow> (string option \<times> files) res" where
  "write_log dumps limit runner_id out err fs =
     (if out = [] \<and> err = [] then Inr (None, fs)
      else rbind (canonical_uuid runner_id) (\<lambda>u.
        Inr (apfst Some (write_file (u @ ''/runner'') (dumps (log_document limit out err)) fs))))"

definition head_component :: "string \<Rightarrow> string" where
  "head_component key = takeWhile (\<lambda>c. c \<noteq> CHR ''/'') key"

definition read_log ::
    "(string \<Rightarrow> pyval res) \<Rightarrow> string option \<Rightarrow> files \<Rightarrow> (string option \<times> string option) res" where
  "read_log loads key fs =
     (case key of
        None \<Rightarrow> Inr (None, None)
      | Some k \<Rightarrow>
          rbind (canonical_uuid (head_component k)) (\<lambda>u.
            case read_file k (u @ ''/runner'') fs of
              Inl e \<Rightarrow> if e = FileNotFound then Inr (None, None) else Inl e
            | Inr content \<Rightarrow>
                rbind (loads content) (\<lambda>doc.
                  case (is_mapping doc, field ''stdout'' doc, field ''stderr'' doc) of
                    (True, PStr out, PStr err) \<Rightarrow> Inr (Some out, Some err)
                  | _ \<Rightarrow> Inl (ValueError ''Invalid Runner log document''))))"

section \<open>Worker completions\<close>

record stored_log =
  stored_key :: string
  stored_payload :: pydict

text \<open>
  \<open>write_worker\<close>: the redacted completion document is what is written and returned; \<open>read_worker\<close>
  validates what it decodes.
\<close>

definition write_worker ::
    "(pyval \<Rightarrow> string) \<Rightarrow> string \<Rightarrow> string \<Rightarrow> pydict \<Rightarrow> files \<Rightarrow> (stored_log \<times> files) res" where
  "write_worker dumps runner_id worker_id completion fs =
     rbind (canonical_uuid runner_id) (\<lambda>r.
     rbind (canonical_uuid worker_id) (\<lambda>w.
       let payload = as_dict (log_value (PDict completion));
           (key, fs') = write_file (r @ ''/workers/'' @ w) (dumps (PDict payload)) fs
       in Inr (\<lparr>stored_key = key, stored_payload = payload\<rparr>, fs')))"

definition read_worker ::
    "(string \<Rightarrow> pyval res) \<Rightarrow> string \<Rightarrow> string \<Rightarrow> string \<Rightarrow> files \<Rightarrow> pydict res" where
  "read_worker validate runner_id worker_id key fs =
     rbind (canonical_uuid runner_id) (\<lambda>r.
     rbind (canonical_uuid worker_id) (\<lambda>w.
       rbind (read_file key (r @ ''/workers/'' @ w) fs) (\<lambda>content.
       rbind (validate content) (\<lambda>doc. Inr (as_dict doc)))))"

text \<open>\<open>log_key.rsplit("/", 1)[-1].removesuffix(".json")\<close>.\<close>

definition completion_hash :: "string \<Rightarrow> string" where
  "completion_hash key =
     (let name = rev (takeWhile (\<lambda>c. c \<noteq> CHR ''/'') (rev key))
      in if 5 \<le> length name \<and> drop (length name - 5) name = ''.json'' then take (length name - 5) name
         else name)"

section \<open>Facts on digests\<close>

lemma hex_byte_digits:
  assumes "0 \<le> b" "b < 256"
  shows "length (hex_byte b) = 2 \<and> set (hex_byte b) \<subseteq> set hex_digits"
proof -
  have "nat (b div 16) < 16" "nat (b mod 16) < 16" using assms by auto
  moreover have "length hex_digits = 16" by (simp add: hex_digits_def)
  ultimately have "hex_digits ! nat (b div 16) \<in> set hex_digits" "hex_digits ! nat (b mod 16) \<in> set hex_digits"
    by (simp_all add: nth_mem)
  then show ?thesis unfolding hex_byte_def hex_digits_def [symmetric] by simp
qed

lemma word_bytes_range: "b \<in> set (word_bytes w) \<Longrightarrow> 0 \<le> b \<and> b < 256"
  by (auto simp: word_bytes_def)

lemma length_word_bytes [simp]: "length (word_bytes w) = 4"
  by (simp add: word_bytes_def)

lemma length_sha_round: "length (sha_round st kw) = length st"
  by (cases "(st, kw)" rule: sha_round.cases) (auto simp: Let_def)

lemma length_sha_block: "length (sha_block st block) = length st"
proof -
  have "length (foldl sha_round st xs) = length st" for xs
    by (induction xs arbitrary: st) (simp_all add: length_sha_round)
  then show ?thesis by (simp add: sha_block_def Let_def)
qed

lemma length_sha256: "length (sha256 s) = 8"
proof -
  have "length (foldl sha_block st bs) = length st" for st bs
    by (induction bs arbitrary: st) (simp_all add: length_sha_block)
  moreover have "length sha_init = 8" by (simp add: sha_init_def sha_primes_def)
  ultimately show ?thesis by (simp add: sha256_def Let_def)
qed

lemma hexdigest_format: "length (hexdigest s) = 64 \<and> set (hexdigest s) \<subseteq> set hex_digits"
proof -
  let ?bs = "concat (map word_bytes (sha256 s))"
  have r: "b \<in> set ?bs \<Longrightarrow> 0 \<le> b \<and> b < 256" for b using word_bytes_range by auto
  have "length ?bs = 4 * length (sha256 s)"
    by (simp add: length_concat comp_def sum_list_triv)
  moreover have "\<forall>b \<in> set bs. 0 \<le> b \<and> b < 256 \<Longrightarrow>
      length (concat (map hex_byte bs)) = 2 * length bs \<and> set (concat (map hex_byte bs)) \<subseteq> set hex_digits" for bs
    using hex_byte_digits by (induction bs) auto
  ultimately show ?thesis using r length_sha256 unfolding hexdigest_def by auto
qed

lemma match_written: "match_key prefix (log_key prefix (hexdigest c)) = Some (hexdigest c)"
  using hexdigest_format [of c] by (auto simp: match_key_def log_key_def list_all_iff Let_def)

lemma match_key_Some: "match_key prefix key = Some d \<Longrightarrow> key = log_key prefix d \<and> length d = 64"
  unfolding match_key_def Let_def by (metis option.distinct(1) option.inject)

lemma read_write_file: "read_file (fst (write_file prefix c fs)) prefix (snd (write_file prefix c fs)) = Inr c"
  by (simp add: write_file_def read_file_def match_written Let_def)

lemma read_file_Inr:
  "read_file key prefix fs = Inr c \<Longrightarrow> fs key = Some c \<and> key = log_key prefix (hexdigest c)"
  by (auto simp: read_file_def split: option.splits if_splits dest: match_key_Some)

lemma log_key_prefix: "log_key p d = log_key q e \<Longrightarrow> length d = 64 \<Longrightarrow> length e = 64 \<Longrightarrow> p = q"
  by (simp add: log_key_def)

lemma hex_digit_plain:
  "c \<in> set hex_digits \<Longrightarrow> lower_char c = c \<and> c \<notin> set ''-{}'' \<and> c \<noteq> CHR ''/''"
proof -
  have "list_all (\<lambda>c. lower_char c = c \<and> c \<notin> set ''-{}'' \<and> c \<noteq> CHR ''/'') hex_digits" by code_simp
  then show "c \<in> set hex_digits \<Longrightarrow> ?thesis" unfolding list_all_iff by blast
qed

lemma group_uuid_parts:
  assumes "\<forall>c \<in> set h. c \<in> set hex_digits"
  shows "strip_uuid (group_uuid h) = h \<and> CHR ''/'' \<notin> set (group_uuid h)"
proof -
  let ?keep = "\<lambda>c. c \<notin> set ''-{}''"
  have plain: "c \<in> set h \<Longrightarrow> lower_char c = c \<and> ?keep c \<and> c \<noteq> CHR ''/''" for c
    using assms hex_digit_plain by blast
  have keep: "set xs \<subseteq> set h \<Longrightarrow> filter ?keep xs = xs" for xs
    by (rule filter_True) (use plain in blast)
  have ts: "set (take n xs) \<subseteq> set xs" "set (drop n xs) \<subseteq> set xs" for n and xs :: string
    by (rule set_take_subset, rule set_drop_subset)
  note sub = ts [of 8 h] ts(1) [of 4 "drop 8 h"] ts(1) [of 4 "drop 12 h"] ts(1) [of 4 "drop 16 h"]
    ts(2) [of 12 h] ts(2) [of 16 h] ts(2) [of 20 h]
  have split: "take 4 (drop n h) @ drop (n + 4) h = drop n h" for n
    by (metis add.commute append_take_drop_id drop_drop)
  have "filter ?keep (group_uuid h) =
      take 8 h @ take 4 (drop 8 h) @ take 4 (drop 12 h) @ take 4 (drop 16 h) @ drop 20 h"
    using sub by (simp add: group_uuid_def keep [simplified] subset_trans)
  also have "\<dots> = h" using split [of 8] split [of 12] split [of 16] by simp
  finally have "strip_uuid (group_uuid h) = h" using plain by (simp add: strip_uuid_def map_idI)
  moreover have "CHR ''/'' \<notin> set h" using plain by blast
  then have "CHR ''/'' \<notin> set (group_uuid h)" using sub by (auto simp: group_uuid_def)
  ultimately show ?thesis ..
qed

lemma canonical_uuid_Inr:
  "canonical_uuid s = Inr u \<Longrightarrow> canonical_uuid u = Inr u \<and> CHR ''/'' \<notin> set u"
  using group_uuid_parts [of "strip_uuid s"]
  by (auto simp: canonical_uuid_def Let_def list_all_iff split: if_splits)

lemma head_component_key: "CHR ''/'' \<notin> set u \<Longrightarrow> head_component (u @ CHR ''/'' # s) = u"
  unfolding head_component_def by (subst takeWhile_append2) auto

section \<open>Round trips\<close>

text \<open>
  C22.  A Runner log that was written is read back under the returned key: the last \<open>limit\<close> bytes of
  each stream (all of it when the limit is zero), and nothing for an empty log.  The decoder is
  only assumed to invert the encoder on the document that was written.
\<close>

theorem runner_log_roundtrip:
  assumes "write_log dumps limit runner_id out err fs = Inr (key, fs')"
    and "loads (dumps (log_document limit out err)) = Inr (log_document limit out err)"
  shows "read_log loads key fs' =
    Inr (if out = [] \<and> err = [] then (None, None) else (Some (last_bytes limit out), Some (last_bytes limit err)))"
proof (cases "out = [] \<and> err = []")
  case True
  with assms(1) show ?thesis by (auto simp: write_log_def read_log_def)
next
  case False
  with assms(1) obtain u where u: "canonical_uuid runner_id = Inr u"
    and k: "(key, fs') = apfst Some (write_file (u @ ''/runner'') (dumps (log_document limit out err)) fs)"
    by (auto simp: write_log_def split: if_splits)
  let ?c = "dumps (log_document limit out err)"
  have key: "key = Some (log_key (u @ ''/runner'') (hexdigest ?c))"
    and rd: "read_file (the key) (u @ ''/runner'') fs' = Inr ?c"
    using k read_write_file [of "u @ ''/runner''" ?c fs] by (auto simp: write_file_def Let_def)
  have "head_component (the key) = u"
    using canonical_uuid_Inr [OF u] head_component_key [of u] by (simp add: key log_key_def)
  then show ?thesis
    using False rd assms(2) canonical_uuid_Inr [OF u]
    by (simp add: read_log_def key log_document_def dict_get_def)
qed

theorem runner_log_roundtrip_witness:
  "write_log (\<lambda>_. ''{}'') 2 (replicate 32 (CHR ''a'')) ''abc'' [] Map.empty =
     Inr (apfst Some (write_file (group_uuid (replicate 32 (CHR ''a'')) @ ''/runner'') ''{}'' Map.empty)) \<and>
   read_log (\<lambda>_. Inr (log_document 2 ''abc'' []))
     (Some (fst (write_file (group_uuid (replicate 32 (CHR ''a'')) @ ''/runner'') ''{}'' Map.empty)))
     (snd (write_file (group_uuid (replicate 32 (CHR ''a'')) @ ''/runner'') ''{}'' Map.empty)) =
   Inr (Some ''bc'', Some [])"
proof -
  have a: "CHR ''a'' \<in> set hex_digits" by (simp add: hex_digits_def)
  have "strip_uuid (replicate 32 (CHR ''a'')) = replicate 32 (CHR ''a'')"
    using hex_digit_plain [OF a] by (simp add: strip_uuid_def filter_replicate)
  then have c: "canonical_uuid (replicate 32 (CHR ''a'')) = Inr (group_uuid (replicate 32 (CHR ''a'')))"
    using a by (simp add: canonical_uuid_def list_all_iff)
  have w: "write_log (\<lambda>_. ''{}'') 2 (replicate 32 (CHR ''a'')) ''abc'' [] Map.empty =
     Inr (apfst Some (write_file (group_uuid (replicate 32 (CHR ''a'')) @ ''/runner'') ''{}'' Map.empty))"
    by (simp add: write_log_def c)
  show ?thesis
    using w runner_log_roundtrip [of "\<lambda>_. ''{}''" 2 "replicate 32 (CHR ''a'')" "''abc''" "[]" Map.empty
        "Some (fst (write_file (group_uuid (replicate 32 (CHR ''a'')) @ ''/runner'') ''{}'' Map.empty))"
        "snd (write_file (group_uuid (replicate 32 (CHR ''a'')) @ ''/runner'') ''{}'' Map.empty)"
        "\<lambda>_. Inr (log_document 2 ''abc'' [])"]
    by (simp add: last_bytes_def apfst_def map_prod_def split_beta)
qed

lemma worker_log_read:
  assumes "write_worker dumps runner_id worker_id c fs = Inr (l, fs')"
    and "validate (dumps (PDict (stored_payload l))) = Inr (PDict (stored_payload l))"
  shows "read_worker validate runner_id worker_id (stored_key l) fs' = Inr (stored_payload l)"
proof -
  from assms(1) obtain r w where u: "canonical_uuid runner_id = Inr r" "canonical_uuid worker_id = Inr w"
    and l: "stored_key l = fst (write_file (r @ ''/workers/'' @ w) (dumps (PDict (stored_payload l))) fs)"
    "fs' = snd (write_file (r @ ''/workers/'' @ w) (dumps (PDict (stored_payload l))) fs)"
    by (auto simp: write_worker_def Let_def case_prod_beta)
  show ?thesis unfolding read_worker_def l by (simp add: u read_write_file assms(2) del: append_assoc)
qed

lemma read_worker_Inr:
  assumes "read_worker validate runner_id worker_id key fs = Inr doc"
  obtains r w content where "canonical_uuid runner_id = Inr r" "canonical_uuid worker_id = Inr w"
    "fs key = Some content" "key = log_key (r @ ''/workers/'' @ w) (hexdigest content)"
    "rbind (validate content) (\<lambda>d. Inr (as_dict d)) = Inr doc"
  using assms by (auto simp: read_worker_def dest!: read_file_Inr)

end
