(* ===== verification/Store_Workers.thy ===== *)
theory Store_Workers
  imports Log_Store "HOL-Library.List_Lexorder" "HOL-Library.Char_ord"
begin

text \<open>
  The transactions of \<open>storage/repository.py\<close> on Workers and messages: creation, reservation
  (the only authorisation to send a request), commit of a result, and the durable mailbox with its
  receipts.  The laws of these transactions are proved in \<open>Store_Integrity\<close> and
  \<open>Store_Contract\<close>.
\<close>

section \<open>Requests\<close>

text \<open>\<open>clients/models.py\<close>.\<close>

record worker_input =
  wi_input_name :: string
  wi_index :: int
  wi_seed :: int
  wi_prefix_seed :: "int option"
  wi_tokens :: int
  wi_token_stddev :: int
  wi_prefix_tokens :: int
  wi_mode :: string
  wi_repeat_count :: int
  wi_text :: "string option"
  wi_dataset_adapter :: "string option"
  wi_dataset_filename :: "string option"
  wi_calibrated :: bool
  wi_atomic :: bool
  wi_output_token_count :: string
  wi_output_tokens :: int
  wi_probe :: "pydict option"
  wi_probe_family :: int
  wi_probe_occurrence :: int

record request_config =
  rq_model :: string
  rq_prompt :: "string \<times> int"
  rq_sampling_params :: "pydict option"
  rq_llm_api :: "string option"
  rq_metadata :: "pydict option"
  rq_timeout_seconds :: "pyfloat option"
  rq_preparation :: "worker_input option"
  rq_deadline_at :: "instant option"

type_synonym step = "request_config request_step"

record worker_result =
  wr_step_id :: string
  wr_metrics :: pydict
  wr_generated_text :: string
  wr_request :: request_config
  wr_completed_at :: instant

definition wr_succeeded :: "worker_result \<Rightarrow> bool" where
  "wr_succeeded r \<longleftrightarrow> dict_get ''error_code'' (wr_metrics r) = PNone"

section \<open>Creation and reservation\<close>

definition accepting :: "runner_row \<Rightarrow> bool" where
  "accepting r \<longleftrightarrow> run_status r = Running \<and> \<not> run_cancel_requested r"

definition invalid_step_id :: "string \<Rightarrow> bool" where
  "invalid_step_id s \<longleftrightarrow> s = [] \<or> 128 < length s"

definition step_metadata :: "step \<Rightarrow> pydict" where
  "step_metadata s =
     [(KStr ''dependencies'', PList (map PStr (step_dependencies s))),
      (KStr ''message_sources'', PList (map PStr (step_message_sources s))),
      (KStr ''delay_seconds'', PFloat (step_delay s)),
      (KStr ''due_at'', case step_due_at s of Some t \<Rightarrow> PTime t | None \<Rightarrow> PNone),
      (KStr ''input_name'',
         case rq_preparation (step_request s) of Some p \<Rightarrow> PStr (wi_input_name p) | None \<Rightarrow> PNone)]"

definition new_worker :: "repo \<Rightarrow> string \<Rightarrow> instant \<Rightarrow> step \<Rightarrow> worker_row" where
  "new_worker h runner_id now s =
     \<lparr>wk_id = worker_identity runner_id (step_id s), wk_runner_id = runner_id, wk_step_id = step_id s,
      wk_generation = runtime_generation h, wk_state = WCreated, wk_created_at = now,
      wk_submitted_at = None, wk_completed_at = None, wk_metadata = step_metadata s,
      wk_log_key = None, wk_completion_hash = None\<rparr>"

definition runner_steps :: "string \<Rightarrow> db \<Rightarrow> string list" where
  "runner_steps runner_id d = map wk_step_id (filter (\<lambda>w. wk_runner_id w = runner_id) (workers d))"

definition create_workers :: "repo \<Rightarrow> string \<Rightarrow> step list \<Rightarrow> instant \<Rightarrow> db \<Rightarrow> unit tx" where
  "create_workers h runner_id steps now d =
     (if steps = [] then Inr ((), d)
      else
        rbind (raise_if (list_ex (\<lambda>s. invalid_step_id (step_id s)) steps)
                 (ValueError ''Invalid Worker step identifier'')) (\<lambda>_.
        rbind (raise_if (length (remdups (map step_id steps)) \<noteq> length steps)
                 (ValueError ''Duplicate Worker step identifiers'')) (\<lambda>_.
        rbind (check_runtime h now (leases d)) (\<lambda>_.
          case get_runner runner_id d of
            None \<Rightarrow> Inl (ValueError ''Runner is not accepting Worker creation'')
          | Some runner \<Rightarrow>
              if \<not> accepting runner then Inl (ValueError ''Runner is not accepting Worker creation'')
              else
                let existing = remdups (runner_steps runner_id d);
                    fresh = filter (\<lambda>s. step_id s \<notin> set existing) steps
                in if run_planned_workers runner < length existing + length fresh
                   then Inl (ValueError ''Worker is outside the declared request expansion'')
                   else rbind (foldR (\<lambda>ws s. insert_row wk_id (new_worker h runner_id now s) ws)
                                (workers d) fresh) (\<lambda>ws. Inr ((), d\<lparr>workers := ws\<rparr>))))))"

definition submitted_count :: "string \<Rightarrow> db \<Rightarrow> nat" where
  "submitted_count runner_id d =
     length (filter (\<lambda>w. wk_runner_id w = runner_id \<and> wk_state w = WSubmitted) (workers d))"

definition reserve_worker :: "repo \<Rightarrow> string \<Rightarrow> string \<Rightarrow> int option \<Rightarrow> instant \<Rightarrow> db \<Rightarrow> bool tx" where
  "reserve_worker h runner_id step window now d =
     rbind (raise_if ((case window of Some w \<Rightarrow> w < 1 | None \<Rightarrow> False) \<or> invalid_step_id step)
              (ValueError ''Invalid Worker reservation'')) (\<lambda>_.
     rbind (check_runtime h now (leases d)) (\<lambda>_.
       case get_runner runner_id d of
         None \<Rightarrow> Inr (False, d)
       | Some runner \<Rightarrow>
           if \<not> accepting runner then Inr (False, d)
           else case get_worker (worker_identity runner_id step) d of
             None \<Rightarrow> Inl (ValueError ''Worker must be created before submission'')
           | Some existing \<Rightarrow>
               if wk_state existing \<noteq> WCreated \<or> wk_generation existing \<noteq> runtime_generation h
               then Inr (False, d)
               else if (case window of Some w \<Rightarrow> w \<le> int (submitted_count runner_id d) | None \<Rightarrow> False)
               then Inl (ValueError ''Runner outstanding Worker window exceeded'')
               else Inr (True, update_worker (worker_identity runner_id step)
                  (\<lambda>w. w\<lparr>wk_state := WSubmitted, wk_submitted_at := Some now\<rparr>) d)))"

section \<open>Messages\<close>

text \<open>The stored row of a completion refers to its log artifact instead of carrying it.\<close>

definition completion_row :: "string \<Rightarrow> worker_result \<Rightarrow> string \<Rightarrow> runner_message" where
  "completion_row runner_id result key =
     \<lparr>msg_runner_id = runner_id, msg_topic = ''worker.completed'',
      msg_payload = [(KStr ''worker_id'', PStr (worker_identity runner_id (wr_step_id result))),
                     (KStr ''log_key'', PStr key)],
      msg_id = completion_identity runner_id (wr_step_id result),
      msg_source = Some (wr_step_id result), msg_destination = ''runner'',
      msg_created_at = wr_completed_at result\<rparr>"

definition commit_worker ::
    "repo \<Rightarrow> string \<Rightarrow> worker_result \<Rightarrow> stored_log \<Rightarrow> instant \<Rightarrow> db \<Rightarrow> runner_message option tx" where
  "commit_worker h runner_id result stored now d =
     (let worker_id = worker_identity runner_id (wr_step_id result);
          hash = completion_hash (stored_key stored);
          message_id = completion_identity runner_id (wr_step_id result)
      in rbind (check_runtime h now (leases d)) (\<lambda>_.
        case get_runner runner_id d of
          None \<Rightarrow> Inr (None, d)
        | Some runner \<Rightarrow>
            if run_status runner \<noteq> Running then Inr (None, d)
            else case get_worker worker_id d of
              None \<Rightarrow> Inr (None, d)
            | Some record \<Rightarrow>
                if wk_generation record \<noteq> runtime_generation h then Inr (None, d)
                else if wk_state record \<noteq> WSubmitted
                then (if wk_completion_hash record \<noteq> Some hash then Inr (None, d)
                      else case get_message message_id d of
                        None \<Rightarrow> Inr (None, d)
                      | Some m \<Rightarrow> Inr (Some (m\<lparr>msg_runner_id := runner_id, msg_payload := stored_payload stored\<rparr>), d))
                else let row = completion_row runner_id result (stored_key stored)
                  in rbind (insert_row msg_id row (messages d)) (\<lambda>ms.
                    Inr (Some (row\<lparr>msg_payload := stored_payload stored\<rparr>),
                      (update_worker worker_id
                        (\<lambda>w. w\<lparr>wk_state := (if wr_succeeded result then WSucceeded else WFailed),
                               wk_completed_at := Some (wr_completed_at result),
                               wk_completion_hash := Some hash,
                               wk_log_key := Some (stored_key stored)\<rparr>) d)\<lparr>messages := ms\<rparr>))))"

definition same_content :: "runner_message \<Rightarrow> runner_message \<Rightarrow> bool" where
  "same_content a b \<longleftrightarrow> msg_runner_id a = msg_runner_id b \<and> msg_topic a = msg_topic b \<and>
     msg_destination a = msg_destination b \<and> msg_source a = msg_source b \<and> msg_payload a = msg_payload b"


definition publish_message :: "repo \<Rightarrow> runner_message \<Rightarrow> instant \<Rightarrow> db \<Rightarrow> bool tx" where
  "publish_message h m now d =
     rbind (check_runtime h now (leases d)) (\<lambda>_.
       case get_runner (msg_runner_id m) d of
         None \<Rightarrow> Inr (False, d)
       | Some runner \<Rightarrow>
           if \<not> accepting runner then Inr (False, d)
           else case get_message (msg_id m) d of
             Some existing \<Rightarrow>
               if \<not> same_content existing m then Inl (ValueError ''Message ID reused with different content'')
               else Inr (True, d)
           | None \<Rightarrow>
               rbind (if msg_topic m \<noteq> ''worker.cancelled'' then Inr d
                      else case dict_get ''step_id'' (msg_payload m) of
                        PStr s \<Rightarrow>
                          (case get_worker (worker_identity (msg_runner_id m) s) d of
                             Some w \<Rightarrow>
                               if wk_state w = WCreated
                               then Inr (update_worker (wk_id w)
                                 (\<lambda>w. w\<lparr>wk_state := WCancelled, wk_completed_at := Some (msg_created_at m),
                                        wk_metadata := dict_set (KStr ''cancellation'') (PDict (msg_payload m)) (wk_metadata w)\<rparr>) d)
                               else Inl (ValueError ''Only an unsubmitted Worker can be cancelled by dependency'')
                           | None \<Rightarrow> Inl (ValueError ''Only an unsubmitted Worker can be cancelled by dependency''))
                      | _ \<Rightarrow> Inl (ValueError ''Worker cancellation requires a step identifier''))
                 (\<lambda>d'. Inr (True, d'\<lparr>messages := messages d' @ [m]\<rparr>)))"

definition acknowledged :: "string \<Rightarrow> string \<Rightarrow> db \<Rightarrow> bool" where
  "acknowledged message_id consumer d \<longleftrightarrow>
     list_ex (\<lambda>r. rcp_message_id r = message_id \<and> rcp_consumer r = consumer) (receipts d)"

text \<open>Unacknowledged messages in the order \<open>created_at, id\<close>.\<close>

definition pending_rows :: "string \<Rightarrow> string \<Rightarrow> string \<Rightarrow> db \<Rightarrow> runner_message list" where
  "pending_rows runner_id destination consumer d =
     sort_key msg_created_at (sort_key msg_id
       (filter (\<lambda>m. msg_runner_id m = runner_id \<and> msg_destination m = destination \<and>
                    \<not> acknowledged (msg_id m) consumer d) (messages d)))"

text \<open>
  \<open>_restore_message\<close>: a completion is hydrated from its log artifact, read through \<open>read\<close>
  (\<open>read_worker\<close> on the log directory).
\<close>

definition restore_message ::
    "(string \<Rightarrow> string \<Rightarrow> string \<Rightarrow> pydict res) \<Rightarrow> runner_message \<Rightarrow> runner_message res" where
  "restore_message read m =
     (if msg_topic m \<noteq> ''worker.completed'' then Inr m
      else case (dict_get ''worker_id'' (msg_payload m), dict_get ''log_key'' (msg_payload m)) of
        (PStr worker_id, PStr key) \<Rightarrow>
          rbind (read (msg_runner_id m) worker_id key) (\<lambda>completion.
            if Some (dict_get ''step_id'' completion) \<noteq> map_option PStr (msg_source m)
            then Inl (ValueError ''Worker completion identity mismatch'')
            else Inr (m\<lparr>msg_payload := as_dict (json_safe (PDict completion))\<rparr>))
      | _ \<Rightarrow> Inl (ValueError ''Invalid Worker completion reference''))"

definition pending_messages ::
    "(string \<Rightarrow> string \<Rightarrow> string \<Rightarrow> pydict res) \<Rightarrow> string \<Rightarrow> string \<Rightarrow> string \<Rightarrow> nat \<Rightarrow> db
      \<Rightarrow> runner_message list res" where
  "pending_messages read runner_id destination consumer limit d =
     mapR (restore_message read) (take limit (pending_rows runner_id destination consumer d))"

definition pending_messages_batch ::
    "(string \<Rightarrow> string \<Rightarrow> string \<Rightarrow> pydict res) \<Rightarrow> string list \<Rightarrow> string \<Rightarrow> string \<Rightarrow> nat \<Rightarrow> db
      \<Rightarrow> runner_message list res" where
  "pending_messages_batch read runner_ids destination consumer limit d =
     (if runner_ids = [] then Inr []
      else if limit < 1 then Inl (ValueError ''message limit must be positive'')
      else mapR (restore_message read)
             (concat (map (\<lambda>r. take limit (pending_rows r destination consumer d)) runner_ids)))"

text \<open>\<open>ON CONFLICT DO NOTHING\<close> on the receipt's key.\<close>

definition add_receipt :: "string \<Rightarrow> instant \<Rightarrow> string \<Rightarrow> db \<Rightarrow> db" where
  "add_receipt consumer now i d =
     (if acknowledged i consumer d then d
      else d\<lparr>receipts := receipts d @ [\<lparr>rcp_message_id = i, rcp_consumer = consumer, rcp_acknowledged_at = now\<rparr>]\<rparr>)"

definition acknowledge_messages :: "repo \<Rightarrow> string \<Rightarrow> string list \<Rightarrow> string \<Rightarrow> instant \<Rightarrow> db \<Rightarrow> unit tx" where
  "acknowledge_messages h runner_id message_ids consumer now d =
     (let identifiers = remdups message_ids
      in if identifiers = [] then Inr ((), d)
         else rbind (check_runtime h now (leases d)) (\<lambda>_.
           if \<not> (\<forall>i \<in> set identifiers. \<exists>m \<in> set (messages d). msg_id m = i \<and> msg_runner_id m = runner_id)
           then Inl (ValueError ''Message does not belong to Runner'')
           else Inr ((), fold (add_receipt consumer now) (sort identifiers) d)))"

lemmas worker_tx_defs [step_defs] = create_workers_def reserve_worker_def commit_worker_def
  publish_message_def acknowledge_messages_def

end
