(* ===== verification/Store_Tasks.thy ===== *)
theory Store_Tasks
  imports Store_Workers
begin

text \<open>
  How the end of a Runner advances its task instance: \<open>_checkpoint_task_result\<close> and
  \<open>_cancel_task_dispatches\<close> of \<open>storage/repository.py\<close>.  A checkpoint records the outcome of one
  invocation on its originating node and its instance, and then either fails the instance and
  cancels what has not been admitted, or remembers the payload's hash and evidence and completes
  the instance when no node is unfinished.

  \<open>Store_Integrity\<close> shows that a checkpoint touches nothing but nodes, instances, events and the
  queued Runners of its instance.
\<close>

section \<open>Cancelling what was not admitted\<close>

definition cancel_queued_runner :: "instant \<Rightarrow> runner_row \<Rightarrow> runner_row" where
  "cancel_queued_runner now r =
     r\<lparr>run_status := Cancelled, run_cancel_requested := True, run_finished_at := Some now\<rparr>"

definition instance_runner :: "string \<Rightarrow> db \<Rightarrow> string \<Rightarrow> bool" where
  "instance_runner instance_id d i \<longleftrightarrow>
     list_ex (\<lambda>n. nd_instance_id n = Some instance_id \<and> nd_runner_id n = Some i) (nodes d)"

definition cancel_task_dispatches :: "instant \<Rightarrow> string \<Rightarrow> db \<Rightarrow> db" where
  "cancel_task_dispatches now instance_id d =
     (let victim = (\<lambda>r. run_status r = Queued \<and> instance_runner instance_id d (run_id r));
          notices = map (\<lambda>r. \<lparr>ev_runner_id = run_id r, ev_status = Cancelled,
                        ev_message = ''Task instance terminated before request admission''\<rparr>)
                      (filter victim (runners d))
      in d\<lparr>runners := update_where victim (cancel_queued_runner now) (runners d),
           events := events d @ notices,
           nodes := update_where (\<lambda>n. nd_instance_id n = Some instance_id \<and> nd_state n \<in> {NBlocked, NPending})
                      (\<lambda>n. n\<lparr>nd_state := NCancelled\<rparr>) (nodes d)\<rparr>)"

section \<open>One invocation\<close>

record evidence =
  ev_started_at :: "instant option"
  ev_completed_at :: "instant option"
  ev_prompt_hash :: pyval
  ev_payload_evidence :: pyval

definition no_evidence :: evidence where
  "no_evidence = \<lparr>ev_started_at = None, ev_completed_at = None, ev_prompt_hash = PNone, ev_payload_evidence = PNone\<rparr>"

definition first_some :: "'a option list \<Rightarrow> 'a \<Rightarrow> 'a" where
  "first_some xs y = (case filter (\<lambda>x. x \<noteq> None) xs of Some x # _ \<Rightarrow> x | _ \<Rightarrow> y)"

text \<open>\<open>dict(x) if x is not None else None\<close>: evidence is an object or absent.\<close>

definition copy_evidence :: "pyval \<Rightarrow> pyval res" where
  "copy_evidence v =
     (case v of PNone \<Rightarrow> Inr PNone | PDict d \<Rightarrow> Inr (PDict d)
      | _ \<Rightarrow> Inl (TypeError ''payload evidence is not a mapping''))"

definition context_is_batch :: "pydict \<Rightarrow> bool" where
  "context_is_batch c \<longleftrightarrow> map_of c (KStr ''execution_kind'') = Some (PStr ''batch'')"

definition context_kind :: "pydict \<Rightarrow> pyval" where
  "context_kind c = (case map_of c (KStr ''execution_kind'') of Some v \<Rightarrow> v | None \<Rightarrow> PStr ''atomic'')"

definition safe_dict :: "pydict \<Rightarrow> pydict" where
  "safe_dict d = as_dict (json_safe (PDict d))"

definition utc_text :: "instant \<Rightarrow> pyval" where
  "utc_text t = PTime (Aware t)"

text \<open>The lineage of the originating node and the outcome entry of the instance.\<close>

definition close_lineage :: "instant \<Rightarrow> instant \<Rightarrow> runner_status \<Rightarrow> pydict \<Rightarrow> pydict" where
  "close_lineage started completed st lineage =
     safe_dict
       (dict_set (KStr ''terminal_status'') (PStr (status_text st))
         (dict_set (KStr ''actual_completed_at'') (utc_text completed)
           (dict_set (KStr ''actual_started_at'') (utc_text started) lineage)))"

definition node_outcome :: "pydict \<Rightarrow> instant \<Rightarrow> instant \<Rightarrow> pyval \<Rightarrow> pyval \<Rightarrow> runner_status \<Rightarrow> pyval" where
  "node_outcome context started completed hash copied st =
     PDict [(KStr ''role'', dict_get ''role'' context), (KStr ''execution_kind'', context_kind context),
            (KStr ''payload_id'', dict_get ''payload_id'' context), (KStr ''started_at'', utc_text started),
            (KStr ''completed_at'', utc_text completed), (KStr ''prompt_hash'', hash),
            (KStr ''payload_evidence'', copied), (KStr ''status'', PStr (status_text st))]"

definition record_outcome :: "string \<Rightarrow> pyval \<Rightarrow> pydict \<Rightarrow> pydict" where
  "record_outcome node_id entry out =
     safe_dict (dict_set (KStr ''nodes'')
       (PDict (dict_set (KStr node_id) entry (as_dict (dict_get ''nodes'' out)))) out)"

definition fail_instance :: "instant \<Rightarrow> string \<Rightarrow> instance_state \<Rightarrow> string \<Rightarrow> db \<Rightarrow> db" where
  "fail_instance now instance_id st message d =
     cancel_task_dispatches now instance_id
       (update_instance instance_id (\<lambda>i. i\<lparr>in_state := st, in_error := Some message\<rparr>) d)"

text \<open>
  The replay check of an atomic invocation on the instance's checkpoint: the new checkpoint, or
  why the instance fails.
\<close>

definition check_payload :: "string \<Rightarrow> string \<Rightarrow> pyval \<Rightarrow> pyval \<Rightarrow> pydict \<Rightarrow> string + pydict" where
  "check_payload node_id payload_id hash copied checkpoint =
     (if \<not> truthy hash then Inl (''task node '' @ node_id @ '' omitted prompt_hash'')
      else
        let hashes = as_dict (dict_get ''payload_hashes'' checkpoint);
            expected = dict_get payload_id hashes
        in if expected \<noteq> PNone \<and> expected \<noteq> hash
           then Inl (''payload '' @ payload_id @ '' replay changed prompt_hash'')
           else
             let checkpoint1 = dict_set (KStr ''payload_hashes'') (PDict (dict_set (KStr payload_id) hash hashes)) checkpoint;
                 evidences = as_dict (dict_get ''payload_evidence'' checkpoint1);
                 expected_evidence = dict_get payload_id evidences
             in if expected_evidence \<noteq> PNone \<and> expected_evidence \<noteq> copied
                then Inl (''payload '' @ payload_id @ '' replay changed selection evidence'')
                else Inr (safe_dict
                  (if copied \<noteq> PNone
                   then dict_set (KStr ''payload_evidence'') (PDict (dict_set (KStr payload_id) copied evidences)) checkpoint1
                   else checkpoint1)))"

definition unfinished_node :: "string \<Rightarrow> node_row \<Rightarrow> bool" where
  "unfinished_node instance_id n \<longleftrightarrow> nd_instance_id n = Some instance_id \<and>
     (nd_state n \<noteq> NEmitted \<or> dict_get ''terminal_status'' (nd_lineage n) \<noteq> PStr ''succeeded'')"

definition settle_instance :: "string \<Rightarrow> db \<Rightarrow> db" where
  "settle_instance instance_id d =
     update_instance instance_id
       (\<lambda>i. i\<lparr>in_state := (if list_ex (unfinished_node instance_id) (nodes d) then IActive else ICompleted),
              in_error := None\<rparr>) d"

text \<open>The body of \<open>_checkpoint_task_result\<close> once instance and originating node are found.\<close>

definition advance_instance ::
    "runner_row \<Rightarrow> pydict \<Rightarrow> string \<Rightarrow> string \<Rightarrow> runner_status \<Rightarrow> instant \<Rightarrow> evidence
      \<Rightarrow> instance_row \<Rightarrow> node_row \<Rightarrow> db \<Rightarrow> db res" where
  "advance_instance runner context instance_id node_id st occurred ev inst source d =
     (let batch = context_is_batch context;
          started = (if batch then first_some [run_started_at runner] occurred
                     else first_some [ev_started_at ev, run_started_at runner] occurred);
          completed = (if batch then occurred else first_some [ev_completed_at ev] occurred)
      in rbind (copy_evidence (ev_payload_evidence ev)) (\<lambda>copied.
        let d1 = d\<lparr>nodes := update_where (\<lambda>n. nd_id n = nd_id source)
                     (\<lambda>n. n\<lparr>nd_lineage := close_lineage started completed st (nd_lineage n)\<rparr>) (nodes d)\<rparr>;
            d2 = update_instance instance_id
                   (\<lambda>i. i\<lparr>in_outcome := record_outcome node_id
                             (node_outcome context started completed (ev_prompt_hash ev) copied st) (in_outcome i),
                          in_updated_at := occurred\<rparr>) d1
        in if instance_terminal (in_state inst) then Inr d2
           else if st \<noteq> Succeeded
           then Inr (fail_instance occurred instance_id (if st = Cancelled then ICancelled else IFailed)
                  (''task node '' @ node_id @ '' ended as '' @ status_text st) d2)
           else if batch then Inr (settle_instance instance_id d2)
           else case dict_get ''payload_id'' context of
             PStr payload_id \<Rightarrow>
               (case check_payload node_id payload_id (ev_prompt_hash ev) copied (in_checkpoint inst) of
                  Inl message \<Rightarrow> Inr (fail_instance occurred instance_id IFailed message d2)
                | Inr checkpoint \<Rightarrow>
                    Inr (settle_instance instance_id
                      (update_instance instance_id (\<lambda>i. i\<lparr>in_checkpoint := checkpoint\<rparr>) d2)))
           | _ \<Rightarrow> Inr d2))"

definition checkpoint_invocation ::
    "runner_row \<Rightarrow> pyval \<Rightarrow> runner_status \<Rightarrow> instant \<Rightarrow> evidence \<Rightarrow> db \<Rightarrow> db res" where
  "checkpoint_invocation runner context st occurred ev d =
     (case context of
        PDict c \<Rightarrow>
          (case (dict_get ''instance_id'' c, dict_get ''node_id'' c) of
             (PStr instance_id, PStr node_id) \<Rightarrow>
               if \<not> context_is_batch c \<and> \<not> is_str (dict_get ''payload_id'' c) then Inr d
               else (case get_instance instance_id d of
                 None \<Rightarrow> Inr d
               | Some inst \<Rightarrow>
                   rbind (one_or_none (filter (\<lambda>n. nd_runner_id n = Some (run_id runner) \<and> nd_node_id n = Some node_id) (nodes d)))
                     (\<lambda>source. case source of
                        None \<Rightarrow> Inr (update_instance instance_id
                          (\<lambda>i. i\<lparr>in_state := IFailed,
                                 in_error := Some (''task node '' @ node_id @ '' has no originating Dispatch'')\<rparr>) d)
                      | Some n \<Rightarrow> advance_instance runner c instance_id node_id st occurred ev inst n d))
           | _ \<Rightarrow> Inr d)
      | _ \<Rightarrow> Inr d)"

section \<open>All invocations of a Runner\<close>

text \<open>\<open>as_utc(datetime.fromisoformat(value))\<close> with its \<open>ValueError\<close> ignored.\<close>

definition parse_instant :: "pyval \<Rightarrow> instant option" where
  "parse_instant v = (case v of PTime (Aware t) \<Rightarrow> Some t | _ \<Rightarrow> None)"

definition matches_invocation :: "pyval \<Rightarrow> pyval \<Rightarrow> bool" where
  "matches_invocation invocation request \<longleftrightarrow>
     list_all (\<lambda>name. field name (field ''request_metadata'' request) = field name invocation)
       [''instance_id'', ''node_id'', ''payload_id'']"

definition grouped_evidence :: "pyval \<Rightarrow> evidence" where
  "grouped_evidence request =
     (let metadata = field ''request_metadata'' request; timing = field ''request_timing'' request
      in \<lparr>ev_started_at = parse_instant (field ''client_start_utc'' timing),
          ev_completed_at = parse_instant (field ''completed_utc'' timing),
          ev_prompt_hash = field ''prompt_hash'' metadata,
          ev_payload_evidence = field ''payload_evidence'' metadata\<rparr>)"

definition checkpoint_grouped ::
    "runner_row \<Rightarrow> runner_status \<Rightarrow> instant \<Rightarrow> pyval list \<Rightarrow> db \<Rightarrow> pyval \<Rightarrow> db res" where
  "checkpoint_grouped runner st occurred requests d invocation =
     (let found = filter (matches_invocation invocation) requests;
          request = (case found of [r] \<Rightarrow> r | _ \<Rightarrow> PDict []);
          node_status = (if st = Succeeded \<and> (length found \<noteq> 1 \<or> field ''error_code'' request \<noteq> PNone)
                         then Failed else st)
      in checkpoint_invocation runner invocation node_status occurred (grouped_evidence request) d)"

definition checkpoint_task_result ::
    "runner_row \<Rightarrow> runner_status \<Rightarrow> instant \<Rightarrow> evidence \<Rightarrow> pyval list \<Rightarrow> db \<Rightarrow> db res" where
  "checkpoint_task_result runner st occurred ev requests d =
     (case field ''task_contexts'' (run_benchmark_config runner) of
        PList (c # cs) \<Rightarrow> foldR (checkpoint_grouped runner st occurred requests) d (c # cs)
      | _ \<Rightarrow> checkpoint_invocation runner (field ''task_context'' (run_benchmark_config runner)) st occurred ev d)"

lemmas checkpoint_defs [step_defs] = checkpoint_task_result_def checkpoint_grouped_def
  checkpoint_invocation_def advance_instance_def

end
