(* ===== verification/Store_Runners.thy ===== *)
theory Store_Runners
  imports Store_Tasks
begin

text \<open>
  The life cycle of a Runner in \<open>storage/repository.py\<close>: construction from a dispatch, admission
  (\<open>start_selected\<close>), heartbeats, cancellation of Runners and Campaigns, completion, failure and
  recovery.

  What these transactions keep and promise is proved in \<open>Store_Integrity\<close>, \<open>Store_Safety\<close> and
  \<open>Store_Contract\<close>.
\<close>

section \<open>Construction\<close>

text \<open>
  \<open>RunnerRecordFactory\<close>; \<open>decode\<close> reads the benchmark document into the fields that
  \<open>planned_worker_count\<close> uses, \<open>fresh\<close> is what \<open>uuid4\<close> returned.
\<close>

record dispatch_origin =
  or_created_by :: string
  or_campaign_id :: "string option"
  or_plan_id :: "string option"
  or_occurrence :: "int option"
  or_scheduled_for :: "instant option"
  or_template_version :: "string option"

definition queued_runner ::
    "(pyval \<Rightarrow> benchmark) \<Rightarrow> string \<Rightarrow> instant \<Rightarrow> pydict \<Rightarrow> pydict \<Rightarrow> string option \<Rightarrow> dispatch_origin \<Rightarrow> runner_row" where
  "queued_runner decode fresh now benchmark metadata label origin =
     (let config = PDict (safe_dict benchmark)
      in \<lparr>run_id = fresh, run_campaign_id = or_campaign_id origin, run_plan_id = or_plan_id origin,
          run_plan_occurrence = or_occurrence origin, run_scheduled_for = or_scheduled_for origin,
          run_template_version = or_template_version origin, run_label = label,
          run_created_by = or_created_by origin, run_status = Queued, run_benchmark_config = config,
          run_user_metadata = PDict (safe_dict metadata), run_created_at = now,
          run_started_at = None, run_finished_at = None, run_heartbeat_at = None,
          run_cancel_requested = False, run_scheduler_id = None, run_exit_code = None,
          run_summary = PNone, run_request_count = 0,
          run_planned_workers = nat (planned_worker_count (decode config)),
          run_error_message = None, run_log_key = None, run_runtime_id = None\<rparr>)"

definition from_template ::
    "(pyval \<Rightarrow> benchmark) \<Rightarrow> string \<Rightarrow> instant \<Rightarrow> pyval \<Rightarrow> dispatch_origin \<Rightarrow> runner_row res" where
  "from_template decode fresh now template origin =
     (case field ''benchmark'' template of
        PDict benchmark \<Rightarrow>
          rbind (case map_of (as_dict template) (KStr ''metadata'') of
                   None \<Rightarrow> Inr [] | Some (PDict m) \<Rightarrow> Inr m
                 | Some _ \<Rightarrow> Inl (ValueError ''runner_template.metadata must be an object'')) (\<lambda>metadata.
          rbind (case field ''label'' template of
                   PNone \<Rightarrow> Inr None | PStr l \<Rightarrow> Inr (Some l)
                 | _ \<Rightarrow> Inl (ValueError ''runner_template.label must be a string or null'')) (\<lambda>label.
            Inr (queued_runner decode fresh now benchmark metadata label origin)))
      | _ \<Rightarrow> Inl (ValueError ''runner_template.benchmark must be an object''))"

definition from_dispatch ::
    "(pyval \<Rightarrow> benchmark) \<Rightarrow> string \<Rightarrow> instant \<Rightarrow> node_row \<Rightarrow> runner_row res" where
  "from_dispatch decode fresh now n =
     (let lineage = nd_lineage n;
          created_by = (case dict_get ''created_by'' lineage of
                          PStr s \<Rightarrow> if s = [] then ''planner'' else s | _ \<Rightarrow> ''planner'')
      in rbind (case dict_get ''plan_occurrence'' lineage of
                  PNone \<Rightarrow> Inr None | PInt i \<Rightarrow> Inr (Some i)
                | _ \<Rightarrow> Inl (ValueError ''dispatch.lineage.plan_occurrence must be an integer'')) (\<lambda>occurrence.
         rbind (case dict_get ''plan_template_version'' lineage of
                  PNone \<Rightarrow> Inr None | PStr v \<Rightarrow> Inr (Some v)
                | _ \<Rightarrow> Inl (ValueError ''dispatch.lineage.plan_template_version must be a string'')) (\<lambda>version.
         from_template decode fresh now (nd_template n)
           \<lparr>or_created_by = created_by, or_campaign_id = Some (nd_campaign_id n), or_plan_id = nd_plan_id n,
            or_occurrence = occurrence, or_scheduled_for = nd_due_at n, or_template_version = version\<rparr>)))"

section \<open>Runtime limits\<close>

text \<open>The chain of parent runtimes; each visit is to a row not visited before.\<close>

function runtime_limits_loop ::
    "runtime_row list \<Rightarrow> string list \<Rightarrow> (string \<times> nat) list \<Rightarrow> string option \<Rightarrow> (string \<times> nat) list res" where
  "runtime_limits_loop rows visited limits None = Inr limits"
| "runtime_limits_loop rows visited limits (Some i) =
     (if i \<in> set visited then Inl (ValueError ''Submission runtime parent cycle'')
      else case get_row rt_id i rows of
        None \<Rightarrow> Inl (ValueError ''Submission runtime is missing'')
      | Some r \<Rightarrow> runtime_limits_loop rows (i # visited)
          (case rt_concurrent_workers r of Some w \<Rightarrow> limits @ [(i, w)] | None \<Rightarrow> limits) (rt_parent_id r))"
  by pat_completeness auto
termination
proof (relation "measure (\<lambda>(rows, visited, limits, current). card (rt_id ` set rows - set visited))")
  fix rows visited and limits :: "(string \<times> nat) list" and i r
  assume "i \<notin> set visited" and r: "get_row rt_id i rows = Some r"
  with get_row_Some [OF r] have "rt_id ` set rows - set (i # visited) \<subset> rt_id ` set rows - set visited"
    by auto
  then have "card (rt_id ` set rows - set (i # visited)) < card (rt_id ` set rows - set visited)"
    by (intro psubset_card_mono) auto
  then show "((rows, i # visited, case rt_concurrent_workers r of Some w \<Rightarrow> limits @ [(i, w)] | None \<Rightarrow> limits,
        rt_parent_id r), rows, visited, limits, Some i)
    \<in> measure (\<lambda>(rows, visited, limits, current). card (rt_id ` set rows - set visited))"
    by simp
qed simp

definition runtime_limits :: "string option \<Rightarrow> db \<Rightarrow> (string \<times> nat) list res" where
  "runtime_limits runtime_id d = runtime_limits_loop (runtimes d) [] [] runtime_id"

section \<open>Emission and admission\<close>

definition dispatch_runtime :: "node_row \<Rightarrow> db \<Rightarrow> string option res" where
  "dispatch_runtime n d =
     (case nd_plan_id n of
        Some p \<Rightarrow> (case get_row pl_id p (plans d) of
          None \<Rightarrow> Inl (ValueError ''Dispatch has no owning RunnerPlan'')
        | Some plan \<Rightarrow> Inr (pl_runtime_id plan))
      | None \<Rightarrow> (case get_row cp_id (nd_campaign_id n) (campaigns d) of
          None \<Rightarrow> Inl (ValueError ''Dispatch has no owning Campaign'')
        | Some c \<Rightarrow> Inr (cp_runtime_id c)))"

definition record_emission ::
    "string \<Rightarrow> instant \<Rightarrow> string option \<Rightarrow> node_row \<Rightarrow> runner_row \<Rightarrow> db \<Rightarrow> db" where
  "record_emission fresh now planner_id n runner d =
     (let who = (case planner_id of Some s \<Rightarrow> if s = [] then ''-'' else s | None \<Rightarrow> ''-'');
          d1 = add_event fresh Queued (''Emitted by Planner '' @ who)
                 (d\<lparr>nodes := update_where (\<lambda>x. nd_id x = nd_id n)
                      (\<lambda>x. x\<lparr>nd_state := NEmitted, nd_runner_id := Some fresh, nd_emitted_at := Some now\<rparr>) (nodes d)\<rparr>)
      in case nd_plan_id n of
           None \<Rightarrow> d1
         | Some p \<Rightarrow> d1\<lparr>plans := update_where (\<lambda>x. pl_id x = p)
               (\<lambda>x. x\<lparr>pl_emitted_count := pl_emitted_count x + 1, pl_updated_at := now\<rparr>) (plans d1),
             plan_events := plan_events d1 @ [\<lparr>pe_plan_id = p, pe_type = ''emitted'',
               pe_occurrence = map_option nat (run_plan_occurrence runner), pe_scheduled_for = nd_due_at n,
               pe_runner_id = Some fresh, pe_message = Some ''Runner emitted through durable dispatch'',
               pe_details = PDict [(KStr ''planner_id'', case planner_id of Some s \<Rightarrow> PStr s | None \<Rightarrow> PNone)]\<rparr>]\<rparr>)"

definition emit_dispatch ::
    "(pyval \<Rightarrow> benchmark) \<Rightarrow> string \<Rightarrow> instant \<Rightarrow> string option \<Rightarrow> node_row \<Rightarrow> db \<Rightarrow> db res" where
  "emit_dispatch decode fresh now planner_id n d =
     rbind (from_dispatch decode fresh now n) (\<lambda>runner.
     rbind (dispatch_runtime n d) (\<lambda>runtime.
     rbind (insert_row run_id (runner\<lparr>run_runtime_id := runtime\<rparr>) (runners d)) (\<lambda>rs.
       Inr (record_emission fresh now planner_id n runner (d\<lparr>runners := rs\<rparr>)))))"

definition activate_node ::
    "(pyval \<Rightarrow> benchmark) \<Rightarrow> repo \<Rightarrow> string \<Rightarrow> string \<Rightarrow> instant \<Rightarrow> instant \<Rightarrow> db \<Rightarrow> runner_row option tx" where
  "activate_node decode h node_id fresh due now d =
     rbind (check_runtime h now (leases d)) (\<lambda>_.
       case get_row nd_id node_id (nodes d) of
         None \<Rightarrow> Inr (None, d)
       | Some n \<Rightarrow>
           if nd_state n \<notin> {NBlocked, NPending} then Inr (None, d)
           else case nd_instance_id n of
             None \<Rightarrow> Inr (None, d)
           | Some instance_id \<Rightarrow>
               (case get_instance instance_id d of
                  None \<Rightarrow> Inr (None, d)
                | Some inst \<Rightarrow>
                    if instance_terminal (in_state inst) then Inr (None, d)
                    else
                      let n' = n\<lparr>nd_due_at := Some due, nd_state := NPending\<rparr>;
                          d1 = d\<lparr>nodes := update_where (\<lambda>x. nd_id x = node_id)
                                  (\<lambda>x. x\<lparr>nd_due_at := Some due, nd_state := NPending\<rparr>) (nodes d)\<rparr>
                      in rbind (emit_dispatch decode fresh now (runtime_owner h) n' d1) (\<lambda>d2.
                        let d3 = update_instance instance_id (\<lambda>i. i\<lparr>in_state := IActive\<rparr>) d2
                        in Inr (get_runner fresh d3, d3))))"

text \<open>
  \<open>WorkerCompletion.messages\<close> on a restored payload: the executed request's messages and the
  response.
\<close>

definition chat_message :: "string \<Rightarrow> pyval \<Rightarrow> pyval" where
  "chat_message role content = PDict [(KStr ''role'', PStr role), (KStr ''content'', content)]"

definition prompt_text :: "pyval \<Rightarrow> pyval" where
  "prompt_text v = (case v of PList (x # _) \<Rightarrow> x | PTuple (x # _) \<Rightarrow> x | _ \<Rightarrow> PNone)"

definition completion_messages :: "pydict \<Rightarrow> pyval list res" where
  "completion_messages c =
     (let request = dict_get ''request'' c;
          previous = field ''messages'' (field ''sampling_params'' request)
      in rbind (case previous of
                  PNone \<Rightarrow> Inr [chat_message ''user'' (prompt_text (field ''prompt'' request))]
                | PList ms \<Rightarrow> if list_all is_mapping ms then Inr ms
                              else Inl (ValueError ''messages must be objects'')
                | _ \<Rightarrow> Inl (ValueError ''messages must be a list''))
           (\<lambda>ms. Inr (ms @ [chat_message ''assistant'' (dict_get ''generated_text'' c)])))"

definition history_of ::
    "(string \<Rightarrow> string \<Rightarrow> string \<Rightarrow> pydict res) \<Rightarrow> string \<Rightarrow> db \<Rightarrow> pyval list \<Rightarrow> pyval \<Rightarrow> pyval list res" where
  "history_of read instance_id d reused source =
     rbind (one_or_none (filter (\<lambda>n. nd_instance_id n = Some instance_id \<and>
              map_option PStr (nd_node_id n) = Some source) (nodes d))) (\<lambda>node.
       case (case node of Some n \<Rightarrow> nd_runner_id n | None \<Rightarrow> None) of
         None \<Rightarrow> Inl (ValueError ''History source request has not executed'')
       | Some runner_id \<Rightarrow>
           rbind (one_or_none (filter (\<lambda>m. msg_runner_id m = runner_id \<and> msg_topic m = ''worker.completed'' \<and>
                    msg_source m = Some ''0'') (messages d))) (\<lambda>message.
             case message of
               None \<Rightarrow> Inl (ValueError ''History source has no committed Worker message'')
             | Some m \<Rightarrow>
                 rbind (restore_message read m) (\<lambda>restored.
                   if field ''error_code'' (dict_get ''metrics'' (msg_payload restored)) \<noteq> PNone
                   then Inl (ValueError ''History source request failed'')
                   else rbind (completion_messages (msg_payload restored)) (\<lambda>ms. Inr (reused @ ms)))))"

record admitted =
  ad_runner :: runner_row
  ad_limits :: "(string \<times> nat) list"
  ad_input_messages :: "pyval list option"

text \<open>Whether the task instance a Runner belongs to can no longer execute it.\<close>

definition context_dead :: "pydict \<Rightarrow> db \<Rightarrow> bool res" where
  "context_dead context d =
     (if context = [] then Inr False
      else case map_of context (KStr ''instance_id'') of
        None \<Rightarrow> Inl (KeyError ''instance_id'')
      | Some v \<Rightarrow> Inr (case v of
          PStr i \<Rightarrow> (case get_instance i d of None \<Rightarrow> True | Some inst \<Rightarrow> instance_terminal (in_state inst))
        | _ \<Rightarrow> True))"

definition runner_history ::
    "(string \<Rightarrow> string \<Rightarrow> string \<Rightarrow> pydict res) \<Rightarrow> pydict \<Rightarrow> db \<Rightarrow> pyval list option res" where
  "runner_history read context d =
     (case (dict_get ''message_sources'' context, dict_get ''instance_id'' context) of
        (PList (s # ss), PStr i) \<Rightarrow> rbind (foldR (history_of read i d) [] (s # ss)) (\<lambda>ms. Inr (Some ms))
      | (PList (s # ss), _) \<Rightarrow> Inl (KeyError ''instance_id'')
      | _ \<Rightarrow> Inr None)"

definition insert_attempt :: "repo \<Rightarrow> string \<Rightarrow> string \<Rightarrow> instant \<Rightarrow> attempt_row list \<Rightarrow> attempt_row list res" where
  "insert_attempt h runner_id fresh now ats =
     (if runner_id \<in> set (map att_runner_id ats) then Inl (SQLAlchemyError ''IntegrityError'')
      else insert_row att_id \<lparr>att_id = fresh, att_runner_id = runner_id,
             att_generation = runtime_generation h, att_state = Executing,
             att_started_at = now, att_completed_at = None\<rparr> ats)"

definition start_runner :: "string \<Rightarrow> instant \<Rightarrow> runner_row \<Rightarrow> runner_row" where
  "start_runner owner now r =
     r\<lparr>run_status := Running, run_started_at := Some now, run_heartbeat_at := Some now, run_scheduler_id := Some owner\<rparr>"

definition start_selected ::
    "(string \<Rightarrow> string \<Rightarrow> string \<Rightarrow> pydict res) \<Rightarrow> repo \<Rightarrow> string \<Rightarrow> string \<Rightarrow> string \<Rightarrow> instant \<Rightarrow> db \<Rightarrow> admitted option tx" where
  "start_selected read h runner_id owner fresh now d =
     rbind (check_runtime h now (leases d)) (\<lambda>_.
       case get_runner runner_id d of
         None \<Rightarrow> Inr (None, d)
       | Some runner \<Rightarrow>
           if run_status runner \<noteq> Queued \<or> run_cancel_requested runner then Inr (None, d)
           else
             let context = as_dict (field ''task_context'' (run_benchmark_config runner))
             in rbind (context_dead context d) (\<lambda>dead.
               if dead
               then Inr (None, add_event runner_id Cancelled ''Task instance no longer executable''
                      (update_runner runner_id (\<lambda>r. r\<lparr>run_status := Cancelled, run_finished_at := Some now\<rparr>) d))
               else
                 rbind (runtime_limits (run_runtime_id runner) d) (\<lambda>limits.
                 rbind (insert_attempt h runner_id fresh now (attempts d)) (\<lambda>ats.
                   let d1 = add_event runner_id Running ''Admitted by runtime Scheduler''
                              ((update_runner runner_id (start_runner owner now) d)\<lparr>attempts := ats\<rparr>)
                   in rbind (runner_history read context d1) (\<lambda>history.
                     Inr (Some \<lparr>ad_runner = start_runner owner now runner, ad_limits = limits,
                                ad_input_messages = history\<rparr>, d1))))))"

section \<open>Heartbeats and cancellation\<close>

text \<open>\<open>locked\<close>: the rows another transaction holds, which the refresh skips.\<close>

definition heartbeat_runners ::
    "repo \<Rightarrow> string list \<Rightarrow> bool \<Rightarrow> string list \<Rightarrow> instant \<Rightarrow> db \<Rightarrow> string list tx" where
  "heartbeat_runners h runner_ids refresh locked now d =
     (if runner_ids = [] then Inr ([], d)
      else
        rbind (if refresh then check_runtime h now (leases d) else Inr ()) (\<lambda>_.
          let continuing = map run_id (filter (\<lambda>r. run_id r \<in> set runner_ids \<and> accepting r) (runners d));
              d1 = (if refresh
                    then d\<lparr>runners := update_where
                           (\<lambda>r. run_id r \<in> set continuing \<and> run_status r = Running \<and> run_id r \<notin> set locked)
                           (\<lambda>r. r\<lparr>run_heartbeat_at := Some now\<rparr>) (runners d)\<rparr>
                    else d)
          in Inr (filter (\<lambda>i. i \<notin> set continuing) (remdups runner_ids), d1)))"

definition request_cancel :: "string \<Rightarrow> instant \<Rightarrow> db \<Rightarrow> runner_row option tx" where
  "request_cancel runner_id now d =
     (case get_runner runner_id d of
        None \<Rightarrow> Inr (None, d)
      | Some runner \<Rightarrow>
          if terminal (run_status runner) then Inr (Some runner, d)
          else if run_status runner = Queued
          then
            rbind (checkpoint_task_result (cancel_queued_runner now runner) Cancelled now no_evidence []
                     (update_runner runner_id (cancel_queued_runner now) d)) (\<lambda>d1.
              let d2 = add_event runner_id Cancelled ''Cancelled before execution'' d1
              in Inr (get_runner runner_id d2, d2))
          else
            let d1 = add_event runner_id Running ''Cancellation requested''
                       (update_runner runner_id (\<lambda>r. r\<lparr>run_cancel_requested := True\<rparr>) d)
            in Inr (get_runner runner_id d1, d1))"

section \<open>Completion, failure and recovery\<close>

text \<open>
  A Runner that ends leaves no open Worker: what was sent is indeterminate, what was not is
  cancelled.
\<close>

definition close_worker :: "instant \<Rightarrow> worker_row \<Rightarrow> worker_row" where
  "close_worker now w =
     (case wk_state w of
        WSubmitted \<Rightarrow> w\<lparr>wk_state := WIndeterminate, wk_completed_at := Some now\<rparr>
      | WCreated \<Rightarrow> w\<lparr>wk_state := WCancelled, wk_completed_at := Some now\<rparr>
      | _ \<Rightarrow> w)"

definition close_workers :: "string \<Rightarrow> instant \<Rightarrow> db \<Rightarrow> db" where
  "close_workers runner_id now d =
     d\<lparr>workers := update_where (\<lambda>w. wk_runner_id w = runner_id) (close_worker now) (workers d)\<rparr>"

definition atomic_context :: "pyval \<Rightarrow> bool" where
  "atomic_context config \<longleftrightarrow>
     (let c = as_dict (field ''task_context'' config) in c \<noteq> [] \<and> context_kind c = PStr ''atomic'')"

definition option_min :: "instant list \<Rightarrow> instant option" where
  "option_min ts = (case ts of [] \<Rightarrow> None | t # ts \<Rightarrow> Some (fold min ts t))"

definition option_max :: "instant list \<Rightarrow> instant option" where
  "option_max ts = (case ts of [] \<Rightarrow> None | t # ts \<Rightarrow> Some (fold max ts t))"

definition request_instants :: "string \<Rightarrow> pyval list \<Rightarrow> instant list" where
  "request_instants name requests =
     concat (map (\<lambda>r. case parse_instant (field name (field ''request_timing'' r)) of Some t \<Rightarrow> [t] | None \<Rightarrow> []) requests)"

definition first_matching :: "(pyval \<Rightarrow> bool) \<Rightarrow> pyval list \<Rightarrow> pyval" where
  "first_matching p vs = (case filter p vs of v # _ \<Rightarrow> v | [] \<Rightarrow> PNone)"

definition atomic_evidence :: "pyval list \<Rightarrow> evidence" where
  "atomic_evidence requests =
     \<lparr>ev_started_at = option_min (request_instants ''client_start_utc'' requests),
      ev_completed_at = option_max (request_instants ''completed_utc'' requests),
      ev_prompt_hash = first_matching is_str (map (\<lambda>r. field ''prompt_hash'' (field ''request_metadata'' r)) requests),
      ev_payload_evidence = first_matching is_mapping (map (\<lambda>r. field ''payload_evidence'' (field ''request_metadata'' r)) requests)\<rparr>"

definition enumerate_results :: "string \<Rightarrow> pyval list \<Rightarrow> result_row list" where
  "enumerate_results runner_id requests =
     map (\<lambda>(i, m). \<lparr>rs_runner_id = runner_id, rs_sequence = i, rs_metrics = m\<rparr>) (enumerate 0 requests)"

definition complete_runner ::
    "repo \<Rightarrow> string \<Rightarrow> pyval \<Rightarrow> pyval list \<Rightarrow> int \<Rightarrow> string option \<Rightarrow> runner_status \<Rightarrow> string option
      \<Rightarrow> instant \<Rightarrow> db \<Rightarrow> bool tx" where
  "complete_runner h runner_id summary request_metrics exit_code log_ref st error_message now d =
     rbind (raise_if (st \<notin> {Succeeded, Failed}) (ValueError (''Unsupported result status: '' @ status_text st))) (\<lambda>_.
     rbind (check_runtime h now (leases d)) (\<lambda>_.
       case get_runner runner_id d of
         None \<Rightarrow> Inr (False, d)
       | Some runner \<Rightarrow>
           if \<not> accepting runner then Inr (False, d)
           else
             let safe_requests = map json_safe request_metrics;
                 atomic = atomic_context (run_benchmark_config runner)
             in if atomic \<and> length safe_requests \<noteq> 1
                then Inl (ValueError ''Atomic invocation requires exactly one request result'')
                else
                  let d1 = close_workers runner_id now d;
                      d2 = d1\<lparr>attempts := update_where
                              (\<lambda>a. att_runner_id a = runner_id \<and> att_generation a = runtime_generation h)
                              (\<lambda>a. a\<lparr>att_state := AttemptEnded st, att_completed_at := Some now\<rparr>) (attempts d1),
                             results := filter (\<lambda>r. rs_runner_id r \<noteq> runner_id) (results d1)
                                          @ enumerate_results runner_id safe_requests\<rparr>;
                      d3 = update_runner runner_id
                             (\<lambda>r. r\<lparr>run_status := st, run_finished_at := Some now, run_heartbeat_at := Some now,
                                    run_exit_code := Some exit_code, run_summary := json_safe summary,
                                    run_request_count := length safe_requests, run_log_key := log_ref,
                                    run_error_message := error_message\<rparr>) d2;
                      ev = (if atomic \<and> safe_requests \<noteq> [] then atomic_evidence safe_requests else no_evidence);
                      note_text = (if st = Succeeded then ''Results persisted''
                                   else case error_message of
                                     Some m \<Rightarrow> if m = [] then ''Failed benchmark results persisted'' else m
                                   | None \<Rightarrow> ''Failed benchmark results persisted'')
                  in rbind (checkpoint_task_result runner st now ev safe_requests d3) (\<lambda>d4.
                       Inr (True, add_event runner_id st note_text d4))))"

definition finish_runner ::
    "repo \<Rightarrow> string \<Rightarrow> runner_status \<Rightarrow> string \<Rightarrow> int option \<Rightarrow> string option \<Rightarrow> instant \<Rightarrow> db \<Rightarrow> bool tx" where
  "finish_runner h runner_id st message exit_code log_ref now d =
     rbind (raise_if (st \<notin> {Failed, Cancelled}) (ValueError (''Unsupported terminal status: '' @ status_text st))) (\<lambda>_.
     rbind (check_runtime h now (leases d)) (\<lambda>_.
       case get_runner runner_id d of
         None \<Rightarrow> Inr (False, d)
       | Some runner \<Rightarrow>
           if run_status runner \<noteq> Running then Inr (False, d)
           else
             let d1 = update_runner runner_id
                        (\<lambda>r. r\<lparr>run_status := st, run_finished_at := Some now, run_heartbeat_at := Some now,
                               run_exit_code := exit_code, run_error_message := Some message, run_log_key := log_ref\<rparr>) d;
                 d2 = close_workers runner_id now d1;
                 ended = (if starts_with ''indeterminate:'' message then AttemptIndeterminate else AttemptEnded st);
                 d3 = d2\<lparr>attempts := update_where (\<lambda>a. att_runner_id a = runner_id)
                        (\<lambda>a. a\<lparr>att_state := ended, att_completed_at := Some now\<rparr>) (attempts d2)\<rparr>
             in rbind (checkpoint_task_result runner st now no_evidence [] d3) (\<lambda>d4.
                  Inr (True, add_event runner_id st message d4))))"

definition requeue_runner :: "repo \<Rightarrow> string \<Rightarrow> string option \<Rightarrow> instant \<Rightarrow> db \<Rightarrow> bool tx" where
  "requeue_runner h runner_id log_ref now d =
     finish_runner h runner_id Failed
       ''indeterminate: execution interrupted; automatic replay disabled'' None log_ref now d"

text \<open>\<open>log_ref\<close> gives the key under which the recovery note of a Runner was written.\<close>

definition requeue_stale :: "repo \<Rightarrow> (string \<Rightarrow> string option) \<Rightarrow> instant \<Rightarrow> db \<Rightarrow> nat tx" where
  "requeue_stale h log_ref now d =
     (let ids = map run_id (filter (\<lambda>r. run_status r = Running) (runners d))
      in rbind (foldR (\<lambda>d i. rbind (requeue_runner h i (log_ref i) now d) (\<lambda>(_, d'). Inr d')) d ids)
           (\<lambda>d'. Inr (length ids, d')))"

section \<open>Campaigns\<close>

definition cancel_campaign_runner :: "instant \<Rightarrow> runner_row \<Rightarrow> runner_row" where
  "cancel_campaign_runner now r =
     (if run_status r = Queued then cancel_queued_runner now r else r\<lparr>run_cancel_requested := True\<rparr>)"

definition request_cancel_campaign :: "string \<Rightarrow> instant \<Rightarrow> db \<Rightarrow> campaign_row option tx" where
  "request_cancel_campaign campaign_id now d =
     (case get_row cp_id campaign_id (campaigns d) of
        None \<Rightarrow> Inr (None, d)
      | Some campaign \<Rightarrow>
          let member = (\<lambda>r. run_campaign_id r = Some campaign_id \<and> \<not> terminal (run_status r));
              open_plan = (\<lambda>p. pl_campaign_id p = campaign_id \<and> pl_status p \<in> {PlanActive, PlanPaused})
          in Inr (Some campaign,
            d\<lparr>plan_events := plan_events d @ map (\<lambda>p. \<lparr>pe_plan_id = pl_id p, pe_type = ''cancelled'',
                 pe_occurrence = None, pe_scheduled_for = pl_next_fire_at p, pe_runner_id = None,
                 pe_message = Some ''RunnerPlan cancelled with Campaign'', pe_details = PDict []\<rparr>)
                 (filter open_plan (plans d)),
              plans := update_where open_plan (\<lambda>p. p\<lparr>pl_status := PlanCancelled, pl_updated_at := now\<rparr>) (plans d),
              events := events d @ map (\<lambda>r. \<lparr>ev_runner_id = run_id r,
                 ev_status = (if run_status r = Queued then Cancelled else Running),
                 ev_message = (if run_status r = Queued then ''Cancelled with Campaign before execution''
                               else ''Cancellation requested with Campaign'')\<rparr>) (filter member (runners d)),
              runners := update_where member (cancel_campaign_runner now) (runners d),
              instances := update_where (\<lambda>i. in_campaign_id i = campaign_id \<and> \<not> instance_terminal (in_state i))
                 (\<lambda>i. i\<lparr>in_state := ICancelled, in_error := Some ''Campaign cancelled'', in_updated_at := now\<rparr>) (instances d),
              nodes := update_where (\<lambda>n. nd_campaign_id n = campaign_id \<and> nd_state n \<in> {NBlocked, NPending})
                 (\<lambda>n. n\<lparr>nd_state := NCancelled\<rparr>) (nodes d)\<rparr>))"

lemmas runner_tx_defs [step_defs] = activate_node_def start_selected_def heartbeat_runners_def
  request_cancel_def complete_runner_def finish_runner_def request_cancel_campaign_def

end
