(* ===== verification/Store_Integrity.thy ===== *)
theory Store_Integrity
  imports Store_Runners
begin

text \<open>
  What every transaction on Runners, Workers and messages keeps and how rows evolve.  The integrity
  predicate is stated on a view of the database (Runner states by identifier, Worker, message and
  attempt tables); each kind of change the transactions make to that view is one lemma, and each
  transaction is shown to make one of these changes.
\<close>

section \<open>How rows evolve\<close>

text \<open>Every row of a table is still there under its key and has moved on according to \<open>R\<close>.\<close>

definition rows_le :: "('r \<Rightarrow> 'k) \<Rightarrow> ('r \<Rightarrow> 'r \<Rightarrow> bool) \<Rightarrow> 'r list \<Rightarrow> 'r list \<Rightarrow> bool" where
  "rows_le key R xs ys \<longleftrightarrow>
     (\<forall>k x. get_row key k xs = Some x \<longrightarrow> (\<exists>y. get_row key k ys = Some y \<and> R x y))"

lemma rows_leD: "rows_le key R xs ys \<Longrightarrow> get_row key k xs = Some x \<Longrightarrow> \<exists>y. get_row key k ys = Some y \<and> R x y"
  by (simp add: rows_le_def)

lemma rows_le_refl: "(\<And>x. R x x) \<Longrightarrow> rows_le key R xs xs"
  by (simp add: rows_le_def)

lemma rows_le_trans:
  "rows_le key R xs ys \<Longrightarrow> rows_le key R ys zs \<Longrightarrow> (\<And>x y z. R x y \<Longrightarrow> R y z \<Longrightarrow> R x z) \<Longrightarrow> rows_le key R xs zs"
  unfolding rows_le_def by metis

lemma rows_le_update:
  assumes "\<And>r. key (f r) = key r" and "\<And>r. R r r" and "\<And>r. r \<in> set xs \<Longrightarrow> p r \<Longrightarrow> R r (f r)"
  shows "rows_le key R xs (update_where p f xs)"
  unfolding rows_le_def
  using assms by (auto simp: get_row_update_where dest: get_row_Some)

lemma rows_le_append: "(\<And>r. R r r) \<Longrightarrow> rows_le key R xs (xs @ ys)"
proof -
  have "get_row key k xs = Some x \<Longrightarrow> get_row key k (xs @ ys) = Some x" for k x
    by (induction xs) (auto split: if_splits)
  then show "(\<And>r. R r r) \<Longrightarrow> ?thesis" by (auto simp: rows_le_def)
qed

lemma rows_le_mono: "rows_le key R xs ys \<Longrightarrow> (\<And>x y. R x y \<Longrightarrow> S x y) \<Longrightarrow> rows_le key S xs ys"
  unfolding rows_le_def by metis

section \<open>The view\<close>

type_synonym runner_view = "string \<rightharpoonup> runner_status \<times> nat"

definition runner_state :: "runner_row list \<Rightarrow> runner_view" where
  "runner_state rows i = map_option (\<lambda>r. (run_status r, run_planned_workers r)) (get_row run_id i rows)"

definition is_open :: "worker_row \<Rightarrow> bool" where
  "is_open w \<longleftrightarrow> wk_state w = WCreated \<or> wk_state w = WSubmitted"

definition is_done :: "worker_row \<Rightarrow> bool" where
  "is_done w \<longleftrightarrow> wk_state w = WSucceeded \<or> wk_state w = WFailed"

definition worker_key :: "worker_row \<Rightarrow> string \<times> string" where
  "worker_key w = (wk_runner_id w, wk_step_id w)"

definition published :: "runner_message list \<Rightarrow> worker_row \<Rightarrow> bool" where
  "published ms w \<longleftrightarrow>
     (\<exists>m \<in> set ms. \<exists>key. msg_topic m = ''worker.completed'' \<and> wk_log_key w = Some key \<and>
        wk_completion_hash w = Some (completion_hash key) \<and>
        msg_payload m = [(KStr ''worker_id'', PStr (wk_id w)), (KStr ''log_key'', PStr key)])"

definition worker_ok :: "runner_view \<Rightarrow> runner_message list \<Rightarrow> worker_row \<Rightarrow> bool" where
  "worker_ok rs ms w \<longleftrightarrow>
     wk_id w = worker_identity (wk_runner_id w) (wk_step_id w) \<and>
     (\<exists>st n. rs (wk_runner_id w) = Some (st, n) \<and> st \<noteq> Queued \<and> (is_open w \<longrightarrow> st = Running)) \<and>
     (is_done w \<longrightarrow> published ms w)"

definition runner_ok :: "worker_row list \<Rightarrow> attempt_row list \<Rightarrow> string \<Rightarrow> runner_status \<Rightarrow> nat \<Rightarrow> bool" where
  "runner_ok ws ats i st n \<longleftrightarrow>
     length (filter (\<lambda>w. wk_runner_id w = i) ws) \<le> n \<and>
     (st = Queued \<longrightarrow> i \<notin> att_runner_id ` set ats) \<and>
     (st = Running \<longrightarrow> (\<exists>a \<in> set ats. att_runner_id a = i \<and> att_state a = Executing))"

definition view_ok :: "runner_view \<Rightarrow> worker_row list \<Rightarrow> runner_message list \<Rightarrow> attempt_row list \<Rightarrow> bool" where
  "view_ok rs ws ms ats \<longleftrightarrow>
     distinct (map wk_id ws) \<and> distinct (map worker_key ws) \<and> distinct (map msg_id ms) \<and>
     distinct (map att_runner_id ats) \<and>
     (\<forall>w \<in> set ws. worker_ok rs ms w) \<and>
     (\<forall>i st n. rs i = Some (st, n) \<longrightarrow> runner_ok ws ats i st n) \<and>
     (\<forall>a \<in> set ats. rs (att_runner_id a) \<noteq> None)"

definition db_ok :: "db \<Rightarrow> bool" where
  "db_ok d \<longleftrightarrow> distinct (map run_id (runners d)) \<and>
     view_ok (runner_state (runners d)) (workers d) (messages d) (attempts d)"

lemma view_okI:
  assumes "distinct (map wk_id ws)" "distinct (map worker_key ws)" "distinct (map msg_id ms)"
    "distinct (map att_runner_id ats)"
    "\<And>w. w \<in> set ws \<Longrightarrow> worker_ok rs ms w"
    "\<And>i st n. rs i = Some (st, n) \<Longrightarrow> runner_ok ws ats i st n"
    "\<And>a. a \<in> set ats \<Longrightarrow> rs (att_runner_id a) \<noteq> None"
  shows "view_ok rs ws ms ats"
  using assms unfolding view_ok_def by blast

lemma view_okD:
  assumes "view_ok rs ws ms ats"
  shows "distinct (map wk_id ws)" "distinct (map worker_key ws)" "distinct (map msg_id ms)"
    "distinct (map att_runner_id ats)"
    "w \<in> set ws \<Longrightarrow> worker_ok rs ms w"
    "rs i = Some (st, n) \<Longrightarrow> runner_ok ws ats i st n"
    "a \<in> set ats \<Longrightarrow> rs (att_runner_id a) \<noteq> None"
  using assms unfolding view_ok_def by blast+

section \<open>Changes of the view\<close>

definition cancels :: "runner_view \<Rightarrow> runner_view \<Rightarrow> bool" where
  "cancels rs rs' \<longleftrightarrow> (\<forall>i. rs' i = rs i \<or> (\<exists>n. rs i = Some (Queued, n) \<and> rs' i = Some (Cancelled, n)))"

lemma cancels_refl [simp]: "cancels rs rs"
  by (simp add: cancels_def)

lemma cancels_trans:
  assumes "cancels a b" "cancels b c"
  shows "cancels a c"
  unfolding cancels_def
proof
  fix i
  from assms have "b i = a i \<or> (\<exists>n. a i = Some (Queued, n) \<and> b i = Some (Cancelled, n))"
    and "c i = b i \<or> (\<exists>n. b i = Some (Queued, n) \<and> c i = Some (Cancelled, n))"
    unfolding cancels_def by blast+
  then show "c i = a i \<or> (\<exists>n. a i = Some (Queued, n) \<and> c i = Some (Cancelled, n))" by auto
qed

lemma cancelsD: "cancels rs rs' \<Longrightarrow> rs i = Some (st, n) \<Longrightarrow> st \<noteq> Queued \<Longrightarrow> rs' i = Some (st, n)"
  unfolding cancels_def by (metis Pair_inject option.inject)

lemma view_ok_cancels:
  assumes "view_ok rs ws ms ats" "cancels rs rs'"
  shows "view_ok rs' ws ms ats"
proof (rule view_okI)
  note d = view_okD [OF assms(1)]
  fix w assume "w \<in> set ws"
  then have w: "worker_ok rs ms w" by (rule d(5))
  then obtain st n where "rs (wk_runner_id w) = Some (st, n)" "st \<noteq> Queued" "is_open w \<longrightarrow> st = Running"
    by (auto simp: worker_ok_def)
  with cancelsD [OF assms(2)] w show "worker_ok rs' ms w" unfolding worker_ok_def by blast
next
  fix i st n assume i: "rs' i = Some (st, n)"
  from assms(2) consider "rs' i = rs i" | "rs i = Some (Queued, n)" "st = Cancelled"
    using i unfolding cancels_def by (metis option.inject prod.inject)
  then show "runner_ok ws ats i st n"
  proof cases
    case 1
    with i view_okD(6) [OF assms(1)] show ?thesis by simp
  next
    case 2
    with view_okD(6) [OF assms(1) 2(1)] show ?thesis by (simp add: runner_ok_def)
  qed
next
  fix a assume "a \<in> set ats"
  then have "rs (att_runner_id a) \<noteq> None" by (rule view_okD(7) [OF assms(1)])
  then show "rs' (att_runner_id a) \<noteq> None" using assms(2) unfolding cancels_def by (metis option.distinct(1))
qed (use view_okD(1-4) [OF assms(1)] in blast)+

text \<open>A new Runner is queued.\<close>

lemma view_ok_submit:
  assumes ok: "view_ok rs ws ms ats" and new: "rs i = None"
  shows "view_ok (rs(i \<mapsto> (Queued, n))) ws ms ats"
proof (rule view_okI)
  fix w assume "w \<in> set ws"
  then have "worker_ok rs ms w" by (rule view_okD(5) [OF ok])
  with new show "worker_ok (rs(i \<mapsto> (Queued, n))) ms w" by (auto simp: worker_ok_def)
next
  fix j st m assume j: "(rs(i \<mapsto> (Queued, n))) j = Some (st, m)"
  show "runner_ok ws ats j st m"
  proof (cases "j = i")
    case True
    have "wk_runner_id w \<noteq> i" if "w \<in> set ws" for w
      using view_okD(5) [OF ok that] new by (auto simp: worker_ok_def)
    then have "filter (\<lambda>w. wk_runner_id w = i) ws = []" by (simp add: filter_empty_conv)
    moreover have "i \<notin> att_runner_id ` set ats" using view_okD(7) [OF ok] new by (metis imageE)
    ultimately show ?thesis using True j by (auto simp: runner_ok_def)
  qed (use j view_okD(6) [OF ok] in auto)
qed (use view_okD [OF ok] in auto)

text \<open>Admission: queued to running with an executing attempt.\<close>

lemma view_ok_start:
  assumes ok: "view_ok rs ws ms ats" and q: "rs i = Some (Queued, n)"
    and a: "att_runner_id a = i" "att_state a = Executing"
  shows "view_ok (rs(i \<mapsto> (Running, n))) ws ms (ats @ [a])"
proof (rule view_okI)
  have fresh: "i \<notin> att_runner_id ` set ats" using view_okD(6) [OF ok q] by (simp add: runner_ok_def)
  show "distinct (map att_runner_id (ats @ [a]))" using view_okD(4) [OF ok] fresh a by auto
  fix w assume "w \<in> set ws"
  then have "worker_ok rs ms w" by (rule view_okD(5) [OF ok])
  with q show "worker_ok (rs(i \<mapsto> (Running, n))) ms w" by (auto simp: worker_ok_def)
next
  fix j st m assume j: "(rs(i \<mapsto> (Running, n))) j = Some (st, m)"
  show "runner_ok ws (ats @ [a]) j st m"
  proof (cases "j = i")
    case True
    with view_okD(6) [OF ok q] a j show ?thesis by (auto simp: runner_ok_def)
  next
    case False
    with j have "runner_ok ws ats j st m" using view_okD(6) [OF ok] by simp
    with False a show ?thesis by (auto simp: runner_ok_def)
  qed
qed (use view_okD [OF ok] a q in auto)

text \<open>The end of a Runner: its Workers are closed and its attempts may be.\<close>

lemma close_worker_fields [simp]:
  "wk_id (close_worker now w) = wk_id w" "wk_runner_id (close_worker now w) = wk_runner_id w"
  "wk_step_id (close_worker now w) = wk_step_id w" "wk_generation (close_worker now w) = wk_generation w"
  "worker_key (close_worker now w) = worker_key w" "wk_log_key (close_worker now w) = wk_log_key w"
  "wk_completion_hash (close_worker now w) = wk_completion_hash w"
  by (simp_all add: close_worker_def worker_key_def split: worker_state.splits)

lemma close_worker_state:
  "\<not> is_open (close_worker now w)" "is_done (close_worker now w) = is_done w"
  by (cases "wk_state w"; simp add: close_worker_def is_open_def is_done_def)+

lemma view_ok_end:
  assumes ok: "view_ok rs ws ms ats" and r: "rs i = Some (Running, n)" and st: "terminal st"
    and ws': "ws' = update_where (\<lambda>w. wk_runner_id w = i) (close_worker now) ws"
    and ats': "ats' = update_where (\<lambda>a. att_runner_id a = i \<and> p a) f ats"
    and f: "\<And>a. att_runner_id (f a) = att_runner_id a"
  shows "view_ok (rs(i \<mapsto> (st, n))) ws' ms ats'"
proof (rule view_okI)
  show "distinct (map wk_id ws')" "distinct (map worker_key ws')" "distinct (map att_runner_id ats')"
    using view_okD(1,2,4) [OF ok] unfolding ws' ats' by (simp_all add: update_where_keys f)
  fix w' assume "w' \<in> set ws'"
  then obtain w where w: "w \<in> set ws" and w': "w' = (if wk_runner_id w = i then close_worker now w else w)"
    by (auto simp: ws' set_update_where)
  have "worker_ok rs ms w" by (rule view_okD(5) [OF ok w])
  with st r show "worker_ok (rs(i \<mapsto> (st, n))) ms w'"
    unfolding w' by (auto simp: worker_ok_def close_worker_state published_def split: if_splits)
next
  fix j s m assume j: "(rs(i \<mapsto> (st, n))) j = Some (s, m)"
  have len: "length (filter (\<lambda>w. wk_runner_id w = j) ws') = length (filter (\<lambda>w. wk_runner_id w = j) ws)"
    unfolding ws' by (induction ws) auto
  show "runner_ok ws' ats' j s m"
  proof (cases "j = i")
    case True
    with st j view_okD(6) [OF ok r] len show ?thesis by (cases s) (auto simp: runner_ok_def)
  next
    case False
    with j have ro: "runner_ok ws ats j s m" using view_okD(6) [OF ok] by simp
    have "map att_runner_id ats' = map att_runner_id ats" unfolding ats' by (simp add: update_where_keys f)
    then have "att_runner_id ` set ats' = att_runner_id ` set ats" by (metis set_map)
    moreover have "a \<in> set ats'" if "a \<in> set ats" "att_runner_id a = j" for a
      using that False unfolding ats' set_update_where by force
    ultimately show ?thesis using ro len unfolding runner_ok_def by metis
  qed
next
  fix a assume "a \<in> set ats'"
  then have "att_runner_id a \<in> att_runner_id ` set ats" unfolding ats' set_update_where using f by (auto split: if_splits)
  then show "(rs(i \<mapsto> (st, n))) (att_runner_id a) \<noteq> None" using view_okD(7) [OF ok] by force
qed (use view_okD(3) [OF ok] in blast)

text \<open>Creation: new Workers of a running Runner within its declared expansion.\<close>

lemma view_ok_create:
  assumes ok: "view_ok rs ws ms ats" and r: "rs i = Some (Running, n)"
    and new: "\<And>w. w \<in> set new \<Longrightarrow> wk_runner_id w = i \<and> wk_state w = WCreated \<and>
       wk_id w = worker_identity i (wk_step_id w)"
    and ids: "distinct (map wk_id (ws @ new))" and keys: "distinct (map worker_key (ws @ new))"
    and len: "length (filter (\<lambda>w. wk_runner_id w = i) ws) + length new \<le> n"
  shows "view_ok rs (ws @ new) ms ats"
proof (rule view_okI)
  fix w assume "w \<in> set (ws @ new)"
  then consider "w \<in> set ws" | "w \<in> set new" by auto
  then show "worker_ok rs ms w"
    by cases (use view_okD(5) [OF ok] new r in \<open>auto simp: worker_ok_def is_open_def is_done_def\<close>)
next
  fix j st m assume j: "rs j = Some (st, m)"
  have "filter (\<lambda>w. wk_runner_id w = j) new = (if j = i then new else [])"
    using new by (auto simp: filter_empty_conv filter_id_conv)
  with view_okD(6) [OF ok j] j r len show "runner_ok (ws @ new) ats j st m"
    by (auto simp: runner_ok_def)
qed (use view_okD [OF ok] ids keys in auto)

lemma published_append: "published ms w \<Longrightarrow> published (ms @ ns) w"
  by (auto simp: published_def)

text \<open>One open Worker moves on, and messages are appended.\<close>

lemma view_ok_worker:
  assumes ok: "view_ok rs ws ms ats"
    and f: "\<And>w. wk_id (f w) = wk_id w \<and> wk_runner_id (f w) = wk_runner_id w \<and> wk_step_id (f w) = wk_step_id w"
    and op: "\<And>w. w \<in> set ws \<Longrightarrow> wk_id w = k \<Longrightarrow> is_open w \<or> \<not> is_open (f w)"
    and dn: "\<And>w. w \<in> set ws \<Longrightarrow> wk_id w = k \<Longrightarrow> is_done (f w) \<Longrightarrow> published ms' (f w)"
    and ms': "ms' = ms @ ns" "distinct (map msg_id ms')"
  shows "view_ok rs (update_where (\<lambda>w. wk_id w = k) f ws) ms' ats"
proof (rule view_okI)
  have "worker_key (f w) = worker_key w" for w using f by (simp add: worker_key_def)
  then show "distinct (map wk_id (update_where (\<lambda>w. wk_id w = k) f ws))"
    "distinct (map worker_key (update_where (\<lambda>w. wk_id w = k) f ws))"
    using view_okD(1,2) [OF ok] f by (simp_all add: update_where_keys)
  fix w' assume "w' \<in> set (update_where (\<lambda>w. wk_id w = k) f ws)"
  then obtain w where w: "w \<in> set ws" and w': "w' = (if wk_id w = k then f w else w)"
    by (auto simp: set_update_where)
  have o: "worker_ok rs ms w" by (rule view_okD(5) [OF ok w])
  have "published ms w \<Longrightarrow> published ms' w" using ms' published_append by blast
  then show "worker_ok rs ms' w'"
    using o op [OF w] dn [OF w] f [of w] unfolding w' worker_ok_def by (auto split: if_splits)
next
  fix j st m assume "rs j = Some (st, m)"
  then have "runner_ok ws ats j st m" by (rule view_okD(6) [OF ok])
  moreover have "length (filter (\<lambda>w. wk_runner_id w = j) (update_where (\<lambda>w. wk_id w = k) f ws)) =
      length (filter (\<lambda>w. wk_runner_id w = j) ws)"
    using f by (induction ws) auto
  ultimately show "runner_ok (update_where (\<lambda>w. wk_id w = k) f ws) ats j st m"
    by (simp add: runner_ok_def)
qed (use view_okD(4,7) [OF ok] ms' in auto)

lemma view_ok_messages:
  assumes ok: "view_ok rs ws ms ats" and "distinct (map msg_id (ms @ ns))"
  shows "view_ok rs ws (ms @ ns) ats"
proof -
  have "view_ok rs (update_where (\<lambda>w. wk_id w = k) (\<lambda>w. w) ws) (ms @ ns) ats" for k
  proof (rule view_ok_worker [OF ok])
    fix w assume "w \<in> set ws" "is_done w"
    with view_okD(5) [OF ok] have "published ms w" by (simp add: worker_ok_def)
    then show "published (ms @ ns) w" by (rule published_append)
  qed (use assms(2) in auto)
  moreover have "update_where (\<lambda>w. wk_id w = k) (\<lambda>w. w) ws = ws" for k
    by (simp add: update_where_def map_idI)
  ultimately show ?thesis by simp
qed

section \<open>Transactions on Workers and messages\<close>

lemma db_okI:
  "distinct (map run_id (runners d)) \<Longrightarrow>
   view_ok (runner_state (runners d)) (workers d) (messages d) (attempts d) \<Longrightarrow> db_ok d"
  by (simp add: db_ok_def)

lemma db_okD:
  "db_ok d \<Longrightarrow> distinct (map run_id (runners d))"
  "db_ok d \<Longrightarrow> view_ok (runner_state (runners d)) (workers d) (messages d) (attempts d)"
  by (simp_all add: db_ok_def)

lemma runner_state_get:
  "get_row run_id i rows = Some r \<Longrightarrow> runner_state rows i = Some (run_status r, run_planned_workers r)"
  by (simp add: runner_state_def)

lemma accepting_state:
  "get_row run_id i rows = Some r \<Longrightarrow> accepting r \<Longrightarrow> runner_state rows i = Some (Running, run_planned_workers r)"
  by (simp add: runner_state_def accepting_def)

lemma insert_rows:
  "foldR (\<lambda>ws s. insert_row wk_id (g s) ws) ws xs = Inr ws' \<Longrightarrow> distinct (map wk_id ws) \<Longrightarrow>
   ws' = ws @ map g xs \<and> distinct (map wk_id ws')"
proof (induction xs arbitrary: ws)
  case (Cons x xs)
  then show ?case by fastforce
qed simp

lemma filter_steps:
  "length (remdups (map wk_step_id (filter p ws))) = length (filter p ws)"
  if "distinct (map worker_key ws)" and "\<And>w. p w \<Longrightarrow> wk_runner_id w = i" for ws
proof -
  have "distinct (map wk_step_id (filter p ws))"
    using that by (induction ws) (auto simp: worker_key_def)
  then show ?thesis by (simp add: distinct_remdups_id)
qed

lemma create_workers_ok [wf_intros]:
  assumes "create_workers h i steps now d = Inr (u, d')" and ok: "db_ok d"
  shows "db_ok d'"
proof (cases "steps = []")
  case False
  define fresh where "fresh = filter (\<lambda>s. step_id s \<notin> set (runner_steps i d)) steps"
  from assms(1) False obtain r ws where r: "get_runner i d = Some r" "accepting r"
    and dist: "length (remdups (map step_id steps)) = length steps"
    and len: "length (remdups (runner_steps i d)) + length fresh \<le> run_planned_workers r"
    and ws: "foldR (\<lambda>ws s. insert_row wk_id (new_worker h i now s) ws) (workers d) fresh = Inr ws"
    and d': "d' = d\<lparr>workers := ws\<rparr>"
    by (auto simp: create_workers_def fresh_def Let_def split: option.splits if_splits)
  note v = view_okD [OF db_okD(2) [OF ok]]
  have w: "ws = workers d @ map (new_worker h i now) fresh" "distinct (map wk_id ws)"
    using insert_rows [OF ws v(1)] by blast+
  have "distinct (map step_id steps)" using dist by (metis length_map length_remdups_eq remdups_id_iff_distinct)
  then have fd: "distinct (map step_id fresh)" unfolding fresh_def by (rule distinct_map_filter)
  have key: "worker_key (new_worker h i now s) = (i, step_id s)" for s by (simp add: worker_key_def new_worker_def)
  have "distinct (map worker_key (map (new_worker h i now) fresh))"
    using fd by (simp add: comp_def key distinct_map) (auto simp: inj_on_def)
  moreover have "worker_key w \<noteq> (i, step_id s)" if "w \<in> set (workers d)" "s \<in> set fresh" for w s
    using that by (auto simp: fresh_def runner_steps_def worker_key_def image_iff)
  ultimately have keys: "distinct (map worker_key ws)" using v(2) unfolding w by (auto simp: key) metis
  have "length (filter (\<lambda>w. wk_runner_id w = i) (workers d)) = length (remdups (runner_steps i d))"
    unfolding runner_steps_def by (rule filter_steps [symmetric, OF v(2)])
  with len have "view_ok (runner_state (runners d)) (workers d @ map (new_worker h i now) fresh) (messages d) (attempts d)"
    by (intro view_ok_create [OF db_okD(2) [OF ok] accepting_state [OF r]])
      (simp_all add: w(2) [unfolded w(1)] keys [unfolded w(1)] del: map_append, auto simp: new_worker_def)
  then show ?thesis using db_okD(1) [OF ok] by (simp add: db_ok_def d' w)
qed (use assms in \<open>simp add: create_workers_def\<close>)

lemma reserve_worker_cases:
  assumes "reserve_worker h i s window now d = Inr (b, d')"
  obtains "\<not> b" "d' = d"
  | r w where "b" "get_runner i d = Some r" "accepting r"
      "get_worker (worker_identity i s) d = Some w" "wk_state w = WCreated"
      "wk_generation w = runtime_generation h"
      "case window of Some n \<Rightarrow> int (submitted_count i d) < n | None \<Rightarrow> True"
      "d' = update_worker (worker_identity i s) (\<lambda>w. w\<lparr>wk_state := WSubmitted, wk_submitted_at := Some now\<rparr>) d"
proof -
  let ?k = "worker_identity i s"
  consider "get_runner i d = None" | r where "get_runner i d = Some r" "\<not> accepting r"
    | r where "get_runner i d = Some r" "accepting r" "get_worker ?k d = None"
    | r w where "get_runner i d = Some r" "accepting r" "get_worker ?k d = Some w"
    by (metis option.exhaust)
  then show ?thesis
  proof cases
    case (4 r w)
    show ?thesis
    proof (cases "wk_state w \<noteq> WCreated \<or> wk_generation w \<noteq> runtime_generation h")
      case True
      with 4 assms that(1) show ?thesis by (auto simp: reserve_worker_def)
    next
      case False
      with 4 assms show ?thesis
        by (intro that(2) [OF _ 4]) (auto simp: reserve_worker_def split: option.splits if_splits)
    qed
  qed (use assms that(1) in \<open>auto simp: reserve_worker_def\<close>)
qed

lemma unique_worker:
  assumes "view_ok rs ws ms ats" "get_row wk_id k ws = Some w" "w' \<in> set ws" "wk_id w' = k"
  shows "w' = w"
  using get_row_unique [OF view_okD(1) [OF assms(1)] assms(3)] assms(2,4) by simp

lemma reserve_worker_ok [wf_intros]:
  assumes "reserve_worker h i s window now d = Inr (b, d')" and ok: "db_ok d"
  shows "db_ok d'"
  using assms(1)
proof (cases rule: reserve_worker_cases)
  case (2 r w)
  note v = db_okD(2) [OF ok]
  have "view_ok (runner_state (runners d)) (update_where (\<lambda>w. wk_id w = worker_identity i s)
      (\<lambda>w. w\<lparr>wk_state := WSubmitted, wk_submitted_at := Some now\<rparr>) (workers d)) (messages d) (attempts d)"
  proof (rule view_ok_worker [OF v, of _ _ _ "[]"])
    fix w' assume "w' \<in> set (workers d)" "wk_id w' = worker_identity i s"
    then have "w' = w" by (rule unique_worker [OF v 2(4)])
    with 2(5) show "is_open w' \<or> \<not> is_open (w'\<lparr>wk_state := WSubmitted, wk_submitted_at := Some now\<rparr>)"
      by (simp add: is_open_def)
  qed (use view_okD(3) [OF v] in \<open>simp_all add: is_done_def\<close>)
  then show ?thesis using db_okD(1) [OF ok] 2(8) by (simp add: db_ok_def update_worker_def)
qed (use ok in simp)

lemma publish_message_cases:
  assumes "publish_message h m now d = Inr (b, d')"
  obtains "d' = d"
  | r where "b" "get_runner (msg_runner_id m) d = Some r" "accepting r" "get_message (msg_id m) d = None"
      "msg_topic m \<noteq> ''worker.cancelled''" "d' = d\<lparr>messages := messages d @ [m]\<rparr>"
  | r s w where "b" "get_runner (msg_runner_id m) d = Some r" "accepting r" "get_message (msg_id m) d = None"
      "msg_topic m = ''worker.cancelled''" "dict_get ''step_id'' (msg_payload m) = PStr s"
      "get_worker (worker_identity (msg_runner_id m) s) d = Some w" "wk_state w = WCreated"
      "d' = (update_worker (wk_id w)
         (\<lambda>w. w\<lparr>wk_state := WCancelled, wk_completed_at := Some (msg_created_at m),
            wk_metadata := dict_set (KStr ''cancellation'') (PDict (msg_payload m)) (wk_metadata w)\<rparr>) d)
         \<lparr>messages := messages d @ [m]\<rparr>"
proof -
  consider "get_runner (msg_runner_id m) d = None" | r where "get_runner (msg_runner_id m) d = Some r" "\<not> accepting r"
    | r e where "get_runner (msg_runner_id m) d = Some r" "accepting r" "get_message (msg_id m) d = Some e"
    | r where "get_runner (msg_runner_id m) d = Some r" "accepting r" "get_message (msg_id m) d = None"
    by (metis option.exhaust)
  then show ?thesis
  proof cases
    case (4 r)
    show ?thesis
    proof (cases "msg_topic m = ''worker.cancelled''")
      case True
      note p = assms [unfolded publish_message_def]
      obtain s where s: "dict_get ''step_id'' (msg_payload m) = PStr s"
        using p 4 True by (cases "dict_get ''step_id'' (msg_payload m)") auto
      obtain w where w: "get_worker (worker_identity (msg_runner_id m) s) d = Some w" "wk_state w = WCreated"
        using p 4 True s by (auto split: option.splits if_splits)
      show ?thesis by (rule that(3) [OF _ 4 True s w]) (use p 4 True s w in \<open>auto simp: update_worker_def\<close>)
    next
      case False
      with 4 assms show ?thesis by (intro that(2) [OF _ 4]) (auto simp: publish_message_def)
    qed
  qed (use assms that(1) in \<open>auto simp: publish_message_def split: if_splits\<close>)
qed

lemma publish_message_ok [wf_intros]:
  assumes "publish_message h m now d = Inr (b, d')" and ok: "db_ok d"
  shows "db_ok d'"
  using assms(1)
proof (cases rule: publish_message_cases)
  case (2 r)
  note v = db_okD(2) [OF ok]
  have "distinct (map msg_id (messages d @ [m]))" using view_okD(3) [OF v] 2(4) by (auto simp: get_row_None)
  from view_ok_messages [OF v this] db_okD(1) [OF ok] 2(6) show ?thesis by (simp add: db_ok_def)
next
  case (3 r s w)
  note v = db_okD(2) [OF ok]
  let ?f = "\<lambda>w. w\<lparr>wk_state := WCancelled, wk_completed_at := Some (msg_created_at m),
            wk_metadata := dict_set (KStr ''cancellation'') (PDict (msg_payload m)) (wk_metadata w)\<rparr>"
  have "distinct (map msg_id (messages d @ [m]))" using view_okD(3) [OF v] 3(4) by (auto simp: get_row_None)
  then have "view_ok (runner_state (runners d)) (update_where (\<lambda>x. wk_id x = wk_id w) ?f (workers d))
      (messages d @ [m]) (attempts d)"
    by (intro view_ok_worker [OF v]) (simp_all add: is_open_def is_done_def)
  then show ?thesis using db_okD(1) [OF ok] 3(9) by (simp add: db_ok_def update_worker_def)
qed (use ok in simp)

lemma commit_worker_cases:
  assumes "commit_worker h i res stored now d = Inr (m, d')"
  obtains "d' = d" | r w where "get_runner i d = Some r" "run_status r = Running"
      "get_worker (worker_identity i (wr_step_id res)) d = Some w" "wk_state w = WSubmitted"
      "wk_generation w = runtime_generation h"
      "get_message (completion_identity i (wr_step_id res)) d = None"
      "m = Some ((completion_row i res (stored_key stored))\<lparr>msg_payload := stored_payload stored\<rparr>)"
      "d' = (update_worker (worker_identity i (wr_step_id res))
               (\<lambda>w. w\<lparr>wk_state := (if wr_succeeded res then WSucceeded else WFailed),
                      wk_completed_at := Some (wr_completed_at res),
                      wk_completion_hash := Some (completion_hash (stored_key stored)),
                      wk_log_key := Some (stored_key stored)\<rparr>) d)
             \<lparr>messages := messages d @ [completion_row i res (stored_key stored)]\<rparr>"
proof -
  let ?k = "worker_identity i (wr_step_id res)"
  consider "get_runner i d = None" | r where "get_runner i d = Some r" "run_status r \<noteq> Running"
    | r where "get_runner i d = Some r" "run_status r = Running" "get_worker ?k d = None"
    | r w where "get_runner i d = Some r" "run_status r = Running" "get_worker ?k d = Some w"
    by (metis option.exhaust)
  then show ?thesis
  proof cases
    case (4 r w)
    note p = assms [unfolded commit_worker_def Let_def]
    show ?thesis
    proof (cases "wk_state w = WSubmitted \<and> wk_generation w = runtime_generation h")
      case True
      have id: "msg_id (completion_row i res k) = completion_identity i (wr_step_id res)" for k
        by (simp add: completion_row_def)
      from p 4 True show ?thesis
        by (intro that(2) [OF 4]) (auto simp: id get_row_None)
    next
      case False
      with p 4 that(1) show ?thesis by (auto split: option.splits if_splits)
    qed
  qed (use assms that(1) in \<open>auto simp: commit_worker_def Let_def\<close>)
qed

lemma commit_worker_ok [wf_intros]:
  assumes "commit_worker h i res stored now d = Inr (m, d')" and ok: "db_ok d"
  shows "db_ok d'"
  using assms(1)
proof (cases rule: commit_worker_cases)
  case (2 r w)
  note v = db_okD(2) [OF ok]
  let ?row = "completion_row i res (stored_key stored)"
  let ?f = "\<lambda>w. w\<lparr>wk_state := (if wr_succeeded res then WSucceeded else WFailed),
                      wk_completed_at := Some (wr_completed_at res),
                      wk_completion_hash := Some (completion_hash (stored_key stored)),
                      wk_log_key := Some (stored_key stored)\<rparr>"
  have "view_ok (runner_state (runners d)) (update_where (\<lambda>x. wk_id x = worker_identity i (wr_step_id res)) ?f (workers d))
      (messages d @ [?row]) (attempts d)"
  proof (rule view_ok_worker [OF v])
    show "distinct (map msg_id (messages d @ [?row]))"
      using view_okD(3) [OF v] 2(6) by (auto simp: get_row_None completion_row_def)
    fix w' assume w': "w' \<in> set (workers d)" "wk_id w' = worker_identity i (wr_step_id res)"
    show "is_open w' \<or> \<not> is_open (?f w')" by (simp add: is_open_def)
    show "published (messages d @ [?row]) (?f w')" using w'(2) by (simp add: published_def completion_row_def)
  qed simp_all
  then show ?thesis using db_okD(1) [OF ok] 2(8) by (simp add: db_ok_def update_worker_def)
qed (use ok in simp)

lemma fold_receipts:
  "\<exists>rs. fold (add_receipt consumer now) xs d = d\<lparr>receipts := rs\<rparr>"
proof (induction xs arbitrary: d)
  case Nil
  show ?case by (rule exI [of _ "receipts d"]) simp
next
  case (Cons x xs)
  have "add_receipt consumer now x d = d\<lparr>receipts := receipts (add_receipt consumer now x d)\<rparr>"
    by (simp add: add_receipt_def)
  then obtain rs where "add_receipt consumer now x d = d\<lparr>receipts := rs\<rparr>" by blast
  with Cons [of "d\<lparr>receipts := rs\<rparr>"] show ?case by auto
qed

lemma acknowledge_messages_frame:
  assumes "acknowledge_messages h i ids consumer now d = Inr (u, d')"
  obtains rs where "d' = d\<lparr>receipts := rs\<rparr>"
proof -
  from assms consider "d' = d" | xs where "d' = fold (add_receipt consumer now) xs d"
    by (auto simp: acknowledge_messages_def Let_def split: if_splits)
  then show ?thesis
  proof cases
    case 1
    then have "d' = d\<lparr>receipts := receipts d\<rparr>" by simp
    then show ?thesis by (rule that)
  next
    case (2 xs)
    with fold_receipts [of consumer now xs d] that show ?thesis by blast
  qed
qed

lemma db_ok_frame:
  "db_ok d \<Longrightarrow> runners d' = runners d \<Longrightarrow> workers d' = workers d \<Longrightarrow> messages d' = messages d \<Longrightarrow>
   attempts d' = attempts d \<Longrightarrow> db_ok d'"
  by (simp add: db_ok_def)

lemma acknowledge_messages_ok [wf_intros]:
  assumes "acknowledge_messages h i ids consumer now d = Inr (u, d')" and "db_ok d"
  shows "db_ok d'"
  using acknowledge_messages_frame [OF assms(1)] db_ok_frame [OF assms(2)]
  by (metis db.select_convs db.surjective db.update_convs(6))

section \<open>Checkpoints\<close>

text \<open>What a checkpoint may change outside nodes, instances and events: queued Runners are cancelled.\<close>

definition cancel_le :: "runner_row \<Rightarrow> runner_row \<Rightarrow> bool" where
  "cancel_le r r' \<longleftrightarrow> r' = r \<or> (run_status r = Queued \<and> (\<exists>t. r' = cancel_queued_runner t r))"

lemma cancel_le_refl [simp]: "cancel_le r r"
  by (simp add: cancel_le_def)

lemma cancel_le_trans: "cancel_le x y \<Longrightarrow> cancel_le y z \<Longrightarrow> cancel_le x z"
  by (auto simp: cancel_le_def cancel_queued_runner_def)

definition quiet :: "db \<Rightarrow> db \<Rightarrow> bool" where
  "quiet d d' \<longleftrightarrow> workers d' = workers d \<and> messages d' = messages d \<and> attempts d' = attempts d \<and>
     receipts d' = receipts d \<and> leases d' = leases d \<and> results d' = results d \<and>
     map run_id (runners d') = map run_id (runners d) \<and>
     rows_le run_id cancel_le (runners d) (runners d') \<and>
     cancels (runner_state (runners d)) (runner_state (runners d'))"

lemma quiet_refl [simp]: "quiet d d"
  by (simp add: quiet_def rows_le_refl)

lemma quietD:
  assumes "quiet d d'"
  shows "workers d' = workers d" "messages d' = messages d" "attempts d' = attempts d" "receipts d' = receipts d"
    "leases d' = leases d" "results d' = results d" "map run_id (runners d') = map run_id (runners d)"
    "rows_le run_id cancel_le (runners d) (runners d')"
    "cancels (runner_state (runners d)) (runner_state (runners d'))"
  using assms unfolding quiet_def by blast+

lemma quiet_trans:
  assumes "quiet a b" "quiet b c"
  shows "quiet a c"
  unfolding quiet_def
proof (intro conjI)
  show "rows_le run_id cancel_le (runners a) (runners c)"
    using quietD(8) [OF assms(1)] quietD(8) [OF assms(2)] by (rule rows_le_trans) (rule cancel_le_trans)
  show "cancels (runner_state (runners a)) (runner_state (runners c))"
    using quietD(9) [OF assms(1)] quietD(9) [OF assms(2)] by (rule cancels_trans)
qed (simp_all only: quietD(1-7) [OF assms(1)] quietD(1-7) [OF assms(2)])

lemma quiet_frame:
  "runners d' = runners d \<Longrightarrow> workers d' = workers d \<Longrightarrow> messages d' = messages d \<Longrightarrow> attempts d' = attempts d \<Longrightarrow>
   receipts d' = receipts d \<Longrightarrow> leases d' = leases d \<Longrightarrow> results d' = results d \<Longrightarrow> quiet d d'"
  by (simp add: quiet_def rows_le_refl)

lemma cancels_update:
  assumes "\<And>r. p r \<Longrightarrow> run_status r = Queued"
  shows "cancels (runner_state rows) (runner_state (update_where p (cancel_queued_runner now) rows))"
proof -
  have "get_row run_id i (update_where p (cancel_queued_runner now) rows) =
      map_option (\<lambda>r. if p r then cancel_queued_runner now r else r) (get_row run_id i rows)" for i
    by (rule get_row_update_where) (simp add: cancel_queued_runner_def)
  note g = this
  show ?thesis unfolding cancels_def runner_state_def
  proof
    fix i
    show "map_option (\<lambda>r. (run_status r, run_planned_workers r)) (get_row run_id i (update_where p (cancel_queued_runner now) rows)) =
        map_option (\<lambda>r. (run_status r, run_planned_workers r)) (get_row run_id i rows) \<or>
      (\<exists>n. map_option (\<lambda>r. (run_status r, run_planned_workers r)) (get_row run_id i rows) = Some (Queued, n) \<and>
         map_option (\<lambda>r. (run_status r, run_planned_workers r)) (get_row run_id i (update_where p (cancel_queued_runner now) rows)) = Some (Cancelled, n))"
      using assms by (cases "get_row run_id i rows") (auto simp: g cancel_queued_runner_def)
  qed
qed

lemma quiet_cancel_task: "quiet d (cancel_task_dispatches now i d)"
proof -
  have "map run_id (update_where p (cancel_queued_runner now) rows) = map run_id rows" for p rows
    by (rule update_where_keys) (simp add: cancel_queued_runner_def)
  then show ?thesis
    by (auto simp: quiet_def cancel_task_dispatches_def Let_def cancel_le_def cancel_queued_runner_def
        intro!: cancels_update rows_le_update)
qed

lemma quiet_update_instance [simp]: "quiet d (update_instance i f d)"
  by (rule quiet_frame) (simp_all add: update_instance_def)

lemma quiet_add_event [simp]: "quiet d (add_event i s m d)"
  by (rule quiet_frame) (simp_all add: add_event_def)

lemma quiet_advance:
  assumes "advance_instance runner c i n st now ev inst source d = Inr d'"
  shows "quiet d d'"
proof -
  have upd: "quiet d (update_instance i f (d\<lparr>nodes := ns\<rparr>))" for f ns
    by (rule quiet_frame) (simp_all add: update_instance_def)
  have fail: "quiet d (fail_instance now i s m e)" if "quiet d e" for s m e
    unfolding fail_instance_def using that quiet_trans quiet_cancel_task quiet_update_instance by metis
  have settle: "quiet d (settle_instance i e)" if "quiet d e" for e
    unfolding settle_instance_def using that quiet_trans quiet_update_instance by metis
  note two = quiet_trans [OF upd quiet_update_instance]
  show ?thesis
    using assms unfolding advance_instance_def Let_def
    by (auto split: if_splits pyval.splits sum.splits intro: upd fail settle two)
qed

lemma quiet_checkpoint_invocation:
  assumes "checkpoint_invocation runner c st now ev d = Inr d'"
  shows "quiet d d'"
  using assms unfolding checkpoint_invocation_def
  by (auto split: pyval.splits option.splits if_splits intro: quiet_advance)

lemma quiet_checkpoint:
  assumes "checkpoint_task_result runner st now ev requests d = Inr d'"
  shows "quiet d d'"
proof -
  have "quiet d d'" if "foldR (checkpoint_grouped runner st now requests) d cs = Inr d'" for cs
    by (rule foldR_invariant [OF that, of "quiet d"])
      (auto simp: checkpoint_grouped_def Let_def intro: quiet_trans quiet_checkpoint_invocation)
  then show ?thesis
    using assms unfolding checkpoint_task_result_def
    by (auto split: pyval.splits list.splits simp del: foldR.simps intro: quiet_checkpoint_invocation)
qed

lemma db_ok_quiet: "db_ok d \<Longrightarrow> quiet d d' \<Longrightarrow> db_ok d'"
  unfolding db_ok_def quiet_def using view_ok_cancels by metis

section \<open>Transactions on Runners\<close>

lemma runner_state_append:
  assumes "i \<notin> run_id ` set rows" "run_id r = i"
  shows "runner_state (rows @ [r]) = (runner_state rows)(i \<mapsto> (run_status r, run_planned_workers r))"
proof -
  have "get_row run_id i rows = None" using assms by (simp add: get_row_None)
  with assms(2) show ?thesis
    by (intro ext) (auto simp: runner_state_def get_row_append split: option.splits)
qed

lemma runner_state_update:
  assumes "get_row run_id i rows = Some r" and "\<And>r. run_id (f r) = run_id r"
  shows "runner_state (update_where (\<lambda>r. run_id r = i) f rows) =
    (runner_state rows)(i \<mapsto> (run_status (f r), run_planned_workers (f r)))"
proof
  fix j
  have "get_row run_id j (update_where (\<lambda>r. run_id r = i) f rows) =
      map_option (\<lambda>r. if run_id r = i then f r else r) (get_row run_id j rows)"
    by (rule get_row_update_where) (rule assms(2))
  note g = this
  show "runner_state (update_where (\<lambda>r. run_id r = i) f rows) j =
    ((runner_state rows)(i \<mapsto> (run_status (f r), run_planned_workers (f r)))) j"
  proof (cases "get_row run_id j rows")
    case (Some x)
    with get_row_Some [OF Some] assms(1) show ?thesis by (auto simp: runner_state_def g)
  qed (use assms(1) in \<open>auto simp: runner_state_def g\<close>)
qed

lemma runner_state_same:
  assumes "\<And>r. run_id (f r) = run_id r \<and> run_status (f r) = run_status r \<and> run_planned_workers (f r) = run_planned_workers r"
  shows "runner_state (update_where p f rows) = runner_state rows"
proof
  fix j
  have "get_row run_id j (update_where p f rows) = map_option (\<lambda>r. if p r then f r else r) (get_row run_id j rows)"
    by (rule get_row_update_where) (use assms in blast)
  then show "runner_state (update_where p f rows) j = runner_state rows j"
    using assms by (cases "get_row run_id j rows") (auto simp: runner_state_def)
qed

lemma from_template_queued:
  assumes "from_template decode fresh now template origin = Inr r"
  shows "run_id r = fresh \<and> run_status r = Queued"
proof -
  obtain b m l where "r = queued_runner decode fresh now b m l origin"
    using assms by (cases "field ''benchmark'' template") (auto simp: from_template_def)
  then show ?thesis by (simp add: queued_runner_def Let_def)
qed

lemma from_dispatch_queued:
  assumes "from_dispatch decode fresh now n = Inr r"
  shows "run_id r = fresh \<and> run_status r = Queued"
  using assms unfolding from_dispatch_def Let_def by (auto dest: from_template_queued)

lemma emit_dispatch_frame:
  assumes "emit_dispatch decode fresh now planner n d = Inr d'"
  obtains r where "fresh \<notin> run_id ` set (runners d)" "run_id r = fresh" "run_status r = Queued"
    "runners d' = runners d @ [r]" "workers d' = workers d" "messages d' = messages d"
    "attempts d' = attempts d" "receipts d' = receipts d" "leases d' = leases d" "instances d' = instances d"
proof -
  from assms obtain r rt where r: "from_dispatch decode fresh now n = Inr r"
    and new: "run_id r \<notin> run_id ` set (runners d)"
    and d': "d' = record_emission fresh now planner n r (d\<lparr>runners := runners d @ [r\<lparr>run_runtime_id := rt\<rparr>]\<rparr>)"
    unfolding emit_dispatch_def by auto
  have frame: "runners (record_emission fresh now planner n r e) = runners e"
    "workers (record_emission fresh now planner n r e) = workers e"
    "messages (record_emission fresh now planner n r e) = messages e"
    "attempts (record_emission fresh now planner n r e) = attempts e"
    "receipts (record_emission fresh now planner n r e) = receipts e"
    "leases (record_emission fresh now planner n r e) = leases e"
    "instances (record_emission fresh now planner n r e) = instances e" for e
    by (cases "nd_plan_id n"; simp add: record_emission_def add_event_def Let_def)+
  show ?thesis
    by (rule that [of "r\<lparr>run_runtime_id := rt\<rparr>"]) (use from_dispatch_queued [OF r] new in \<open>simp_all add: d' frame\<close>)
qed

lemma db_ok_submit:
  assumes ok: "db_ok d" and "i \<notin> run_id ` set (runners d)" "run_id r = i" "run_status r = Queued"
    and "runners d' = runners d @ [r]" "workers d' = workers d" "messages d' = messages d" "attempts d' = attempts d"
  shows "db_ok d'"
proof -
  have "runner_state (runners d) i = None" using assms(2) by (simp add: runner_state_def get_row_None)
  from view_ok_submit [OF db_okD(2) [OF ok] this] show ?thesis
    using assms db_okD(1) [OF ok] by (auto simp: db_ok_def runner_state_append)
qed

lemma emit_dispatch_ok [wf_intros]:
  assumes "emit_dispatch decode fresh now planner n d = Inr d'" and ok: "db_ok d"
  shows "db_ok d'"
  using assms(1) by (rule emit_dispatch_frame) (rule db_ok_submit [OF ok])

lemma activate_node_cases:
  assumes "activate_node decode h k fresh due now d = Inr (v, d')"
  obtains "d' = d" | f n i d1 where
    "emit_dispatch decode fresh now (runtime_owner h) n (d\<lparr>nodes := f\<rparr>) = Inr d1"
    "d' = update_instance i (\<lambda>x. x\<lparr>in_state := IActive\<rparr>) d1"
  using assms by (auto simp: activate_node_def Let_def split: option.splits if_splits)

lemma activate_node_ok [wf_intros]:
  assumes "activate_node decode h k fresh due now d = Inr (v, d')" and ok: "db_ok d"
  shows "db_ok d'"
  using assms(1)
proof (cases rule: activate_node_cases)
  case (2 f n i d1)
  have "db_ok (d\<lparr>nodes := f\<rparr>)" by (rule db_ok_frame [OF ok]) simp_all
  then have "db_ok d1" using 2(1) by (rule emit_dispatch_ok [rotated])
  then show ?thesis unfolding 2(2) by (rule db_ok_quiet) simp
qed (use ok in simp)

lemma start_selected_cases:
  assumes "start_selected read h i owner fresh now d = Inr (v, d')"
  obtains "d' = d" "v = None"
  | r where "v = None" "get_runner i d = Some r" "run_status r = Queued"
      "d' = add_event i Cancelled ''Task instance no longer executable''
         (update_runner i (\<lambda>r. r\<lparr>run_status := Cancelled, run_finished_at := Some now\<rparr>) d)"
  | r a where "v \<noteq> None" "get_runner i d = Some r" "run_status r = Queued" "\<not> run_cancel_requested r"
      "att_runner_id a = i" "att_state a = Executing" "att_generation a = runtime_generation h"
      "d' = add_event i Running ''Admitted by runtime Scheduler''
         ((update_runner i (start_runner owner now) d)\<lparr>attempts := attempts d @ [a]\<rparr>)"
proof (cases "get_runner i d")
  case None
  with assms that(1) show ?thesis by (auto simp: start_selected_def)
next
  case (Some r)
  show ?thesis
  proof (cases "run_status r \<noteq> Queued \<or> run_cancel_requested r")
    case True
    with Some assms that(1) show ?thesis by (auto simp: start_selected_def)
  next
    case False
    let ?c = "as_dict (field ''task_context'' (run_benchmark_config r))"
    from assms Some False obtain dead where dead: "context_dead ?c d = Inr dead"
      by (auto simp: start_selected_def Let_def)
    show ?thesis
    proof (cases dead)
      case True
      with assms Some False dead show ?thesis by (intro that(2) [OF _ Some]) (auto simp: start_selected_def Let_def)
    next
      case alive: False
      with assms Some False dead obtain l ats hs where
        "insert_attempt h i fresh now (attempts d) = Inr ats" "v \<noteq> None"
        "d' = add_event i Running ''Admitted by runtime Scheduler''
          ((update_runner i (start_runner owner now) d)\<lparr>attempts := ats\<rparr>)"
        by (auto simp: start_selected_def Let_def)
      with False show ?thesis
        by (intro that(3) [OF _ Some]) (auto simp: insert_attempt_def split: if_splits)
    qed
  qed
qed

lemma update_runner_keys:
  "(\<And>r. run_id (f r) = run_id r) \<Longrightarrow> map run_id (runners (update_runner i f d)) = map run_id (runners d)"
  unfolding update_runner_def by (simp add: update_where_keys)

lemma db_ok_cancel_one:
  assumes ok: "db_ok d" and r: "get_runner i d = Some r" "run_status r = Queued"
    and f: "\<And>r. run_id (f r) = run_id r \<and> run_status (f r) = Cancelled \<and> run_planned_workers (f r) = run_planned_workers r"
  shows "db_ok (update_runner i f d)"
proof -
  have "cancels (runner_state (runners d)) (runner_state (runners (update_runner i f d)))"
    using runner_state_update [OF r(1), of f] f runner_state_get [OF r(1)] r(2)
    by (auto simp: update_runner_def cancels_def)
  from view_ok_cancels [OF db_okD(2) [OF ok] this] show ?thesis
    using db_okD(1) [OF ok] update_runner_keys [of f i d] f by (simp add: db_ok_def update_runner_def)
qed

lemma start_selected_ok [wf_intros]:
  assumes "start_selected read h i owner fresh now d = Inr (v, d')" and ok: "db_ok d"
  shows "db_ok d'"
  using assms(1)
proof (cases rule: start_selected_cases)
  case (2 r)
  have "db_ok (update_runner i (\<lambda>r. r\<lparr>run_status := Cancelled, run_finished_at := Some now\<rparr>) d)"
    by (rule db_ok_cancel_one [OF ok 2(2,3)]) simp
  then show ?thesis unfolding 2(4) by (rule db_ok_quiet) simp
next
  case (3 r a)
  let ?f = "start_runner owner now"
  have "view_ok ((runner_state (runners d))(i \<mapsto> (Running, run_planned_workers r))) (workers d) (messages d) (attempts d @ [a])"
    by (rule view_ok_start [OF db_okD(2) [OF ok]]) (use 3 runner_state_get [OF 3(2)] in auto)
  moreover have "runner_state (update_where (\<lambda>r. run_id r = i) ?f (runners d)) =
      (runner_state (runners d))(i \<mapsto> (Running, run_planned_workers r))"
    using runner_state_update [OF 3(2), of ?f] by (simp add: start_runner_def)
  ultimately show ?thesis
    using db_okD(1) [OF ok] update_runner_keys [of ?f i d] 3(8)
    by (simp add: db_ok_def update_runner_def add_event_def start_runner_def)
qed (use ok in simp)

lemma db_ok_same_runners:
  assumes ok: "db_ok d" and f: "\<And>r. run_id (f r) = run_id r \<and> run_status (f r) = run_status r \<and> run_planned_workers (f r) = run_planned_workers r"
    and "runners d' = update_where p f (runners d)" "workers d' = workers d" "messages d' = messages d" "attempts d' = attempts d"
  shows "db_ok d'"
  using assms db_okD [OF ok] runner_state_same [of f p "runners d"] update_where_keys [of run_id f p "runners d"]
  by (simp add: db_ok_def)

lemma heartbeat_ok [wf_intros]:
  assumes "heartbeat_runners h ids refresh locked now d = Inr (v, d')" and ok: "db_ok d"
  shows "db_ok d'"
proof -
  from assms(1) consider "d' = d" | p where "d' = d\<lparr>runners := update_where p (\<lambda>r. r\<lparr>run_heartbeat_at := Some now\<rparr>) (runners d)\<rparr>"
    by (auto simp: heartbeat_runners_def Let_def split: if_splits)
  then show ?thesis
    by cases (use ok in simp, rule db_ok_same_runners [OF ok, of "\<lambda>r. r\<lparr>run_heartbeat_at := Some now\<rparr>"], simp_all)
qed

lemma request_cancel_ok [wf_intros]:
  assumes "request_cancel i now d = Inr (v, d')" and ok: "db_ok d"
  shows "db_ok d'"
proof -
  have "terminal s \<or> s = Queued \<or> s = Running" for s by (cases s) simp_all
  then consider "get_runner i d = None" | r where "get_runner i d = Some r" "terminal (run_status r)"
    | r where "get_runner i d = Some r" "run_status r = Queued" | r where "get_runner i d = Some r" "run_status r = Running"
    by (metis option.exhaust)
  then show ?thesis
  proof cases
    case (3 r)
    with assms(1) obtain d1 where c: "checkpoint_task_result (cancel_queued_runner now r) Cancelled now no_evidence []
        (update_runner i (cancel_queued_runner now) d) = Inr d1"
      and d': "d' = add_event i Cancelled ''Cancelled before execution'' d1"
      by (auto simp: request_cancel_def Let_def)
    have "db_ok (update_runner i (cancel_queued_runner now) d)"
      by (rule db_ok_cancel_one [OF ok 3]) (simp add: cancel_queued_runner_def)
    from db_ok_quiet [OF this quiet_checkpoint [OF c]] show ?thesis
      unfolding d' by (rule db_ok_quiet) simp
  next
    case (4 r)
    with assms(1) have "d' = add_event i Running ''Cancellation requested''
        (update_runner i (\<lambda>r. r\<lparr>run_cancel_requested := True\<rparr>) d)"
      by (auto simp: request_cancel_def Let_def)
    then show ?thesis
      by (intro db_ok_same_runners [OF ok, of "\<lambda>r. r\<lparr>run_cancel_requested := True\<rparr>" _ "\<lambda>r. run_id r = i"])
        (simp_all add: add_event_def update_runner_def)
  qed (use assms in \<open>auto simp: request_cancel_def\<close>)
qed

lemma db_ok_end:
  assumes ok: "db_ok d" and r: "get_runner i d = Some r" "run_status r = Running" and st: "terminal st"
    and f: "\<And>r. run_id (f r) = run_id r \<and> run_status (f r) = st \<and> run_planned_workers (f r) = run_planned_workers r"
    and g: "\<And>a. att_runner_id (g a) = att_runner_id a"
    and d': "runners d' = update_where (\<lambda>r. run_id r = i) f (runners d)"
      "workers d' = update_where (\<lambda>w. wk_runner_id w = i) (close_worker now) (workers d)"
      "attempts d' = update_where (\<lambda>a. att_runner_id a = i \<and> p a) g (attempts d)" "messages d' = messages d"
  shows "db_ok d'"
proof -
  have "runner_state (runners d) i = Some (Running, run_planned_workers r)" using runner_state_get [OF r(1)] r(2) by simp
  from view_ok_end [OF db_okD(2) [OF ok] this st d'(2,3) g]
  have "view_ok ((runner_state (runners d))(i \<mapsto> (st, run_planned_workers r))) (workers d') (messages d') (attempts d')"
    unfolding d'(4) .
  then show ?thesis
    using runner_state_update [OF r(1), of f] f db_okD(1) [OF ok] update_where_keys [of run_id f "\<lambda>r. run_id r = i" "runners d"]
    unfolding db_ok_def d'(1) by simp
qed

lemma complete_runner_cases:
  assumes "complete_runner h i summary metrics code log_ref st err now d = Inr (b, d')"
  obtains "\<not> b" "d' = d"
  | r d1 where "b" "get_runner i d = Some r" "accepting r" "terminal st"
      "runners d1 = update_where (\<lambda>r. run_id r = i)
         (\<lambda>r. r\<lparr>run_status := st, run_finished_at := Some now, run_heartbeat_at := Some now,
                run_exit_code := Some code, run_summary := json_safe summary,
                run_request_count := length metrics, run_log_key := log_ref, run_error_message := err\<rparr>) (runners d)"
      "workers d1 = update_where (\<lambda>w. wk_runner_id w = i) (close_worker now) (workers d)"
      "attempts d1 = update_where (\<lambda>a. att_runner_id a = i \<and> att_generation a = runtime_generation h)
         (\<lambda>a. a\<lparr>att_state := AttemptEnded st, att_completed_at := Some now\<rparr>) (attempts d)"
      "messages d1 = messages d" "receipts d1 = receipts d" "leases d1 = leases d"
      "results d1 = filter (\<lambda>x. rs_runner_id x \<noteq> i) (results d) @ enumerate_results i (map json_safe metrics)"
      "quiet d1 d'"
proof (cases "get_runner i d")
  case None
  with assms that(1) show ?thesis by (auto simp: complete_runner_def)
next
  case (Some r)
  show ?thesis
  proof (cases "accepting r")
    case False
    with Some assms that(1) show ?thesis by (auto simp: complete_runner_def)
  next
    case True
    let ?d3 = "update_runner i (\<lambda>r. r\<lparr>run_status := st, run_finished_at := Some now, run_heartbeat_at := Some now,
        run_exit_code := Some code, run_summary := json_safe summary, run_request_count := length metrics,
        run_log_key := log_ref, run_error_message := err\<rparr>)
      ((close_workers i now d)\<lparr>attempts := update_where (\<lambda>a. att_runner_id a = i \<and> att_generation a = runtime_generation h)
         (\<lambda>a. a\<lparr>att_state := AttemptEnded st, att_completed_at := Some now\<rparr>) (attempts d),
        results := filter (\<lambda>x. rs_runner_id x \<noteq> i) (results d) @ enumerate_results i (map json_safe metrics)\<rparr>)"
    from assms Some True obtain ev d4 tx where st: "st \<in> {Succeeded, Failed}"
      and c: "checkpoint_task_result r st now ev (map json_safe metrics) ?d3 = Inr d4"
      and d': "b" "d' = add_event i st tx d4"
      by (auto simp: complete_runner_def Let_def close_workers_def split: if_splits)
    have "quiet ?d3 d'" unfolding d'(2) using quiet_trans [OF quiet_checkpoint [OF c]] by simp
    with st Some True d'(1) show ?thesis
      by (intro that(2) [of r ?d3]) (auto simp: update_runner_def close_workers_def)
  qed
qed

lemma complete_runner_ok [wf_intros]:
  assumes "complete_runner h i summary metrics code log_ref st err now d = Inr (b, d')" and ok: "db_ok d"
  shows "db_ok d'"
  using assms(1)
proof (cases rule: complete_runner_cases)
  case (2 r d1)
  have "db_ok d1"
    by (rule db_ok_end [OF ok 2(2) _ 2(4) _ _ 2(5-7) 2(8)]) (use 2(3) in \<open>simp_all add: accepting_def\<close>)
  then show ?thesis using 2(12) by (rule db_ok_quiet)
qed (use ok in simp)

lemma finish_runner_cases:
  assumes "finish_runner h i st message code log_ref now d = Inr (b, d')"
  obtains "\<not> b" "d' = d"
  | r d1 ended where "b" "get_runner i d = Some r" "run_status r = Running" "terminal st"
      "runners d1 = update_where (\<lambda>r. run_id r = i)
         (\<lambda>r. r\<lparr>run_status := st, run_finished_at := Some now, run_heartbeat_at := Some now,
                run_exit_code := code, run_error_message := Some message, run_log_key := log_ref\<rparr>) (runners d)"
      "workers d1 = update_where (\<lambda>w. wk_runner_id w = i) (close_worker now) (workers d)"
      "attempts d1 = update_where (\<lambda>a. att_runner_id a = i \<and> True)
         (\<lambda>a. a\<lparr>att_state := ended, att_completed_at := Some now\<rparr>) (attempts d)"
      "messages d1 = messages d" "receipts d1 = receipts d" "leases d1 = leases d" "results d1 = results d"
      "quiet d1 d'"
proof (cases "get_runner i d")
  case None
  with assms that(1) show ?thesis by (auto simp: finish_runner_def)
next
  case (Some r)
  show ?thesis
  proof (cases "run_status r = Running")
    case False
    with Some assms that(1) show ?thesis by (auto simp: finish_runner_def)
  next
    case True
    let ?ended = "if starts_with ''indeterminate:'' message then AttemptIndeterminate else AttemptEnded st"
    let ?d3 = "(close_workers i now (update_runner i (\<lambda>r. r\<lparr>run_status := st, run_finished_at := Some now,
        run_heartbeat_at := Some now, run_exit_code := code, run_error_message := Some message, run_log_key := log_ref\<rparr>) d))
      \<lparr>attempts := update_where (\<lambda>a. att_runner_id a = i) (\<lambda>a. a\<lparr>att_state := ?ended, att_completed_at := Some now\<rparr>) (attempts d)\<rparr>"
    from assms Some True obtain d4 where st: "st \<in> {Failed, Cancelled}"
      and c: "checkpoint_task_result r st now no_evidence [] ?d3 = Inr d4"
      and d': "b" "d' = add_event i st message d4"
      unfolding finish_runner_def Let_def close_workers_def update_runner_def
      by (auto simp del: starts_with.simps)
    have "quiet ?d3 d'" unfolding d'(2) using quiet_trans [OF quiet_checkpoint [OF c]] by simp
    with st Some True d'(1) show ?thesis
      by (intro that(2) [of r ?d3 ?ended]) (auto simp: update_runner_def close_workers_def)
  qed
qed

lemma finish_runner_ok [wf_intros]:
  assumes "finish_runner h i st message code log_ref now d = Inr (b, d')" and ok: "db_ok d"
  shows "db_ok d'"
  using assms(1)
proof (cases rule: finish_runner_cases)
  case (2 r d1 ended)
  have "db_ok d1" by (rule db_ok_end [OF ok 2(2,3,4) _ _ 2(5-7) 2(8)]) simp_all
  then show ?thesis using 2(12) by (rule db_ok_quiet)
qed (use ok in simp)

lemma request_cancel_campaign_frame:
  assumes "request_cancel_campaign c now d = Inr (v, d')"
  obtains "d' = d" | "runners d' = update_where (\<lambda>r. run_campaign_id r = Some c \<and> \<not> terminal (run_status r))
      (cancel_campaign_runner now) (runners d)" "workers d' = workers d" "messages d' = messages d"
    "attempts d' = attempts d" "receipts d' = receipts d" "leases d' = leases d"
  using assms by (auto simp: request_cancel_campaign_def Let_def split: option.splits)

lemma cancels_campaign:
  assumes "\<And>r. p r \<Longrightarrow> \<not> terminal (run_status r)"
  shows "cancels (runner_state rows) (runner_state (update_where p (cancel_campaign_runner now) rows))"
proof -
  have "get_row run_id i (update_where p (cancel_campaign_runner now) rows) =
      map_option (\<lambda>r. if p r then cancel_campaign_runner now r else r) (get_row run_id i rows)" for i
    by (rule get_row_update_where) (simp add: cancel_campaign_runner_def cancel_queued_runner_def)
  note g = this
  show ?thesis unfolding cancels_def runner_state_def
  proof
    fix i
    show "map_option (\<lambda>r. (run_status r, run_planned_workers r)) (get_row run_id i (update_where p (cancel_campaign_runner now) rows)) =
        map_option (\<lambda>r. (run_status r, run_planned_workers r)) (get_row run_id i rows) \<or>
      (\<exists>n. map_option (\<lambda>r. (run_status r, run_planned_workers r)) (get_row run_id i rows) = Some (Queued, n) \<and>
         map_option (\<lambda>r. (run_status r, run_planned_workers r)) (get_row run_id i (update_where p (cancel_campaign_runner now) rows)) = Some (Cancelled, n))"
      by (cases "get_row run_id i rows") (auto simp: g cancel_campaign_runner_def cancel_queued_runner_def)
  qed
qed

lemma request_cancel_campaign_ok [wf_intros]:
  assumes "request_cancel_campaign c now d = Inr (v, d')" and ok: "db_ok d"
  shows "db_ok d'"
  using assms(1)
proof (cases rule: request_cancel_campaign_frame)
  case 2
  have "map run_id (runners d') = map run_id (runners d)"
    unfolding 2(1) by (rule update_where_keys) (simp add: cancel_campaign_runner_def cancel_queued_runner_def)
  moreover have "cancels (runner_state (runners d)) (runner_state (runners d'))"
    unfolding 2(1) by (rule cancels_campaign) simp
  ultimately show ?thesis
    using db_okD(1) [OF ok] view_ok_cancels [OF db_okD(2) [OF ok]] 2 by (simp add: db_ok_def)
qed (use ok in simp)

end
