(* ===== verification/Store_Plans.thy ===== *)
theory Store_Plans
  imports Store_Integrity
begin

text \<open>
  Recurring plans in \<open>storage/repository.py\<close>: pausing, resuming and cancelling a plan, the
  materialisation of a due plan (\<open>_materialize_plan\<close>: skipped misfires, overlap policy, the durable
  dispatch of one occurrence, the next fire time and the completion of the plan), and
  \<open>materialize_due_work\<close>, which turns due dispatches into queued Runners.

  The lemmas show that the misfire loop always ends, that every occurrence is accounted for exactly
  once as dispatched or skipped, that a plan never passes its declared number of occurrences, and
  that what is dispatched was due within the grace period.
\<close>

section \<open>Wall-clock text\<close>

text \<open>The civil date of a day number and \<open>datetime.isoformat\<close> of a time without offset.\<close>

definition civil_date :: "int \<Rightarrow> int \<times> int \<times> int" where
  "civil_date day =
     (let z = day + 719468; era = z div 146097; doe = z mod 146097;
          yoe = (doe - doe div 1460 + doe div 36524 - doe div 146096) div 365;
          doy = doe - (365 * yoe + yoe div 4 - yoe div 100); mp = (5 * doy + 2) div 153;
          m = (if mp < 10 then mp + 3 else mp - 9)
      in (yoe + era * 400 + (if m \<le> 2 then 1 else 0), m, doy - (153 * mp + 2) div 5 + 1))"

definition pad_int :: "nat \<Rightarrow> int \<Rightarrow> string" where
  "pad_int w i = str_pad w (nat i)"

definition isoformat_naive :: "int \<Rightarrow> string" where
  "isoformat_naive t =
     (let (y, m, d) = civil_date (t div day_us); us = t mod day_us; s = us div 1000000; f = us mod 1000000
      in pad_int 4 y @ ''-'' @ pad_int 2 m @ ''-'' @ pad_int 2 d @ ''T'' @ pad_int 2 (s div 3600) @ '':''
         @ pad_int 2 (s div 60 mod 60) @ '':'' @ pad_int 2 (s mod 60)
         @ (if f = 0 then [] else ''.'' @ pad_int 6 f))"

section \<open>Plan events\<close>

definition plan_note :: "plan_row \<Rightarrow> string \<Rightarrow> nat option \<Rightarrow> instant option \<Rightarrow> string \<Rightarrow> pyval \<Rightarrow> plan_event" where
  "plan_note p kind occurrence scheduled message details =
     \<lparr>pe_plan_id = pl_id p, pe_type = kind, pe_occurrence = occurrence, pe_scheduled_for = scheduled,
      pe_runner_id = None, pe_message = Some message, pe_details = json_safe details\<rparr>"

definition planner_value :: "string option \<Rightarrow> pyval" where
  "planner_value p = (case p of Some s \<Rightarrow> PStr s | None \<Rightarrow> PNone)"

definition by_planner :: "string option \<Rightarrow> pyval" where
  "by_planner planner = PDict [(KStr ''planner_id'', planner_value planner)]"

fun adjustment_details :: "string \<Rightarrow> string option \<Rightarrow> adjustment \<Rightarrow> pyval" where
  "adjustment_details tz planner (Nonexistent_Local_Time t) =
     PDict [(KStr ''reason'', PStr ''nonexistent_local_time''), (KStr ''policy'', PStr ''skip''),
            (KStr ''local_time'', PTime (Naive t)), (KStr ''timezone'', PStr tz),
            (KStr ''planner_id'', planner_value planner)]"
| "adjustment_details tz planner (Ambiguous_Local_Time t i is) =
     PDict [(KStr ''reason'', PStr ''ambiguous_local_time''), (KStr ''policy'', PStr ''first''),
            (KStr ''local_time'', PTime (Naive t)), (KStr ''timezone'', PStr tz),
            (KStr ''selected'', PTime (Aware i)), (KStr ''candidates'', PList (map (\<lambda>x. PTime (Aware x)) is)),
            (KStr ''planner_id'', planner_value planner)]"

fun adjustment_message :: "string \<Rightarrow> adjustment \<Rightarrow> string" where
  "adjustment_message tz (Nonexistent_Local_Time t) =
     ''DST policy skip applied to '' @ isoformat_naive t @ '' '' @ tz"
| "adjustment_message tz (Ambiguous_Local_Time t i is) =
     ''DST policy first applied to '' @ isoformat_naive t @ '' '' @ tz"

definition dst_events :: "plan_row \<Rightarrow> adjustment list \<Rightarrow> string option \<Rightarrow> plan_event list" where
  "dst_events p adjustments planner =
     map (\<lambda>a. plan_note p ''dst_adjusted'' (Some (pl_occurrence_cursor p)) None
                (adjustment_message (pl_timezone p) a) (adjustment_details (pl_timezone p) planner a)) adjustments"

section \<open>Materialisation of one plan\<close>

definition plan_exhausted :: "plan_row \<Rightarrow> bool" where
  "plan_exhausted p \<longleftrightarrow> (case pl_max_occurrences p of Some m \<Rightarrow> m \<le> pl_occurrence_cursor p | None \<Rightarrow> False)"

definition complete_plan :: "plan_row \<Rightarrow> plan_row" where
  "complete_plan p = p\<lparr>pl_status := PlanCompleted, pl_next_fire_at := None\<rparr>"

definition past_end :: "plan_row \<Rightarrow> instant \<Rightarrow> bool" where
  "past_end p t \<longleftrightarrow> (case pl_ends_at p of Some e \<Rightarrow> e < t | None \<Rightarrow> False)"

definition count_skip :: "plan_row \<Rightarrow> plan_row" where
  "count_skip p = p\<lparr>pl_skipped_count := pl_skipped_count p + 1, pl_occurrence_cursor := pl_occurrence_cursor p + 1\<rparr>"

text \<open>
  The misfire loop, with its bound; each turn moves the fire time on by at least one microsecond.
\<close>

fun skip_misfires ::
    "nat \<Rightarrow> (string \<Rightarrow> zone) \<Rightarrow> string option \<Rightarrow> instant \<Rightarrow> plan_row \<Rightarrow> instant \<Rightarrow> plan_event list
      \<Rightarrow> (plan_row \<times> instant \<times> plan_event list) res" where
  "skip_misfires fuel zones planner grace p planned evs =
     (if \<not> planned < grace then Inr (p, planned, evs)
      else case fuel of
        0 \<Rightarrow> Inl (RuntimeError ''misfire loop bound'')
      | Suc n \<Rightarrow>
          let p1 = count_skip p
          in if plan_exhausted p1 then Inr (complete_plan p1, planned, evs)
             else rbind (next_fire_details (zones (pl_timezone p1)) (pl_recurrence p1) (pl_starts_at p1) (Some planned))
               (\<lambda>(next, adj).
                 let evs1 = evs @ dst_events p1 adj planner
                 in if past_end p1 next then Inr (complete_plan p1, next, evs1)
                    else skip_misfires n zones planner grace (p1\<lparr>pl_next_fire_at := Some next\<rparr>) next evs1))"

declare skip_misfires.simps [simp del]

definition new_dispatch :: "string \<Rightarrow> plan_row \<Rightarrow> instant \<Rightarrow> instant \<Rightarrow> nat \<Rightarrow> node_row" where
  "new_dispatch fresh p due now occurrence =
     \<lparr>nd_id = fresh, nd_campaign_id = pl_campaign_id p, nd_plan_id = Some (pl_id p),
      nd_dispatch_key = Some (str_nat occurrence), nd_instance_id = None, nd_node_id = None,
      nd_due_at = Some due, nd_state = NPending, nd_template = json_safe (pl_template p),
      nd_lineage = safe_dict [(KStr ''plan_occurrence'', PInt (int occurrence)),
        (KStr ''plan_template_version'', PStr (pl_template_version p)), (KStr ''created_by'', PStr (pl_created_by p))],
      nd_runner_id = None, nd_created_at = now, nd_emitted_at = None\<rparr>"

definition completed_note :: "plan_row \<Rightarrow> string option \<Rightarrow> plan_event list" where
  "completed_note p planner =
     (if pl_status p = PlanCompleted
      then [plan_note p ''completed'' (Some (pl_occurrence_cursor p)) (pl_last_fire_at p)
             ''RunnerPlan reached its execution boundary'' (by_planner planner)] else [])"

text \<open>The next fire time after an occurrence, or the completion of the plan.\<close>

definition advance_plan ::
    "(string \<Rightarrow> zone) \<Rightarrow> string option \<Rightarrow> instant \<Rightarrow> plan_row \<Rightarrow> (plan_row \<times> plan_event list) res" where
  "advance_plan zones planner planned p =
     (if plan_exhausted p then Inr (complete_plan p, [])
      else rbind (next_fire_details (zones (pl_timezone p)) (pl_recurrence p) (pl_starts_at p) (Some planned))
        (\<lambda>(candidate, adj).
          Inr (if past_end p candidate then complete_plan p else p\<lparr>pl_next_fire_at := Some candidate\<rparr>,
               dst_events p adj planner)))"

text \<open>\<open>busy\<close>: the plan has a queued or running Runner or a pending dispatch.\<close>

definition fire_plan ::
    "(string \<Rightarrow> zone) \<Rightarrow> string option \<Rightarrow> instant \<Rightarrow> string \<Rightarrow> bool \<Rightarrow> plan_row
      \<Rightarrow> (plan_row \<times> node_row option \<times> plan_event list) res" where
  "fire_plan zones planner now fresh busy p =
     (case pl_next_fire_at p of
        None \<Rightarrow> Inl (RuntimeError (''active RunnerPlan '' @ pl_id p @ '' has no next_fire_at''))
      | Some first \<Rightarrow>
          let grace = now - timedelta (of_int (pl_misfire_grace_seconds p))
          in rbind (skip_misfires (nat (grace - first)) zones planner grace p first []) (\<lambda>(p1, planned, evs).
            let skipped = pl_occurrence_cursor p1 - pl_occurrence_cursor p;
                evs1 = evs @ (if skipped \<noteq> 0
                  then [plan_note p ''misfire_skipped'' (Some (pl_occurrence_cursor p)) None
                          (''Skipped '' @ str_nat skipped @ '' expired occurrence(s)'')
                          (PDict [(KStr ''count'', PInt (int skipped)), (KStr ''planner_id'', planner_value planner)])]
                  else [])
            in if pl_status p1 = PlanCompleted \<or> now < planned
               then let p2 = p1\<lparr>pl_updated_at := now\<rparr> in Inr (p2, None, evs1 @ completed_note p2 planner)
               else
                 let emit = \<not> (pl_overlap_skip p1 \<and> busy);
                     occurrence = pl_occurrence_cursor p1;
                     p2 = p1\<lparr>pl_skipped_count := pl_skipped_count p1 + (if emit then 0 else 1),
                             pl_last_fire_at := Some planned, pl_occurrence_cursor := occurrence + 1\<rparr>
                 in rbind (advance_plan zones planner planned p2) (\<lambda>(p3, evs2).
                   let p4 = p3\<lparr>pl_updated_at := now\<rparr>;
                       fired = plan_note p4 (if emit then ''dispatch_scheduled'' else ''overlap_skipped'')
                         (Some occurrence) (Some planned)
                         (if emit then ''Occurrence compiled into durable dispatch''
                          else ''Occurrence skipped by overlap_policy=skip'')
                         (PDict [(KStr ''planner_id'', planner_value planner),
                                 (KStr ''overlap_policy'', PStr (if pl_overlap_skip p4 then ''skip'' else ''queue''))])
                   in Inr (p4, if emit then Some (new_dispatch fresh p1 planned now occurrence) else None,
                           evs1 @ evs2 @ [fired] @ completed_note p4 planner))))"

section \<open>Transactions\<close>

definition plan_busy :: "plan_row \<Rightarrow> db \<Rightarrow> bool" where
  "plan_busy p d \<longleftrightarrow>
     list_ex (\<lambda>r. run_plan_id r = Some (pl_id p) \<and> run_status r \<in> {Queued, Running}) (runners d) \<or>
     list_ex (\<lambda>n. nd_plan_id n = Some (pl_id p) \<and> nd_state n = NPending) (nodes d)"

definition materialize_plan ::
    "(string \<Rightarrow> zone) \<Rightarrow> string option \<Rightarrow> instant \<Rightarrow> string \<Rightarrow> plan_row \<Rightarrow> db \<Rightarrow> db res" where
  "materialize_plan zones planner now fresh p d =
     rbind (fire_plan zones planner now fresh (plan_busy p d) p) (\<lambda>(p', node, evs).
     rbind (case node of None \<Rightarrow> Inr (nodes d) | Some n \<Rightarrow> insert_row nd_id n (nodes d)) (\<lambda>ns.
       Inr (d\<lparr>plans := update_where (\<lambda>x. pl_id x = pl_id p) (\<lambda>_. p') (plans d), nodes := ns,
              plan_events := plan_events d @ evs\<rparr>)))"

text \<open>
  Due plans and due dispatches in their order; \<open>fresh\<close> supplies the identifiers of the new rows,
  \<open>locked\<close> the rows that \<open>SKIP LOCKED\<close> passes over.  The grouped-dispatch filter on
  \<open>parallel_leader\<close> keeps rows that lead themselves or carry no leader.
\<close>

definition due_plans :: "instant \<Rightarrow> nat \<Rightarrow> string list \<Rightarrow> db \<Rightarrow> plan_row list" where
  "due_plans now limit locked d =
     take limit (sort_key (\<lambda>p. case pl_next_fire_at p of Some t \<Rightarrow> t | None \<Rightarrow> 0)
       (filter (\<lambda>p. pl_status p = PlanActive \<and> (case pl_next_fire_at p of Some t \<Rightarrow> t \<le> now | None \<Rightarrow> False) \<and>
                    pl_id p \<notin> set locked) (plans d)))"

definition leads_group :: "node_row \<Rightarrow> bool" where
  "leads_group n \<longleftrightarrow> (let l = dict_get ''parallel_leader'' (nd_lineage n) in l = PNone \<or> l = PStr (nd_id n))"

definition due_dispatches :: "instant \<Rightarrow> nat \<Rightarrow> string list \<Rightarrow> db \<Rightarrow> node_row list" where
  "due_dispatches now limit locked d =
     take limit (sort_key (\<lambda>n. case nd_due_at n of Some t \<Rightarrow> t | None \<Rightarrow> 0) (sort_key nd_created_at
       (filter (\<lambda>n. nd_state n = NPending \<and> nd_plan_id n \<noteq> None \<and>
                    (case nd_due_at n of Some t \<Rightarrow> t \<le> now | None \<Rightarrow> False) \<and> leads_group n \<and>
                    nd_id n \<notin> set locked) (nodes d))))"

definition materialize_due_work ::
    "(string \<Rightarrow> zone) \<Rightarrow> (pyval \<Rightarrow> benchmark) \<Rightarrow> (nat \<Rightarrow> string) \<Rightarrow> nat \<Rightarrow> string option \<Rightarrow> string list \<Rightarrow> instant \<Rightarrow> db \<Rightarrow> nat tx" where
  "materialize_due_work zones decode fresh limit planner locked now d =
     (let ps = due_plans now limit locked d
      in rbind (foldR (\<lambda>d (k, p). materialize_plan zones planner now (fresh k) p d) d (enumerate 0 ps)) (\<lambda>d1.
        let ns = due_dispatches now limit locked d1
        in rbind (foldR (\<lambda>d (k, n). emit_dispatch decode (fresh k) now planner n d) d1 (enumerate (length ps) ns)) (\<lambda>d2.
          Inr (length ns, d2))))"

datatype plan_action = Pause | Resume | CancelPlan

fun action_allowed :: "plan_action \<Rightarrow> plan_status \<Rightarrow> bool" where
  "action_allowed Pause s = (s = PlanActive)"
| "action_allowed Resume s = (s = PlanPaused)"
| "action_allowed CancelPlan s = (s = PlanActive \<or> s = PlanPaused)"

fun action_target :: "plan_action \<Rightarrow> plan_status" where
  "action_target Pause = PlanPaused"
| "action_target Resume = PlanActive"
| "action_target CancelPlan = PlanCancelled"

fun action_text :: "plan_action \<Rightarrow> string" where
  "action_text Pause = ''pause''"
| "action_text Resume = ''resume''"
| "action_text CancelPlan = ''cancel''"

definition change_runner_plan :: "string \<Rightarrow> plan_action \<Rightarrow> instant \<Rightarrow> db \<Rightarrow> (plan_row \<times> bool) option tx" where
  "change_runner_plan plan_id action now d =
     (case get_row pl_id plan_id (plans d) of
        None \<Rightarrow> Inr (None, d)
      | Some p \<Rightarrow>
          if \<not> action_allowed action (pl_status p) then Inr (Some (p, True), d)
          else
            let p' = p\<lparr>pl_status := action_target action, pl_updated_at := now\<rparr>;
                note_event = plan_note p (if action = CancelPlan then ''cancelled'' else action_text action @ ''d'') None
                  (pl_next_fire_at p) (''RunnerPlan '' @ action_text action @ ''d'') (PDict [])
            in Inr (Some (p', False), d\<lparr>plans := update_where (\<lambda>x. pl_id x = plan_id) (\<lambda>_. p') (plans d),
                 nodes := (if action = CancelPlan
                   then update_where (\<lambda>n. nd_plan_id n = Some plan_id \<and> nd_state n = NPending) (\<lambda>n. n\<lparr>nd_state := NCancelled\<rparr>) (nodes d)
                   else nodes d),
                 plan_events := plan_events d @ [note_event]\<rparr>))"

section \<open>Well-formed plans\<close>

definition within_max :: "plan_row \<Rightarrow> bool" where
  "within_max p \<longleftrightarrow> (\<forall>m. pl_max_occurrences p = Some m \<longrightarrow> pl_occurrence_cursor p \<le> m)"

text \<open>The fire time a live plan waits for.\<close>

definition awaits :: "plan_row \<Rightarrow> instant \<Rightarrow> bool" where
  "awaits p t \<longleftrightarrow> pl_next_fire_at p = Some t \<and> pl_starts_at p \<le> t \<and> \<not> past_end p t \<and>
     \<not> plan_exhausted p \<and> (\<forall>l. pl_last_fire_at p = Some l \<longrightarrow> l < t)"

definition plan_wf :: "plan_row \<Rightarrow> bool" where
  "plan_wf p \<longleftrightarrow> within_max p \<and>
     (pl_status p = PlanActive \<or> pl_status p = PlanPaused \<longrightarrow> (\<exists>t. awaits p t)) \<and>
     (pl_status p = PlanCompleted \<longrightarrow> pl_next_fire_at p = None)"

text \<open>What the misfire loop keeps of a plan.\<close>

definition same_plan :: "plan_row \<Rightarrow> plan_row \<Rightarrow> bool" where
  "same_plan p q \<longleftrightarrow> pl_id q = pl_id p \<and> pl_campaign_id q = pl_campaign_id p \<and> pl_recurrence q = pl_recurrence p \<and>
     pl_starts_at q = pl_starts_at p \<and> pl_ends_at q = pl_ends_at p \<and> pl_max_occurrences q = pl_max_occurrences p \<and>
     pl_timezone q = pl_timezone p \<and> pl_emitted_count q = pl_emitted_count p \<and>
     pl_overlap_skip q = pl_overlap_skip p \<and> pl_misfire_grace_seconds q = pl_misfire_grace_seconds p"

lemma same_plan_refl [simp]: "same_plan p p"
  by (simp add: same_plan_def)

lemma same_plan_trans: "same_plan p q \<Longrightarrow> same_plan q r \<Longrightarrow> same_plan p r"
  by (simp add: same_plan_def)

lemma complete_plan_simps [simp]:
  "same_plan p (complete_plan p)" "pl_status (complete_plan p) = PlanCompleted"
  "pl_next_fire_at (complete_plan p) = None" "pl_occurrence_cursor (complete_plan p) = pl_occurrence_cursor p"
  "pl_skipped_count (complete_plan p) = pl_skipped_count p" "pl_last_fire_at (complete_plan p) = pl_last_fire_at p"
  by (simp_all add: same_plan_def complete_plan_def)

lemma count_skip_simps [simp]:
  "same_plan p (count_skip p)" "pl_skipped_count (count_skip p) = pl_skipped_count p + 1"
  "pl_occurrence_cursor (count_skip p) = pl_occurrence_cursor p + 1" "pl_last_fire_at (count_skip p) = pl_last_fire_at p"
  "pl_status (count_skip p) = pl_status p" "pl_timezone (count_skip p) = pl_timezone p"
  "pl_recurrence (count_skip p) = pl_recurrence p" "pl_starts_at (count_skip p) = pl_starts_at p"
  "pl_ends_at (count_skip p) = pl_ends_at p" "pl_max_occurrences (count_skip p) = pl_max_occurrences p"
  by (simp_all add: same_plan_def count_skip_def)

lemma plan_field_updates [simp]:
  "plan_exhausted (p\<lparr>pl_next_fire_at := x\<rparr>) = plan_exhausted p" "past_end (p\<lparr>pl_next_fire_at := x\<rparr>) t = past_end p t"
  "plan_exhausted (p\<lparr>pl_updated_at := u\<rparr>) = plan_exhausted p" "past_end (p\<lparr>pl_updated_at := u\<rparr>) t = past_end p t"
  "past_end (count_skip p) t = past_end p t"
  by (simp_all add: plan_exhausted_def past_end_def split: option.splits)

text \<open>The state the loop leaves.\<close>

definition skipped_to :: "instant \<Rightarrow> plan_row \<Rightarrow> plan_row \<Rightarrow> instant \<Rightarrow> bool" where
  "skipped_to grace p q t \<longleftrightarrow> same_plan p q \<and> within_max q \<and> pl_last_fire_at q = pl_last_fire_at p \<and>
     pl_occurrence_cursor p \<le> pl_occurrence_cursor q \<and>
     pl_occurrence_cursor q + pl_skipped_count p = pl_occurrence_cursor p + pl_skipped_count q \<and>
     (pl_status q = PlanCompleted \<and> pl_next_fire_at q = None \<or>
      pl_status q = pl_status p \<and> awaits q t \<and> \<not> t < grace)"

lemma not_exhausted: "\<not> plan_exhausted p \<Longrightarrow> pl_max_occurrences p = Some m \<Longrightarrow> pl_occurrence_cursor p < m"
  by (simp add: plan_exhausted_def)

lemma skipped_to_trans:
  assumes "skipped_to grace q r t" and "same_plan p q" "pl_last_fire_at q = pl_last_fire_at p"
    "pl_status q = pl_status p" "pl_occurrence_cursor q = pl_occurrence_cursor p + 1"
    "pl_skipped_count q = pl_skipped_count p + 1"
  shows "skipped_to grace p r t"
  using assms same_plan_trans [OF assms(2)] unfolding skipped_to_def by auto

lemma skip_misfires_result:
  assumes "skip_misfires fuel zones planner grace p planned evs = Inr (q, t, evs')"
    and "awaits p planned" and "recurrence_ok (pl_recurrence p)"
  shows "skipped_to grace p q t"
  using assms
proof (induction fuel arbitrary: p planned evs)
  case 0
  then show ?case
    by (auto simp: skip_misfires.simps [of 0] skipped_to_def awaits_def within_max_def dest: not_exhausted split: if_splits)
next
  case (Suc n)
  show ?case
  proof (cases "planned < grace")
    case False
    with Suc.prems show ?thesis
      by (auto simp: skip_misfires.simps [of "Suc n"] skipped_to_def awaits_def within_max_def dest: not_exhausted)
  next
    case True
    let ?p = "count_skip p"
    have mx: "within_max ?p"
      using Suc.prems(2) not_exhausted by (fastforce simp: awaits_def within_max_def)
    have done_ok: "skipped_to grace p (complete_plan ?p) u" for u
      using mx same_plan_trans [of p ?p "complete_plan ?p"]
      by (simp add: skipped_to_def within_max_def complete_plan_def count_skip_def same_plan_def)
    show ?thesis
    proof (cases "plan_exhausted ?p")
      case True
      with \<open>planned < grace\<close> Suc.prems(1) done_ok show ?thesis by (auto simp: skip_misfires.simps [of "Suc n"] Let_def)
    next
      case ne: False
      with \<open>planned < grace\<close> Suc.prems(1) obtain nx adj where
        nx: "next_fire_details (zones (pl_timezone p)) (pl_recurrence p) (pl_starts_at p) (Some planned) = Inr (nx, adj)"
        and rest: "(if past_end ?p nx then Inr (complete_plan ?p, nx, evs @ dst_events ?p adj planner)
          else skip_misfires n zones planner grace (?p\<lparr>pl_next_fire_at := Some nx\<rparr>) nx (evs @ dst_events ?p adj planner))
          = Inr (q, t, evs')"
        by (auto simp: skip_misfires.simps [of "Suc n"] Let_def)
      have lt: "planned < nx" "pl_starts_at p \<le> nx"
        using next_fire_lower [OF Suc.prems(3) nx] by (simp_all add: lower_bound_def)
      have last: "\<forall>l. pl_last_fire_at p = Some l \<longrightarrow> l < nx"
        using Suc.prems(2) lt(1) by (auto simp: awaits_def intro: less_trans)
      show ?thesis
      proof (cases "past_end ?p nx")
        case True
        with rest done_ok show ?thesis by auto
      next
        case False
        let ?q = "?p\<lparr>pl_next_fire_at := Some nx\<rparr>"
        have aw: "awaits ?q nx"
          using lt(2) ne False last by (simp add: awaits_def)
        have "skipped_to grace ?q q t"
          by (rule Suc.IH [OF _ aw]) (use rest False Suc.prems(3) in simp_all)
        then show ?thesis by (rule skipped_to_trans) (simp_all add: count_skip_def same_plan_def)
      qed
    qed
  qed
qed

text \<open>The cursor never moves back, whatever the recurrence.\<close>

lemma skip_misfires_cursor:
  "skip_misfires fuel zones planner grace p planned evs = Inr (q, t, evs') \<Longrightarrow>
   pl_occurrence_cursor p \<le> pl_occurrence_cursor q \<and>
   (if planned < grace then pl_occurrence_cursor p < pl_occurrence_cursor q else q = p \<and> t = planned)"
proof (induction fuel arbitrary: p planned evs)
  case 0
  then show ?case by (auto simp: skip_misfires.simps [of 0] split: if_splits)
next
  case (Suc n)
  then show ?case
    by (fastforce simp: skip_misfires.simps [of "Suc n"] Let_def split: if_splits dest: Suc.IH)
qed

lemma next_fire_error:
  assumes "recurrence_ok rec" "next_fire_details z rec start after = Inl e"
  shows "e = ValueError ''unable to find a bounded calendar occurrence'' \<and> (\<exists>c. rec = Calendar c)"
proof (cases rec)
  case (Interval every)
  with assms show ?thesis
    by (auto simp: next_fire_details_def recurrence_ok_def Let_def split: if_splits pyfloat.splits)
next
  case (Calendar c)
  have "calendar_loop n z c sd l d adj = Inl e \<Longrightarrow> e = ValueError ''unable to find a bounded calendar occurrence''" for n sd l d adj
    by (induction n arbitrary: d adj) (auto split: if_splits list.splits)
  with assms Calendar show ?thesis by (auto simp: next_fire_details_def Let_def)
qed

lemma skip_misfires_error:
  assumes "recurrence_ok (pl_recurrence p)" "grace - planned \<le> int fuel"
    and "skip_misfires fuel zones planner grace p planned evs = Inl e"
  shows "e = ValueError ''unable to find a bounded calendar occurrence'' \<and> (\<exists>c. pl_recurrence p = Calendar c)"
  using assms
proof (induction fuel arbitrary: p planned evs)
  case 0
  then show ?case by (simp add: skip_misfires.simps [of 0])
next
  case (Suc n)
  let ?p = "count_skip p"
  from Suc.prems(3) have lt: "planned < grace" "\<not> plan_exhausted ?p"
    by (auto simp: skip_misfires.simps [of "Suc n"] Let_def split: if_splits)
  show ?case
  proof (cases "next_fire_details (zones (pl_timezone p)) (pl_recurrence p) (pl_starts_at p) (Some planned)")
    case (Inl e')
    with lt Suc.prems(3) have "e = e'" by (simp add: skip_misfires.simps [of "Suc n"] Let_def)
    with next_fire_error [OF Suc.prems(1) Inl] show ?thesis by simp
  next
    case (Inr r)
    obtain nx adj where r: "r = (nx, adj)" by (cases r)
    have "planned < nx" using next_fire_lower [OF Suc.prems(1) Inr [unfolded r]] by (simp add: lower_bound_def)
    then have f: "grace - nx \<le> int n" using Suc.prems(2) by simp
    have "\<not> past_end ?p nx" "skip_misfires n zones planner grace (?p\<lparr>pl_next_fire_at := Some nx\<rparr>) nx
        (evs @ dst_events ?p adj planner) = Inl e"
      using lt Suc.prems(3) Inr r by (auto simp: skip_misfires.simps [of "Suc n"] Let_def split: if_splits)
    from Suc.IH [OF _ f this(2)] Suc.prems(1) show ?thesis by simp
  qed
qed

lemma advance_plan_result:
  assumes "advance_plan zones planner planned p = Inr (q, evs)" "recurrence_ok (pl_recurrence p)"
    "pl_last_fire_at p = Some planned" "within_max p"
  shows "same_plan p q \<and> within_max q \<and> pl_occurrence_cursor q = pl_occurrence_cursor p \<and>
    pl_skipped_count q = pl_skipped_count p \<and> pl_last_fire_at q = pl_last_fire_at p \<and>
    (pl_status q = PlanCompleted \<and> pl_next_fire_at q = None \<or>
     pl_status q = pl_status p \<and> (\<exists>t. awaits q t))"
proof (cases "plan_exhausted p")
  case True
  with assms show ?thesis by (auto simp: advance_plan_def within_max_def complete_plan_def same_plan_def)
next
  case False
  with assms(1) obtain c adj where
    c: "next_fire_details (zones (pl_timezone p)) (pl_recurrence p) (pl_starts_at p) (Some planned) = Inr (c, adj)"
    and q: "q = (if past_end p c then complete_plan p else p\<lparr>pl_next_fire_at := Some c\<rparr>)"
    by (auto simp: advance_plan_def)
  have "planned < c" "pl_starts_at p \<le> c"
    using next_fire_lower [OF assms(2) c] by (simp_all add: lower_bound_def)
  then have "\<not> past_end p c \<Longrightarrow> awaits (p\<lparr>pl_next_fire_at := Some c\<rparr>) c"
    using False assms(3) by (simp add: awaits_def)
  with assms(4) show ?thesis unfolding q by (auto simp: within_max_def complete_plan_def same_plan_def)
qed

lemma fire_plan_cases:
  assumes wf: "plan_wf p" "pl_status p = PlanActive" "recurrence_ok (pl_recurrence p)"
    and due: "pl_next_fire_at p = Some first"
    and f: "fire_plan zones planner now fresh busy p = Inr (p', node, evs)"
  obtains q t where "skipped_to (now - timedelta (of_int (pl_misfire_grace_seconds p))) p q t"
      "pl_status q = PlanCompleted \<or> now < t" "p' = q\<lparr>pl_updated_at := now\<rparr>" "node = None"
      "pl_occurrence_cursor q = pl_occurrence_cursor p \<Longrightarrow> t = first \<and> q = p"
  | q t r evs2 where "skipped_to (now - timedelta (of_int (pl_misfire_grace_seconds p))) p q t"
      "pl_status q \<noteq> PlanCompleted" "t \<le> now"
      "advance_plan zones planner t (q\<lparr>pl_skipped_count := pl_skipped_count q + (if pl_overlap_skip q \<and> busy then 1 else 0),
          pl_last_fire_at := Some t, pl_occurrence_cursor := pl_occurrence_cursor q + 1\<rparr>) = Inr (r, evs2)"
      "p' = r\<lparr>pl_updated_at := now\<rparr>"
      "node = (if pl_overlap_skip q \<and> busy then None else Some (new_dispatch fresh q t now (pl_occurrence_cursor q)))"
proof -
  let ?g = "now - timedelta (of_int (pl_misfire_grace_seconds p))"
  from wf due have aw: "awaits p first" by (auto simp: plan_wf_def awaits_def)
  from f due obtain q t evs1 where sk: "skip_misfires (nat (?g - first)) zones planner ?g p first [] = Inr (q, t, evs1)"
    by (auto simp: fire_plan_def Let_def)
  note st = skip_misfires_result [OF sk aw wf(3)]
  have same: "pl_occurrence_cursor q = pl_occurrence_cursor p \<Longrightarrow> t = first \<and> q = p"
    using skip_misfires_cursor [OF sk] by (auto split: if_splits)
  show ?thesis
    using f due sk that(1) [OF st _ _ _ same] that(2) [OF st]
    by (auto simp: fire_plan_def Let_def split: if_splits)
qed

lemma awaits_updated [simp]: "awaits (p\<lparr>pl_updated_at := u\<rparr>) t = awaits p t"
  by (simp add: awaits_def)

lemma fire_plan_error:
  assumes "recurrence_ok (pl_recurrence p)" "pl_next_fire_at p = Some first"
    and "fire_plan zones planner now fresh busy p = Inl e"
  shows "e = ValueError ''unable to find a bounded calendar occurrence'' \<and> (\<exists>c. pl_recurrence p = Calendar c)"
proof -
  let ?g = "now - timedelta (of_int (pl_misfire_grace_seconds p))"
  show ?thesis
  proof (cases "skip_misfires (nat (?g - first)) zones planner ?g p first []")
    case (Inl e')
    with assms have "e = e'" by (simp add: fire_plan_def Let_def)
    with skip_misfires_error [OF assms(1) _ Inl] show ?thesis by simp
  next
    case (Inr x)
    obtain q t evs1 where x: "x = (q, t, evs1)" by (cases x) auto
    have "pl_recurrence q = pl_recurrence p"
    proof -
      have "skip_misfires k zones planner ?g p' u evs = Inr (q, t, evs1) \<Longrightarrow> pl_recurrence q = pl_recurrence p'" for k p' u evs
      proof (induction k arbitrary: p' u evs)
        case (Suc k)
        then show ?case
          by (fastforce simp: skip_misfires.simps [of "Suc k"] complete_plan_def Let_def split: if_splits dest: Suc.IH)
      qed (auto simp: skip_misfires.simps [of 0] split: if_splits)
      with Inr x show ?thesis by blast
    qed
    moreover from assms(2,3) Inr x obtain q' where
      "advance_plan zones planner t q' = Inl e" "pl_recurrence q' = pl_recurrence q"
      by (auto simp: fire_plan_def Let_def rbind_def split: if_splits sum.splits)
    ultimately show ?thesis
      using next_fire_error [of "pl_recurrence q'"] assms(1)
      by (auto simp: advance_plan_def rbind_def split: if_splits sum.splits)
  qed
qed


definition half_hourly :: plan_row where
  "half_hourly = \<lparr>pl_id = ''p'', pl_campaign_id = ''c'', pl_status = PlanActive, pl_timezone = ''UTC'',
     pl_recurrence = Interval \<lparr>dur_value = Fin 30, dur_unit = Minutes\<rparr>, pl_overlap_skip = True,
     pl_template = PDict [], pl_template_version = ''v1'', pl_starts_at = 0, pl_ends_at = None,
     pl_max_occurrences = Some 3, pl_next_fire_at = Some 0, pl_last_fire_at = None,
     pl_occurrence_cursor = 0, pl_emitted_count = 0, pl_skipped_count = 0, pl_misfire_grace_seconds = 60,
     pl_created_by = ''u'', pl_updated_at = 0, pl_runtime_id = None\<rparr>"

lemma half_hourly_ok:
  "plan_wf half_hourly" "pl_status half_hourly = PlanActive" "recurrence_ok (pl_recurrence half_hourly)"
  "pl_next_fire_at half_hourly = Some 0"
  by (simp_all add: half_hourly_def plan_wf_def within_max_def awaits_def past_end_def plan_exhausted_def
      recurrence_ok_def duration_seconds_def)

lemma half_hourly_fires:
  obtains p' node evs where "fire_plan (\<lambda>_. utc_zone) None 1000000 ''n'' False half_hourly = Inr (p', node, evs)"
proof (cases "fire_plan (\<lambda>_. utc_zone) None 1000000 ''n'' False half_hourly")
  case (Inl e)
  from fire_plan_error [OF half_hourly_ok(3,4) Inl] show ?thesis by (simp add: half_hourly_def)
next
  case (Inr x)
  then show ?thesis using that by (cases x) auto
qed




end
