(* ===== verification/Store_Safety.thy ===== *)
theory Store_Safety
  imports Store_Plans
begin

text \<open>
  Every transaction of the repository as one step relation on the database, whoever issues it and
  at whatever time, and what holds along all its runs: the integrity of the database is an
  invariant, states only move forward in their order, and so a Worker is authorised to send at
  most once, a cancelled or finished Runner gets no further authorisation, and a published message
  stays as it was published.
\<close>

section \<open>The order of states\<close>

instantiation worker_state :: order
begin

fun worker_rank :: "worker_state \<Rightarrow> nat" where
  "worker_rank WCreated = 0"
| "worker_rank WSubmitted = 1"
| "worker_rank _ = 2"

definition less_eq_worker_state :: "worker_state \<Rightarrow> worker_state \<Rightarrow> bool" where
  "s \<le> t \<longleftrightarrow> s = t \<or> worker_rank s < worker_rank t"

definition less_worker_state :: "worker_state \<Rightarrow> worker_state \<Rightarrow> bool" where
  "s < t \<longleftrightarrow> worker_rank s < worker_rank t"

instance
  by standard (auto simp: less_eq_worker_state_def less_worker_state_def)

end

instantiation runner_status :: order
begin

fun status_rank :: "runner_status \<Rightarrow> nat" where
  "status_rank Queued = 0"
| "status_rank Running = 1"
| "status_rank _ = 2"

definition less_eq_runner_status :: "runner_status \<Rightarrow> runner_status \<Rightarrow> bool" where
  "s \<le> t \<longleftrightarrow> s = t \<or> status_rank s < status_rank t"

definition less_runner_status :: "runner_status \<Rightarrow> runner_status \<Rightarrow> bool" where
  "s < t \<longleftrightarrow> status_rank s < status_rank t"

instance
  by standard (auto simp: less_eq_runner_status_def less_runner_status_def)

end

lemma terminal_le: "terminal s \<Longrightarrow> s \<le> t \<Longrightarrow> t = s"
  by (cases s; cases t) (auto simp: less_eq_runner_status_def)

lemma WCreated_le: "s \<le> WCreated \<Longrightarrow> s = WCreated"
  by (cases s) (auto simp: less_eq_worker_state_def)

section \<open>The step relation\<close>

inductive db_step :: "db \<Rightarrow> db \<Rightarrow> bool" where
  lease: "db_step d (d\<lparr>leases := l\<rparr>)"
| submit: "run_status r = Queued \<Longrightarrow> insert_row run_id r (runners d) = Inr rs \<Longrightarrow> db_step d (d\<lparr>runners := rs\<rparr>)"
| create: "create_workers h i steps now d = Inr (u, d') \<Longrightarrow> db_step d d'"
| reserve: "reserve_worker h i s window now d = Inr (b, d') \<Longrightarrow> db_step d d'"
| commit: "commit_worker h i res stored now d = Inr (m, d') \<Longrightarrow> db_step d d'"
| publish: "publish_message h msg now d = Inr (b, d') \<Longrightarrow> db_step d d'"
| acknowledge: "acknowledge_messages h i ids consumer now d = Inr (u, d') \<Longrightarrow> db_step d d'"
| activate: "activate_node decode h k fresh due now d = Inr (v, d') \<Longrightarrow> db_step d d'"
| start: "start_selected read h i owner fresh now d = Inr (a, d') \<Longrightarrow> db_step d d'"
| heartbeat: "heartbeat_runners h ids refresh locked now d = Inr (x, d') \<Longrightarrow> db_step d d'"
| cancel: "request_cancel i now d = Inr (v, d') \<Longrightarrow> db_step d d'"
| complete: "complete_runner h i summary metrics code log_ref st err now d = Inr (b, d') \<Longrightarrow> db_step d d'"
| finish: "finish_runner h i st message code' log_ref now d = Inr (b, d') \<Longrightarrow> db_step d d'"
| cancel_campaign: "request_cancel_campaign c now d = Inr (v, d') \<Longrightarrow> db_step d d'"
| change_plan: "change_runner_plan pid action now d = Inr (v, d') \<Longrightarrow> db_step d d'"
| materialize: "materialize_due_work zones decode fresh limit planner locked now d = Inr (n, d') \<Longrightarrow> db_step d d'"

section \<open>Integrity is an invariant\<close>

lemma materialize_plan_frame:
  assumes "materialize_plan zones planner now fresh p d = Inr d'"
  shows "runners d' = runners d \<and> workers d' = workers d \<and> messages d' = messages d \<and>
    attempts d' = attempts d \<and> receipts d' = receipts d \<and> leases d' = leases d"
  using assms by (auto simp: materialize_plan_def split: option.splits)

lemma change_runner_plan_frame:
  assumes "change_runner_plan pid action now d = Inr (v, d')"
  shows "runners d' = runners d \<and> workers d' = workers d \<and> messages d' = messages d \<and>
    attempts d' = attempts d \<and> receipts d' = receipts d \<and> leases d' = leases d"
  using assms by (auto simp: change_runner_plan_def Let_def split: option.splits if_splits)

lemma materialize_due_work_steps:
  assumes "materialize_due_work zones decode fresh limit planner locked now d = Inr (n, d')"
    and "P d" and "\<And>p d d' k. P d \<Longrightarrow> materialize_plan zones planner now (fresh k) p d = Inr d' \<Longrightarrow> P d'"
    and "\<And>n d d' k. P d \<Longrightarrow> emit_dispatch decode (fresh k) now planner n d = Inr d' \<Longrightarrow> P d'"
  shows "P d'"
proof -
  from assms(1) obtain d1 ps ns where
    1: "foldR (\<lambda>d (k, p). materialize_plan zones planner now (fresh k) p d) d ps = Inr d1"
    and 2: "foldR (\<lambda>d (k, n). emit_dispatch decode (fresh k) now planner n d) d1 ns = Inr d'"
    by (auto simp: materialize_due_work_def Let_def)
  have "P d1"
    by (rule foldR_invariant [where P = P, OF 1]) (use assms(2,3) in \<open>auto split: prod.splits\<close>)
  then show ?thesis
    by (rule foldR_invariant [where P = P, OF 2]) (use assms(4) in \<open>auto split: prod.splits\<close>)
qed

lemma db_step_ok:
  assumes "db_step d d'" and "db_ok d"
  shows "db_ok d'"
  using assms
proof (induction rule: db_step.induct)
  case (lease d l)
  then show ?case by (rule db_ok_frame) simp_all
next
  case (submit r d rs)
  then have "run_id r \<notin> run_id ` set (runners d)" "rs = runners d @ [r]" by simp_all
  then show ?case by (intro db_ok_submit [OF submit(3), of "run_id r" r]) (simp_all add: submit(1))
next
  case (change_plan pid action now d v d')
  then show ?case using change_runner_plan_frame [of pid action now d v d'] by (intro db_ok_frame [of d d']) auto
next
  case (materialize zones decode fresh limit planner locked now d n d')
  from materialize(1) show ?case
    by (rule materialize_due_work_steps)
      (use materialize(2) in \<open>auto intro: emit_dispatch_ok dest: materialize_plan_frame db_ok_frame\<close>)
qed (blast intro: wf_intros)+

definition empty_db :: db where
  "empty_db = \<lparr>leases = None, runners = [], attempts = [], workers = [], messages = [], receipts = [],
     results = [], events = [], nodes = [], instances = [], campaigns = [], plans = [], plan_events = [], runtimes = []\<rparr>"

lemma empty_db_ok [wf_intros]: "db_ok empty_db"
  by (simp add: db_ok_def view_ok_def empty_db_def runner_state_def)

lemma db_steps_ok: "db_step\<^sup>*\<^sup>* d d' \<Longrightarrow> db_ok d \<Longrightarrow> db_ok d'"
  by (induction rule: rtranclp_induct) (auto intro: db_step_ok)

section \<open>Rows only move forward\<close>

definition runner_le :: "runner_row \<Rightarrow> runner_row \<Rightarrow> bool" where
  "runner_le r r' \<longleftrightarrow> run_status r \<le> run_status r' \<and> run_planned_workers r' = run_planned_workers r \<and>
     (run_cancel_requested r \<longrightarrow> run_cancel_requested r') \<and> (terminal (run_status r) \<longrightarrow> r' = r)"

definition worker_le :: "worker_row \<Rightarrow> worker_row \<Rightarrow> bool" where
  "worker_le w w' \<longleftrightarrow> wk_runner_id w' = wk_runner_id w \<and> wk_step_id w' = wk_step_id w \<and>
     wk_generation w' = wk_generation w \<and> wk_state w \<le> wk_state w' \<and> (\<not> is_open w \<longrightarrow> w' = w)"

definition evolves :: "db \<Rightarrow> db \<Rightarrow> bool" where
  "evolves d d' \<longleftrightarrow> rows_le run_id runner_le (runners d) (runners d') \<and>
     rows_le wk_id worker_le (workers d) (workers d') \<and>
     rows_le msg_id (=) (messages d) (messages d') \<and>
     (\<forall>i c. acknowledged i c d \<longrightarrow> acknowledged i c d')"

lemma runner_le_refl [simp]: "runner_le r r"
  by (simp add: runner_le_def)

lemma worker_le_refl [simp]: "worker_le w w"
  by (simp add: worker_le_def)

lemma runner_le_trans: "runner_le x y \<Longrightarrow> runner_le y z \<Longrightarrow> runner_le x z"
  unfolding runner_le_def by (metis order_trans)

lemma worker_le_trans: "worker_le x y \<Longrightarrow> worker_le y z \<Longrightarrow> worker_le x z"
  unfolding worker_le_def by (metis order_trans)

lemma evolves_trans:
  assumes "evolves a b" "evolves b c"
  shows "evolves a c"
  using assms rows_le_trans [of run_id runner_le "runners a" "runners b" "runners c", OF _ _ runner_le_trans]
    rows_le_trans [of wk_id worker_le "workers a" "workers b" "workers c", OF _ _ worker_le_trans]
    rows_le_trans [of msg_id "(=)" "messages a" "messages b" "messages c"]
  unfolding evolves_def by auto

lemma evolvesI:
  assumes "rows_le run_id runner_le (runners d) (runners d')" "rows_le wk_id worker_le (workers d) (workers d')"
    "\<exists>ms. messages d' = messages d @ ms" "\<exists>rs. receipts d' = receipts d @ rs"
  shows "evolves d d'"
  using assms by (auto simp: evolves_def acknowledged_def rows_le_append)

lemma evolves_same:
  "runners d' = runners d \<Longrightarrow> workers d' = workers d \<Longrightarrow> messages d' = messages d \<Longrightarrow> receipts d' = receipts d \<Longrightarrow> evolves d d'"
  by (rule evolvesI) (simp_all add: rows_le_refl)

lemma evolves_refl [simp]: "evolves d d"
  by (rule evolves_same) simp_all

lemma cancel_le_runner_le: "cancel_le r r' \<Longrightarrow> runner_le r r'"
  by (auto simp: cancel_le_def runner_le_def cancel_queued_runner_def less_eq_runner_status_def)

lemma quiet_evolves:
  assumes "quiet d d'"
  shows "evolves d d'"
proof (rule evolvesI)
  show "rows_le run_id runner_le (runners d) (runners d')"
    using quietD(8) [OF assms] cancel_le_runner_le by (rule rows_le_mono)
qed (simp_all add: quietD(1,2,4) [OF assms] rows_le_refl)

text \<open>The three shapes of a change: one row, a frame, and one open Worker.\<close>

lemma rows_le_one:
  assumes "get_row key k xs = Some r" "\<And>r. key (f r) = key r" "\<And>x. R x x" "R r (f r)"
  shows "rows_le key R xs (update_where (\<lambda>r. key r = k) f xs)"
  unfolding rows_le_def
proof (intro allI impI)
  fix j x assume x: "get_row key j xs = Some x"
  have "get_row key j (update_where (\<lambda>r. key r = k) f xs) = map_option (\<lambda>r. if key r = k then f r else r) (get_row key j xs)"
    by (rule get_row_update_where) (rule assms(2))
  with x get_row_Some [OF x] assms show "\<exists>y. get_row key j (update_where (\<lambda>r. key r = k) f xs) = Some y \<and> R x y"
    by auto
qed

lemma evolves_runner:
  assumes "get_runner i d = Some r" "\<And>r. run_id (f r) = run_id r" "runner_le r (f r)"
    "runners d' = update_where (\<lambda>r. run_id r = i) f (runners d)" "rows_le wk_id worker_le (workers d) (workers d')"
    "messages d' = messages d" "receipts d' = receipts d"
  shows "evolves d d'"
  using assms rows_le_one [of run_id i "runners d" r f runner_le] by (intro evolvesI) simp_all

lemma evolves_runner_only:
  assumes "get_runner i d = Some r" "\<And>r. run_id (f r) = run_id r" "runner_le r (f r)"
  shows "evolves d (update_runner i f d)"
  by (rule evolves_runner [OF assms]) (simp_all add: update_runner_def rows_le_refl)

lemma evolves_worker:
  assumes "get_worker k d = Some w" "\<And>w. wk_id (f w) = wk_id w" "worker_le w (f w)"
    "workers d' = update_where (\<lambda>w. wk_id w = k) f (workers d)" "runners d' = runners d"
    "\<exists>ms. messages d' = messages d @ ms" "receipts d' = receipts d"
  shows "evolves d d'"
  using assms rows_le_one [of wk_id k "workers d" w f worker_le] by (intro evolvesI) (simp_all add: rows_le_refl)

lemma worker_le_close: "worker_le w (close_worker now w)"
  by (cases "wk_state w") (simp_all add: worker_le_def close_worker_def less_eq_worker_state_def is_open_def)

lemma rows_le_close:
  "rows_le wk_id worker_le ws (update_where (\<lambda>w. wk_runner_id w = i) (close_worker now) ws)"
  by (rule rows_le_update) (simp_all add: worker_le_close)

lemma create_workers_frame:
  assumes "create_workers h i steps now d = Inr (u, d')"
  obtains ws where "d' = d\<lparr>workers := workers d @ ws\<rparr>" "steps \<noteq> [] \<Longrightarrow> \<exists>r. get_runner i d = Some r \<and> accepting r"
proof (cases "steps = []")
  case True
  with assms have "d' = d\<lparr>workers := workers d @ []\<rparr>" by (simp add: create_workers_def)
  with True that show ?thesis by blast
next
  case False
  from assms False obtain r ws xs where r: "get_runner i d = Some r" "accepting r"
    and ws: "foldR (\<lambda>ws s. insert_row wk_id (new_worker h i now s) ws) (workers d) xs = Inr ws"
    and d': "d' = d\<lparr>workers := ws\<rparr>"
    by (auto simp: create_workers_def Let_def split: option.splits if_splits)
  have "\<exists>vs. ws = workers d @ vs"
    by (rule foldR_invariant [where P = "\<lambda>ws. \<exists>vs. ws = workers d @ vs", OF ws]) auto
  with d' r that show ?thesis by blast
qed

lemma receipts_append: "\<exists>rs. receipts (fold (add_receipt consumer now) xs d) = receipts d @ rs"
proof (induction xs arbitrary: d)
  case (Cons x xs)
  have "\<exists>rs. receipts (add_receipt consumer now x d) = receipts d @ rs" by (simp add: add_receipt_def)
  with Cons [of "add_receipt consumer now x d"] show ?case by auto
qed simp

lemma acknowledge_messages_grows:
  assumes "acknowledge_messages h i ids consumer now d = Inr (u, d')"
  shows "\<exists>rs. receipts d' = receipts d @ rs"
  using assms receipts_append
  by (auto simp: acknowledge_messages_def Let_def split: if_splits)

lemma emit_dispatch_evolves:
  assumes "emit_dispatch decode fresh now planner n d = Inr d'"
  shows "evolves d d'"
  using assms by (rule emit_dispatch_frame) (auto intro!: evolvesI rows_le_append simp: rows_le_refl)

lemma evolves_runners_update:
  assumes "\<And>r. run_id (f r) = run_id r" "\<And>r. p r \<Longrightarrow> runner_le r (f r)"
    "runners d' = update_where p f (runners d)" "workers d' = workers d"
    "messages d' = messages d" "receipts d' = receipts d"
  shows "evolves d d'"
  using assms rows_le_update [of run_id f runner_le "runners d" p] by (intro evolvesI) (simp_all add: rows_le_refl)

section \<open>Every step moves forward\<close>

lemma request_cancel_evolves:
  assumes "request_cancel i now d = Inr (v, d')"
  shows "evolves d d'"
proof -
  have "terminal s \<or> s = Queued \<or> s = Running" for s by (cases s) simp_all
  then consider "get_runner i d = None" | r where "get_runner i d = Some r" "terminal (run_status r)"
    | r where "get_runner i d = Some r" "run_status r = Queued" | r where "get_runner i d = Some r" "run_status r = Running"
    by (metis option.exhaust)
  then show ?thesis
  proof cases
    case (3 r)
    with assms obtain d1 where c: "checkpoint_task_result (cancel_queued_runner now r) Cancelled now no_evidence []
        (update_runner i (cancel_queued_runner now) d) = Inr d1"
      and d': "d' = add_event i Cancelled ''Cancelled before execution'' d1"
      by (auto simp: request_cancel_def Let_def)
    have "evolves d (update_runner i (cancel_queued_runner now) d)"
      by (rule evolves_runner_only [OF 3(1)])
        (use 3 in \<open>simp_all add: cancel_queued_runner_def runner_le_def less_eq_runner_status_def\<close>)
    also have "evolves (update_runner i (cancel_queued_runner now) d) d1"
      by (rule quiet_evolves [OF quiet_checkpoint [OF c]])
    finally (evolves_trans) show ?thesis
      unfolding d' by (rule evolves_trans) (rule quiet_evolves, simp)
  next
    case (4 r)
    with assms have "d' = add_event i Running ''Cancellation requested''
        (update_runner i (\<lambda>r. r\<lparr>run_cancel_requested := True\<rparr>) d)"
      by (auto simp: request_cancel_def Let_def)
    then show ?thesis
      by (intro evolves_runner [OF 4(1), of "\<lambda>r. r\<lparr>run_cancel_requested := True\<rparr>"])
        (use 4(2) in \<open>simp_all add: runner_le_def add_event_def update_runner_def rows_le_refl\<close>)
  qed (use assms in \<open>auto simp: request_cancel_def\<close>)
qed

lemma start_selected_evolves:
  assumes "start_selected read h i owner fresh now d = Inr (v, d')"
  shows "evolves d d'"
  using assms
proof (cases rule: start_selected_cases)
  case (2 r)
  show ?thesis unfolding 2(4)
    by (rule evolves_runner [OF 2(2), of "\<lambda>r. r\<lparr>run_status := Cancelled, run_finished_at := Some now\<rparr>"])
      (use 2(3) in \<open>simp_all add: add_event_def update_runner_def runner_le_def less_eq_runner_status_def rows_le_refl\<close>)
next
  case (3 r a)
  show ?thesis unfolding 3(8)
    by (rule evolves_runner [OF 3(2), of "start_runner owner now"])
      (use 3(3) in \<open>simp_all add: add_event_def update_runner_def start_runner_def runner_le_def less_eq_runner_status_def rows_le_refl\<close>)
qed simp

lemma Running_le_terminal: "terminal st \<Longrightarrow> Running \<le> st"
  by (cases st) (simp_all add: less_eq_runner_status_def)

lemma complete_runner_evolves:
  assumes "complete_runner h i summary metrics code log_ref st err now d = Inr (b, d')"
  shows "evolves d d'"
  using assms
proof (cases rule: complete_runner_cases)
  case (2 r d1)
  have "evolves d d1"
    by (rule evolves_runner [OF 2(2) _ _ 2(5)])
      (use 2(3,4) in \<open>simp_all add: 2(6,8,9) rows_le_close runner_le_def accepting_def Running_le_terminal\<close>)
  then show ?thesis using quiet_evolves [OF 2(12)] by (rule evolves_trans)
qed simp

lemma finish_runner_evolves:
  assumes "finish_runner h i st message code log_ref now d = Inr (b, d')"
  shows "evolves d d'"
  using assms
proof (cases rule: finish_runner_cases)
  case (2 r d1 ended)
  have "evolves d d1"
    by (rule evolves_runner [OF 2(2) _ _ 2(5)])
      (use 2(3,4) in \<open>simp_all add: 2(6,8,9) rows_le_close runner_le_def Running_le_terminal\<close>)
  then show ?thesis using quiet_evolves [OF 2(12)] by (rule evolves_trans)
qed simp

lemma request_cancel_campaign_evolves:
  assumes "request_cancel_campaign c now d = Inr (v, d')"
  shows "evolves d d'"
  using assms
proof (cases rule: request_cancel_campaign_frame)
  case 2
  show ?thesis
    by (rule evolves_runners_update [OF _ _ 2(1,2,3,5)])
      (auto simp: cancel_campaign_runner_def cancel_queued_runner_def runner_le_def less_eq_runner_status_def)
qed simp

lemma reserve_worker_evolves:
  assumes "reserve_worker h i s window now d = Inr (b, d')"
  shows "evolves d d'"
  using assms
proof (cases rule: reserve_worker_cases)
  case (2 r w)
  show ?thesis unfolding 2(8)
    by (rule evolves_worker [OF 2(4), of "\<lambda>w. w\<lparr>wk_state := WSubmitted, wk_submitted_at := Some now\<rparr>"])
      (use 2(5) in \<open>simp_all add: update_worker_def worker_le_def less_eq_worker_state_def is_open_def\<close>)
qed simp

lemma commit_worker_evolves:
  assumes "commit_worker h i res stored now d = Inr (m, d')"
  shows "evolves d d'"
  using assms
proof (cases rule: commit_worker_cases)
  case (2 r w)
  show ?thesis unfolding 2(8)
    by (rule evolves_worker [OF 2(3), of
          "\<lambda>w. w\<lparr>wk_state := (if wr_succeeded res then WSucceeded else WFailed),
                      wk_completed_at := Some (wr_completed_at res),
                      wk_completion_hash := Some (completion_hash (stored_key stored)),
                      wk_log_key := Some (stored_key stored)\<rparr>"])
      (use 2(4) in \<open>simp_all add: update_worker_def worker_le_def less_eq_worker_state_def is_open_def\<close>)
qed simp

lemma publish_message_evolves:
  assumes "publish_message h msg now d = Inr (b, d')"
  shows "evolves d d'"
  using assms
proof (cases rule: publish_message_cases)
  case (2 r)
  then show ?thesis by (intro evolvesI) (simp_all add: rows_le_refl)
next
  case (3 r s w)
  have w: "get_worker (wk_id w) d = Some w" using 3(7) get_row_Some [OF 3(7)] by simp
  show ?thesis unfolding 3(9)
    by (rule evolves_worker [OF w, of
          "\<lambda>w. w\<lparr>wk_state := WCancelled, wk_completed_at := Some (msg_created_at msg),
            wk_metadata := dict_set (KStr ''cancellation'') (PDict (msg_payload msg)) (wk_metadata w)\<rparr>"])
      (use 3(8) in \<open>simp_all add: update_worker_def worker_le_def less_eq_worker_state_def is_open_def\<close>)
qed simp

lemma activate_node_evolves:
  assumes "activate_node decode h k fresh due now d = Inr (v, d')"
  shows "evolves d d'"
  using assms
proof (cases rule: activate_node_cases)
  case (2 f n i d1)
  have "evolves (d\<lparr>nodes := f\<rparr>) d1" by (rule emit_dispatch_evolves [OF 2(1)])
  then have "evolves d d1" by (simp add: evolves_def acknowledged_def)
  then show ?thesis unfolding 2(2) by (rule evolves_trans) (rule quiet_evolves, simp)
qed simp

lemma heartbeat_evolves:
  assumes "heartbeat_runners h ids refresh locked now d = Inr (x, d')"
  shows "evolves d d'"
proof -
  from assms consider "d' = d" | ks where "d' = d\<lparr>runners := update_where
       (\<lambda>r. run_id r \<in> ks \<and> run_status r = Running \<and> run_id r \<notin> set locked)
       (\<lambda>r. r\<lparr>run_heartbeat_at := Some now\<rparr>) (runners d)\<rparr>"
    by (auto simp: heartbeat_runners_def Let_def split: if_splits)
  then show ?thesis
  proof cases
    case (2 ks)
    show ?thesis unfolding 2
      by (rule evolves_runners_update [of "\<lambda>r. r\<lparr>run_heartbeat_at := Some now\<rparr>"
            "\<lambda>r. run_id r \<in> ks \<and> run_status r = Running \<and> run_id r \<notin> set locked"])
        (auto simp: runner_le_def)
  qed simp
qed

lemma materialize_plan_evolves:
  "materialize_plan zones planner now fresh p d = Inr d' \<Longrightarrow> evolves d d'"
  by (rule evolves_same) (simp_all add: materialize_plan_frame)

lemma change_runner_plan_evolves:
  "change_runner_plan pid action now d = Inr (v, d') \<Longrightarrow> evolves d d'"
  by (rule evolves_same) (simp_all add: change_runner_plan_frame)

lemma db_step_evolves:
  assumes "db_step d d'"
  shows "evolves d d'"
  using assms
proof cases
  case (create h i steps now u)
  then show ?thesis by (rule create_workers_frame) (auto intro!: evolvesI rows_le_append simp: rows_le_refl)
next
  case (acknowledge h i ids consumer now u)
  from acknowledge_messages_grows [OF this] obtain rs where "receipts d' = receipts d @ rs" by blast
  moreover obtain rs' where "d' = d\<lparr>receipts := rs'\<rparr>" using acknowledge_messages_frame [OF acknowledge] by blast
  ultimately show ?thesis by (intro evolvesI) (auto simp: rows_le_refl)
next
  case (materialize zones decode fresh limit planner locked now n)
  show ?thesis
    by (rule materialize_due_work_steps [where P = "evolves d", OF materialize])
      (auto intro: evolves_trans materialize_plan_evolves emit_dispatch_evolves)
next
  case (submit r rs)
  then show ?thesis by (intro evolvesI) (auto intro!: rows_le_append simp: rows_le_refl)
next
  case (lease l)
  then show ?thesis by (intro evolves_same) simp_all
qed (blast intro: reserve_worker_evolves commit_worker_evolves publish_message_evolves activate_node_evolves
    start_selected_evolves heartbeat_evolves request_cancel_evolves complete_runner_evolves
    finish_runner_evolves request_cancel_campaign_evolves change_runner_plan_evolves)+

lemma db_steps_evolves: "db_step\<^sup>*\<^sup>* d d' \<Longrightarrow> evolves d d'"
  by (induction rule: rtranclp_induct) (auto intro: db_step_evolves evolves_trans)

end
