(* ===== verification/Store_Contract.thy ===== *)
theory Store_Contract
  imports Store_Safety
begin

text \<open>
  What the repository promises to the runtime, over every run of its transactions: a Worker is
  authorised to send at most once, cancellation and the end of a Runner stop all sends, a commit
  can be retried, published messages stay, and recovery leaves nothing open.
\<close>

section \<open>Evolution of single rows\<close>

lemma evolvesD:
  assumes "evolves d d'"
  shows "get_runner i d = Some r \<Longrightarrow> \<exists>r'. get_runner i d' = Some r' \<and> runner_le r r'"
    "get_worker k d = Some w \<Longrightarrow> \<exists>w'. get_worker k d' = Some w' \<and> worker_le w w'"
    "get_message m d = Some x \<Longrightarrow> get_message m d' = Some x"
    "acknowledged m c d \<Longrightarrow> acknowledged m c d'"
  using assms unfolding evolves_def by (auto dest: rows_leD)

lemma steps_runner:
  "db_step\<^sup>*\<^sup>* d d' \<Longrightarrow> get_runner i d = Some r \<Longrightarrow> \<exists>r'. get_runner i d' = Some r' \<and> runner_le r r'"
  using evolvesD(1) db_steps_evolves by blast

lemma steps_worker:
  "db_step\<^sup>*\<^sup>* d d' \<Longrightarrow> get_worker k d = Some w \<Longrightarrow> \<exists>w'. get_worker k d' = Some w' \<and> worker_le w w'"
  using evolvesD(2) db_steps_evolves by blast

lemma get_worker_update:
  "get_worker k d = Some w \<Longrightarrow> (\<And>w. wk_id (f w) = wk_id w) \<Longrightarrow> get_worker k (update_worker k f d) = Some (f w)"
  using get_row_update_where [of wk_id f k "\<lambda>w. wk_id w = k" "workers d"] get_row_Some [of wk_id k "workers d" w]
  by (simp add: update_worker_def)

lemma get_runner_update:
  "get_runner i d = Some r \<Longrightarrow> (\<And>r. run_id (f r) = run_id r) \<Longrightarrow> get_runner i (update_runner i f d) = Some (f r)"
  using get_row_update_where [of run_id f i "\<lambda>r. run_id r = i" "runners d"] get_row_Some [of run_id i "runners d" r]
  by (simp add: update_runner_def)

lemma not_accepting_stays:
  assumes "runner_le r r'" "run_cancel_requested r \<or> terminal (run_status r)"
  shows "\<not> accepting r'"
  using assms by (auto simp: runner_le_def accepting_def)

section \<open>Sample data\<close>

definition sample_runner :: "string \<Rightarrow> runner_status \<Rightarrow> bool \<Rightarrow> runner_row" where
  "sample_runner i st cancel =
     \<lparr>run_id = i, run_campaign_id = None, run_plan_id = None, run_plan_occurrence = None, run_scheduled_for = None,
      run_template_version = None, run_label = None, run_created_by = ''u'', run_status = st,
      run_benchmark_config = PDict [], run_user_metadata = PDict [], run_created_at = 0, run_started_at = None,
      run_finished_at = None, run_heartbeat_at = None, run_cancel_requested = cancel, run_scheduler_id = None,
      run_exit_code = None, run_summary = PNone, run_request_count = 0, run_planned_workers = 1,
      run_error_message = None, run_log_key = None, run_runtime_id = None\<rparr>"

definition sample_worker :: "worker_state \<Rightarrow> worker_row" where
  "sample_worker st =
     \<lparr>wk_id = worker_identity ''r'' ''s'', wk_runner_id = ''r'', wk_step_id = ''s'', wk_generation = 0,
      wk_state = st, wk_created_at = 0, wk_submitted_at = None, wk_completed_at = None, wk_metadata = [],
      wk_log_key = None, wk_completion_hash = None\<rparr>"

definition sample_attempt :: attempt_row where
  "sample_attempt = \<lparr>att_id = ''a'', att_runner_id = ''r'', att_generation = 0, att_state = Executing,
     att_started_at = 0, att_completed_at = None\<rparr>"

definition sample_db :: "runner_status \<Rightarrow> bool \<Rightarrow> worker_state \<Rightarrow> db" where
  "sample_db st cancel ws = empty_db\<lparr>runners := [sample_runner ''r'' st cancel], attempts := [sample_attempt],
     workers := [sample_worker ws]\<rparr>"

lemmas sample_simps = sample_db_def sample_runner_def sample_worker_def sample_attempt_def empty_db_def
  new_repo_def accepting_def

lemma sample_reserve:
  "reserve_worker new_repo ''r'' ''s'' (Some 1) t (sample_db Running False WCreated) =
     Inr (True, update_worker (worker_identity ''r'' ''s'')
       (\<lambda>w. w\<lparr>wk_state := WSubmitted, wk_submitted_at := Some t\<rparr>) (sample_db Running False WCreated))"
  by (simp add: reserve_worker_def check_runtime_def sample_simps invalid_step_id_def submitted_count_def)

section \<open>Integrity\<close>



section \<open>Authorisation to send\<close>

text \<open>
  C3.  At most once.  After a reservation of a Worker has succeeded, no reservation of the same
  Worker ever succeeds again: whatever transactions run in between, on whatever handle, lease and
  clock, with whatever window.  Only a successful reservation authorises the request to be sent.
\<close>

theorem reserve_at_most_once:
  assumes "reserve_worker h i s window t d = Inr (True, d1)" "db_step\<^sup>*\<^sup>* d1 d2"
    and "reserve_worker h' i s window' t' d2 = Inr (b, d3)"
  shows "\<not> b \<and> d3 = d2"
  using assms(1)
proof (cases rule: reserve_worker_cases)
  case (2 r w)
  have "\<exists>w1. get_worker (worker_identity i s) d1 = Some w1 \<and> wk_state w1 = WSubmitted"
    unfolding 2(8) using get_worker_update [OF 2(4)] by simp
  then obtain w1 where w1: "get_worker (worker_identity i s) d1 = Some w1" "wk_state w1 = WSubmitted" by blast
  from steps_worker [OF assms(2) w1(1)] obtain w2 where w2: "get_worker (worker_identity i s) d2 = Some w2"
      "worker_le w1 w2" by blast
  with w1(2) have "wk_state w2 \<noteq> WCreated" by (auto simp: worker_le_def dest: WCreated_le)
  with assms(3) w2(1) show ?thesis by (cases rule: reserve_worker_cases) auto
qed simp

theorem reserve_at_most_once_witness:
  "\<exists>d1. reserve_worker new_repo ''r'' ''s'' (Some 1) 5 (sample_db Running False WCreated) = Inr (True, d1) \<and>
     reserve_worker new_repo ''r'' ''s'' None 9 d1 = Inr (False, d1)"
proof -
  let ?d1 = "update_worker (worker_identity ''r'' ''s'')
       (\<lambda>w. w\<lparr>wk_state := WSubmitted, wk_submitted_at := Some 5\<rparr>) (sample_db Running False WCreated)"
  have r: "reserve_worker new_repo ''r'' ''s'' None 9 ?d1 = Inr (False, ?d1)"
    by (simp add: reserve_worker_def check_runtime_def sample_simps invalid_step_id_def update_worker_def)
  from reserve_at_most_once [OF sample_reserve rtranclp.rtrancl_refl r] r sample_reserve show ?thesis by auto
qed

text \<open>
  C4.  Cancellation and the end of a Runner are final for its requests: from then on, whatever
  transactions run, no Worker of it is reserved or created.
\<close>

theorem cancel_stops_sends:
  assumes "get_runner i d = Some r" "run_cancel_requested r \<or> terminal (run_status r)" "db_step\<^sup>*\<^sup>* d d'"
  shows "(reserve_worker h i s window t d' = Inr (b, d2) \<longrightarrow> \<not> b \<and> d2 = d') \<and>
    (create_workers h i steps t d' = Inr (u, d3) \<longrightarrow> steps = [] \<and> d3 = d')"
proof -
  from steps_runner [OF assms(3,1)] obtain r' where r': "get_runner i d' = Some r'" "runner_le r r'" by blast
  from not_accepting_stays [OF r'(2) assms(2)] have na: "\<not> accepting r'" .
  have "\<not> b \<and> d2 = d'" if "reserve_worker h i s window t d' = Inr (b, d2)"
    using that r'(1) na by (cases rule: reserve_worker_cases) auto
  moreover have "steps = [] \<and> d3 = d'" if c: "create_workers h i steps t d' = Inr (u, d3)"
  proof -
    have "steps = []" using create_workers_frame [OF c] r'(1) na by (metis option.inject)
    with c show ?thesis by (simp add: create_workers_def)
  qed
  ultimately show ?thesis by blast
qed

theorem cancel_stops_sends_witness:
  "reserve_worker new_repo ''r'' ''s'' None 5 (sample_db Running True WCreated) =
     Inr (False, sample_db Running True WCreated)"
proof -
  have r: "get_runner ''r'' (sample_db Running True WCreated) = Some (sample_runner ''r'' Running True)"
    by (simp add: sample_simps)
  have "run_cancel_requested (sample_runner ''r'' Running True) \<or> terminal (run_status (sample_runner ''r'' Running True))"
    by (simp add: sample_simps)
  moreover have e: "reserve_worker new_repo ''r'' ''s'' None 5 (sample_db Running True WCreated) =
      Inr (False, sample_db Running True WCreated)"
    by (simp add: reserve_worker_def check_runtime_def sample_simps invalid_step_id_def)
  ultimately show ?thesis
    using cancel_stops_sends [OF r _ rtranclp.rtrancl_refl, of new_repo "''s''" None 5 False] by simp
qed

lemma submitted_after:
  assumes "distinct (map wk_id ws)" "get_row wk_id k ws = Some w" "wk_state w = WCreated"
  shows "length (filter (\<lambda>w. wk_runner_id w = i \<and> wk_state w = WSubmitted)
      (update_where (\<lambda>w. wk_id w = k) (\<lambda>w. w\<lparr>wk_state := WSubmitted, wk_submitted_at := t\<rparr>) ws)) =
    (if wk_runner_id w = i then 1 else 0) + length (filter (\<lambda>w. wk_runner_id w = i \<and> wk_state w = WSubmitted) ws)"
  using assms(1,2)
proof (induction ws)
  case (Cons x ws)
  show ?case
  proof (cases "wk_id x = k")
    case True
    with Cons.prems have "k \<notin> wk_id ` set ws" "x = w" by auto
    then have "update_where (\<lambda>w. wk_id w = k) f ws = ws" for f
      by (force simp: update_where_def intro: map_idI)
    with \<open>x = w\<close> True assms(3) show ?thesis by simp
  next
    case False
    with Cons show ?thesis by simp
  qed
qed simp

text \<open>
  The outstanding window.  A successful reservation with a window of \<open>n\<close> leaves at most \<open>n\<close>
  submitted Workers in the Runner, and raises their number by one.
\<close>

theorem reserve_window:
  assumes "db_ok d" "reserve_worker h i s (Some n) t d = Inr (True, d')"
  shows "int (submitted_count i d') \<le> n \<and> submitted_count i d \<le> submitted_count i d' \<and>
    submitted_count i d' \<le> Suc (submitted_count i d)"
  using assms(2)
proof (cases rule: reserve_worker_cases)
  case (2 r w)
  from submitted_after [OF view_okD(1) [OF db_okD(2) [OF assms(1)]] 2(4,5), of i "Some t"] 2(7,8)
  show ?thesis by (simp add: submitted_count_def update_worker_def)
qed simp

lemma sample_db_ok:
  assumes "ws = WCreated \<or> ws = WSubmitted"
  shows "db_ok (sample_db Running cancel ws)"
  using assms
  by (auto simp: db_ok_def view_ok_def worker_ok_def runner_ok_def runner_state_def is_done_def sample_simps)

theorem reserve_window_witness:
  "\<exists>d'. reserve_worker new_repo ''r'' ''s'' (Some 1) 5 (sample_db Running False WCreated) = Inr (True, d') \<and>
     submitted_count ''r'' d' \<le> 1"
  using reserve_window [OF sample_db_ok [of WCreated False] sample_reserve [of 5]] sample_reserve [of 5] by auto

section \<open>Ends\<close>

text \<open>
  A Runner ends once.  When it is succeeded, failed or cancelled, its row (status, times, exit
  code, summary, error) never changes again, and no later completion or failure of it is accepted:
  those transactions report False and change nothing.
\<close>

theorem runner_ends_once:
  assumes "get_runner i d = Some r" "terminal (run_status r)" "db_step\<^sup>*\<^sup>* d d'"
  shows "get_runner i d' = Some r \<and>
    (complete_runner h i summary metrics code log_ref st err t d' = Inr (b, d2) \<longrightarrow> \<not> b \<and> d2 = d') \<and>
    (finish_runner h i st message code' log_ref t d' = Inr (b, d2) \<longrightarrow> \<not> b \<and> d2 = d') \<and>
    (start_selected read h i owner fresh t d' = Inr (a, d2) \<longrightarrow> a = None \<and> d2 = d')"
proof -
  from steps_runner [OF assms(3,1)] assms(2) have r: "get_runner i d' = Some r" by (auto simp: runner_le_def)
  have "\<not> b \<and> d2 = d'" if "complete_runner h i summary metrics code log_ref st err t d' = Inr (b, d2)"
    using that by (cases rule: complete_runner_cases) (use r assms(2) in \<open>auto simp: accepting_def\<close>)
  moreover have "\<not> b \<and> d2 = d'" if "finish_runner h i st message code' log_ref t d' = Inr (b, d2)"
    using that by (cases rule: finish_runner_cases) (use r assms(2) in auto)
  moreover have "a = None \<and> d2 = d'" if "start_selected read h i owner fresh t d' = Inr (a, d2)"
    using that by (cases rule: start_selected_cases) (use r assms(2) in auto)
  ultimately show ?thesis using r by blast
qed

theorem runner_ends_once_witness:
  "get_runner ''r'' (sample_db Failed False WIndeterminate) = Some (sample_runner ''r'' Failed False) \<and>
   complete_runner new_repo ''r'' PNone [] 0 None Succeeded None 5 (sample_db Failed False WIndeterminate) =
     Inr (False, sample_db Failed False WIndeterminate)"
proof -
  have r: "get_runner ''r'' (sample_db Failed False WIndeterminate) = Some (sample_runner ''r'' Failed False)"
    "terminal (run_status (sample_runner ''r'' Failed False))"
    by (simp_all add: sample_simps)
  have "complete_runner new_repo ''r'' PNone [] 0 None Succeeded None 5 (sample_db Failed False WIndeterminate) =
     Inr (False, sample_db Failed False WIndeterminate)"
    by (simp add: complete_runner_def check_runtime_def sample_simps)
  with runner_ends_once [OF r rtranclp.rtrancl_refl, of new_repo PNone "[]" 0 None Succeeded None 5 False
      "sample_db Failed False WIndeterminate"] show ?thesis by blast
qed

lemma request_cancel_result:
  assumes "request_cancel i t d = Inr (Some v, d')"
  shows "get_runner i d' = Some v \<and> (run_cancel_requested v \<or> terminal (run_status v))"
proof -
  have "terminal s \<or> s = Queued \<or> s = Running" for s by (cases s) simp_all
  then consider "get_runner i d = None" | r where "get_runner i d = Some r" "terminal (run_status r)"
    | r where "get_runner i d = Some r" "run_status r = Queued" | r where "get_runner i d = Some r" "run_status r = Running"
    by (metis option.exhaust)
  then show ?thesis
  proof cases
    case (3 r)
    with assms obtain d1 where c: "checkpoint_task_result (cancel_queued_runner t r) Cancelled t no_evidence []
        (update_runner i (cancel_queued_runner t) d) = Inr d1"
      and d': "d' = add_event i Cancelled ''Cancelled before execution'' d1" "get_runner i d' = Some v"
      by (auto simp: request_cancel_def Let_def)
    have "get_runner i (update_runner i (cancel_queued_runner t) d) = Some (cancel_queued_runner t r)"
      by (rule get_runner_update [OF 3(1)]) (simp add: cancel_queued_runner_def)
    from evolvesD(1) [OF quiet_evolves [OF quiet_checkpoint [OF c]] this]
    have "get_runner i d1 = Some (cancel_queued_runner t r)"
      by (auto simp: runner_le_def cancel_queued_runner_def)
    with d' show ?thesis by (auto simp: add_event_def cancel_queued_runner_def)
  next
    case (4 r)
    with assms have d': "d' = add_event i Running ''Cancellation requested''
        (update_runner i (\<lambda>r. r\<lparr>run_cancel_requested := True\<rparr>) d)" "get_runner i d' = Some v"
      by (auto simp: request_cancel_def Let_def)
    have "get_runner i (update_runner i (\<lambda>r. r\<lparr>run_cancel_requested := True\<rparr>) d) = Some (r\<lparr>run_cancel_requested := True\<rparr>)"
      by (rule get_runner_update [OF 4(1)]) simp
    with d' show ?thesis by (auto simp: add_event_def)
  qed (use assms in \<open>auto simp: request_cancel_def\<close>)
qed

text \<open>
  A cancellation request that finds its Runner takes effect: it returns the Runner as it is
  now stored, cancelled, finished or marked, and from then on no Worker of it is authorised and the
  Runner is not admitted, nor recorded as completed.
\<close>

theorem request_cancel_final:
  assumes "request_cancel i t d = Inr (Some v, d1)" "db_step\<^sup>*\<^sup>* d1 d2"
  shows "(run_cancel_requested v \<or> terminal (run_status v)) \<and>
    (reserve_worker h i s window t' d2 = Inr (b, d3) \<longrightarrow> \<not> b) \<and>
    (complete_runner h i summary metrics code log_ref st err t' d2 = Inr (b, d3) \<longrightarrow> \<not> b) \<and>
    (start_selected read h i owner fresh t' d2 = Inr (a, d3) \<longrightarrow> a = None)"
proof -
  have v: "get_runner i d1 = Some v" "run_cancel_requested v \<or> terminal (run_status v)"
    using request_cancel_result [OF assms(1)] by blast+
  from steps_runner [OF assms(2) v(1)] obtain r where r: "get_runner i d2 = Some r" "runner_le v r" by blast
  have na: "\<not> accepting r" by (rule not_accepting_stays [OF r(2) v(2)])
  have nq: "run_cancel_requested r \<or> terminal (run_status r)" using r(2) v(2) by (auto simp: runner_le_def)
  have "\<not> b" if "reserve_worker h i s window t' d2 = Inr (b, d3)"
    using that by (cases rule: reserve_worker_cases) (use r na in auto)
  moreover have "\<not> b" if "complete_runner h i summary metrics code log_ref st err t' d2 = Inr (b, d3)"
    using that by (cases rule: complete_runner_cases) (use r na in auto)
  moreover have "a = None" if "start_selected read h i owner fresh t' d2 = Inr (a, d3)"
    using that by (cases rule: start_selected_cases) (use r nq in auto)
  ultimately show ?thesis using v(2) by blast
qed

theorem request_cancel_final_witness:
  "\<exists>v d1. request_cancel ''r'' 3 (sample_db Running False WCreated) = Inr (Some v, d1) \<and>
     (run_cancel_requested v \<or> terminal (run_status v))"
proof -
  obtain v d1 where e: "request_cancel ''r'' 3 (sample_db Running False WCreated) = Inr (Some v, d1)"
    by (simp add: request_cancel_def sample_simps update_runner_def add_event_def)
  from request_cancel_final [OF e rtranclp.rtrancl_refl] e show ?thesis by blast
qed

section \<open>Commits and messages\<close>

lemma publish_message_stored:
  assumes "publish_message h m t d = Inr (True, d')"
  shows "\<exists>x. get_message (msg_id m) d' = Some x \<and> same_content x m"
  using assms
proof (cases "get_message (msg_id m) d")
  case None
  with assms have "messages d' = messages d @ [m]"
    by (auto simp: publish_message_def update_worker_def split: option.splits if_splits pyval.splits)
  with None show ?thesis by (auto simp: get_row_append same_content_def)
next
  case (Some x)
  with assms show ?thesis by (auto simp: publish_message_def split: option.splits if_splits)
qed

lemma pending_rows_iff:
  "m \<in> set (pending_rows i dest c d) \<longleftrightarrow>
     m \<in> set (messages d) \<and> msg_runner_id m = i \<and> msg_destination m = dest \<and> \<not> acknowledged (msg_id m) c d"
  by (auto simp: pending_rows_def)

text \<open>
  No message is lost.  Once a publication has reported True, the message is stored with the
  published content after any further transactions, and a consumer finds it pending exactly as
  long as that consumer has not acknowledged it.
\<close>

theorem published_stays_pending:
  assumes "publish_message h m t d = Inr (True, d1)" "db_step\<^sup>*\<^sup>* d1 d2"
  shows "\<exists>x. get_message (msg_id m) d2 = Some x \<and> same_content x m \<and>
    (x \<in> set (pending_rows (msg_runner_id m) (msg_destination m) c d2) \<longleftrightarrow> \<not> acknowledged (msg_id m) c d2)"
proof -
  from publish_message_stored [OF assms(1)] obtain x where "get_message (msg_id m) d1 = Some x" "same_content x m"
    by blast
  with evolvesD(3) [OF db_steps_evolves [OF assms(2)]] have x: "get_message (msg_id m) d2 = Some x" "same_content x m"
    by blast+
  with get_row_Some [OF x(1)] show ?thesis by (auto simp: pending_rows_iff same_content_def)
qed

definition sample_message :: runner_message where
  "sample_message = \<lparr>msg_runner_id = ''r'', msg_topic = ''t'', msg_payload = [], msg_id = ''m'', msg_source = None,
     msg_destination = ''s'', msg_created_at = 0\<rparr>"

theorem published_stays_pending_witness:
  "\<exists>d1. publish_message new_repo sample_message 5 (sample_db Running False WCreated) = Inr (True, d1) \<and>
     get_message ''m'' d1 \<noteq> None"
proof -
  obtain d1 where e: "publish_message new_repo sample_message 5 (sample_db Running False WCreated) = Inr (True, d1)"
    by (simp add: publish_message_def check_runtime_def sample_simps sample_message_def)
  from published_stays_pending [OF e rtranclp.rtrancl_refl, of "''c''"] e show ?thesis
    by (auto simp: sample_message_def)
qed

lemma commit_worker_retry:
  assumes "get_worker (worker_identity i (wr_step_id res)) d = Some w" "wk_state w \<noteq> WSubmitted"
    "wk_completion_hash w = Some (completion_hash (stored_key stored))"
    "get_message (completion_identity i (wr_step_id res)) d = Some x"
    "commit_worker h i res stored t d = Inr (m, d')"
  shows "d' = d \<and> (m = None \<or> m = Some (x\<lparr>msg_runner_id := i, msg_payload := stored_payload stored\<rparr>))"
  using assms by (auto simp: commit_worker_def Let_def split: option.splits if_splits)

lemma commit_worker_live:
  assumes "get_worker (worker_identity i (wr_step_id res)) d = Some w" "wk_state w \<noteq> WSubmitted"
    "wk_completion_hash w = Some (completion_hash (stored_key stored))"
    "get_message (completion_identity i (wr_step_id res)) d = Some x"
    "check_runtime h t (leases d) = Inr ()" "get_runner i d = Some r" "run_status r = Running"
    "wk_generation w = runtime_generation h"
  shows "commit_worker h i res stored t d = Inr (Some (x\<lparr>msg_runner_id := i, msg_payload := stored_payload stored\<rparr>), d)"
  using assms by (simp add: commit_worker_def Let_def)

text \<open>
  Commits can be retried.  After the commit that moved a Worker on, the same commit, run again
  at any later time and however often, writes nothing, and either returns the very message
  of the first one or None; it returns the message whenever the handle still owns the lease of the
  Worker's generation and the Runner is running.
\<close>

theorem commit_retry:
  assumes "commit_worker h i res stored t d = Inr (m, d1)" "d1 \<noteq> d" "db_step\<^sup>*\<^sup>* d1 d2"
  shows "(commit_worker h' i res stored t' d2 = Inr (m', d3) \<longrightarrow> d3 = d2 \<and> (m' = None \<or> m' = m)) \<and>
    (check_runtime h' t' (leases d2) = Inr () \<and> runtime_generation h' = runtime_generation h \<and>
       get_runner i d2 = Some r \<and> run_status r = Running \<longrightarrow> commit_worker h' i res stored t' d2 = Inr (m, d2))"
  using assms(1)
proof (cases rule: commit_worker_cases)
  case (2 r0 w)
  let ?k = "worker_identity i (wr_step_id res)" and ?row = "completion_row i res (stored_key stored)"
  let ?f = "\<lambda>w. w\<lparr>wk_state := (if wr_succeeded res then WSucceeded else WFailed),
                      wk_completed_at := Some (wr_completed_at res),
                      wk_completion_hash := Some (completion_hash (stored_key stored)),
                      wk_log_key := Some (stored_key stored)\<rparr>"
  have "get_worker ?k (update_worker ?k ?f d) = Some (?f w)" by (rule get_worker_update [OF 2(3)]) simp
  then have w1: "get_worker ?k d1 = Some (?f w)" unfolding 2(8) by simp
  have m1: "get_message (completion_identity i (wr_step_id res)) d1 = Some ?row"
    unfolding 2(8) using 2(6) by (simp add: get_row_append completion_row_def)
  from steps_worker [OF assms(3) w1] have w2: "get_worker ?k d2 = Some (?f w)"
    by (auto simp: worker_le_def is_open_def)
  have m2: "get_message (completion_identity i (wr_step_id res)) d2 = Some ?row"
    by (rule evolvesD(3) [OF db_steps_evolves [OF assms(3)] m1])
  have m: "m = Some (?row\<lparr>msg_runner_id := i, msg_payload := stored_payload stored\<rparr>)"
    using 2(7) by (simp add: completion_row_def)
  have st: "wk_state (?f w) \<noteq> WSubmitted" and hash: "wk_completion_hash (?f w) = Some (completion_hash (stored_key stored))"
    and gen: "wk_generation (?f w) = runtime_generation h" using 2(5) by simp_all
  show ?thesis
    using commit_worker_retry [OF w2 st hash m2] commit_worker_live [OF w2 st hash m2] gen m by auto
qed (use assms(2) in simp)

definition sample_result :: worker_result where
  "sample_result = \<lparr>wr_step_id = ''s'', wr_metrics = [], wr_generated_text = ''x'',
     wr_request = \<lparr>rq_model = ''m'', rq_prompt = (''p'', 1), rq_sampling_params = None, rq_llm_api = None,
       rq_metadata = None, rq_timeout_seconds = None, rq_preparation = None, rq_deadline_at = None\<rparr>, wr_completed_at = 7\<rparr>"

definition sample_stored :: stored_log where
  "sample_stored = \<lparr>stored_key = ''k'', stored_payload = []\<rparr>"

theorem commit_retry_witness:
  "\<exists>m d1. commit_worker new_repo ''r'' sample_result sample_stored 5 (sample_db Running False WSubmitted) = Inr (m, d1) \<and>
     commit_worker new_repo ''r'' sample_result sample_stored 9 d1 = Inr (m, d1)"
proof -
  obtain m d1 where e: "commit_worker new_repo ''r'' sample_result sample_stored 5 (sample_db Running False WSubmitted) = Inr (m, d1)"
    "messages d1 \<noteq> []" "runners d1 = [sample_runner ''r'' Running False]" "leases d1 = None"
    by (simp add: commit_worker_def check_runtime_def sample_simps sample_result_def insert_row_def update_worker_def Let_def)
  have "d1 \<noteq> sample_db Running False WSubmitted" using e(2) by (auto simp: sample_simps)
  from commit_retry [OF e(1) this rtranclp.rtrancl_refl, of new_repo 9 m d1 "sample_runner ''r'' Running False"] e
  have "commit_worker new_repo ''r'' sample_result sample_stored 9 d1 = Inr (m, d1)"
    by (simp add: check_runtime_def new_repo_def sample_runner_def)
  with e(1) show ?thesis by blast
qed

section \<open>Recovery\<close>

text \<open>What one interrupted Runner's recovery does to all rows.\<close>

definition recovers :: "instant \<Rightarrow> db \<Rightarrow> db \<Rightarrow> bool" where
  "recovers t d d' \<longleftrightarrow>
     rows_le wk_id (\<lambda>w w'. w' = w \<or> w' = close_worker t w) (workers d) (workers d') \<and>
     rows_le run_id (\<lambda>r r'. run_status r' = Running \<longrightarrow> run_status r = Running) (runners d) (runners d') \<and>
     map run_id (runners d') = map run_id (runners d)"

lemma close_worker_closed [simp]: "\<not> is_open w \<Longrightarrow> close_worker t w = w"
  by (cases "wk_state w") (simp_all add: close_worker_def is_open_def)

lemma recovers_refl [simp]: "recovers t d d"
  by (simp add: recovers_def rows_le_refl)

lemma recovers_trans:
  assumes "recovers t a b" "recovers t b c"
  shows "recovers t a c"
proof -
  have close: "close_worker t (close_worker t w) = close_worker t w" for w
    using close_worker_closed close_worker_state(1) by blast
  let ?W = "\<lambda>w w'. w' = w \<or> w' = close_worker t w"
  let ?R = "\<lambda>r r'. run_status r' = Running \<longrightarrow> run_status r = Running"
  have "rows_le wk_id ?W (workers a) (workers c)"
    by (rule rows_le_trans [of _ _ _ "workers b"]) (use assms close in \<open>auto simp: recovers_def\<close>)
  moreover have "rows_le run_id ?R (runners a) (runners c)"
    by (rule rows_le_trans [of _ _ _ "runners b"]) (use assms in \<open>auto simp: recovers_def\<close>)
  ultimately show ?thesis using assms by (simp add: recovers_def)
qed

lemma quiet_recovers:
  assumes "quiet d d'"
  shows "recovers t d d'"
  using quietD(7,8) [OF assms] quietD(1) [OF assms]
  by (auto simp: recovers_def rows_le_refl elim!: rows_le_mono simp: cancel_le_def cancel_queued_runner_def)

lemma finish_runner_recovers:
  assumes "finish_runner h i st message code log_ref t d = Inr (b, d')"
  shows "recovers t d d'"
  using assms
proof (cases rule: finish_runner_cases)
  case (2 r d1 ended)
  let ?f = "\<lambda>r. r\<lparr>run_status := st, run_finished_at := Some t, run_heartbeat_at := Some t,
                run_exit_code := code, run_error_message := Some message, run_log_key := log_ref\<rparr>"
  have "rows_le wk_id (\<lambda>w w'. w' = w \<or> w' = close_worker t w) (workers d) (workers d1)"
    unfolding 2(6) by (rule rows_le_update) simp_all
  moreover have "rows_le run_id (\<lambda>r r'. run_status r' = Running \<longrightarrow> run_status r = Running) (runners d) (runners d1)"
    unfolding 2(5) by (rule rows_le_update) (use 2(4) in auto)
  moreover have "map run_id (runners d1) = map run_id (runners d)"
    unfolding 2(5) by (rule update_where_keys) simp
  ultimately have "recovers t d d1" by (simp add: recovers_def)
  then show ?thesis using quiet_recovers [OF 2(12)] by (rule recovers_trans)
qed simp

lemma finish_runner_not_running:
  assumes "finish_runner h i st message code log_ref t d = Inr (b, d')" "get_runner i d' = Some r'"
  shows "run_status r' \<noteq> Running"
  using assms(1)
proof (cases rule: finish_runner_cases)
  case 1
  with assms show ?thesis by (auto simp: finish_runner_def Let_def split: if_splits)
next
  case (2 r d1 ended)
  have "get_runner i d1 = Some (r\<lparr>run_status := st, run_finished_at := Some t, run_heartbeat_at := Some t,
                run_exit_code := code, run_error_message := Some message, run_log_key := log_ref\<rparr>)"
    unfolding 2(5) using get_row_Some [OF 2(2)] 2(2) by (simp add: get_row_update_where)
  from evolvesD(1) [OF quiet_evolves [OF 2(12)] this] assms(2) 2(4) show ?thesis
    by (auto simp: runner_le_def)
qed

lemma requeue_fold:
  assumes "foldR (\<lambda>d i. rbind (requeue_runner h i (log_ref i) t d) (\<lambda>(_, d'). Inr d')) d ids = Inr d'"
  shows "db_step\<^sup>*\<^sup>* d d' \<and> recovers t d d' \<and>
    (\<forall>i \<in> set ids. \<forall>r. get_runner i d' = Some r \<longrightarrow> run_status r \<noteq> Running)"
  using assms
proof (induction ids arbitrary: d)
  case (Cons i ids)
  from Cons.prems obtain b d1 where f: "finish_runner h i Failed
       ''indeterminate: execution interrupted; automatic replay disabled'' None (log_ref i) t d = Inr (b, d1)"
    and rest: "foldR (\<lambda>d i. rbind (requeue_runner h i (log_ref i) t d) (\<lambda>(_, d'). Inr d')) d1 ids = Inr d'"
    by (auto simp: requeue_runner_def)
  note ih = Cons.IH [OF rest]
  have "run_status r \<noteq> Running" if r: "get_runner i d' = Some r" for r
  proof -
    have "recovers t d1 d'" using ih by blast
    then have "map run_id (runners d') = map run_id (runners d1)"
      and le: "rows_le run_id (\<lambda>r r'. run_status r' = Running \<longrightarrow> run_status r = Running) (runners d1) (runners d')"
      by (simp_all add: recovers_def)
    then have "run_id ` set (runners d') = run_id ` set (runners d1)" by (metis set_map)
    moreover have "i \<in> run_id ` set (runners d')" using get_row_Some [OF r] by blast
    ultimately obtain r1 where r1: "get_runner i d1 = Some r1"
      using get_row_None [of run_id i "runners d1"] by (cases "get_runner i d1") auto
    from rows_leD [OF le r1] r have "run_status r = Running \<longrightarrow> run_status r1 = Running" by auto
    with finish_runner_not_running [OF f r1] show ?thesis by blast
  qed
  moreover have "db_step d d1" by (rule db_step.finish [OF f])
  moreover have "recovers t d d'" using ih finish_runner_recovers [OF f] recovers_trans by blast
  ultimately show ?case using ih by (auto intro: converse_rtranclp_into_rtranclp)
qed simp

text \<open>
  C19.  Recovery.  When a backend has taken over and recovered from a crash, no Runner is running,
  and every Worker is closed: one that may have been sent is indeterminate and one that was not is
  cancelled, while what had ended is as it was.  By C2 and C5 nothing of it is sent or run again.
\<close>

theorem recovery_closes:
  assumes "db_ok d" "requeue_stale h log_ref t d = Inr (n, d')"
  shows "(\<forall>r \<in> set (runners d'). run_status r \<noteq> Running) \<and> (\<forall>w \<in> set (workers d'). \<not> is_open w) \<and>
    (\<forall>k w. get_worker k d = Some w \<longrightarrow> get_worker k d' = Some (close_worker t w))"
proof -
  let ?ids = "map run_id (filter (\<lambda>r. run_status r = Running) (runners d))"
  from assms(2) have "foldR (\<lambda>d i. rbind (requeue_runner h i (log_ref i) t d) (\<lambda>(_, d'). Inr d')) d ?ids = Inr d'"
    by (auto simp: requeue_stale_def Let_def)
  note f = requeue_fold [OF this]
  have ok: "db_ok d'" using f assms(1) db_steps_ok by blast
  have keys: "run_id ` set (runners d') = run_id ` set (runners d)"
    using f by (metis recovers_def set_map)
  have idle: "run_status r \<noteq> Running" if r: "r \<in> set (runners d')" for r
  proof
    assume run: "run_status r = Running"
    have g: "get_runner (run_id r) d' = Some r" by (rule get_row_unique [OF db_okD(1) [OF ok] r])
    from keys r obtain r0 where r0: "get_runner (run_id r) d = Some r0"
      using get_row_None [of run_id "run_id r" "runners d"] by (cases "get_runner (run_id r) d") auto
    have "rows_le run_id (\<lambda>r r'. run_status r' = Running \<longrightarrow> run_status r = Running) (runners d) (runners d')"
      using f by (simp add: recovers_def)
    from rows_leD [OF this r0] g run have "run_status r0 = Running" by auto
    then have "r0 \<in> set (filter (\<lambda>r. run_status r = Running) (runners d))" "run_id r = run_id r0"
      using get_row_Some [OF r0] by auto
    then have "run_id r \<in> set ?ids" by (metis image_eqI list.set_map)
    with f g run show False by blast
  qed
  have closed: "\<not> is_open w" if w: "w \<in> set (workers d')" for w
  proof
    assume "is_open w"
    with view_okD(5) [OF db_okD(2) [OF ok] w] obtain k where "runner_state (runners d') (wk_runner_id w) = Some (Running, k)"
      by (auto simp: worker_ok_def)
    then obtain r where "get_runner (wk_runner_id w) d' = Some r" "run_status r = Running"
      by (auto simp: runner_state_def)
    with idle get_row_Some [of run_id "wk_runner_id w" "runners d'" r] show False by blast
  qed
  have "get_worker k d' = Some (close_worker t w)" if w: "get_worker k d = Some w" for k w
  proof -
    have "rows_le wk_id (\<lambda>w w'. w' = w \<or> w' = close_worker t w) (workers d) (workers d')"
      using f by (simp add: recovers_def)
    from rows_leD [OF this w] obtain w' where w': "get_worker k d' = Some w'" "w' = w \<or> w' = close_worker t w" by blast
    with closed get_row_Some [OF w'(1)] show ?thesis by auto
  qed
  with idle closed show ?thesis by blast
qed

lemma sample_recovery:
  obtains n d' where "requeue_stale new_repo (\<lambda>_. None) 9 (sample_db Running False WSubmitted) = Inr (n, d')"
  by (simp add: requeue_stale_def requeue_runner_def finish_runner_def check_runtime_def checkpoint_task_result_def
      checkpoint_invocation_def dict_get_def Let_def sample_simps update_runner_def close_workers_def)

theorem recovery_closes_witness:
  "\<exists>n d'. requeue_stale new_repo (\<lambda>_. None) 9 (sample_db Running False WSubmitted) = Inr (n, d') \<and>
     get_worker (worker_identity ''r'' ''s'') d' = Some (close_worker 9 (sample_worker WSubmitted))"
proof -
  obtain n d' where e: "requeue_stale new_repo (\<lambda>_. None) 9 (sample_db Running False WSubmitted) = Inr (n, d')"
    by (rule sample_recovery)
  have "get_worker (worker_identity ''r'' ''s'') (sample_db Running False WSubmitted) = Some (sample_worker WSubmitted)"
    by (simp add: sample_simps)
  with recovery_closes [OF sample_db_ok e] e show ?thesis by blast
qed

end
