(* ===== verification/Supervision.thy ===== *)
theory Supervision
  imports Store_Contract
begin

text \<open>
  The supervision of one claimed Runner by the scheduler: \<open>_prepare_worker_environment\<close>,
  \<open>_wait_worker\<close>'s outcome and \<open>_execute\<close> of \<open>runtime/scheduler.py\<close>, with \<open>summarize_outcome\<close> of
  \<open>runtime/worker.py\<close>.

  What the world answers is an argument: the heartbeats, the resolution of the artifacts, the
  payload of the Worker and whether a transaction raises.  \<open>concludes\<close> relates the way an execution
  ended to the transactions that record it, with any other transactions of the repository in
  between.  The theorems show that an environment is handed out only to a Runner nobody has
  cancelled, and that a recorded execution has always ended its Runner, whatever happened.
\<close>

section \<open>The environment of a Worker\<close>

text \<open>
  One turn of the waiting loop: the time that remained, the resolution if it has ended, and the
  heartbeat asked for after it (true: cancellation was requested).
\<close>

record 'env poll =
  po_remaining :: rat
  po_resolution :: "'env res option"
  po_cancelled :: bool

datatype 'env prepared = Environment 'env | CancelledEarly | PrepareRaised py_exc

fun prepare_loop :: "'env poll list \<Rightarrow> 'env prepared option" where
  "prepare_loop [] = None"
| "prepare_loop (p # ps) =
     (if po_remaining p \<le> 0
      then Some (PrepareRaised (RuntimeError ''Worker artifact resolution exceeded its time limit''))
      else case po_resolution p of
        Some (Inl e) \<Rightarrow> Some (PrepareRaised e)
      | Some (Inr env) \<Rightarrow> Some (if po_cancelled p then CancelledEarly else Environment env)
      | None \<Rightarrow> if po_cancelled p then Some CancelledEarly else prepare_loop ps)"

text \<open>A Runner is asked for before any artifact is touched.\<close>

definition prepare_worker_environment :: "bool \<Rightarrow> 'env poll list \<Rightarrow> 'env prepared option" where
  "prepare_worker_environment cancelled polls =
     (if cancelled then Some CancelledEarly else prepare_loop polls)"

text \<open>
  An environment is handed out only when every heartbeat up to then, the one after the
  resolution included, said that the Runner is not cancelled, the time limit had not passed, and
  the artifacts are the ones that were resolved.
\<close>

theorem environment_of_live_runner:
  assumes "prepare_worker_environment cancelled polls = Some (Environment env)"
  shows "\<not> cancelled \<and> (\<exists>quiet p rest. polls = quiet @ p # rest \<and> po_resolution p = Some (Inr env) \<and>
    (\<forall>q \<in> set (quiet @ [p]). \<not> po_cancelled q \<and> 0 < po_remaining q) \<and> (\<forall>q \<in> set quiet. po_resolution q = None))"
proof -
  have "\<not> cancelled" and loop: "prepare_loop polls = Some (Environment env)"
    using assms by (auto simp: prepare_worker_environment_def split: if_splits)
  from loop have "\<exists>quiet p rest. polls = quiet @ p # rest \<and> po_resolution p = Some (Inr env) \<and>
    (\<forall>q \<in> set (quiet @ [p]). \<not> po_cancelled q \<and> 0 < po_remaining q) \<and> (\<forall>q \<in> set quiet. po_resolution q = None)"
  proof (induction polls)
    case (Cons p ps)
    show ?case
    proof (cases "po_resolution p")
      case None
      with Cons.prems have p: "\<not> po_cancelled p" "0 < po_remaining p" "prepare_loop ps = Some (Environment env)"
        by (auto split: if_splits)
      from Cons.IH [OF p(3)] obtain quiet q rest where "ps = quiet @ q # rest" "po_resolution q = Some (Inr env)"
        "\<forall>x \<in> set (quiet @ [q]). \<not> po_cancelled x \<and> 0 < po_remaining x" "\<forall>x \<in> set quiet. po_resolution x = None" by blast
      with p None show ?thesis by (intro exI [of _ "p # quiet"] exI [of _ q] exI [of _ rest]) simp
    next
      case (Some r)
      with Cons.prems have "r = Inr env" "\<not> po_cancelled p" "0 < po_remaining p"
        by (auto split: if_splits sum.splits)
      with Some show ?thesis by (intro exI [of _ "[]"] exI [of _ p] exI [of _ ps]) simp
    qed
  qed simp
  with \<open>\<not> cancelled\<close> show ?thesis by blast
qed

theorem environment_of_live_runner_witness:
  "\<exists>quiet p rest. [\<lparr>po_remaining = 2, po_resolution = None, po_cancelled = False\<rparr>,
      \<lparr>po_remaining = 1, po_resolution = Some (Inr ''e''), po_cancelled = False\<rparr>] = quiet @ p # rest \<and>
    po_resolution p = Some (Inr ''e'')"
proof -
  have "prepare_worker_environment False [\<lparr>po_remaining = 2, po_resolution = None, po_cancelled = False\<rparr>,
      \<lparr>po_remaining = 1, po_resolution = Some (Inr ''e''), po_cancelled = False\<rparr>] = Some (Environment ''e'')"
    by (simp add: prepare_worker_environment_def)
  from environment_of_live_runner [OF this] show ?thesis by blast
qed

section \<open>The outcome of a payload\<close>

text \<open>\<open>int(x or d)\<close>.\<close>

fun int_of :: "pyval \<Rightarrow> int res" where
  "int_of (PInt n) = Inr n"
| "int_of (PBool b) = Inr (if b then 1 else 0)"
| "int_of (PFloat (Fin r)) = Inr (if r < 0 then \<lceil>r\<rceil> else \<lfloor>r\<rfloor>)"
| "int_of _ = Inl (TypeError ''int() argument'')"

definition int_or :: "pyval \<Rightarrow> int \<Rightarrow> int res" where
  "int_or v d = (if truthy v then int_of v else Inr d)"

definition text_or :: "(pyval \<Rightarrow> string) \<Rightarrow> pyval \<Rightarrow> string \<Rightarrow> string" where
  "text_or py_text v d = (if truthy v then py_text v else d)"

definition clip :: "string \<Rightarrow> string" where
  "clip s = (if 2000 < length s then take 1997 s @ ''...'' else s)"

definition first_error :: "(pyval \<Rightarrow> string) \<Rightarrow> pydict list \<Rightarrow> (pyval \<times> string) option" where
  "first_error py_text requests =
     (case filter (\<lambda>r. dict_get ''error_code'' r \<noteq> PNone) requests of
        [] \<Rightarrow> None
      | r # _ \<Rightarrow> Some (dict_get ''error_code'' r, clip (text_or py_text (dict_get ''error_msg'' r) ''Unknown error'')))"

definition plural :: "int \<Rightarrow> string" where
  "plural n = (if n = 1 then ''request'' else ''requests'')"

text \<open>\<open>summary["results"] or {}\<close> is a dictionary; the summary is returned with its outcome.\<close>

definition summarize_outcome ::
    "(pyval \<Rightarrow> string) \<Rightarrow> pydict \<Rightarrow> pydict list \<Rightarrow> (runner_status \<times> string \<times> pydict) res" where
  "summarize_outcome py_text summary requests =
     (let results = as_dict (dict_get ''results'' summary)
      in rbind (int_or (dict_get ''num_requests_started'' results) (int (length requests))) (\<lambda>started.
         rbind (int_or (dict_get ''num_completed_requests'' results) 0) (\<lambda>completed.
         rbind (int_or (dict_get ''number_errors'' results) 0) (\<lambda>errors.
           let first = first_error py_text requests;
               (outcome, message, status) =
                 (if completed = 0
                  then (''failed'',
                    (if truthy (dict_get ''timed_out'' summary) \<and> errors = 0
                     then ''No benchmark requests completed before timeout''
                     else ''No benchmark requests completed ('' @ str_int (if errors = 0 then started else errors) @ '' failed)'')
                    @ (case first of Some (code, text) \<Rightarrow> ''; first error ['' @ py_text code @ '']: '' @ text | None \<Rightarrow> []), Failed)
                  else if errors \<noteq> 0
                  then (''degraded'', str_int completed @ '' '' @ plural completed @ '' completed; '' @
                    str_int errors @ '' '' @ plural errors @ '' failed'', Succeeded)
                  else (''succeeded'', str_int completed @ '' benchmark '' @ plural completed @ '' completed'', Succeeded))
           in Inr (status, message, dict_set (KStr ''outcome'') (PDict
                [(KStr ''status'', PStr outcome), (KStr ''requests_started'', PInt started),
                 (KStr ''requests_completed'', PInt completed), (KStr ''requests_failed'', PInt errors),
                 (KStr ''first_error'', case first of Some (code, text) \<Rightarrow>
                    PDict [(KStr ''code'', code), (KStr ''message'', PStr text)] | None \<Rightarrow> PNone),
                 (KStr ''message'', PStr message)]) summary)))))"

lemma summarize_outcome_status:
  "summarize_outcome py_text summary requests = Inr (st, message, summary') \<Longrightarrow> st \<in> {Succeeded, Failed}"
  by (auto simp: summarize_outcome_def Let_def split: if_splits)

section \<open>How an execution ends\<close>

text \<open>
  What the supervisor waited for: the payload of the Worker, a cancellation, an exception, or its
  own cancellation when the scheduler stops.
\<close>

datatype waited = Payload pydict | CancelDelivered | WaitRaised py_exc | WaitInterrupted

record execution_setup =
  xs_ray_ready :: bool
  xs_dispatcher :: bool
  xs_runtime_limits :: bool
  xs_cooldown :: bool
  xs_runner_metadata :: pyval
  xs_worker_id :: pyval

datatype ending =
    EndedEarly
  | UserCancelled
  | LateCancelled
  | WorkerFailed string
  | Finished runner_status string pydict "pydict list"
  | Raised py_exc
  | Interrupted

fun exc_text :: "py_exc \<Rightarrow> string" where
  "exc_text (ValueError s) = s"
| "exc_text (RuntimeError s) = s"
| "exc_text (TypeError s) = s"
| "exc_text (KeyError s) = CHR 0x27 # s @ [CHR 0x27]"
| "exc_text (IndexError s) = s"
| "exc_text (CancelledError s) = s"
| "exc_text (SQLAlchemyError s) = s"
| "exc_text (OSError s) = s"
| "exc_text (ZeroDivisionError s) = s"

fun as_list :: "pyval \<Rightarrow> pydict list" where
  "as_list (PList vs) = map as_dict vs"
| "as_list _ = []"

text \<open>\<open>d[name]\<close>: a missing key raises.\<close>

definition item :: "string \<Rightarrow> pydict \<Rightarrow> pyval res" where
  "item name d = (case map_of d (KStr name) of Some v \<Rightarrow> Inr v | None \<Rightarrow> Inl (KeyError name))"

text \<open>
  The summary of a payload with what the supervisor adds: the Runner's metadata and the Worker's
  identifier.  The summary and its \<open>execution_runtime\<close> are dictionaries where they are present.
\<close>

definition annotate_summary :: "execution_setup \<Rightarrow> pydict \<Rightarrow> pydict res" where
  "annotate_summary xs summary =
     (let summary = dict_set (KStr ''runner_metadata'') (xs_runner_metadata xs) summary
      in rbind (item ''execution_runtime'' summary) (\<lambda>runtime.
           Inr (dict_set (KStr ''execution_runtime'')
             (PDict (dict_set (KStr ''worker_id'') (xs_worker_id xs) (as_dict runtime))) summary)))"

text \<open>
  A payload that is not ok is a failure with its own message; an incomplete one raises, and so does
  a summary whose counts are no numbers.
\<close>

definition payload_ending :: "(pyval \<Rightarrow> string) \<Rightarrow> execution_setup \<Rightarrow> pydict \<Rightarrow> ending" where
  "payload_ending py_text xs payload =
     (if \<not> truthy (dict_get ''ok'' payload)
      then WorkerFailed (text_or py_text (dict_get ''error'' payload) ''Ray Worker failed'')
      else case rbind (item ''summary'' payload) (\<lambda>summary. rbind (item ''requests'' payload) (\<lambda>requests.
             rbind (annotate_summary xs (as_dict summary)) (\<lambda>summary.
             rbind (summarize_outcome py_text summary (as_list requests)) (\<lambda>(st, message, summary).
               Inr (Finished st message summary (as_list requests)))))) of
           Inl e \<Rightarrow> Raised e | Inr ended \<Rightarrow> ended)"

definition execution_ending ::
    "(pyval \<Rightarrow> string) \<Rightarrow> execution_setup \<Rightarrow> 'env prepared \<Rightarrow> waited \<Rightarrow> ending" where
  "execution_ending py_text xs prepared w =
     (case prepared of
        CancelledEarly \<Rightarrow> EndedEarly
      | PrepareRaised e \<Rightarrow> Raised e
      | Environment env \<Rightarrow>
          if \<not> xs_ray_ready xs then Raised (RuntimeError ''Ray Worker runtime is not initialized'')
          else if \<not> xs_dispatcher xs \<and> (xs_runtime_limits xs \<or> xs_cooldown xs)
          then Raised (RuntimeError ''Worker limits and cooldown require shared Worker dispatch'')
          else (case w of
              CancelDelivered \<Rightarrow> UserCancelled
            | WaitRaised e \<Rightarrow> Raised e
            | WaitInterrupted \<Rightarrow> Interrupted
            | Payload payload \<Rightarrow> payload_ending py_text xs payload))"

text \<open>The arguments of \<open>finish_runner\<close> for the endings that close the Runner with it.\<close>

fun closing :: "ending \<Rightarrow> (runner_status \<times> string \<times> int option) option" where
  "closing EndedEarly = Some (Cancelled, ''Benchmark cancelled before Worker start'', None)"
| "closing UserCancelled = Some (Cancelled, ''Benchmark cancelled by user'', None)"
| "closing LateCancelled = Some (Cancelled, ''Benchmark cancelled before result commit'', None)"
| "closing (WorkerFailed m) = Some (Failed, m, Some 1)"
| "closing (Raised e) = Some (Failed, exc_text e, Some 1)"
| "closing (Finished st m s rs) = None"
| "closing Interrupted = None"

fun is_raised :: "ending \<Rightarrow> bool" where
  "is_raised (Raised e) = True"
| "is_raised _ = False"

fun is_interrupted :: "ending \<Rightarrow> bool" where
  "is_interrupted Interrupted = True"
| "is_interrupted _ = False"

text \<open>
  \<open>complete_runner\<close> is repeated as long as the database reports an error; an error may hide a
  transaction that took effect.
\<close>

inductive retried ::
    "(instant \<Rightarrow> db \<Rightarrow> (bool \<times> db) res) \<Rightarrow> db \<Rightarrow> bool res \<Rightarrow> db \<Rightarrow> bool" for tx where
  answered: "tx t d = Inr (b, d') \<Longrightarrow> retried tx d (Inr b) d'"
| refused: "tx t d = Inl e \<Longrightarrow> \<nexists>text. e = SQLAlchemyError text \<Longrightarrow> retried tx d (Inl e) d"
| not_applied: "db_step\<^sup>*\<^sup>* d d1 \<Longrightarrow> retried tx d1 out d' \<Longrightarrow> retried tx d out d'"
| not_answered: "tx t d = Inr (b, d1) \<Longrightarrow> db_step\<^sup>*\<^sup>* d1 d2 \<Longrightarrow> retried tx d2 out d' \<Longrightarrow> retried tx d out d'"

text \<open>\<open>str\<close> of a completed execution's transaction: the arguments \<open>_execute\<close> gives it.\<close>

definition result_commit ::
    "repo \<Rightarrow> string \<Rightarrow> string option \<Rightarrow> runner_status \<Rightarrow> string \<Rightarrow> pydict \<Rightarrow> pydict list \<Rightarrow> instant \<Rightarrow> db \<Rightarrow> bool tx" where
  "result_commit h i log_ref st message summary requests now d =
     complete_runner h i (PDict summary) (map PDict requests) 0 log_ref st
       (if st = Failed then Some message else None) now d"

text \<open>
  The record of an ending.  The last argument says whether it was made: an exception that leaves
  the handlers is logged and the Runner is left to recovery.
\<close>

inductive concludes :: "repo \<Rightarrow> string \<Rightarrow> string option \<Rightarrow> ending \<Rightarrow> db \<Rightarrow> bool \<Rightarrow> db \<Rightarrow> bool"
  for h :: repo and i :: string and log_ref :: "string option" where
  closed: "closing e = Some (st, message, code) \<Longrightarrow> db_step\<^sup>*\<^sup>* d d1 \<Longrightarrow>
    finish_runner h i st message code log_ref t d1 = Inr (b, d2) \<Longrightarrow> concludes h i log_ref e d True d2"
| close_raised: "closing e = Some (st, message, code) \<Longrightarrow> \<not> is_raised e \<Longrightarrow> db_step\<^sup>*\<^sup>* d d1 \<Longrightarrow>
    concludes h i log_ref (Raised exc) d1 out d2 \<Longrightarrow> concludes h i log_ref e d out d2"
| close_interrupted: "\<not> is_raised e \<Longrightarrow> \<not> is_interrupted e \<Longrightarrow> db_step\<^sup>*\<^sup>* d d1 \<Longrightarrow>
    concludes h i log_ref Interrupted d1 out d2 \<Longrightarrow> concludes h i log_ref e d out d2"
| completed: "db_step\<^sup>*\<^sup>* d d1 \<Longrightarrow> retried (result_commit h i log_ref st message summary requests) d1 (Inr True) d2 \<Longrightarrow>
    concludes h i log_ref (Finished st message summary requests) d True d2"
| refused_cancelled: "db_step\<^sup>*\<^sup>* d d1 \<Longrightarrow>
    retried (result_commit h i log_ref st message summary requests) d1 (Inr False) d2 \<Longrightarrow> db_step\<^sup>*\<^sup>* d2 d3 \<Longrightarrow>
    get_runner i d3 = Some r \<Longrightarrow> run_cancel_requested r \<Longrightarrow> concludes h i log_ref LateCancelled d3 out d4 \<Longrightarrow>
    concludes h i log_ref (Finished st message summary requests) d out d4"
| refused_over: "db_step\<^sup>*\<^sup>* d d1 \<Longrightarrow>
    retried (result_commit h i log_ref st message summary requests) d1 (Inr False) d2 \<Longrightarrow> db_step\<^sup>*\<^sup>* d2 d3 \<Longrightarrow>
    \<nexists>r. get_runner i d3 = Some r \<and> run_cancel_requested r \<Longrightarrow>
    concludes h i log_ref (Finished st message summary requests) d True d3"
| commit_raised: "db_step\<^sup>*\<^sup>* d d1 \<Longrightarrow>
    retried (result_commit h i log_ref st message summary requests) d1 (Inl exc) d2 \<Longrightarrow>
    concludes h i log_ref (Raised exc) d2 out d3 \<Longrightarrow>
    concludes h i log_ref (Finished st message summary requests) d out d3"
| requeued: "db_step\<^sup>*\<^sup>* d d1 \<Longrightarrow> get_runner i d1 = Some r \<Longrightarrow> \<not> terminal (run_status r) \<Longrightarrow> db_step\<^sup>*\<^sup>* d1 d2 \<Longrightarrow>
    requeue_runner h i log_ref t d2 = Inr (b, d3) \<Longrightarrow> concludes h i log_ref Interrupted d True d3"
| already_over: "db_step\<^sup>*\<^sup>* d d1 \<Longrightarrow> \<nexists>r. get_runner i d1 = Some r \<and> \<not> terminal (run_status r) \<Longrightarrow>
    concludes h i log_ref Interrupted d True d1"
| abandoned: "is_raised e \<or> is_interrupted e \<Longrightarrow> db_step\<^sup>*\<^sup>* d d1 \<Longrightarrow> concludes h i log_ref e d False d1"

section \<open>A recorded execution has ended its Runner\<close>

lemma finish_ends:
  assumes "finish_runner h i st message code log_ref t d = Inr (b, d')"
    and "get_runner i d = Some r" "run_status r \<noteq> Queued"
  shows "\<exists>r'. get_runner i d' = Some r' \<and> terminal (run_status r')"
proof (cases "run_status r = Running")
  case False
  then have "terminal (run_status r)" using assms(3) by (cases "run_status r") simp_all
  moreover have "d' = d" using assms(1,2) False
    by (cases rule: finish_runner_cases) auto
  ultimately show ?thesis using assms(2) by blast
next
  case True
  from assms(1) show ?thesis
  proof (cases rule: finish_runner_cases)
    case 1
    then show ?thesis
      using assms True by (auto simp: finish_runner_def Let_def)
  next
    case (2 r1 d1 ended)
    have "get_runner i d1 = Some (r\<lparr>run_status := st, run_finished_at := Some t, run_heartbeat_at := Some t,
        run_exit_code := code, run_error_message := Some message, run_log_key := log_ref\<rparr>)"
      unfolding 2(5) using assms(2) get_row_Some [of run_id i "runners d" r]
      by (subst get_row_update_where) simp_all
    from evolvesD(1) [OF quiet_evolves [OF 2(12)] this] 2(4)
    show ?thesis by (auto simp: runner_le_def)
  qed
qed

lemma started_stays:
  assumes "db_step\<^sup>*\<^sup>* d d'" "get_runner i d = Some r" "run_status r \<noteq> Queued"
  obtains r' where "get_runner i d' = Some r'" "run_status r' \<noteq> Queued" "runner_le r r'"
proof -
  obtain r' where r': "get_runner i d' = Some r'" "runner_le r r'" using steps_runner [OF assms(1,2)] by blast
  then have "run_status r \<le> run_status r'" by (simp add: runner_le_def)
  with assms(3) have "run_status r' \<noteq> Queued" by (cases "run_status r") (auto simp: less_eq_runner_status_def)
  then show ?thesis by (rule that [OF r'(1) _ r'(2)])
qed

lemma commit_step: "result_commit h i log_ref st message summary requests t d = Inr (b, d') \<Longrightarrow> db_step d d'"
  unfolding result_commit_def by (rule db_step.complete)

lemma retried_steps: "retried (result_commit h i log_ref st message summary requests) d out d' \<Longrightarrow> db_step\<^sup>*\<^sup>* d d'"
  by (induction rule: retried.induct) (meson commit_step r_into_rtranclp rtranclp.rtrancl_refl rtranclp_trans)+

text \<open>A refused commit means the Runner is over or to be cancelled; an accepted one ends it.\<close>

lemma retried_answer:
  assumes "retried (result_commit h i log_ref st message summary requests) d out d'"
    and "get_runner i d = Some r" "run_status r \<noteq> Queued"
  shows "(out = Inr True \<longrightarrow> (\<exists>r'. get_runner i d' = Some r' \<and> terminal (run_status r'))) \<and>
    (out = Inr False \<longrightarrow> (\<exists>r'. get_runner i d' = Some r' \<and> (run_cancel_requested r' \<or> terminal (run_status r'))))"
  using assms
proof (induction arbitrary: r rule: retried.induct)
  case (answered t d b d')
  from answered(1)[unfolded result_commit_def] show ?case
  proof (cases rule: complete_runner_cases)
    case 1
    have "\<not> accepting r"
      using answered(1) answered(2) 1 by (auto simp: result_commit_def complete_runner_def Let_def split: if_splits)
    then have "run_cancel_requested r \<or> terminal (run_status r)"
      using answered(3) by (cases "run_status r") (auto simp: accepting_def)
    with answered(2) 1 show ?thesis by auto
  next
    case (2 r1 d1)
    have "get_runner i d1 = Some (r\<lparr>run_status := st, run_finished_at := Some t, run_heartbeat_at := Some t,
        run_exit_code := Some 0, run_summary := json_safe (PDict summary), run_request_count := length (map PDict requests),
        run_log_key := log_ref, run_error_message := (if st = Failed then Some message else None)\<rparr>)"
      unfolding 2(5) using answered(2) get_row_Some [of run_id i "runners d" r]
      by (subst get_row_update_where) simp_all
    from evolvesD(1) [OF quiet_evolves [OF 2(12)] this] 2(1,4)
    show ?thesis by (auto simp: runner_le_def)
  qed
next
  case (not_applied d d1 out d')
  obtain r' where "get_runner i d1 = Some r'" "run_status r' \<noteq> Queued"
    using started_stays [OF not_applied(1,4,5)] by metis
  then show ?case by (rule not_applied.IH)
next
  case (not_answered t d b d1 d2 out d')
  have "db_step\<^sup>*\<^sup>* d d2" using commit_step [OF not_answered(1)] not_answered(2) by (meson converse_rtranclp_into_rtranclp)
  then obtain r' where "get_runner i d2 = Some r'" "run_status r' \<noteq> Queued"
    using started_stays [OF _ not_answered(5,6)] by metis
  then show ?case by (rule not_answered.IH)
qed simp

text \<open>
  C10.  However the execution of a started Runner ended - cancelled before or while it ran, failed,
  finished, its result refused, its transactions repeated after lost answers, the scheduler stopped
  - once its end is recorded the Runner is in a terminal state, with any other transactions in
  between.
\<close>

theorem recorded_execution_ends:
  assumes "concludes h i log_ref e d True d'" and "get_runner i d = Some r" "run_status r \<noteq> Queued"
  shows "\<exists>r'. get_runner i d' = Some r' \<and> terminal (run_status r')"
proof -
  have "out \<Longrightarrow> \<exists>r'. get_runner i d' = Some r' \<and> terminal (run_status r')"
    if "concludes h i log_ref e d out d'" "get_runner i d = Some r" "run_status r \<noteq> Queued" for out
    using that
  proof (induction arbitrary: r rule: concludes.induct)
    case (closed e st message code d d1 t b d2)
    from started_stays [OF closed.hyps(2) closed.prems(2,3)] finish_ends [OF closed.hyps(3)] show ?case by metis
  next
    case (close_raised e st message code d d1 exc out d2)
    from started_stays [OF close_raised.hyps(3) close_raised.prems(2,3)] close_raised.IH close_raised.prems(1) show ?case by metis
  next
    case (close_interrupted e d d1 out d2)
    from started_stays [OF close_interrupted.hyps(3) close_interrupted.prems(2,3)] close_interrupted.IH close_interrupted.prems(1) show ?case by metis
  next
    case (completed d d1 st message summary requests d2)
    from started_stays [OF completed.hyps(1) completed.prems(2,3)] retried_answer [OF completed.hyps(2)] show ?case by metis
  next
    case (refused_cancelled d d1 st message summary requests d2 d3 r1 out d4)
    have "db_step\<^sup>*\<^sup>* d d3"
      using refused_cancelled.hyps(1,3) retried_steps [OF refused_cancelled.hyps(2)] by (meson rtranclp_trans)
    from started_stays [OF this refused_cancelled.prems(2,3)] refused_cancelled.IH refused_cancelled.prems(1) show ?case by metis
  next
    case (refused_over d d1 st message summary requests d2 d3)
    obtain r1 where r1: "get_runner i d1 = Some r1" "run_status r1 \<noteq> Queued"
      using started_stays [OF refused_over.hyps(1) refused_over.prems(2,3)] by metis
    obtain r2 where r2: "get_runner i d2 = Some r2" "run_cancel_requested r2 \<or> terminal (run_status r2)"
      using retried_answer [OF refused_over.hyps(2) r1] by blast
    obtain r3 where "get_runner i d3 = Some r3" "runner_le r2 r3" using steps_runner [OF refused_over.hyps(3) r2(1)] by blast
    with r2 refused_over.hyps(4) show ?case by (auto simp: runner_le_def)
  next
    case (commit_raised d d1 st message summary requests exc d2 out d3)
    have "db_step\<^sup>*\<^sup>* d d2" using commit_raised.hyps(1) retried_steps [OF commit_raised.hyps(2)] by (meson rtranclp_trans)
    from started_stays [OF this commit_raised.prems(2,3)] commit_raised.IH commit_raised.prems(1) show ?case by metis
  next
    case (requeued d d1 r1 d2 t b d3)
    have "db_step\<^sup>*\<^sup>* d d2" using requeued.hyps(1,4) by (meson rtranclp_trans)
    from started_stays [OF this requeued.prems(2,3)] finish_ends [OF requeued.hyps(5) [unfolded requeue_runner_def]] show ?case by metis
  next
    case (already_over d d1)
    from started_stays [OF already_over.hyps(1) already_over.prems(2,3)] already_over.hyps(2) show ?case by metis
  qed simp
  from this [OF assms(1-3)] show ?thesis by simp
qed

theorem recorded_execution_ends_witness:
  "\<exists>d' r'. concludes new_repo ''r'' None UserCancelled (sample_db Running False WSubmitted) True d' \<and>
     get_runner ''r'' d' = Some r' \<and> terminal (run_status r')"
proof -
  let ?d = "sample_db Running False WSubmitted"
  have "\<exists>b d'. finish_runner new_repo ''r'' Cancelled ''Benchmark cancelled by user'' None None 5 ?d = Inr (b, d')"
    by (simp add: finish_runner_def check_runtime_def checkpoint_task_result_def
        checkpoint_invocation_def dict_get_def sample_simps Let_def, blast)
  then obtain b d' where f: "finish_runner new_repo ''r'' Cancelled ''Benchmark cancelled by user'' None None 5 ?d = Inr (b, d')"
    by blast
  have c: "concludes new_repo ''r'' None UserCancelled ?d True d'"
    by (rule concludes.closed [OF _ rtranclp.rtrancl_refl f]) simp
  have "get_runner ''r'' ?d = Some (sample_runner ''r'' Running False)" "run_status (sample_runner ''r'' Running False) \<noteq> Queued"
    by (simp_all add: sample_simps)
  from recorded_execution_ends [OF c this] c show ?thesis by blast
qed

end
