(* ===== verification/Message_Bus.thy ===== *)
theory Message_Bus
  imports Store_Contract
begin

text \<open>
  \<open>runtime/messages.py\<close>: the in-memory mailbox of a Runner in front of the durable messages of the
  repository.  A bus keeps one bounded buffer per consumer and destination; committed messages are
  put into it directly, and what did not fit or was lost is recovered from the store, by the bus
  itself or by the reconciler that serves all buses of a backend.  The source suspends at every
  \<open>await\<close>; an operation is modelled by the pieces between these points, and the step relation
  \<open>mailbox_step\<close> interleaves the pieces.

  The locale \<open>message_store\<close> states what the bus relies on; its lemmas are proved from these laws
  alone, and the repository provides them.
\<close>

section \<open>Buffers\<close>

record subscription =
  sub_messages :: "(string \<times> runner_message) list"
  sub_recovered :: "string set"
  sub_revision :: nat

definition new_subscription :: subscription where
  "new_subscription = \<lparr>sub_messages = [], sub_recovered = {}, sub_revision = 0\<rparr>"

text \<open>Subscriptions are keyed by consumer and destination.\<close>

type_synonym sub_key = "string \<times> string"

record bus =
  bus_runner :: string
  bus_capacity :: nat
  bus_generation :: nat
  bus_closed :: bool
  bus_reconciled :: bool
  bus_subs :: "(sub_key \<times> subscription) list"

text \<open>\<open>bus_reconciled\<close>: the bus was given a reconciler.\<close>

definition new_bus :: "string \<Rightarrow> rat \<Rightarrow> bool \<Rightarrow> int \<Rightarrow> bus res" where
  "new_bus runner_id reconcile_seconds reconciled capacity =
     rbind (raise_if (reconcile_seconds \<le> 0) (ValueError ''message reconciliation interval must be positive'')) (\<lambda>_.
     rbind (raise_if (capacity < 1) (ValueError ''message buffer capacity must be positive'')) (\<lambda>_.
       Inr \<lparr>bus_runner = runner_id, bus_capacity = nat capacity, bus_generation = 0, bus_closed = False,
            bus_reconciled = reconciled, bus_subs = []\<rparr>))"

definition get_sub :: "sub_key \<Rightarrow> bus \<Rightarrow> subscription option" where
  "get_sub k b = map_of (bus_subs b) k"

definition update_sub :: "sub_key \<Rightarrow> (subscription \<Rightarrow> subscription) \<Rightarrow> bus \<Rightarrow> bus" where
  "update_sub k f b = b\<lparr>bus_subs := map (\<lambda>(j, s). (j, if j = k then f s else s)) (bus_subs b)\<rparr>"

text \<open>\<open>dict.setdefault\<close>.\<close>

definition put_message :: "runner_message \<Rightarrow> (string \<times> runner_message) list \<Rightarrow> (string \<times> runner_message) list" where
  "put_message m ms = (if msg_id m \<in> fst ` set ms then ms else ms @ [(msg_id m, m)])"

definition bump :: "bus \<Rightarrow> bus" where
  "bump b = b\<lparr>bus_generation := bus_generation b + 1\<rparr>"

text \<open>Operations report whether they wake the reconciler.\<close>

definition notify :: "bus \<Rightarrow> bus \<times> bool" where
  "notify b = (bump b, bus_reconciled b)"

section \<open>Delivery\<close>

definition deliver_committed :: "runner_message \<Rightarrow> bus \<Rightarrow> bus res" where
  "deliver_committed m b =
     (if msg_runner_id m \<noteq> bus_runner b then Inl (ValueError ''Message belongs to another Runner'')
      else if bus_closed b then Inr b
      else Inr (bump (b\<lparr>bus_subs := map (\<lambda>(k, s).
        (k, if snd k = msg_destination m \<and> length (sub_messages s) < bus_capacity b
            then s\<lparr>sub_messages := put_message m (sub_messages s)\<rparr> else s)) (bus_subs b)\<rparr>)))"

text \<open>\<open>revision\<close>: the revision of the subscription when the read of the store began.\<close>

definition recover :: "string \<Rightarrow> nat \<Rightarrow> runner_message \<Rightarrow> bus \<Rightarrow> bus" where
  "recover consumer revision m b =
     (case get_sub (consumer, msg_destination m) b of
        None \<Rightarrow> b
      | Some s \<Rightarrow>
          if \<not> bus_closed b \<and> sub_revision s = revision \<and> length (sub_messages s) < bus_capacity b
          then bump (if msg_id m \<in> fst ` set (sub_messages s) then b
                     else update_sub (consumer, msg_destination m)
                       (\<lambda>s. s\<lparr>sub_messages := sub_messages s @ [(msg_id m, m)],
                              sub_recovered := insert (msg_id m) (sub_recovered s)\<rparr>) b)
          else b)"

definition publish :: "repo \<Rightarrow> runner_message \<Rightarrow> instant \<Rightarrow> bus \<Rightarrow> db \<Rightarrow> (bool \<times> bus \<times> db) res" where
  "publish h m now b d =
     (if msg_runner_id m \<noteq> bus_runner b then Inl (ValueError ''Message belongs to another Runner'')
      else if bus_closed b then Inl (RuntimeError ''Runner message bus is closed'')
      else rbind (publish_message h m now d) (\<lambda>(accepted, d').
        if accepted then rbind (deliver_committed m b) (\<lambda>b'. Inr (True, b', d'))
        else Inr (False, b, d')))"

section \<open>Receiving\<close>

definition subscribe :: "sub_key \<Rightarrow> bus \<Rightarrow> bus \<times> bool" where
  "subscribe k b =
     (if get_sub k b \<noteq> None then (b, False)
      else (b\<lparr>bus_subs := bus_subs b @ [(k, new_subscription)]\<rparr>, bus_reconciled b))"

text \<open>The head of the waiting loop: what is buffered, or None when it has to wait or read.\<close>

definition receive_ready :: "sub_key \<Rightarrow> nat \<Rightarrow> bus \<Rightarrow> runner_message list option res" where
  "receive_ready k limit b =
     (if bus_closed b then Inl (CancelledError ''Runner message bus closed'')
      else case get_sub k b of
        None \<Rightarrow> Inr None
      | Some s \<Rightarrow> Inr (if sub_messages s = [] then None else Some (take limit (map snd (sub_messages s)))))"

text \<open>
  One turn of the loop.  Without a reconciler the bus reads the store itself; None: the consumer
  waits for the next change of the generation.
\<close>

definition receive_turn ::
    "(string \<Rightarrow> string \<Rightarrow> string \<Rightarrow> pydict res) \<Rightarrow> string \<Rightarrow> string \<Rightarrow> nat \<Rightarrow> db \<Rightarrow> bus
      \<Rightarrow> (runner_message list option \<times> bus) res" where
  "receive_turn read consumer destination limit d b =
     rbind (receive_ready (consumer, destination) limit b) (\<lambda>ready.
       case ready of
         Some ms \<Rightarrow> Inr (Some ms, b)
       | None \<Rightarrow>
           if bus_reconciled b then Inr (None, b)
           else
             let revision = (case get_sub (consumer, destination) b of Some s \<Rightarrow> sub_revision s | None \<Rightarrow> 0)
             in rbind (pending_messages read (bus_runner b) destination consumer (min limit (bus_capacity b)) d) (\<lambda>ms.
                let b' = fold (recover consumer revision) ms b
                in rbind (receive_ready (consumer, destination) limit b') (\<lambda>ready'. Inr (ready', b'))))"

definition receive ::
    "(string \<Rightarrow> string \<Rightarrow> string \<Rightarrow> pydict res) \<Rightarrow> string \<Rightarrow> string \<Rightarrow> int \<Rightarrow> db \<Rightarrow> bus
      \<Rightarrow> (runner_message list option \<times> bus \<times> bool) res" where
  "receive read consumer destination limit d b =
     rbind (raise_if (limit < 1) (ValueError ''message receive limit must be positive'')) (\<lambda>_.
       let (b1, woken) = subscribe (consumer, destination) b
       in rbind (receive_turn read consumer destination (nat limit) d b1) (\<lambda>(ms, b2). Inr (ms, b2, woken)))"

section \<open>Acknowledgement\<close>

text \<open>What one acknowledged message does to the buffer once its receipt is committed.\<close>

definition drop_message :: "string \<Rightarrow> runner_message \<Rightarrow> bus \<times> bool \<Rightarrow> bus \<times> bool" where
  "drop_message consumer m = (\<lambda>(b, woken).
     case get_sub (consumer, msg_destination m) b of
       None \<Rightarrow> (b, woken)
     | Some s \<Rightarrow>
         (update_sub (consumer, msg_destination m)
            (\<lambda>s. s\<lparr>sub_revision := sub_revision s + 1,
                   sub_messages := filter (\<lambda>(i, _). i \<noteq> msg_id m) (sub_messages s),
                   sub_recovered := sub_recovered s - {msg_id m}\<rparr>) b,
          woken \<or> msg_id m \<in> sub_recovered s \<and> bus_reconciled b))"

definition acknowledge_many ::
    "repo \<Rightarrow> runner_message list \<Rightarrow> string \<Rightarrow> instant \<Rightarrow> bus \<Rightarrow> db \<Rightarrow> (bus \<times> bool \<times> db) res" where
  "acknowledge_many h ms consumer now b d =
     (if list_ex (\<lambda>m. msg_runner_id m \<noteq> bus_runner b) ms
      then Inl (ValueError ''Message belongs to another Runner'')
      else if ms = [] then Inr (b, False, d)
      else rbind (acknowledge_messages h (bus_runner b) (map msg_id ms) consumer now d) (\<lambda>(_, d').
        let (b', woken) = fold (drop_message consumer) ms (b, False) in Inr (b', woken, d')))"

definition close_bus :: "bus \<Rightarrow> bus \<times> bool" where
  "close_bus b = (let (b', woken) = notify (b\<lparr>bus_closed := True\<rparr>) in (b'\<lparr>bus_subs := []\<rparr>, woken))"

section \<open>Reconciliation\<close>

text \<open>Buffers with room, grouped by subscription key, in the order of the registered buses.\<close>

fun add_group :: "sub_key \<Rightarrow> 'a \<Rightarrow> (sub_key \<times> 'a list) list \<Rightarrow> (sub_key \<times> 'a list) list" where
  "add_group k x [] = [(k, [x])]"
| "add_group k x ((j, xs) # gs) = (if j = k then (j, xs @ [x]) # gs else (j, xs) # add_group k x gs)"

definition open_slots :: "bus list \<Rightarrow> (sub_key \<times> string \<times> nat) list" where
  "open_slots buses =
     concat (map (\<lambda>b. map (\<lambda>(k, s). (k, bus_runner b, sub_revision s))
       (filter (\<lambda>(_, s). length (sub_messages s) < bus_capacity b) (bus_subs b))) buses)"

definition reconcile_groups :: "bus list \<Rightarrow> (sub_key \<times> (string \<times> nat) list) list" where
  "reconcile_groups buses = fold (\<lambda>(k, x). add_group k x) (open_slots buses) []"

function batches :: "'a list \<Rightarrow> 'a list list" where
  "batches xs = (if xs = [] then [] else take 64 xs # batches (drop 64 xs))"
  by pat_completeness auto
termination by (relation "measure length") auto

declare batches.simps [simp del]

text \<open>The message goes to the bus of its Runner, with the revision the batch recorded for it.\<close>

definition recover_owned :: "string \<Rightarrow> (string \<times> nat) list \<Rightarrow> runner_message \<Rightarrow> bus list \<Rightarrow> bus list" where
  "recover_owned consumer owners m =
     map (\<lambda>b. if bus_runner b = msg_runner_id m
              then (case map_of (rev owners) (msg_runner_id m) of
                      Some revision \<Rightarrow> recover consumer revision m b | None \<Rightarrow> b)
              else b)"

definition reconcile_batch ::
    "(string \<Rightarrow> string \<Rightarrow> string \<Rightarrow> pydict res) \<Rightarrow> db \<Rightarrow> bus list \<Rightarrow> sub_key \<times> (string \<times> nat) list \<Rightarrow> bus list res" where
  "reconcile_batch read d buses = (\<lambda>((consumer, destination), batch).
     rbind (pending_messages_batch read (map fst batch) destination consumer 1 d) (\<lambda>ms.
       Inr (fold (recover_owned consumer batch) ms buses)))"

text \<open>The reads of one pass, at most 64 Runners each.\<close>

definition reconcile_tasks :: "bus list \<Rightarrow> (sub_key \<times> (string \<times> nat) list) list" where
  "reconcile_tasks buses = concat (map (\<lambda>(k, xs). map (\<lambda>batch. (k, batch)) (batches xs)) (reconcile_groups buses))"

definition reconcile_buses ::
    "(string \<Rightarrow> string \<Rightarrow> string \<Rightarrow> pydict res) \<Rightarrow> db \<Rightarrow> bus list \<Rightarrow> bus list res" where
  "reconcile_buses read d buses =
     foldR (reconcile_batch read d) buses (reconcile_tasks buses)"

lemmas bus_defs [step_defs] = deliver_committed_def recover_def publish_def subscribe_def receive_ready_def
  receive_turn_def receive_def drop_message_def acknowledge_many_def close_bus_def notify_def

section \<open>The mailbox of one consumer\<close>

text \<open>
  One consumer reads one destination of one Runner.  \<open>mb_snapshot\<close>: what a read of the store
  returned and has not been recovered yet, with the revision at its beginning; \<open>mb_acking\<close>: the
  acknowledgements whose receipts are committed and whose second half has not run.
\<close>

record 's mailbox =
  mb_store :: 's
  mb_bus :: bus
  mb_snapshot :: "(runner_message list \<times> nat) option"
  mb_acking :: "runner_message list list"

text \<open>
  The store is seen through \<open>visible s\<close> (the messages of the mailbox without a receipt of its
  consumer), \<open>acks\<close> (the commit of receipts) and \<open>other\<close> (every transaction that commits no receipt
  of this consumer).  Pieces of different operations interleave freely; what the consumer
  acknowledges are messages of its destination.
\<close>

inductive mailbox_step ::
    "('s \<Rightarrow> runner_message set) \<Rightarrow> ('s \<Rightarrow> string list \<Rightarrow> 's \<Rightarrow> bool) \<Rightarrow> ('s \<Rightarrow> 's \<Rightarrow> bool) \<Rightarrow> sub_key
      \<Rightarrow> 's mailbox \<Rightarrow> 's mailbox \<Rightarrow> bool"
  for visible acks other k where
  store: "other (mb_store x) s \<Longrightarrow> mailbox_step visible acks other k x (x\<lparr>mb_store := s\<rparr>)"
| deliver: "deliver_committed m (mb_bus x) = Inr b \<Longrightarrow> mailbox_step visible acks other k x (x\<lparr>mb_bus := b\<rparr>)"
| open_sub: "subscribe j (mb_bus x) = (b, woken) \<Longrightarrow> mailbox_step visible acks other k x (x\<lparr>mb_bus := b\<rparr>)"
| read: "get_sub k (mb_bus x) = Some s \<Longrightarrow>
    \<forall>m \<in> set ms. msg_destination m = snd k \<and> msg_id m \<in> msg_id ` visible (mb_store x) \<Longrightarrow>
    mailbox_step visible acks other k x (x\<lparr>mb_snapshot := Some (ms, sub_revision s)\<rparr>)"
| recover: "mb_snapshot x = Some (m # ms, revision) \<Longrightarrow>
    mailbox_step visible acks other k x
      (x\<lparr>mb_bus := recover (fst k) revision m (mb_bus x), mb_snapshot := Some (ms, revision)\<rparr>)"
| ack_commit: "acks (mb_store x) (map msg_id ms) s \<Longrightarrow> \<forall>m \<in> set ms. msg_destination m = snd k \<Longrightarrow>
    mailbox_step visible acks other k x (x\<lparr>mb_store := s, mb_acking := ms # mb_acking x\<rparr>)"
| ack_apply: "mb_acking x = as @ ms # bs \<Longrightarrow>
    mailbox_step visible acks other k x
      (x\<lparr>mb_bus := fst (fold (drop_message (fst k)) ms (mb_bus x, False)), mb_acking := as @ bs\<rparr>)"
| close: "mailbox_step visible acks other k x (x\<lparr>mb_bus := fst (close_bus (mb_bus x))\<rparr>)"

section \<open>What the pieces do to a subscription\<close>

lemma map_of_map_key: "map_of (map (\<lambda>(j, s). (j, g j s)) xs) k = map_option (g k) (map_of xs k)"
  by (induction xs) auto

lemma get_sub_bump [simp]: "get_sub k (bump b) = get_sub k b"
  by (simp add: get_sub_def bump_def)

lemma bump_fields [simp]: "bus_closed (bump b) = bus_closed b" "bus_capacity (bump b) = bus_capacity b"
  "bus_runner (bump b) = bus_runner b" "bus_reconciled (bump b) = bus_reconciled b"
  by (simp_all add: bump_def)

lemma update_sub_fields [simp]: "bus_closed (update_sub k f b) = bus_closed b"
  "bus_capacity (update_sub k f b) = bus_capacity b" "bus_runner (update_sub k f b) = bus_runner b"
  "bus_reconciled (update_sub k f b) = bus_reconciled b"
  by (simp_all add: update_sub_def)

lemma get_sub_update [simp]:
  "get_sub j (update_sub k f b) = (if j = k then map_option f (get_sub j b) else get_sub j b)"
proof -
  have "(\<lambda>(j, s). (j, if j = k then f s else s)) = (\<lambda>(j, s). (j, (\<lambda>j s. if j = k then f s else s) j s))" by auto
  then show ?thesis
    unfolding get_sub_def update_sub_def
    using map_of_map_key [of "\<lambda>j s. if j = k then f s else s" "bus_subs b" j] by (cases "map_of (bus_subs b) j") auto
qed

lemma deliver_committed_sub:
  assumes "deliver_committed m b = Inr b'"
  shows "bus_closed b' = bus_closed b \<and> bus_capacity b' = bus_capacity b \<and>
    get_sub k b' = map_option (\<lambda>s. if \<not> bus_closed b \<and> snd k = msg_destination m \<and> length (sub_messages s) < bus_capacity b
      then s\<lparr>sub_messages := put_message m (sub_messages s)\<rparr> else s) (get_sub k b)"
proof -
  let ?g = "\<lambda>j s. if snd j = msg_destination m \<and> length (sub_messages s) < bus_capacity b
      then s\<lparr>sub_messages := put_message m (sub_messages s)\<rparr> else s"
  from assms map_of_map_key [of ?g "bus_subs b" k] show ?thesis
    by (cases "get_sub k b") (auto simp: deliver_committed_def get_sub_def bump_def split: if_splits)
qed

lemma recover_fields [simp]: "bus_closed (recover c revision m b) = bus_closed b"
  "bus_capacity (recover c revision m b) = bus_capacity b" "bus_runner (recover c revision m b) = bus_runner b"
  by (auto simp: recover_def split: option.splits)

definition recover_sub :: "nat \<Rightarrow> runner_message \<Rightarrow> bus \<Rightarrow> subscription \<Rightarrow> subscription" where
  "recover_sub revision m b s =
     (if \<not> bus_closed b \<and> sub_revision s = revision \<and> length (sub_messages s) < bus_capacity b \<and>
         msg_id m \<notin> fst ` set (sub_messages s)
      then s\<lparr>sub_messages := sub_messages s @ [(msg_id m, m)], sub_recovered := insert (msg_id m) (sub_recovered s)\<rparr>
      else s)"

lemma get_sub_recover:
  "get_sub k (recover c revision m b) =
     (if k = (c, msg_destination m) then map_option (recover_sub revision m b) (get_sub k b) else get_sub k b)"
  by (auto simp: recover_def recover_sub_def split: option.splits)

definition drop_sub :: "runner_message \<Rightarrow> subscription \<Rightarrow> subscription" where
  "drop_sub m s = s\<lparr>sub_revision := sub_revision s + 1,
     sub_messages := filter (\<lambda>(i, _). i \<noteq> msg_id m) (sub_messages s), sub_recovered := sub_recovered s - {msg_id m}\<rparr>"

lemma drop_message_sub:
  "get_sub k (fst (drop_message c m (b, w))) =
     (if k = (c, msg_destination m) then map_option (drop_sub m) (get_sub k b) else get_sub k b) \<and>
   bus_closed (fst (drop_message c m (b, w))) = bus_closed b \<and>
   bus_capacity (fst (drop_message c m (b, w))) = bus_capacity b"
  by (auto simp: drop_message_def drop_sub_def split: option.splits)

lemma drop_messages_sub:
  assumes "\<forall>m \<in> set ms. msg_destination m = snd k"
  shows "get_sub k (fst (fold (drop_message (fst k)) ms (b, w))) = map_option (fold drop_sub ms) (get_sub k b) \<and>
    bus_closed (fst (fold (drop_message (fst k)) ms (b, w))) = bus_closed b \<and>
    bus_capacity (fst (fold (drop_message (fst k)) ms (b, w))) = bus_capacity b"
  using assms
proof (induction ms arbitrary: b w)
  case Nil
  show ?case by (simp add: option.map_id [unfolded id_def])
next
  case (Cons m ms)
  obtain b' w' where d: "drop_message (fst k) m (b, w) = (b', w')" by (cases "drop_message (fst k) m (b, w)")
  with drop_message_sub [of k "fst k" m b w] Cons.prems have
    "get_sub k b' = map_option (drop_sub m) (get_sub k b)" "bus_closed b' = bus_closed b" "bus_capacity b' = bus_capacity b"
    by (auto simp: prod_eq_iff)
  with Cons d show ?case by (simp add: option.map_comp comp_def)
qed

lemma fold_drop_sub:
  "sub_recovered (fold drop_sub ms s) = sub_recovered s - msg_id ` set ms"
  "sub_messages (fold drop_sub ms s) = filter (\<lambda>(i, _). i \<notin> msg_id ` set ms) (sub_messages s)"
  "sub_revision (fold drop_sub ms s) = sub_revision s + length ms"
  by (induction ms arbitrary: s) (auto simp: drop_sub_def split_beta intro: filter_cong)

section \<open>The interface to the store\<close>

text \<open>
  Receipts of the consumer remove exactly the acknowledged messages from its view, and nothing else
  does.
\<close>

locale message_store =
  fixes visible :: "'s \<Rightarrow> runner_message set"
    and acks :: "'s \<Rightarrow> string list \<Rightarrow> 's \<Rightarrow> bool"
    and other :: "'s \<Rightarrow> 's \<Rightarrow> bool"
  assumes ack_visible: "acks s ids s' \<Longrightarrow> visible s' = {m \<in> visible s. msg_id m \<notin> set ids}"
    and other_visible: "other s s' \<Longrightarrow> visible s \<subseteq> visible s'"
begin

text \<open>Unacknowledged in the store, or the acknowledgement is being completed.\<close>

definition live :: "'s mailbox \<Rightarrow> string set" where
  "live x = msg_id ` visible (mb_store x) \<union> (\<Union>ms \<in> set (mb_acking x). msg_id ` set ms)"

definition snapshot_ok :: "'s mailbox \<Rightarrow> subscription \<Rightarrow> bool" where
  "snapshot_ok x s \<longleftrightarrow> (\<forall>ms revision. mb_snapshot x = Some (ms, revision) \<longrightarrow> revision \<le> sub_revision s \<and>
     (revision = sub_revision s \<longrightarrow> msg_id ` set ms \<subseteq> live x))"

definition buffer_ok :: "'s mailbox \<Rightarrow> subscription \<Rightarrow> bool" where
  "buffer_ok x s \<longleftrightarrow> length (sub_messages s) \<le> bus_capacity (mb_bus x) \<and> distinct (map fst (sub_messages s)) \<and>
     sub_recovered s \<subseteq> fst ` set (sub_messages s) \<and> sub_recovered s \<subseteq> live x"

definition mailbox_ok :: "sub_key \<Rightarrow> 's mailbox \<Rightarrow> bool" where
  "mailbox_ok k x \<longleftrightarrow>
     (\<forall>s. get_sub k (mb_bus x) = Some s \<longrightarrow> buffer_ok x s \<and> (\<not> bus_closed (mb_bus x) \<longrightarrow> snapshot_ok x s)) \<and>
     (\<forall>ms revision. mb_snapshot x = Some (ms, revision) \<longrightarrow>
        bus_closed (mb_bus x) \<or> get_sub k (mb_bus x) \<noteq> None) \<and>
     (\<forall>ms revision m. mb_snapshot x = Some (ms, revision) \<longrightarrow> m \<in> set ms \<longrightarrow> msg_destination m = snd k) \<and>
     (\<forall>ms \<in> set (mb_acking x). \<forall>m \<in> set ms. msg_destination m = snd k)"

lemma mailbox_okI:
  assumes "\<And>s. get_sub k (mb_bus x) = Some s \<Longrightarrow> buffer_ok x s"
    "\<And>s. get_sub k (mb_bus x) = Some s \<Longrightarrow> \<not> bus_closed (mb_bus x) \<Longrightarrow> snapshot_ok x s"
    "\<And>ms revision. mb_snapshot x = Some (ms, revision) \<Longrightarrow> bus_closed (mb_bus x) \<or> get_sub k (mb_bus x) \<noteq> None"
    "\<And>ms revision m. mb_snapshot x = Some (ms, revision) \<Longrightarrow> m \<in> set ms \<Longrightarrow> msg_destination m = snd k"
    "\<And>ms m. ms \<in> set (mb_acking x) \<Longrightarrow> m \<in> set ms \<Longrightarrow> msg_destination m = snd k"
  shows "mailbox_ok k x"
  using assms unfolding mailbox_ok_def by blast

lemma mailbox_okD:
  assumes "mailbox_ok k x"
  shows "get_sub k (mb_bus x) = Some s \<Longrightarrow> buffer_ok x s"
    "get_sub k (mb_bus x) = Some s \<Longrightarrow> \<not> bus_closed (mb_bus x) \<Longrightarrow> snapshot_ok x s"
    "mb_snapshot x = Some (ms, revision) \<Longrightarrow> bus_closed (mb_bus x) \<or> get_sub k (mb_bus x) \<noteq> None"
    "mb_snapshot x = Some (ms, revision) \<Longrightarrow> m \<in> set ms \<Longrightarrow> msg_destination m = snd k"
    "ns \<in> set (mb_acking x) \<Longrightarrow> m \<in> set ns \<Longrightarrow> msg_destination m = snd k"
  using assms unfolding mailbox_ok_def by blast+

lemma live_store:
  "other (mb_store x) s \<Longrightarrow> live x \<subseteq> live (x\<lparr>mb_store := s\<rparr>)"
  using other_visible by (fastforce simp: live_def)

lemma live_commit:
  "acks (mb_store x) (map msg_id ms) s \<Longrightarrow> live x \<subseteq> live (x\<lparr>mb_store := s, mb_acking := ms # mb_acking x\<rparr>)"
  using ack_visible [of "mb_store x" "map msg_id ms" s] by (auto simp: live_def)

lemma mailbox_ok_store:
  assumes ok: "mailbox_ok k x" and same: "mb_bus y = mb_bus x" "mb_snapshot y = mb_snapshot x" and "live x \<subseteq> live y"
    and "\<And>ms m. ms \<in> set (mb_acking y) \<Longrightarrow> m \<in> set ms \<Longrightarrow> msg_destination m = snd k"
  shows "mailbox_ok k y"
proof (rule mailbox_okI)
  fix s assume "get_sub k (mb_bus y) = Some s"
  then show "buffer_ok y s" using mailbox_okD(1) [OF ok, of s] assms(4) same by (auto simp: buffer_ok_def)
next
  fix s assume "get_sub k (mb_bus y) = Some s" "\<not> bus_closed (mb_bus y)"
  then show "snapshot_ok y s" using mailbox_okD(2) [OF ok, of s] assms(4) same by (auto simp: snapshot_ok_def)
qed (use mailbox_okD(3,4) [OF ok] same assms(5) in auto)

lemma mailbox_ok_bus:
  assumes ok: "mailbox_ok k x" and y: "y = x\<lparr>mb_bus := b\<rparr>"
    and sub: "\<And>s. get_sub k b = Some s \<Longrightarrow> buffer_ok y s"
    and snap: "\<And>s. get_sub k b = Some s \<Longrightarrow> \<not> bus_closed b \<Longrightarrow> snapshot_ok y s"
    and keep: "\<not> bus_closed b \<Longrightarrow> \<not> bus_closed (mb_bus x) \<and> (get_sub k (mb_bus x) \<noteq> None \<longrightarrow> get_sub k b \<noteq> None)"
  shows "mailbox_ok k y"
  by (rule mailbox_okI) (use sub snap keep mailbox_okD(3-5) [OF ok] y in \<open>auto dest: mailbox_okD(3) [OF ok]\<close>)

lemma live_bus [simp]: "live (x\<lparr>mb_bus := b\<rparr>) = live x"
  by (simp add: live_def)

lemma put_message_simps:
  "distinct (map fst ms) \<Longrightarrow> distinct (map fst (put_message m ms))"
  "fst ` set (put_message m ms) = insert (msg_id m) (fst ` set ms)"
  "length (put_message m ms) \<le> Suc (length ms)"
  by (auto simp: put_message_def)

lemma deliver_ok:
  assumes ok: "mailbox_ok k x" and d: "deliver_committed m (mb_bus x) = Inr b"
  shows "mailbox_ok k (x\<lparr>mb_bus := b\<rparr>)"
proof (rule mailbox_ok_bus [OF ok refl])
  note f = deliver_committed_sub [OF d, of k]
  show "\<not> bus_closed b \<Longrightarrow> \<not> bus_closed (mb_bus x) \<and> (get_sub k (mb_bus x) \<noteq> None \<longrightarrow> get_sub k b \<noteq> None)"
    using f by auto
  fix s assume s: "get_sub k b = Some s"
  with f obtain s0 where s0: "get_sub k (mb_bus x) = Some s0" by (cases "get_sub k (mb_bus x)") auto
  let ?fits = "\<not> bus_closed (mb_bus x) \<and> snd k = msg_destination m \<and> length (sub_messages s0) < bus_capacity (mb_bus x)"
  have s_def: "s = (if ?fits then s0\<lparr>sub_messages := put_message m (sub_messages s0)\<rparr> else s0)"
    using f s s0 by simp
  have c: "s = s0 \<or> length (sub_messages s0) < bus_capacity (mb_bus x) \<and>
      s = s0\<lparr>sub_messages := put_message m (sub_messages s0)\<rparr>" unfolding s_def by presburger
  have cap: "bus_capacity b = bus_capacity (mb_bus x)" using f by blast
  show "buffer_ok (x\<lparr>mb_bus := b\<rparr>) s"
    using c
  proof
    assume "s = s0"
    then show ?thesis using mailbox_okD(1) [OF ok s0] cap by (simp add: buffer_ok_def)
  next
    assume "length (sub_messages s0) < bus_capacity (mb_bus x) \<and>
      s = s0\<lparr>sub_messages := put_message m (sub_messages s0)\<rparr>"
    then show ?thesis
      using mailbox_okD(1) [OF ok s0] cap put_message_simps [where ms = "sub_messages s0" and m = m]
      by (simp add: buffer_ok_def subset_insertI2)
  qed
  have rev: "sub_revision s = sub_revision s0" using c by auto
  assume "\<not> bus_closed b"
  then have "\<not> bus_closed (mb_bus x)" using f by blast
  from mailbox_okD(2) [OF ok s0 this] rev show "snapshot_ok (x\<lparr>mb_bus := b\<rparr>) s"
    by (simp add: snapshot_ok_def)
qed

lemma subscribe_ok:
  assumes ok: "mailbox_ok k x" and d: "subscribe j (mb_bus x) = (b, w)"
  shows "mailbox_ok k (x\<lparr>mb_bus := b\<rparr>)"
proof (rule mailbox_ok_bus [OF ok refl])
  have b: "bus_closed b = bus_closed (mb_bus x)" "bus_capacity b = bus_capacity (mb_bus x)"
    and g: "get_sub k b = (if k = j \<and> get_sub k (mb_bus x) = None then Some new_subscription else get_sub k (mb_bus x))"
    using d by (auto simp: subscribe_def get_sub_def map_add_def split: if_splits option.splits)
  show "\<not> bus_closed b \<Longrightarrow> \<not> bus_closed (mb_bus x) \<and> (get_sub k (mb_bus x) \<noteq> None \<longrightarrow> get_sub k b \<noteq> None)"
    using b g by auto
  fix s assume s: "get_sub k b = Some s"
  then have c: "get_sub k (mb_bus x) = Some s \<or> get_sub k (mb_bus x) = None \<and> s = new_subscription"
    using g by (simp split: if_splits)
  show "buffer_ok (x\<lparr>mb_bus := b\<rparr>) s"
    using c
  proof
    assume "get_sub k (mb_bus x) = Some s"
    from mailbox_okD(1) [OF ok this] b show ?thesis by (simp add: buffer_ok_def)
  qed (simp add: buffer_ok_def new_subscription_def)
  assume nc: "\<not> bus_closed b"
  show "snapshot_ok (x\<lparr>mb_bus := b\<rparr>) s"
    using c
  proof
    assume "get_sub k (mb_bus x) = Some s"
    from mailbox_okD(2) [OF ok this] b nc show ?thesis by (simp add: snapshot_ok_def)
  next
    assume "get_sub k (mb_bus x) = None \<and> s = new_subscription"
    with mailbox_okD(3) [OF ok] b nc show ?thesis by (force simp: snapshot_ok_def)
  qed
qed

lemma recover_ok:
  assumes ok: "mailbox_ok k x" and sn: "mb_snapshot x = Some (m # ms, revision)"
  shows "mailbox_ok k (x\<lparr>mb_bus := recover (fst k) revision m (mb_bus x), mb_snapshot := Some (ms, revision)\<rparr>)"
    (is "mailbox_ok k ?y")
proof (rule mailbox_okI)
  have k: "k = (fst k, msg_destination m)" using mailbox_okD(4) [OF ok sn, of m] by (cases k) auto
  have live: "live ?y = live x" by (simp add: live_def)
  fix s assume "get_sub k (mb_bus ?y) = Some s"
  with k obtain s0 where s0: "get_sub k (mb_bus x) = Some s0" and s: "s = recover_sub revision m (mb_bus x) s0"
    by (auto simp: get_sub_recover)
  have "buffer_ok ?y s0" using mailbox_okD(1) [OF ok s0] live by (simp add: buffer_ok_def)
  moreover have "msg_id m \<in> live x" if "\<not> bus_closed (mb_bus x)" "sub_revision s0 = revision"
    using mailbox_okD(2) [OF ok s0 that(1)] sn that(2) by (auto simp: snapshot_ok_def)
  ultimately show "buffer_ok ?y s"
    unfolding s using live by (auto simp: recover_sub_def buffer_ok_def)
  assume "\<not> bus_closed (mb_bus ?y)"
  then show "snapshot_ok ?y s"
    using mailbox_okD(2) [OF ok s0] sn live unfolding s by (auto simp: snapshot_ok_def recover_sub_def)
next
  show "bus_closed (mb_bus ?y) \<or> get_sub k (mb_bus ?y) \<noteq> None"
    using mailbox_okD(3) [OF ok sn] by (auto simp: get_sub_recover)
qed (use mailbox_okD(4,5) [OF ok] sn in auto)

lemma apply_ok:
  assumes ok: "mailbox_ok k x" and ack: "mb_acking x = as @ ms # bs"
  shows "mailbox_ok k (x\<lparr>mb_bus := fst (fold (drop_message (fst k)) ms (mb_bus x, False)), mb_acking := as @ bs\<rparr>)"
    (is "mailbox_ok k ?y")
proof (rule mailbox_okI)
  have dest: "\<forall>m \<in> set ms. msg_destination m = snd k" using mailbox_okD(5) [OF ok] ack by auto
  note f = drop_messages_sub [OF dest, of "mb_bus x" False]
  have live: "live x - msg_id ` set ms \<subseteq> live ?y" unfolding live_def using ack by auto
  fix s assume "get_sub k (mb_bus ?y) = Some s"
  with f obtain s0 where s0: "get_sub k (mb_bus x) = Some s0" and s: "s = fold drop_sub ms s0" by auto
  have len: "length (filter P xs) \<le> n" if "length xs \<le> n" for P and xs :: "(string \<times> runner_message) list" and n
    using that length_filter_le [of P xs] by linarith
  let ?M = "filter (\<lambda>(i, _). i \<notin> msg_id ` set ms) (sub_messages s0)"
  have b0: "length (sub_messages s0) \<le> bus_capacity (mb_bus x)" "distinct (map fst (sub_messages s0))"
    "sub_recovered s0 \<subseteq> fst ` set (sub_messages s0)" "sub_recovered s0 \<subseteq> live x"
    using mailbox_okD(1) [OF ok s0] by (simp_all add: buffer_ok_def)
  have "fst ` set ?M = fst ` set (sub_messages s0) - msg_id ` set ms" by force
  then show "buffer_ok ?y s"
    using b0 live f len [OF b0(1)]
    unfolding s buffer_ok_def fold_drop_sub by (simp add: distinct_map_filter) blast
  assume "\<not> bus_closed (mb_bus ?y)"
  then show "snapshot_ok ?y s"
    using mailbox_okD(2) [OF ok s0] f live unfolding s snapshot_ok_def fold_drop_sub
    by (cases "ms = []") (fastforce)+
next
  fix ns revision assume "mb_snapshot ?y = Some (ns, revision)"
  moreover have "\<forall>m \<in> set ms. msg_destination m = snd k" using mailbox_okD(5) [OF ok] ack by auto
  ultimately show "bus_closed (mb_bus ?y) \<or> get_sub k (mb_bus ?y) \<noteq> None"
    using mailbox_okD(3) [OF ok, of ns revision] drop_messages_sub [of ms k "mb_bus x" False] by auto
next
  fix ns m assume "ns \<in> set (mb_acking ?y)" "m \<in> set ns"
  with ack show "msg_destination m = snd k" by (intro mailbox_okD(5) [OF ok, of ns]) auto
qed (use mailbox_okD(4) [OF ok] in auto)

lemma mailbox_step_ok:
  assumes "mailbox_step visible acks other k x y" "mailbox_ok k x"
  shows "mailbox_ok k y"
  using assms
proof (induction rule: mailbox_step.induct)
  case (store x s)
  show ?case
    by (rule mailbox_ok_store [OF store(2)]) (use live_store [OF store(1)] mailbox_okD(5) [OF store(2)] in auto)
next
  case (deliver m x b)
  then show ?case by (blast intro: deliver_ok)
next
  case (open_sub j x b woken)
  then show ?case by (blast intro: subscribe_ok)
next
  case (read x s ms)
  have live: "live (x\<lparr>mb_snapshot := Some (ms, sub_revision s)\<rparr>) = live x" by (simp add: live_def)
  have "msg_id ` set ms \<subseteq> live x" using read(2) by (auto simp: live_def)
  then show ?case
    using read(1,2) mailbox_okD(1,5) [OF read(3)] live
    by (intro mailbox_okI) (auto simp: buffer_ok_def snapshot_ok_def)
next
  case (recover x m ms revision)
  then show ?case by (blast intro: recover_ok)
next
  case (ack_commit x ms s)
  show ?case
    by (rule mailbox_ok_store [OF ack_commit(3)])
      (use live_commit [OF ack_commit(1)] mailbox_okD(5) [OF ack_commit(3)] ack_commit(2) in auto)
next
  case (ack_apply x as ms bs)
  then show ?case by (blast intro: apply_ok)
next
  case (close x)
  have "get_sub k (fst (close_bus (mb_bus x))) = None" "bus_closed (fst (close_bus (mb_bus x)))"
    by (simp_all add: close_bus_def notify_def get_sub_def bump_def)
  then show ?case using mailbox_okD(4,5) [OF close] by (intro mailbox_okI) auto
qed

lemma mailbox_steps_ok: "(mailbox_step visible acks other k)\<^sup>*\<^sup>* x y \<Longrightarrow> mailbox_ok k x \<Longrightarrow> mailbox_ok k y"
  by (induction rule: rtranclp_induct) (auto intro: mailbox_step_ok)

lemma fresh_mailbox_ok:
  "bus_subs (mb_bus x) = [] \<Longrightarrow> mb_snapshot x = None \<Longrightarrow> mb_acking x = [] \<Longrightarrow> mailbox_ok k x"
  by (rule mailbox_okI) (simp_all add: get_sub_def)

end

section \<open>The repository as the store\<close>

definition visible_to :: "string \<Rightarrow> string \<Rightarrow> string \<Rightarrow> db \<Rightarrow> runner_message set" where
  "visible_to runner_id destination consumer d = set (pending_rows runner_id destination consumer d)"

definition receipts_by :: "string \<Rightarrow> string \<Rightarrow> db \<Rightarrow> string list \<Rightarrow> db \<Rightarrow> bool" where
  "receipts_by runner_id consumer d ids d' \<longleftrightarrow>
     (\<exists>h now. acknowledge_messages h runner_id ids consumer now d = Inr ((), d'))"

definition others :: "string \<Rightarrow> db \<Rightarrow> db \<Rightarrow> bool" where
  "others consumer d d' \<longleftrightarrow> db_ok d \<and> db_step d d' \<and> (\<forall>i. acknowledged i consumer d' \<longrightarrow> acknowledged i consumer d)"

lemma acknowledged_fold:
  "acknowledged i c (fold (add_receipt c now) xs d) \<longleftrightarrow> acknowledged i c d \<or> i \<in> set xs"
proof (induction xs arbitrary: d)
  case (Cons x xs)
  have "acknowledged i c (add_receipt c now x d) \<longleftrightarrow> acknowledged i c d \<or> i = x"
    by (auto simp: add_receipt_def acknowledged_def)
  with Cons show ?case by auto
qed simp

lemma acknowledge_messages_effect:
  assumes "acknowledge_messages h r ids c now d = Inr (u, d')"
  shows "messages d' = messages d \<and> (acknowledged i c d' \<longleftrightarrow> acknowledged i c d \<or> i \<in> set ids)"
proof
  obtain rs where "d' = d\<lparr>receipts := rs\<rparr>" using acknowledge_messages_frame [OF assms] by blast
  then show "messages d' = messages d" by simp
  from assms consider "ids = []" "d' = d" | "d' = fold (add_receipt c now) (sort (remdups ids)) d"
    by (auto simp: acknowledge_messages_def Let_def split: if_splits)
  then show "acknowledged i c d' \<longleftrightarrow> acknowledged i c d \<or> i \<in> set ids"
    by cases (simp_all add: acknowledged_fold)
qed

interpretation mailbox: message_store "visible_to r dest c" "receipts_by r c" "others c" for r dest c
proof
  fix s ids s' assume "receipts_by r c s ids s'"
  then obtain h now where a: "acknowledge_messages h r ids c now s = Inr ((), s')" by (auto simp: receipts_by_def)
  from acknowledge_messages_effect [OF a] show "visible_to r dest c s' = {m \<in> visible_to r dest c s. msg_id m \<notin> set ids}"
    by (auto simp: visible_to_def pending_rows_iff)
next
  fix s s' assume o: "others c s s'"
  show "visible_to r dest c s \<subseteq> visible_to r dest c s'"
  proof
    fix m assume m: "m \<in> visible_to r dest c s"
    have "distinct (map msg_id (messages s))" using o view_okD(3) [OF db_okD(2)] by (auto simp: others_def)
    with m have "get_message (msg_id m) s = Some m"
      by (auto simp: visible_to_def pending_rows_iff intro: get_row_unique)
    with evolvesD(3) [OF db_step_evolves] o have "get_message (msg_id m) s' = Some m" by (auto simp: others_def)
    from get_row_Some [OF this] m o show "m \<in> visible_to r dest c s'"
      by (auto simp: visible_to_def pending_rows_iff others_def)
  qed
qed


definition sample_bus :: "(sub_key \<times> subscription) list \<Rightarrow> bus" where
  "sample_bus subs = \<lparr>bus_runner = ''r'', bus_capacity = 2, bus_generation = 0, bus_closed = False,
     bus_reconciled = True, bus_subs = subs\<rparr>"

definition stored_db :: db where
  "stored_db = empty_db\<lparr>messages := [sample_message]\<rparr>"

definition recovered_bus :: bus where
  "recovered_bus = recover ''c'' 0 sample_message (fst (subscribe (''c'', ''s'') (sample_bus [])))"

lemma recovered_bus_sub:
  "get_sub (''c'', ''s'') recovered_bus =
     Some \<lparr>sub_messages = [(''m'', sample_message)], sub_recovered = {''m''}, sub_revision = 0\<rparr>"
  by (simp add: recovered_bus_def recover_def subscribe_def sample_bus_def get_sub_def new_subscription_def
      sample_message_def update_sub_def bump_def)

lemma sample_pending: "pending_rows ''r'' ''s'' ''c'' stored_db = [sample_message]"
  by (simp add: pending_rows_def stored_db_def empty_db_def acknowledged_def sample_message_def)


section \<open>A reconciliation pass\<close>

text \<open>Recovery only appends to buffers, and only what \<open>P\<close> allows for the Runner and subscription.\<close>

type_synonym growth = "string \<Rightarrow> sub_key \<Rightarrow> string \<Rightarrow> bool"

definition sub_grows :: "(string \<Rightarrow> bool) \<Rightarrow> subscription option \<Rightarrow> subscription option \<Rightarrow> bool" where
  "sub_grows P x y \<longleftrightarrow>
     (case x of None \<Rightarrow> y = None
      | Some s \<Rightarrow> \<exists>s' ns. y = Some s' \<and> sub_revision s' = sub_revision s \<and> sub_messages s' = sub_messages s @ ns \<and>
          (\<forall>n \<in> set ns. P (fst n)))"

definition bus_grows :: "growth \<Rightarrow> bus \<Rightarrow> bus \<Rightarrow> bool" where
  "bus_grows P b b' \<longleftrightarrow> bus_runner b' = bus_runner b \<and> bus_closed b' = bus_closed b \<and> bus_capacity b' = bus_capacity b \<and>
     (\<forall>k. sub_grows (P (bus_runner b) k) (get_sub k b) (get_sub k b'))"

lemma sub_grows_refl [simp]: "sub_grows P x x"
  by (auto simp: sub_grows_def split: option.splits)

lemma sub_grows_trans: "sub_grows P x y \<Longrightarrow> sub_grows P y z \<Longrightarrow> sub_grows P x z"
  unfolding sub_grows_def by (fastforce split: option.splits)

lemma bus_grows_refl [simp]: "bus_grows P b b"
  by (simp add: bus_grows_def)

lemma bus_grows_trans:
  assumes "bus_grows P a b" "bus_grows P b c"
  shows "bus_grows P a c"
  using assms sub_grows_trans unfolding bus_grows_def by metis

lemma bus_growsD:
  assumes "bus_grows P b b'" "get_sub k b = Some s"
  shows "\<exists>s' ns. get_sub k b' = Some s' \<and> sub_revision s' = sub_revision s \<and> sub_messages s' = sub_messages s @ ns \<and>
    (\<forall>n \<in> set ns. P (bus_runner b) k (fst n))"
proof -
  have "sub_grows (P (bus_runner b) k) (get_sub k b) (get_sub k b')"
    using assms(1) unfolding bus_grows_def by blast
  with assms(2) show ?thesis by (simp add: sub_grows_def)
qed

lemma recover_grows:
  assumes "P (bus_runner b) (c, msg_destination m) (msg_id m)"
  shows "bus_grows P b (recover c revision m b)"
proof -
  have "sub_grows (P (bus_runner b) k) (get_sub k b) (get_sub k (recover c revision m b))" for k
    using assms by (auto simp: get_sub_recover sub_grows_def recover_sub_def split: option.splits)
  then show ?thesis by (simp add: bus_grows_def)
qed

definition buses_grow :: "growth \<Rightarrow> bus list \<Rightarrow> bus list \<Rightarrow> bool" where
  "buses_grow P = list_all2 (bus_grows P)"

lemma buses_grow_refl [simp]: "buses_grow P bs bs"
  by (simp add: buses_grow_def list_all2_refl)

lemma buses_grow_trans: "buses_grow P as bs \<Longrightarrow> buses_grow P bs cs \<Longrightarrow> buses_grow P as cs"
  unfolding buses_grow_def by (rule list_all2_trans) (auto intro: bus_grows_trans)

lemma recover_owned_grows:
  assumes "P (msg_runner_id m) (c, msg_destination m) (msg_id m)"
  shows "buses_grow P bs (recover_owned c owners m bs)"
  using assms
  by (auto simp: buses_grow_def recover_owned_def list_all2_map2 intro!: list_all2_refl recover_grows split: option.splits)

lemma fold_recover_grows:
  assumes "\<And>m. m \<in> set ms \<Longrightarrow> P (msg_runner_id m) (c, msg_destination m) (msg_id m)"
  shows "buses_grow P bs (fold (recover_owned c owners) ms bs)"
  using assms
proof (induction ms arbitrary: bs)
  case (Cons m ms)
  have "buses_grow P bs (recover_owned c owners m bs)" by (rule recover_owned_grows) (simp add: Cons.prems)
  moreover have "buses_grow P (recover_owned c owners m bs) (fold (recover_owned c owners) (m # ms) bs)"
    using Cons by simp
  ultimately show ?case by (rule buses_grow_trans)
qed simp

lemma buses_growD:
  "buses_grow P bs bs' \<Longrightarrow> b \<in> set bs \<Longrightarrow> \<exists>b' \<in> set bs'. bus_grows P b b'"
  unfolding buses_grow_def by (metis in_set_conv_nth list_all2_conv_all_nth)

lemma buses_grow_runners: "buses_grow P bs bs' \<Longrightarrow> map bus_runner bs' = map bus_runner bs"
  unfolding buses_grow_def by (induction rule: list_all2_induct) (auto simp: bus_grows_def)

text \<open>What the batched read returns.\<close>

lemma restore_message_same:
  "restore_message read m = Inr m' \<Longrightarrow>
     msg_id m' = msg_id m \<and> msg_runner_id m' = msg_runner_id m \<and> msg_destination m' = msg_destination m"
  by (auto simp: restore_message_def split: if_splits pyval.splits)

lemma pending_batch_sound:
  assumes "pending_messages_batch read rs dest c n d = Inr ms" "m \<in> set ms"
  shows "msg_destination m = dest \<and> msg_id m \<in> msg_id ` set (pending_rows (msg_runner_id m) dest c d)"
proof -
  have "rs \<noteq> []" using assms by (auto simp: pending_messages_batch_def)
  with assms obtain x where x: "x \<in> set (concat (map (\<lambda>r. take n (pending_rows r dest c d)) rs))" "restore_message read x = Inr m"
    by (auto simp: pending_messages_batch_def elim!: mapR_memberE split: if_splits)
  then obtain r where "r \<in> set rs" "x \<in> set (take n (pending_rows r dest c d))" by auto
  then have "x \<in> set (pending_rows r dest c d)" by (blast dest: in_set_takeD)
  with restore_message_same [OF x(2)] show ?thesis by (auto simp: pending_rows_iff)
qed

lemma mapR_forward: "mapR f xs = Inr ys \<Longrightarrow> x \<in> set xs \<Longrightarrow> \<exists>y \<in> set ys. f x = Inr y"
  by (induction xs arbitrary: ys) auto

lemma pending_batch_complete:
  assumes "pending_messages_batch read rs dest c 1 d = Inr ms" "r \<in> set rs" "pending_rows r dest c d \<noteq> []"
  shows "\<exists>m \<in> set ms. msg_runner_id m = r \<and> msg_destination m = dest"
proof -
  let ?x = "hd (pending_rows r dest c d)"
  have "rs \<noteq> []" using assms(2) by auto
  with assms(1) have "mapR (restore_message read) (concat (map (\<lambda>r. take 1 (pending_rows r dest c d)) rs)) = Inr ms"
    by (simp add: pending_messages_batch_def)
  moreover have "?x \<in> set (concat (map (\<lambda>r. take 1 (pending_rows r dest c d)) rs))"
    using assms(2,3) by (auto simp: take_Suc hd_in_set intro!: bexI [of _ r])
  ultimately obtain m where "m \<in> set ms" "restore_message read ?x = Inr m" by (blast dest: mapR_forward)
  with restore_message_same hd_in_set [OF assms(3)] show ?thesis by (fastforce simp: pending_rows_iff)
qed

text \<open>Every slot is in one batch of its group.\<close>

definition grouped :: "(sub_key \<times> 'a list) list \<Rightarrow> sub_key \<Rightarrow> 'a \<Rightarrow> bool" where
  "grouped gs j y \<longleftrightarrow> (\<exists>xs. (j, xs) \<in> set gs \<and> y \<in> set xs)"

lemma grouped_simps [simp]:
  "grouped [] j y = False"
  "grouped ((k, xs) # gs) j y \<longleftrightarrow> j = k \<and> y \<in> set xs \<or> grouped gs j y"
  by (auto simp: grouped_def)

lemma grouped_add [simp]: "grouped (add_group k x gs) j y \<longleftrightarrow> j = k \<and> y = x \<or> grouped gs j y"
  by (induction k x gs rule: add_group.induct) auto

lemma grouped_fold: "grouped (fold (\<lambda>(k, x). add_group k x) ss gs) j y \<longleftrightarrow> (j, y) \<in> set ss \<or> grouped gs j y"
  by (induction ss arbitrary: gs) (auto split: prod.splits)

lemma concat_batches: "concat (batches xs) = xs"
proof (induction xs rule: batches.induct)
  case (1 xs)
  then show ?case by (subst batches.simps) simp
qed

lemma grouped_append: "grouped (gs @ hs) j y \<longleftrightarrow> grouped gs j y \<or> grouped hs j y"
  by (induction gs) auto

lemma grouped_map: "grouped (map (\<lambda>b. (k, b)) bss) j y \<longleftrightarrow> j = k \<and> y \<in> set (concat bss)"
  by (induction bss) auto

lemma reconcile_tasks_mem: "grouped (reconcile_tasks buses) k x \<longleftrightarrow> (k, x) \<in> set (open_slots buses)"
proof -
  have "grouped (concat (map (\<lambda>(k, xs). map (\<lambda>batch. (k, batch)) (batches xs)) gs)) k x \<longleftrightarrow> grouped gs k x"
    for gs :: "(sub_key \<times> (string \<times> nat) list) list"
    by (induction gs) (auto simp: grouped_append grouped_map concat_batches simp del: set_concat)
  then show ?thesis by (simp add: reconcile_tasks_def reconcile_groups_def grouped_fold)
qed

lemma open_slots_mem:
  "(k, r, n) \<in> set (open_slots buses) \<longleftrightarrow>
     (\<exists>b \<in> set buses. \<exists>s. (k, s) \<in> set (bus_subs b) \<and> length (sub_messages s) < bus_capacity b \<and>
        r = bus_runner b \<and> n = sub_revision s)"
  by (force simp: open_slots_def)

text \<open>One batch feeds each of its buses that has an empty buffer and something pending.\<close>

definition still_pending :: "db \<Rightarrow> growth" where
  "still_pending d r k i \<longleftrightarrow> i \<in> msg_id ` set (pending_rows r (snd k) (fst k) d)"

lemma reconcile_batch_grows:
  assumes "reconcile_batch read d bs t = Inr bs'"
  shows "buses_grow (still_pending d) bs bs'"
proof -
  obtain c dest batch where t: "t = ((c, dest), batch)" by (metis surj_pair)
  with assms obtain ms where "pending_messages_batch read (map fst batch) dest c 1 d = Inr ms"
    "bs' = fold (recover_owned c batch) ms bs"
    by (auto simp: reconcile_batch_def)
  with pending_batch_sound show ?thesis by (auto simp: still_pending_def intro!: fold_recover_grows)
qed

lemma foldR_reconcile_grows:
  assumes "foldR (reconcile_batch read d) bs ts = Inr bs'"
  shows "buses_grow (still_pending d) bs bs'"
  by (rule foldR_invariant [where P = "buses_grow (still_pending d) bs", OF assms])
    (auto intro: buses_grow_trans reconcile_batch_grows)

lemma recover_feeds:
  assumes "get_sub (c, msg_destination m) b = Some s" "\<not> bus_closed b" "0 < bus_capacity b"
  shows "\<exists>s'. get_sub (c, msg_destination m) (recover c (sub_revision s) m b) = Some s' \<and> sub_messages s' \<noteq> []"
  using assms by (auto simp: get_sub_recover recover_sub_def)

definition fed :: "sub_key \<Rightarrow> string \<Rightarrow> bus list \<Rightarrow> bool" where
  "fed k r bs \<longleftrightarrow> (\<exists>b \<in> set bs. bus_runner b = r \<and> (\<exists>s. get_sub k b = Some s \<and> sub_messages s \<noteq> []))"

lemma fed_grows: "fed k r bs \<Longrightarrow> buses_grow P bs bs' \<Longrightarrow> fed k r bs'"
proof -
  assume "fed k r bs" and g: "buses_grow P bs bs'"
  then obtain b s where b: "b \<in> set bs" "bus_runner b = r" "get_sub k b = Some s" "sub_messages s \<noteq> []"
    by (auto simp: fed_def)
  from buses_growD [OF g b(1)] obtain b' where b': "b' \<in> set bs'" "bus_grows P b b'" by blast
  from bus_growsD [OF b'(2) b(3)] b b' show "fed k r bs'" by (fastforce simp: fed_def bus_grows_def)
qed

definition waiting :: "sub_key \<Rightarrow> string \<Rightarrow> nat \<Rightarrow> bus list \<Rightarrow> bool" where
  "waiting k r revision bs \<longleftrightarrow> (\<exists>b \<in> set bs. bus_runner b = r \<and> \<not> bus_closed b \<and> 0 < bus_capacity b \<and>
     (\<exists>s. get_sub k b = Some s \<and> sub_revision s = revision))"

lemma waiting_grows: "waiting k r n bs \<Longrightarrow> buses_grow P bs bs' \<Longrightarrow> waiting k r n bs'"
proof -
  assume "waiting k r n bs" and g: "buses_grow P bs bs'"
  then obtain b s where b: "b \<in> set bs" "bus_runner b = r" "\<not> bus_closed b" "0 < bus_capacity b"
    "get_sub k b = Some s" "sub_revision s = n"
    by (auto simp: waiting_def)
  from buses_growD [OF g b(1)] obtain b' where b': "b' \<in> set bs'" "bus_grows P b b'" by blast
  from bus_growsD [OF b'(2) b(5)] b b' show "waiting k r n bs'" by (auto simp: waiting_def bus_grows_def)
qed

lemma recover_owned_feeds:
  assumes "waiting (c, msg_destination m) (msg_runner_id m) n bs" "map_of (rev owners) (msg_runner_id m) = Some n"
  shows "fed (c, msg_destination m) (msg_runner_id m) (recover_owned c owners m bs)"
proof -
  from assms(1) obtain b s where b: "b \<in> set bs" "bus_runner b = msg_runner_id m" "\<not> bus_closed b" "0 < bus_capacity b"
    "get_sub (c, msg_destination m) b = Some s" "sub_revision s = n"
    by (auto simp: waiting_def)
  from recover_feeds [OF b(5,3,4)] b(6) obtain s' where s': "get_sub (c, msg_destination m) (recover c n m b) = Some s'"
    "sub_messages s' \<noteq> []" by auto
  have "recover c n m b \<in> set (recover_owned c owners m bs)"
    using b(1,2) assms(2) by (force simp: recover_owned_def)
  with s' b(2) show ?thesis unfolding fed_def by (intro bexI [of _ "recover c n m b"]) auto
qed

lemma fold_recover_feeds:
  assumes "waiting (c, dest) r n bs" "map_of (rev owners) r = Some n"
    and "\<exists>m \<in> set ms. msg_runner_id m = r \<and> msg_destination m = dest"
  shows "fed (c, dest) r (fold (recover_owned c owners) ms bs)"
  using assms
proof (induction ms arbitrary: bs)
  case (Cons m ms)
  have g: "buses_grow (\<lambda>_ _ _. True) bs (recover_owned c owners m bs)" by (rule recover_owned_grows) simp
  show ?case
  proof (cases "msg_runner_id m = r \<and> msg_destination m = dest")
    case True
    with Cons.prems have "fed (c, dest) r (recover_owned c owners m bs)" using recover_owned_feeds [of c m n bs owners] by simp
    then have "fed (c, dest) r (fold (recover_owned c owners) ms (recover_owned c owners m bs))"
      by (rule fed_grows) (rule fold_recover_grows [where P = "\<lambda>_ _ _. True"], simp)
    then show ?thesis by simp
  next
    case False
    with Cons.prems have "\<exists>m \<in> set ms. msg_runner_id m = r \<and> msg_destination m = dest" by auto
    with Cons.IH [OF waiting_grows [OF Cons.prems(1) g] Cons.prems(2)] show ?thesis by simp
  qed
qed simp

lemma slot_unique:
  assumes "distinct (map bus_runner bs)" "\<forall>b \<in> set bs. distinct (map fst (bus_subs b))"
    and "b \<in> set bs" "get_sub k b = Some s" "(k, bus_runner b, n) \<in> set (open_slots bs)"
  shows "n = sub_revision s"
proof -
  from assms(5) obtain b' s' where b': "b' \<in> set bs" "bus_runner b' = bus_runner b" "(k, s') \<in> set (bus_subs b')"
    "n = sub_revision s'" by (auto simp: open_slots_mem)
  have "b' = b" using assms(1,3) b'(1,2) by (auto simp: distinct_map inj_on_def)
  with assms(2,3) b'(3) have "get_sub k b = Some s'" by (simp add: get_sub_def)
  with assms(4) have "s' = s" by simp
  with b'(4) show ?thesis by simp
qed

text \<open>
  C18.  A reconciliation pass that gets its answers from the store feeds every mailbox: a
  subscription of an open bus with an empty buffer and unacknowledged messages in the store has at
  least one of them in its buffer afterwards, and whatever the pass puts into any buffer is
  unacknowledged.
\<close>

theorem reconcile_feeds:
  assumes "distinct (map bus_runner bs)" "\<forall>b \<in> set bs. distinct (map fst (bus_subs b))"
    and "reconcile_buses read d bs = Inr bs'"
    and "b \<in> set bs" "\<not> bus_closed b" "0 < bus_capacity b"
    and "get_sub (c, dest) b = Some s" "sub_messages s = []" "pending_rows (bus_runner b) dest c d \<noteq> []"
  shows "\<exists>b' \<in> set bs'. bus_runner b' = bus_runner b \<and>
    (\<exists>s'. get_sub (c, dest) b' = Some s' \<and> sub_messages s' \<noteq> [] \<and>
       fst ` set (sub_messages s') \<subseteq> msg_id ` set (pending_rows (bus_runner b) dest c d))"
proof -
  let ?k = "(c, dest)" and ?r = "bus_runner b" and ?n = "sub_revision s" and ?T = "reconcile_tasks bs"
  have "(?k, ?r, ?n) \<in> set (open_slots bs)"
    unfolding open_slots_mem using assms(4,6-8)
    by (intro bexI [of _ b] exI [of _ s]) (auto simp: get_sub_def dest: map_of_SomeD)
  then have "grouped ?T ?k (?r, ?n)" by (simp add: reconcile_tasks_mem)
  then obtain batch where batch: "(?k, batch) \<in> set ?T" "(?r, ?n) \<in> set batch" by (auto simp: grouped_def)
  have only: "n = ?n" if "(?r, n) \<in> set batch" for n
  proof -
    have "grouped ?T ?k (?r, n)" using batch(1) that by (auto simp: grouped_def)
    with slot_unique [OF assms(1,2,4,7)] show ?thesis by (simp add: reconcile_tasks_mem)
  qed
  have own: "map_of (rev batch) ?r = Some ?n"
  proof (cases "map_of (rev batch) ?r")
    case None
    with batch(2) show ?thesis by (auto simp: map_of_eq_None_iff rev_image_eqI)
  next
    case (Some n)
    then have "(?r, n) \<in> set batch" by (auto dest: map_of_SomeD)
    with Some only show ?thesis by simp
  qed
  from batch(1) obtain pre post where T: "?T = pre @ (?k, batch) # post" by (auto simp: in_set_conv_decomp)
  with assms(3) obtain b1 b2 where f1: "foldR (reconcile_batch read d) bs pre = Inr b1"
    and f2: "reconcile_batch read d b1 (?k, batch) = Inr b2" and f3: "foldR (reconcile_batch read d) b2 post = Inr bs'"
    by (auto simp: reconcile_buses_def foldR_append)
  have "waiting ?k ?r ?n bs" using assms(4-7) by (auto simp: waiting_def)
  then have w: "waiting ?k ?r ?n b1" by (rule waiting_grows) (rule foldR_reconcile_grows [OF f1])
  from f2 obtain ms where ms: "pending_messages_batch read (map fst batch) dest c 1 d = Inr ms"
    and b2: "b2 = fold (recover_owned c batch) ms b1"
    by (auto simp: reconcile_batch_def)
  have "?r \<in> set (map fst batch)" using batch(2) by force
  then have "fed ?k ?r b2" unfolding b2
    by (intro fold_recover_feeds [OF w own] pending_batch_complete [OF ms _ assms(9)])
  then have "fed ?k ?r bs'" by (rule fed_grows) (rule foldR_reconcile_grows [OF f3])
  then obtain b' s' where b': "b' \<in> set bs'" "bus_runner b' = ?r" "get_sub ?k b' = Some s'" "sub_messages s' \<noteq> []"
    by (auto simp: fed_def)
  have g: "buses_grow (still_pending d) bs bs'"
    using assms(3) unfolding reconcile_buses_def by (rule foldR_reconcile_grows)
  from buses_growD [OF g assms(4)] obtain b'' where b'': "b'' \<in> set bs'" "bus_grows (still_pending d) b b''" by blast
  have "b'' = b'"
    using buses_grow_runners [OF g] assms(1) b' b'' by (auto simp: distinct_map inj_on_def bus_grows_def dest: arg_cong [of _ _ distinct])
  with bus_growsD [OF b''(2) assms(7)] b'(3) assms(8)
  have "fst ` set (sub_messages s') \<subseteq> msg_id ` set (pending_rows ?r dest c d)"
    by (auto simp: still_pending_def)
  with b' show ?thesis by blast
qed

theorem reconcile_feeds_witness:
  "\<exists>bs'. reconcile_buses (\<lambda>_ _ _. Inr []) stored_db [sample_bus [((''c'', ''s''), new_subscription)]] = Inr bs' \<and>
     (\<exists>b' \<in> set bs'. \<exists>s'. get_sub (''c'', ''s'') b' = Some s' \<and> sub_messages s' \<noteq> [])"
proof -
  let ?b = "sample_bus [((''c'', ''s''), new_subscription)]"
  have tasks: "reconcile_tasks [?b] = [((''c'', ''s''), [(''r'', 0)])]"
    by (simp add: reconcile_tasks_def reconcile_groups_def open_slots_def sample_bus_def new_subscription_def batches.simps)
  have p: "pending_messages_batch (\<lambda>_ _ _. Inr []) [''r''] ''s'' ''c'' 1 stored_db = Inr [sample_message]"
    by (simp add: pending_messages_batch_def sample_pending restore_message_def) (simp add: sample_message_def)
  obtain bs' where r: "reconcile_buses (\<lambda>_ _ _. Inr []) stored_db [?b] = Inr bs'"
    unfolding reconcile_buses_def tasks using p by (simp add: reconcile_batch_def)
  have g: "get_sub (''c'', ''s'') ?b = Some new_subscription" by (simp add: get_sub_def sample_bus_def)
  have "pending_rows (bus_runner ?b) ''s'' ''c'' stored_db \<noteq> []" by (simp add: sample_bus_def sample_pending)
  from reconcile_feeds [OF _ _ r _ _ _ g _ this] r show ?thesis
    by (fastforce simp: sample_bus_def new_subscription_def)
qed

end
