(* ===== verification/Dispatch.thy ===== *)
theory Dispatch
  imports Message_Bus "HOL-Library.AList" "HOL-Library.Multiset"
begin

text \<open>
  \<open>WorkerDispatcher\<close> of \<open>runtime/dispatch.py\<close>: the admission of single requests under a global
  capacity and under the Worker limits of the runtimes they descend from, their execution, and the
  publication of their results.

  Asyncio runs one coroutine at a time and switches only at an \<open>await\<close>.  The state of the system is
  the dispatcher with the local variables of the coroutines it started: \<open>submission\<close> is a call of
  \<open>submit\<close> (which permits it still needs and which it holds), \<open>job\<close> a task made by it.  Two
  coroutines in the same local state behave alike, so they form multisets.  A semaphore is an object
  that outlives its entry in \<open>runtime_gates\<close> as long as a coroutine holds it, so it is a reference
  into \<open>dp_sems\<close>; \<open>sem_limit\<close> keeps the value it was built with.  The semaphores' fairness is not
  modelled: any coroutine that waits may get the next permit.

  The lemmas show that permits are conserved by every path through \<open>submit\<close> (so no path leaks
  one), that gates acquired in one order cannot deadlock, and that a commit repeated over lost
  answers publishes one completion.
\<close>

section \<open>State\<close>

type_synonym job_key = "string \<times> string"

record sem =
  sem_value :: nat
  sem_limit :: nat

definition new_sem :: "nat \<Rightarrow> sem" where
  "new_sem n = \<lparr>sem_value = n, sem_limit = n\<rparr>"

definition take_permit :: "sem \<Rightarrow> sem" where
  "take_permit s = s\<lparr>sem_value := sem_value s - 1\<rparr>"

definition give_permit :: "sem \<Rightarrow> sem" where
  "give_permit s = s\<lparr>sem_value := sem_value s + 1\<rparr>"

record dispatcher =
  dp_capacity :: sem
  dp_sems :: "sem list"
  dp_gates :: "(string \<times> nat) list"
  dp_limits :: "(string \<times> int) list"
  dp_runtimes :: "(string \<times> string list) list"
  dp_buses :: "(string \<times> bus) list"
  dp_environments :: "(string \<times> (string \<times> string) list) list"
  dp_active :: "job_key list"
  dp_waiting :: "job_key set"
  dp_cancelled :: "string set"
  dp_errors :: "(string \<times> py_exc) list"

definition new_dispatcher :: "int \<Rightarrow> dispatcher res" where
  "new_dispatcher capacity =
     (if capacity < 1 then Inl (ValueError ''Scheduler admission capacity must be positive'')
      else Inr \<lparr>dp_capacity = new_sem (nat capacity), dp_sems = [], dp_gates = [], dp_limits = [],
        dp_runtimes = [], dp_buses = [], dp_environments = [], dp_active = [], dp_waiting = {},
        dp_cancelled = {}, dp_errors = []\<rparr>)"

section \<open>Registration\<close>

definition add_gate :: "string \<Rightarrow> int \<Rightarrow> dispatcher \<Rightarrow> dispatcher" where
  "add_gate runtime_id limit s =
     (let s1 = s\<lparr>dp_limits := dict_set runtime_id limit (dp_limits s)\<rparr>
      in if map_of (dp_gates s1) runtime_id = None
         then s1\<lparr>dp_gates := dict_set runtime_id (length (dp_sems s1)) (dp_gates s1),
                 dp_sems := dp_sems s1 @ [new_sem (nat limit)]\<rparr>
         else s1)"

text \<open>An error leaves the entries before it registered.\<close>

fun register_limits :: "(string \<times> int) list \<Rightarrow> dispatcher \<Rightarrow> dispatcher \<times> unit res" where
  "register_limits [] s = (s, Inr ())"
| "register_limits ((runtime_id, limit) # rest) s =
     (if limit < 1 then (s, Inl (ValueError ''Runtime Worker limit must be positive''))
      else if map_of (dp_limits s) runtime_id \<noteq> None \<and> map_of (dp_limits s) runtime_id \<noteq> Some limit
      then (s, Inl (ValueError ''Runtime Worker limit changed during execution''))
      else register_limits rest (add_gate runtime_id limit s))"

text \<open>The buses are built with the dispatcher's reconciler and the default capacity.\<close>

definition default_bus :: "string \<Rightarrow> bus" where
  "default_bus runner_id = \<lparr>bus_runner = runner_id, bus_capacity = 64, bus_generation = 0,
     bus_closed = False, bus_reconciled = True, bus_subs = []\<rparr>"

definition register ::
    "string \<Rightarrow> (string \<times> string) list \<Rightarrow> (string \<times> int) list \<Rightarrow> dispatcher \<Rightarrow> dispatcher \<times> bus res" where
  "register runner_id environment limits s =
     (case register_limits limits s of
        (s', Inl e) \<Rightarrow> (s', Inl e)
      | (s', Inr _) \<Rightarrow>
          (s'\<lparr>dp_runtimes := dict_set runner_id (map fst limits) (dp_runtimes s'),
              dp_buses := dict_set runner_id (default_bus runner_id) (dp_buses s'),
              dp_environments := dict_set runner_id environment (dp_environments s')\<rparr>,
           Inr (default_bus runner_id)))"

section \<open>Submission\<close>

record submission =
  sb_key :: job_key
  sb_todo :: "nat list"
  sb_held :: "nat list"
  sb_capacity :: bool

record job =
  jb_key :: job_key
  jb_gates :: "nat list"

text \<open>The stretch up to the first \<open>await\<close>: an unknown gate raises, with the key left in \<open>waiting\<close>.\<close>

definition submit_begin :: "string \<Rightarrow> string \<Rightarrow> dispatcher \<Rightarrow> dispatcher \<times> submission res" where
  "submit_begin runner_id step s =
     (let s' = s\<lparr>dp_waiting := insert (runner_id, step) (dp_waiting s)\<rparr>;
          runtimes = (case map_of (dp_runtimes s') runner_id of Some rs \<Rightarrow> rs | None \<Rightarrow> [])
      in (s', rbind (mapR (\<lambda>r. case map_of (dp_gates s') r of Some g \<Rightarrow> Inr g | None \<Rightarrow> Inl (KeyError r)) runtimes)
           (\<lambda>gates. Inr \<lparr>sb_key = (runner_id, step), sb_todo = gates, sb_held = [], sb_capacity = False\<rparr>)))"

definition change_sem :: "nat \<Rightarrow> (sem \<Rightarrow> sem) \<Rightarrow> dispatcher \<Rightarrow> dispatcher" where
  "change_sem g f s = s\<lparr>dp_sems := (dp_sems s)[g := f (dp_sems s ! g)]\<rparr>"

text \<open>\<open>await gate.acquire()\<close> for the next gate; None: the coroutine waits.\<close>

definition acquire_gate :: "submission \<Rightarrow> dispatcher \<Rightarrow> (submission \<times> dispatcher) option" where
  "acquire_gate x s =
     (case sb_todo x of
        [] \<Rightarrow> None
      | g # gs \<Rightarrow>
          if sem_value (dp_sems s ! g) = 0 then None
          else Some (x\<lparr>sb_todo := gs, sb_held := sb_held x @ [g]\<rparr>, change_sem g take_permit s))"

text \<open>\<open>await self._capacity.acquire()\<close>, once all gates are held.\<close>

definition acquire_capacity :: "submission \<Rightarrow> dispatcher \<Rightarrow> (submission \<times> dispatcher) option" where
  "acquire_capacity x s =
     (if sb_todo x \<noteq> [] \<or> sb_capacity x \<or> sem_value (dp_capacity s) = 0 then None
      else Some (x\<lparr>sb_capacity := True\<rparr>, s\<lparr>dp_capacity := take_permit (dp_capacity s)\<rparr>))"

text \<open>\<open>for gate in reversed(acquired_gates): gate.release()\<close>.\<close>

definition release_gates :: "nat list \<Rightarrow> dispatcher \<Rightarrow> dispatcher" where
  "release_gates gates s = fold (\<lambda>g. change_sem g give_permit) (rev gates) s"

definition release_capacity :: "dispatcher \<Rightarrow> dispatcher" where
  "release_capacity s = s\<lparr>dp_capacity := give_permit (dp_capacity s)\<rparr>"

text \<open>The \<open>finally\<close> block of a submission that was not handed off.\<close>

definition submit_abort :: "submission \<Rightarrow> dispatcher \<Rightarrow> dispatcher" where
  "submit_abort x s =
     (let s1 = s\<lparr>dp_waiting := dp_waiting s - {sb_key x}\<rparr>;
          s2 = (if sb_capacity x then release_capacity s1 else s1)
      in release_gates (sb_held x) s2)"

text \<open>\<open>if runner_id in self.cancelled: raise\<close>.\<close>

definition submit_cancelled :: "submission \<Rightarrow> dispatcher \<Rightarrow> bool" where
  "submit_cancelled x s \<longleftrightarrow> fst (sb_key x) \<in> dp_cancelled s"

text \<open>The reservation succeeded: the request becomes a task, which takes over the permits.\<close>

definition submit_handoff :: "submission \<Rightarrow> dispatcher \<Rightarrow> job \<times> dispatcher" where
  "submit_handoff x s =
     (\<lparr>jb_key = sb_key x, jb_gates = sb_held x\<rparr>,
      s\<lparr>dp_active := (if sb_key x \<in> set (dp_active s) then dp_active s else dp_active s @ [sb_key x]),
        dp_waiting := dp_waiting s - {sb_key x}\<rparr>)"

text \<open>
  What \<open>submit\<close> does with the answer of \<open>reserve_worker\<close>.  The first component is the task, if one
  was made.
\<close>

definition submit_reserved :: "submission \<Rightarrow> bool res \<Rightarrow> dispatcher \<Rightarrow> (job option \<times> unit res) \<times> dispatcher" where
  "submit_reserved x answer s =
     (case answer of
        Inl e \<Rightarrow> ((None, Inl e), submit_abort x s)
      | Inr False \<Rightarrow>
          ((None, Inl (RuntimeError ''Worker reservation rejected; automatic replay is disabled'')), submit_abort x s)
      | Inr True \<Rightarrow> (let (j, s') = submit_handoff x s in ((Some j, Inr ()), s')))"

text \<open>The callback of a task, whether it ran or was cancelled before it started.\<close>

definition job_done :: "job \<Rightarrow> dispatcher \<Rightarrow> dispatcher" where
  "job_done j s =
     (let s1 = s\<lparr>dp_active := removeAll (jb_key j) (dp_active s)\<rparr>
      in release_gates (jb_gates j) (release_capacity s1))"

section \<open>Cancellation and removal\<close>

text \<open>The keys of the tasks that are cancelled.\<close>

definition cancel_dispatch :: "string \<Rightarrow> dispatcher \<Rightarrow> job_key list \<times> dispatcher" where
  "cancel_dispatch runner_id s =
     (filter (\<lambda>k. fst k = runner_id) (dp_active s), s\<lparr>dp_cancelled := insert runner_id (dp_cancelled s)\<rparr>)"

text \<open>The stretch of \<open>unregister\<close> after the tasks of the Runner have ended.\<close>

definition drop_gate :: "string \<Rightarrow> dispatcher \<Rightarrow> dispatcher" where
  "drop_gate runtime_id s =
     (if list_ex (\<lambda>(_, owners). runtime_id \<in> set owners) (dp_runtimes s) then s
      else s\<lparr>dp_gates := AList.delete runtime_id (dp_gates s), dp_limits := AList.delete runtime_id (dp_limits s)\<rparr>)"

definition unregister :: "string \<Rightarrow> dispatcher \<Rightarrow> dispatcher" where
  "unregister runner_id s =
     (let runtimes = (case map_of (dp_runtimes s) runner_id of Some rs \<Rightarrow> rs | None \<Rightarrow> []);
          s1 = s\<lparr>dp_buses := AList.delete runner_id (dp_buses s),
                 dp_environments := AList.delete runner_id (dp_environments s),
                 dp_cancelled := dp_cancelled s - {runner_id},
                 dp_errors := AList.delete runner_id (dp_errors s),
                 dp_runtimes := AList.delete runner_id (dp_runtimes s)\<rparr>
      in fold drop_gate runtimes s1)"

section \<open>The system\<close>

text \<open>Where the result of an execution goes: the last statement of \<open>_execute\<close> and its handlers.\<close>

definition fail_runner :: "string \<Rightarrow> py_exc \<Rightarrow> dispatcher \<Rightarrow> dispatcher \<times> unit res" where
  "fail_runner runner_id e s =
     (let s' = s\<lparr>dp_errors := dict_set runner_id e (dp_errors s)\<rparr>
      in case map_of (dp_buses s') runner_id of
           None \<Rightarrow> (s', Inl (KeyError runner_id))
         | Some b \<Rightarrow> (s'\<lparr>dp_buses := dict_set runner_id (fst (close_bus b)) (dp_buses s')\<rparr>, Inr ()))"

definition settle :: "string \<Rightarrow> runner_message res \<Rightarrow> dispatcher \<Rightarrow> dispatcher \<times> unit res" where
  "settle runner_id committed s =
     (case committed of
        Inl (CancelledError e) \<Rightarrow> (s, Inl (CancelledError e))
      | Inl e \<Rightarrow> fail_runner runner_id e s
      | Inr m \<Rightarrow>
          (case map_of (dp_buses s) runner_id of
             None \<Rightarrow> fail_runner runner_id (KeyError runner_id) s
           | Some b \<Rightarrow>
               (case deliver_committed m b of
                  Inl e \<Rightarrow> fail_runner runner_id e s
                | Inr b' \<Rightarrow> (s\<lparr>dp_buses := dict_set runner_id b' (dp_buses s)\<rparr>, Inr ()))))"

record dispatch_system =
  ds_state :: dispatcher
  ds_submits :: "submission multiset"
  ds_jobs :: "job multiset"

definition new_system :: "dispatcher \<Rightarrow> dispatch_system" where
  "new_system d = \<lparr>ds_state = d, ds_submits = {#}, ds_jobs = {#}\<rparr>"

text \<open>
  The check of \<open>cancelled\<close> belongs to the stretch that takes the capacity; the answer of the
  repository arrives after an \<open>await\<close>, in which anything may happen.  A cancelled submission ends
  at whatever \<open>await\<close> it is.
\<close>

inductive dispatch_step :: "dispatch_system \<Rightarrow> dispatch_system \<Rightarrow> bool" where
  registered: "register r env limits (ds_state s) = (d', out) \<Longrightarrow> dispatch_step s (s\<lparr>ds_state := d'\<rparr>)"
| begun: "submit_begin r k (ds_state s) = (d', Inr x) \<Longrightarrow>
    dispatch_step s (s\<lparr>ds_state := d', ds_submits := add_mset x (ds_submits s)\<rparr>)"
| refused: "submit_begin r k (ds_state s) = (d', Inl e) \<Longrightarrow> dispatch_step s (s\<lparr>ds_state := d'\<rparr>)"
| gate: "ds_submits s = add_mset x X \<Longrightarrow> acquire_gate x (ds_state s) = Some (x', d') \<Longrightarrow>
    dispatch_step s (s\<lparr>ds_state := d', ds_submits := add_mset x' X\<rparr>)"
| capacity: "ds_submits s = add_mset x X \<Longrightarrow> acquire_capacity x (ds_state s) = Some (x', d') \<Longrightarrow>
    \<not> submit_cancelled x' d' \<Longrightarrow> dispatch_step s (s\<lparr>ds_state := d', ds_submits := add_mset x' X\<rparr>)"
| cancelled: "ds_submits s = add_mset x X \<Longrightarrow> acquire_capacity x (ds_state s) = Some (x', d') \<Longrightarrow>
    submit_cancelled x' d' \<Longrightarrow> dispatch_step s (s\<lparr>ds_state := submit_abort x' d', ds_submits := X\<rparr>)"
| aborted: "ds_submits s = add_mset x X \<Longrightarrow>
    dispatch_step s (s\<lparr>ds_state := submit_abort x (ds_state s), ds_submits := X\<rparr>)"
| answered: "ds_submits s = add_mset x X \<Longrightarrow> sb_capacity x \<Longrightarrow>
    submit_reserved x answer (ds_state s) = ((made, out), d') \<Longrightarrow>
    dispatch_step s (s\<lparr>ds_state := d', ds_submits := X,
      ds_jobs := (case made of Some j \<Rightarrow> add_mset j (ds_jobs s) | None \<Rightarrow> ds_jobs s)\<rparr>)"
| settled: "settle r committed (ds_state s) = (d', out2) \<Longrightarrow> dispatch_step s (s\<lparr>ds_state := d'\<rparr>)"
| job_ends: "ds_jobs s = add_mset j J \<Longrightarrow>
    dispatch_step s (s\<lparr>ds_state := job_done j (ds_state s), ds_jobs := J\<rparr>)"
| cancels: "cancel_dispatch r (ds_state s) = (ks, d') \<Longrightarrow> dispatch_step s (s\<lparr>ds_state := d'\<rparr>)"
| unregistered: "dispatch_step s (s\<lparr>ds_state := unregister r (ds_state s)\<rparr>)"

section \<open>Conservation of permits\<close>

definition held_by_submits :: "nat \<Rightarrow> submission multiset \<Rightarrow> nat" where
  "held_by_submits g X = sum_mset (image_mset (\<lambda>x. count_list (sb_held x) g) X)"

definition held_by_jobs :: "nat \<Rightarrow> job multiset \<Rightarrow> nat" where
  "held_by_jobs g J = sum_mset (image_mset (\<lambda>j. count_list (jb_gates j) g) J)"

definition capacity_held :: "submission multiset \<Rightarrow> nat" where
  "capacity_held X = size (filter_mset sb_capacity X)"

lemma held_simps [simp]:
  "held_by_submits g {#} = 0" "held_by_jobs g {#} = 0" "capacity_held {#} = 0"
  "held_by_submits g (add_mset x X) = count_list (sb_held x) g + held_by_submits g X"
  "held_by_jobs g (add_mset j J) = count_list (jb_gates j) g + held_by_jobs g J"
  "capacity_held (add_mset x X) = (if sb_capacity x then 1 else 0) + capacity_held X"
  by (simp_all add: held_by_submits_def held_by_jobs_def capacity_held_def)

definition permits :: "sem \<Rightarrow> sem list \<Rightarrow> submission multiset \<Rightarrow> job multiset \<Rightarrow> bool" where
  "permits cap sems X J \<longleftrightarrow>
     sem_value cap + capacity_held X + size J = sem_limit cap \<and> 0 < sem_limit cap \<and>
     (\<forall>g < length sems. sem_value (sems ! g) + held_by_submits g X + held_by_jobs g J = sem_limit (sems ! g) \<and>
        0 < sem_limit (sems ! g))"

definition refs_ok :: "nat \<Rightarrow> submission multiset \<Rightarrow> job multiset \<Rightarrow> bool" where
  "refs_ok n X J \<longleftrightarrow>
     (\<forall>x \<in># X. \<forall>g \<in> set (sb_held x @ sb_todo x). g < n) \<and> (\<forall>j \<in># J. \<forall>g \<in> set (jb_gates j). g < n)"

definition gates_ok :: "dispatcher \<Rightarrow> bool" where
  "gates_ok d \<longleftrightarrow>
     (\<forall>r. (map_of (dp_gates d) r = None) = (map_of (dp_limits d) r = None)) \<and>
     (\<forall>r g. map_of (dp_gates d) r = Some g \<longrightarrow> g < length (dp_sems d) \<and>
        map_of (dp_limits d) r = Some (int (sem_limit (dp_sems d ! g))))"

definition owners_ok :: "dispatcher \<Rightarrow> bool" where
  "owners_ok d \<longleftrightarrow> (\<forall>(r, rs) \<in> set (dp_runtimes d). \<forall>i \<in> set rs. map_of (dp_gates d) i \<noteq> None)"

definition active_ok :: "job_key list \<Rightarrow> job multiset \<Rightarrow> bool" where
  "active_ok ks J \<longleftrightarrow> distinct ks \<and> set ks \<subseteq> jb_key ` set_mset J"

definition dispatch_inv :: "dispatch_system \<Rightarrow> bool" where
  "dispatch_inv s \<longleftrightarrow>
     permits (dp_capacity (ds_state s)) (dp_sems (ds_state s)) (ds_submits s) (ds_jobs s) \<and>
     refs_ok (length (dp_sems (ds_state s))) (ds_submits s) (ds_jobs s) \<and>
     gates_ok (ds_state s) \<and> owners_ok (ds_state s) \<and> active_ok (dp_active (ds_state s)) (ds_jobs s)"

lemma sem_simps [simp]:
  "sem_value (take_permit x) = sem_value x - 1" "sem_limit (take_permit x) = sem_limit x"
  "sem_value (give_permit x) = sem_value x + 1" "sem_limit (give_permit x) = sem_limit x"
  "sem_value (new_sem n) = n" "sem_limit (new_sem n) = n"
  by (simp_all add: take_permit_def give_permit_def new_sem_def)

lemma change_sem_fields [simp]:
  "dp_capacity (change_sem g f d) = dp_capacity d" "dp_gates (change_sem g f d) = dp_gates d"
  "dp_limits (change_sem g f d) = dp_limits d" "dp_runtimes (change_sem g f d) = dp_runtimes d"
  "dp_active (change_sem g f d) = dp_active d" "length (dp_sems (change_sem g f d)) = length (dp_sems d)"
  "dp_sems (change_sem g f d) = (dp_sems d)[g := f (dp_sems d ! g)]"
  by (simp_all add: change_sem_def)

lemma fold_give_fields:
  "dp_capacity (fold (\<lambda>g. change_sem g give_permit) gs d) = dp_capacity d \<and>
   dp_gates (fold (\<lambda>g. change_sem g give_permit) gs d) = dp_gates d \<and>
   dp_limits (fold (\<lambda>g. change_sem g give_permit) gs d) = dp_limits d \<and>
   dp_runtimes (fold (\<lambda>g. change_sem g give_permit) gs d) = dp_runtimes d \<and>
   dp_active (fold (\<lambda>g. change_sem g give_permit) gs d) = dp_active d \<and>
   length (dp_sems (fold (\<lambda>g. change_sem g give_permit) gs d)) = length (dp_sems d)"
  by (induction gs arbitrary: d) simp_all

lemma fold_give_sem:
  "g < length (dp_sems d) \<Longrightarrow>
   sem_value (dp_sems (fold (\<lambda>g. change_sem g give_permit) gs d) ! g) = sem_value (dp_sems d ! g) + count_list gs g \<and>
   sem_limit (dp_sems (fold (\<lambda>g. change_sem g give_permit) gs d) ! g) = sem_limit (dp_sems d ! g)"
  by (induction gs arbitrary: d) (auto simp: nth_list_update)

lemma count_list_rev [simp]: "count_list (rev xs) x = count_list xs x"
  by (induction xs) auto

lemma release_gates_fields [simp]:
  "dp_capacity (release_gates gs d) = dp_capacity d" "dp_gates (release_gates gs d) = dp_gates d"
  "dp_limits (release_gates gs d) = dp_limits d" "dp_runtimes (release_gates gs d) = dp_runtimes d"
  "dp_active (release_gates gs d) = dp_active d" "length (dp_sems (release_gates gs d)) = length (dp_sems d)"
  using fold_give_fields [of "rev gs" d] by (simp_all add: release_gates_def)

lemma release_gates_sem [simp]:
  assumes "g < length (dp_sems d)"
  shows "sem_value (dp_sems (release_gates gs d) ! g) = sem_value (dp_sems d ! g) + count_list gs g"
    and "sem_limit (dp_sems (release_gates gs d) ! g) = sem_limit (dp_sems d ! g)"
  using fold_give_sem [OF assms, of "rev gs"] by (simp_all add: release_gates_def)

text \<open>The gates keep their limits, whatever happens to the permits.\<close>

lemma gates_ok_sems:
  assumes "gates_ok d" "dp_gates d' = dp_gates d" "map_of (dp_limits d') = map_of (dp_limits d)"
    and "length (dp_sems d') = length (dp_sems d)"
    and "\<And>g. g < length (dp_sems d) \<Longrightarrow> sem_limit (dp_sems d' ! g) = sem_limit (dp_sems d ! g)"
  shows "gates_ok d'"
  using assms by (simp add: gates_ok_def)

lemma owners_ok_cong: "dp_gates d' = dp_gates d \<Longrightarrow> dp_runtimes d' = dp_runtimes d \<Longrightarrow> owners_ok d \<Longrightarrow> owners_ok d'"
  by (simp add: owners_ok_def)

text \<open>Giving back what a submission or a task held.\<close>

lemma permits_abort:
  assumes "permits cap (dp_sems d) (add_mset x X) J" "dp_capacity d = cap"
  shows "permits (dp_capacity (submit_abort x d)) (dp_sems (submit_abort x d)) X J"
  using assms by (auto simp: permits_def submit_abort_def Let_def release_capacity_def)

lemma submit_abort_frame [simp]:
  "dp_gates (submit_abort x d) = dp_gates d" "dp_limits (submit_abort x d) = dp_limits d"
  "dp_runtimes (submit_abort x d) = dp_runtimes d" "dp_active (submit_abort x d) = dp_active d"
  "length (dp_sems (submit_abort x d)) = length (dp_sems d)"
  by (simp_all add: submit_abort_def Let_def release_capacity_def)

lemma submit_abort_limit: "g < length (dp_sems d) \<Longrightarrow> sem_limit (dp_sems (submit_abort x d) ! g) = sem_limit (dp_sems d ! g)"
  by (simp add: submit_abort_def Let_def release_capacity_def)

lemma refs_ok_add [simp]:
  "refs_ok n (add_mset x X) J \<longleftrightarrow> (\<forall>g \<in> set (sb_held x @ sb_todo x). g < n) \<and> refs_ok n X J"
  "refs_ok n X (add_mset j J) \<longleftrightarrow> (\<forall>g \<in> set (jb_gates j). g < n) \<and> refs_ok n X J"
  by (auto simp: refs_ok_def)

text \<open>Steps that leave the gates and their owners alone.\<close>

lemma dispatch_inv_frame:
  assumes "dispatch_inv \<lparr>ds_state = d, ds_submits = X, ds_jobs = J\<rparr>"
    and "dp_gates d' = dp_gates d" "dp_limits d' = dp_limits d" "dp_runtimes d' = dp_runtimes d"
    and "length (dp_sems d') = length (dp_sems d)"
    and "\<And>g. g < length (dp_sems d) \<Longrightarrow> sem_limit (dp_sems d' ! g) = sem_limit (dp_sems d ! g)"
    and "permits (dp_capacity d') (dp_sems d') X' J'" "refs_ok (length (dp_sems d)) X' J'"
    and "active_ok (dp_active d') J'"
  shows "dispatch_inv \<lparr>ds_state = d', ds_submits = X', ds_jobs = J'\<rparr>"
proof -
  have "gates_ok d'" by (rule gates_ok_sems [OF _ assms(2) arg_cong [OF assms(3)] assms(5,6)])
    (use assms(1) in \<open>simp_all add: dispatch_inv_def\<close>)
  moreover have "owners_ok d'" by (rule owners_ok_cong [OF assms(2,4)]) (use assms(1) in \<open>simp add: dispatch_inv_def\<close>)
  ultimately show ?thesis using assms(5,7,8,9) by (simp add: dispatch_inv_def)
qed

lemma dispatch_invD:
  assumes "dispatch_inv \<lparr>ds_state = d, ds_submits = X, ds_jobs = J\<rparr>"
  shows "permits (dp_capacity d) (dp_sems d) X J" "refs_ok (length (dp_sems d)) X J"
    "gates_ok d" "owners_ok d" "active_ok (dp_active d) J"
  using assms by (simp_all add: dispatch_inv_def)

lemma abort_inv:
  assumes "dispatch_inv \<lparr>ds_state = d, ds_submits = add_mset x X, ds_jobs = J\<rparr>"
  shows "dispatch_inv \<lparr>ds_state = submit_abort x d, ds_submits = X, ds_jobs = J\<rparr>"
  using dispatch_invD [OF assms] permits_abort [of "dp_capacity d" d x X J]
  by (intro dispatch_inv_frame [OF assms]) (simp_all add: submit_abort_limit)

lemma acquire_gate_inv:
  assumes "dispatch_inv \<lparr>ds_state = d, ds_submits = add_mset x X, ds_jobs = J\<rparr>" "acquire_gate x d = Some (x', d')"
  shows "dispatch_inv \<lparr>ds_state = d', ds_submits = add_mset x' X, ds_jobs = J\<rparr>"
proof -
  obtain g gs where x: "sb_todo x = g # gs" "sem_value (dp_sems d ! g) \<noteq> 0"
      "x' = x\<lparr>sb_todo := gs, sb_held := sb_held x @ [g]\<rparr>" "d' = change_sem g take_permit d"
    using assms(2) by (auto simp: acquire_gate_def split: list.splits if_splits)
  note inv = dispatch_invD [OF assms(1)]
  have "g < length (dp_sems d)" using inv(2) x(1) by simp
  then have "permits (dp_capacity d') (dp_sems d') (add_mset x' X) J"
    using inv(1) x(2) unfolding x by (auto simp: permits_def nth_list_update)
  then show ?thesis
    by (rule dispatch_inv_frame [OF assms(1), rotated 5]) (use inv x in \<open>simp_all add: nth_list_update\<close>)
qed

lemma acquire_capacity_inv:
  assumes "dispatch_inv \<lparr>ds_state = d, ds_submits = add_mset x X, ds_jobs = J\<rparr>" "acquire_capacity x d = Some (x', d')"
  shows "dispatch_inv \<lparr>ds_state = d', ds_submits = add_mset x' X, ds_jobs = J\<rparr>"
proof -
  have x: "\<not> sb_capacity x" "sem_value (dp_capacity d) \<noteq> 0" "x' = x\<lparr>sb_capacity := True\<rparr>"
      "d' = d\<lparr>dp_capacity := take_permit (dp_capacity d)\<rparr>"
    using assms(2) by (auto simp: acquire_capacity_def split: if_splits)
  note inv = dispatch_invD [OF assms(1)]
  have "permits (dp_capacity d') (dp_sems d') (add_mset x' X) J"
    using inv(1) x(1,2) unfolding x by (auto simp: permits_def)
  then show ?thesis
    by (rule dispatch_inv_frame [OF assms(1), rotated 5]) (use inv x in simp_all)
qed

lemma begin_inv:
  assumes "dispatch_inv \<lparr>ds_state = d, ds_submits = X, ds_jobs = J\<rparr>" "submit_begin r k d = (d', Inr x)"
  shows "dispatch_inv \<lparr>ds_state = d', ds_submits = add_mset x X, ds_jobs = J\<rparr>"
proof -
  obtain gates rs where x: "x = \<lparr>sb_key = (r, k), sb_todo = gates, sb_held = [], sb_capacity = False\<rparr>"
      "mapR (\<lambda>r. case map_of (dp_gates d) r of Some g \<Rightarrow> Inr g | None \<Rightarrow> Inl (KeyError r)) rs = Inr gates"
      "d' = d\<lparr>dp_waiting := insert (r, k) (dp_waiting d)\<rparr>"
    using assms(2) by (auto simp: submit_begin_def Let_def)
  note inv = dispatch_invD [OF assms(1)]
  have "g < length (dp_sems d)" if "g \<in> set gates" for g
    by (rule mapR_memberE [OF x(2) that]) (use inv(3) in \<open>auto simp: gates_ok_def split: option.splits\<close>)
  with inv show ?thesis
    by (intro dispatch_inv_frame [OF assms(1)]) (simp_all add: x permits_def)
qed

lemma begin_total:
  assumes "gates_ok d" "owners_ok d"
  shows "\<exists>d' x. submit_begin r k d = (d', Inr x)"
proof (cases "map_of (dp_runtimes d) r")
  case (Some rs)
  then have "\<forall>i \<in> set rs. map_of (dp_gates d) i \<noteq> None"
    using assms(2) by (force simp: owners_ok_def dest: map_of_SomeD)
  then have "\<exists>gs. mapR (\<lambda>r. case map_of (dp_gates d) r of Some g \<Rightarrow> Inr g | None \<Rightarrow> Inl (KeyError r)) rs = Inr gs"
    by (induction rs) auto
  with Some show ?thesis by (auto simp: submit_begin_def Let_def)
qed (simp add: submit_begin_def Let_def)

text \<open>A task takes over exactly what its submission held.\<close>

lemma reserved_inv:
  assumes inv: "dispatch_inv \<lparr>ds_state = d, ds_submits = add_mset x X, ds_jobs = J\<rparr>" and "sb_capacity x"
    and "submit_reserved x answer d = ((made, out), d')"
  shows "dispatch_inv \<lparr>ds_state = d', ds_submits = X,
    ds_jobs = (case made of Some j \<Rightarrow> add_mset j J | None \<Rightarrow> J)\<rparr>"
proof (cases "answer = Inr True")
  case True
  then have made: "made = Some \<lparr>jb_key = sb_key x, jb_gates = sb_held x\<rparr>"
    and d': "d' = snd (submit_handoff x d)"
    using assms(3) by (auto simp: submit_reserved_def submit_handoff_def)
  have "permits (dp_capacity d') (dp_sems d') X (add_mset \<lparr>jb_key = sb_key x, jb_gates = sb_held x\<rparr> J)"
    using inv assms(2) by (auto simp: d' submit_handoff_def dispatch_inv_def permits_def)
  moreover have "active_ok (dp_active d') (add_mset \<lparr>jb_key = sb_key x, jb_gates = sb_held x\<rparr> J)"
    using inv by (auto simp: d' submit_handoff_def dispatch_inv_def active_ok_def)
  ultimately show ?thesis using dispatch_invD(2) [OF inv] unfolding made option.case
    by (intro dispatch_inv_frame [OF inv]) (simp_all add: d' submit_handoff_def)
next
  case False
  then have "made = None" "d' = submit_abort x d"
    using assms(3) by (auto simp: submit_reserved_def split: sum.splits bool.splits)
  then show ?thesis using abort_inv [OF inv] by simp
qed

lemma job_done_inv:
  assumes "dispatch_inv \<lparr>ds_state = d, ds_submits = X, ds_jobs = add_mset j J\<rparr>"
  shows "dispatch_inv \<lparr>ds_state = job_done j d, ds_submits = X, ds_jobs = J\<rparr>"
proof -
  note inv = dispatch_invD [OF assms]
  have "permits (dp_capacity (job_done j d)) (dp_sems (job_done j d)) X J"
    using inv(1) by (auto simp: permits_def job_done_def release_capacity_def)
  moreover have "active_ok (dp_active (job_done j d)) J"
    using inv(5) by (auto simp: active_ok_def job_done_def release_capacity_def distinct_removeAll)
  ultimately show ?thesis using inv(2)
    by (intro dispatch_inv_frame [OF assms]) (simp_all add: job_done_def release_capacity_def)
qed

section \<open>Registration keeps the gates known\<close>

lemma add_gate_known:
  assumes "gates_ok d" "map_of (dp_gates d) r \<noteq> None" "map_of (dp_limits d) r \<noteq> None \<longrightarrow> map_of (dp_limits d) r = Some l"
  shows "add_gate r l d = d\<lparr>dp_limits := dict_set r l (dp_limits d)\<rparr>" "map_of (dict_set r l (dp_limits d)) = map_of (dp_limits d)"
proof -
  have "map_of (dp_limits d) r = Some l" using assms by (auto simp: gates_ok_def)
  then show "map_of (dict_set r l (dp_limits d)) = map_of (dp_limits d)" by auto
qed (use assms(2) in \<open>auto simp: add_gate_def Let_def\<close>)

lemma add_gate_inv:
  assumes inv: "dispatch_inv \<lparr>ds_state = d, ds_submits = X, ds_jobs = J\<rparr>" and l: "0 < l"
    and "map_of (dp_limits d) r \<noteq> None \<longrightarrow> map_of (dp_limits d) r = Some l"
  shows "dispatch_inv \<lparr>ds_state = add_gate r l d, ds_submits = X, ds_jobs = J\<rparr>"
    and "map_of (dp_gates (add_gate r l d)) i \<noteq> None \<longleftrightarrow> i = r \<or> map_of (dp_gates d) i \<noteq> None"
proof -
  have g: "gates_ok d" using inv by (simp add: dispatch_inv_def)
  show "map_of (dp_gates (add_gate r l d)) i \<noteq> None \<longleftrightarrow> i = r \<or> map_of (dp_gates d) i \<noteq> None"
    by (simp add: add_gate_def Let_def)
  show "dispatch_inv \<lparr>ds_state = add_gate r l d, ds_submits = X, ds_jobs = J\<rparr>"
  proof (cases "map_of (dp_gates d) r")
    case (Some g)
    then have known: "map_of (dp_gates d) r \<noteq> None" by simp
    note e = add_gate_known [OF \<open>gates_ok d\<close> known assms(3)]
    have "gates_ok (add_gate r l d)" unfolding e(1)
      by (rule gates_ok_sems [OF g]) (use e(2) in simp_all)
    moreover have "owners_ok (add_gate r l d)"
      unfolding e(1) by (rule owners_ok_cong [OF _ _ dispatch_invD(4) [OF inv]]) simp_all
    ultimately show ?thesis unfolding e(1) using inv by (simp add: dispatch_inv_def)
  next
    case None
    have refs: "refs_ok (length (dp_sems d)) X J" using inv by (simp add: dispatch_inv_def)
    then have "count_list (sb_held x) (length (dp_sems d)) = 0" if "x \<in># X" for x
      using that by (auto simp: refs_ok_def count_list_0_iff)
    moreover have "count_list (jb_gates j) (length (dp_sems d)) = 0" if "j \<in># J" for j
      using that refs by (auto simp: refs_ok_def count_list_0_iff)
    ultimately have fresh: "held_by_submits (length (dp_sems d)) X = 0" "held_by_jobs (length (dp_sems d)) J = 0"
      by (simp_all add: held_by_submits_def held_by_jobs_def)
    have "permits (dp_capacity d) (dp_sems d @ [new_sem (nat l)]) X J"
      using inv fresh l by (auto simp: dispatch_inv_def permits_def nth_append less_Suc_eq)
    moreover have "refs_ok (Suc (length (dp_sems d))) X J"
      using refs by (auto simp: refs_ok_def less_SucI)
    moreover have "gates_ok (add_gate r l d)"
      using None g l by (auto simp: add_gate_def Let_def gates_ok_def nth_append less_Suc_eq)
    moreover have "owners_ok (add_gate r l d)"
      using inv None by (force simp: add_gate_def Let_def dispatch_inv_def owners_ok_def)
    ultimately show ?thesis using inv None by (simp add: dispatch_inv_def add_gate_def Let_def)
  qed
qed

lemma register_limits_ok:
  assumes "register_limits limits d = (d', out)"
    and "dispatch_inv \<lparr>ds_state = d, ds_submits = X, ds_jobs = J\<rparr>"
  shows "dispatch_inv \<lparr>ds_state = d', ds_submits = X, ds_jobs = J\<rparr> \<and>
    (\<forall>r. map_of (dp_gates d) r \<noteq> None \<longrightarrow> map_of (dp_gates d') r \<noteq> None) \<and>
    (\<forall>u. out = Inr u \<longrightarrow> (\<forall>r \<in> fst ` set limits. map_of (dp_gates d') r \<noteq> None))"
  using assms
proof (induction limits d rule: register_limits.induct)
  case (2 r l rest d)
  show ?case
  proof (cases "l < 1 \<or> map_of (dp_limits d) r \<noteq> None \<and> map_of (dp_limits d) r \<noteq> Some l")
    case True
    then have "d' = d" "\<exists>e. out = Inl e" using 2(2) by (auto split: if_splits)
    with 2(3) show ?thesis by auto
  next
    case False
    then have l: "0 < l" and eq: "map_of (dp_limits d) r \<noteq> None \<longrightarrow> map_of (dp_limits d) r = Some l" by auto
    have next_limits: "register_limits rest (add_gate r l d) = (d', out)" using 2(2) False by (simp split: if_splits)
    note added = add_gate_inv [OF 2(3) l eq]
    have "\<not> l < 1" "\<not> (map_of (dp_limits d) r \<noteq> None \<and> map_of (dp_limits d) r \<noteq> Some l)" using False by blast+
    from 2(1) [OF this next_limits added(1)] added(2) show ?thesis by (metis (no_types, lifting) image_iff insert_iff list.simps(15) fst_conv)
  qed
qed auto

lemma set_dict_set: "set (dict_set k v d) \<subseteq> insert (k, v) (set d)"
  by (induction k v d rule: dict_set.induct) auto

lemma set_AList_delete: "set (AList.delete k d) \<subseteq> set d"
  by (auto simp: AList.delete_eq)

lemma register_inv:
  assumes "register r env limits d = (d', out)" and "dispatch_inv \<lparr>ds_state = d, ds_submits = X, ds_jobs = J\<rparr>"
  shows "dispatch_inv \<lparr>ds_state = d', ds_submits = X, ds_jobs = J\<rparr>"
proof -
  obtain d1 u where r: "register_limits limits d = (d1, u)" by fastforce
  note ok = register_limits_ok [OF r assms(2)]
  show ?thesis
  proof (cases u)
    case (Inl e)
    then have "d' = d1" using assms(1) r by (simp add: register_def)
    then show ?thesis using ok by simp
  next
    case (Inr v)
    then have d': "d' = d1\<lparr>dp_runtimes := dict_set r (map fst limits) (dp_runtimes d1),
              dp_buses := dict_set r (default_bus r) (dp_buses d1),
              dp_environments := dict_set r env (dp_environments d1)\<rparr>"
      using assms(1) r by (simp add: register_def)
    from ok have d1: "dispatch_inv \<lparr>ds_state = d1, ds_submits = X, ds_jobs = J\<rparr>"
      and known: "\<And>i. i \<in> fst ` set limits \<Longrightarrow> map_of (dp_gates d1) i \<noteq> None" using Inr by blast+
    note inv = dispatch_invD [OF d1]
    have "\<forall>i \<in> set b. map_of (dp_gates d') i \<noteq> None" if "(a, b) \<in> set (dp_runtimes d')" for a b
    proof -
      have "(a, b) \<in> set (dp_runtimes d1) \<or> b = map fst limits"
        using that set_dict_set [of r "map fst limits" "dp_runtimes d1"] unfolding d' by auto
      moreover have "\<forall>i \<in> set b. map_of (dp_gates d1) i \<noteq> None" if "(a, b) \<in> set (dp_runtimes d1)"
        using inv(4) that unfolding owners_ok_def by blast
      ultimately show ?thesis using known unfolding d' by auto
    qed
    then have "owners_ok d'" unfolding owners_ok_def by blast
    moreover have "gates_ok d'" by (rule gates_ok_sems [OF inv(3)]) (simp_all add: d')
    ultimately show ?thesis using inv(1,2,5) by (simp add: dispatch_inv_def d')
  qed
qed

section \<open>Removal keeps the gates of other Runners\<close>

lemma drop_gate_fields [simp]:
  "dp_capacity (drop_gate i d) = dp_capacity d" "dp_sems (drop_gate i d) = dp_sems d"
  "dp_runtimes (drop_gate i d) = dp_runtimes d" "dp_active (drop_gate i d) = dp_active d"
  by (simp_all add: drop_gate_def)

lemma drop_gate_ok:
  assumes "gates_ok d" "owners_ok d"
  shows "gates_ok (drop_gate i d) \<and> owners_ok (drop_gate i d)"
proof (cases "list_ex (\<lambda>(_, owners). i \<in> set owners) (dp_runtimes d)")
  case False
  then have "i \<notin> set b" if "(a, b) \<in> set (dp_runtimes d)" for a b using that by (auto simp: list_ex_iff)
  then have "owners_ok (drop_gate i d)"
    using assms(2) unfolding owners_ok_def drop_gate_def by (fastforce simp: AList.delete_conv' split: if_splits)
  moreover have "gates_ok (drop_gate i d)"
    using assms(1) False unfolding gates_ok_def drop_gate_def by (simp add: AList.delete_conv')
  ultimately show ?thesis by blast
qed (use assms in \<open>simp add: drop_gate_def\<close>)

lemma drop_gates_ok:
  "gates_ok d \<Longrightarrow> owners_ok d \<Longrightarrow> gates_ok (fold drop_gate is d) \<and> owners_ok (fold drop_gate is d) \<and>
     dp_capacity (fold drop_gate is d) = dp_capacity d \<and> dp_sems (fold drop_gate is d) = dp_sems d \<and>
     dp_active (fold drop_gate is d) = dp_active d"
  by (induction "is" arbitrary: d) (simp_all add: drop_gate_ok)

lemma unregister_inv:
  assumes "dispatch_inv \<lparr>ds_state = d, ds_submits = X, ds_jobs = J\<rparr>"
  shows "dispatch_inv \<lparr>ds_state = unregister r d, ds_submits = X, ds_jobs = J\<rparr>"
proof -
  let ?d = "d\<lparr>dp_buses := AList.delete r (dp_buses d), dp_environments := AList.delete r (dp_environments d),
    dp_cancelled := dp_cancelled d - {r}, dp_errors := AList.delete r (dp_errors d),
    dp_runtimes := AList.delete r (dp_runtimes d)\<rparr>"
  note inv = dispatch_invD [OF assms]
  have "gates_ok ?d" by (rule gates_ok_sems [OF inv(3)]) simp_all
  moreover have "owners_ok ?d" using inv(4) set_AList_delete [of r "dp_runtimes d"] unfolding owners_ok_def by simp blast
  ultimately show ?thesis
    using inv(1,2,5) drop_gates_ok [of ?d "case map_of (dp_runtimes d) r of Some rs \<Rightarrow> rs | None \<Rightarrow> []"]
    by (simp add: dispatch_inv_def unregister_def Let_def)
qed

section \<open>Every step\<close>

lemma settle_fields:
  assumes "settle r c d = (d', out)"
  shows "dp_capacity d' = dp_capacity d" "dp_sems d' = dp_sems d" "dp_gates d' = dp_gates d"
    "dp_limits d' = dp_limits d" "dp_runtimes d' = dp_runtimes d" "dp_active d' = dp_active d"
  using assms
  by (auto simp: settle_def fail_runner_def Let_def split: sum.splits py_exc.splits option.splits)

lemma dispatch_step_inv:
  assumes "dispatch_step s s'" "dispatch_inv s"
  shows "dispatch_inv s'"
proof -
  obtain d X J where s: "s = \<lparr>ds_state = d, ds_submits = X, ds_jobs = J\<rparr>" by (cases s)
  note inv = assms(2) [unfolded s]
  show ?thesis
    using assms(1) unfolding s
  proof cases
    case (registered r env limits d' out)
    then show ?thesis using register_inv [OF _ inv] by simp
  next
    case (begun r k d' x)
    then show ?thesis using begin_inv [OF inv] by simp
  next
    case (refused r k d' e)
    moreover obtain e x where "submit_begin r k d = (e, Inr x)"
      using begin_total [OF dispatch_invD(3) [OF inv] dispatch_invD(4) [OF inv]] by blast
    ultimately show ?thesis by simp
  next
    case (gate x X' x' d')
    then show ?thesis using acquire_gate_inv [of d x X' J] inv by simp
  next
    case (capacity x X' x' d')
    then show ?thesis using acquire_capacity_inv [of d x X' J] inv by simp
  next
    case (cancelled x X' x' d')
    then have "dispatch_inv \<lparr>ds_state = d', ds_submits = add_mset x' X', ds_jobs = J\<rparr>"
      using acquire_capacity_inv [of d x X' J] inv by simp
    with cancelled abort_inv show ?thesis by simp
  next
    case (aborted x X')
    then show ?thesis using abort_inv [of d x X' J] inv by simp
  next
    case (answered x X' answer made out d')
    have "dispatch_inv \<lparr>ds_state = d', ds_submits = X', ds_jobs = (case made of Some j \<Rightarrow> add_mset j J | None \<Rightarrow> J)\<rparr>"
      by (rule reserved_inv [of d x X' J answer made out d']) (use answered inv in simp_all)
    with answered show ?thesis by (simp cong: option.case_cong)
  next
    case (settled r c d' out)
    then show ?thesis
      using settle_fields [of r c d d' out] dispatch_invD [OF inv]
      by (auto intro!: dispatch_inv_frame [OF inv])
  next
    case (job_ends j J')
    then show ?thesis using job_done_inv [of d X j J'] inv by simp
  next
    case (cancels r ks d')
    then show ?thesis using dispatch_invD [OF inv]
      by (auto intro!: dispatch_inv_frame [OF inv] simp: cancel_dispatch_def)
  next
    case (unregistered r)
    then show ?thesis using unregister_inv [OF inv] by simp
  qed
qed

lemma new_dispatcher_inv: "new_dispatcher n = Inr d \<Longrightarrow> dispatch_inv (new_system d)"
  by (auto simp: new_dispatcher_def new_system_def dispatch_inv_def permits_def refs_ok_def gates_ok_def owners_ok_def
      active_ok_def split: if_splits)

lemma dispatch_reachable_inv:
  assumes "dispatch_step\<^sup>*\<^sup>* (new_system d) s" "new_dispatcher n = Inr d"
  shows "dispatch_inv s"
  using assms(1) by (induction rule: rtranclp_induct) (auto intro: new_dispatcher_inv [OF assms(2)] dispatch_step_inv)

lemma register_limits_capacity: "register_limits limits d = (d', out) \<Longrightarrow> dp_capacity d' = dp_capacity d"
proof (induction limits d rule: register_limits.induct)
  case (2 r l rest d)
  have "dp_capacity (add_gate r l d) = dp_capacity d" by (simp add: add_gate_def Let_def)
  with 2 show ?case by (auto split: if_splits)
qed simp

lemma register_capacity: "register r env limits d = (d', out) \<Longrightarrow> dp_capacity d' = dp_capacity d"
  using register_limits_capacity [of limits d "fst (register_limits limits d)" "snd (register_limits limits d)"]
  by (auto simp: register_def split: prod.splits sum.splits)

lemma drop_gates_capacity [simp]: "dp_capacity (fold drop_gate gs d) = dp_capacity d"
  by (induction gs arbitrary: d) simp_all

lemma abort_capacity [simp]: "sem_limit (dp_capacity (submit_abort x d)) = sem_limit (dp_capacity d)"
  by (simp add: submit_abort_def Let_def release_capacity_def)

lemma acquire_limits:
  "acquire_gate x d = Some (x', d') \<Longrightarrow> dp_capacity d' = dp_capacity d"
  "acquire_capacity x d = Some (x', d') \<Longrightarrow> sem_limit (dp_capacity d') = sem_limit (dp_capacity d)"
  by (auto simp: acquire_gate_def acquire_capacity_def split: list.splits if_splits)

lemma step_capacity_limit:
  assumes "dispatch_step s s'"
  shows "sem_limit (dp_capacity (ds_state s')) = sem_limit (dp_capacity (ds_state s))"
  using assms
proof cases
  case registered
  then show ?thesis using register_capacity by simp
next
  case settled
  then show ?thesis using settle_fields(1) by simp
next
  case answered
  then show ?thesis
    by (auto simp: submit_reserved_def submit_handoff_def split: sum.splits bool.splits)
next
  case cancelled
  then show ?thesis using acquire_limits(2) by simp
qed (auto simp: submit_begin_def Let_def cancel_dispatch_def unregister_def job_done_def release_capacity_def
    dest: acquire_limits)

lemma capacity_limit:
  "dispatch_step\<^sup>*\<^sup>* s s' \<Longrightarrow> sem_limit (dp_capacity (ds_state s')) = sem_limit (dp_capacity (ds_state s))"
  by (induction rule: rtranclp_induct) (simp_all add: step_capacity_limit)

section \<open>Properties\<close>

lemma gate_users: "size (filter_mset (\<lambda>j. g \<in> set (jb_gates j)) J) \<le> held_by_jobs g J"
proof (induction J)
  case (add j J)
  have "g \<in> set (jb_gates j) \<Longrightarrow> 0 < count_list (jb_gates j) g" using count_list_0_iff by fastforce
  with add show ?case by auto
qed simp

lemma active_le:
  assumes "active_ok ks J"
  shows "length ks \<le> size J"
proof -
  have "length ks = card (set ks)" using assms by (simp add: active_ok_def distinct_card)
  also have "\<dots> \<le> card (jb_key ` set_mset J)" using assms by (intro card_mono) (simp_all add: active_ok_def)
  also have "\<dots> \<le> card (set_mset J)" by (rule card_image_le) simp
  also have "\<dots> \<le> size J" by (induction J) (auto simp: card_insert_if)
  finally show ?thesis .
qed


lemma held_by_submits_pos: "0 < held_by_submits g X \<Longrightarrow> \<exists>x \<in># X. g \<in> set (sb_held x)"
proof (induction X)
  case (add x X)
  then show ?case using count_list_0_iff [of "sb_held x" g] by (cases "count_list (sb_held x) g") auto
qed simp

lemma blocked_maximum:
  assumes "X \<noteq> {#}"
  shows "\<exists>x. x \<in># X \<and> (\<forall>y \<in># X. f y \<le> (f x :: nat))"
proof -
  have "Max (f ` set_mset X) \<in> f ` set_mset X" using assms by (intro Max_in) auto
  then obtain x where "x \<in># X" "f x = Max (f ` set_mset X)" by auto
  then show ?thesis by (metis Max_ge finite_imageI finite_set_mset imageI)
qed

text \<open>
  C8.  No deadlock.  When every Runner acquires the gates of its runtimes in one common order (the
  planner lists a runtime before its parent), some coroutine can always go on: a request is
  executing, or a submission can take its next permit, or one has all of them.
\<close>

theorem dispatch_progress:
  assumes "new_dispatcher n = Inr d" "dispatch_step\<^sup>*\<^sup>* (new_system d) s" "ds_submits s \<noteq> {#}"
    and order: "\<forall>x \<in># ds_submits s. sorted_wrt (\<lambda>g h. rank g < (rank h :: nat)) (sb_held x @ sb_todo x)"
  shows "0 < size (ds_jobs s) \<or> (\<exists>x \<in># ds_submits s. sb_capacity x \<or>
    (\<exists>r. acquire_gate x (ds_state s) = Some r) \<or> (\<exists>r. acquire_capacity x (ds_state s) = Some r))"
proof (rule ccontr)
  assume a: "\<not> ?thesis"
  have none: "ds_jobs s = {#}" using a by simp
  have stuck: "\<not> sb_capacity x \<and> acquire_gate x (ds_state s) = None \<and> acquire_capacity x (ds_state s) = None"
    if "x \<in># ds_submits s" for x using a that by (meson not_None_eq)
  have "dispatch_inv \<lparr>ds_state = ds_state s, ds_submits = ds_submits s, ds_jobs = {#}\<rparr>"
    using dispatch_reachable_inv [OF assms(2,1)] none by (cases s) simp
  note p = dispatch_invD(1,2) [OF this]
  have "capacity_held (ds_submits s) = 0" using stuck by (auto simp: capacity_held_def)
  then have "sem_value (dp_capacity (ds_state s)) \<noteq> 0" using p(1) by (auto simp: permits_def)
  with stuck have "sb_todo x \<noteq> []" if "x \<in># ds_submits s" for x
    using that by (force simp: acquire_capacity_def split: if_splits)
  with stuck have blocked: "sb_todo x \<noteq> [] \<and> sem_value (dp_sems (ds_state s) ! hd (sb_todo x)) = 0"
    if "x \<in># ds_submits s" for x
    using that by (fastforce simp: acquire_gate_def split: list.splits if_splits)
  obtain x where x: "x \<in># ds_submits s" "\<And>y. y \<in># ds_submits s \<Longrightarrow> rank (hd (sb_todo y)) \<le> rank (hd (sb_todo x))"
    using blocked_maximum [OF assms(3), of "\<lambda>x. rank (hd (sb_todo x))"] by blast
  let ?g = "hd (sb_todo x)"
  have "?g < length (dp_sems (ds_state s))" using p(2) x(1) blocked by (auto simp: refs_ok_def)
  then have "0 < held_by_submits ?g (ds_submits s)"
    using p(1) blocked [OF x(1)] by (fastforce simp: permits_def)
  then obtain y where y: "y \<in># ds_submits s" "?g \<in> set (sb_held y)"
    using held_by_submits_pos by blast
  then have "rank ?g < rank (hd (sb_todo y))"
    using order blocked by (fastforce simp: sorted_wrt_append)
  with x(2) [OF y(1)] show False by simp
qed

section \<open>A worked run\<close>

definition sample_dispatcher :: dispatcher where
  "sample_dispatcher = \<lparr>dp_capacity = new_sem 1, dp_sems = [], dp_gates = [], dp_limits = [],
    dp_runtimes = [], dp_buses = [], dp_environments = [], dp_active = [], dp_waiting = {},
    dp_cancelled = {}, dp_errors = []\<rparr>"

definition registered_dispatcher :: dispatcher where
  "registered_dispatcher = fst (register ''r'' [] [(''child'', 1)] sample_dispatcher)"

definition begun_system :: dispatch_system where
  "begun_system = \<lparr>ds_state = fst (submit_begin ''r'' ''s'' registered_dispatcher),
     ds_submits = {#\<lparr>sb_key = (''r'', ''s''), sb_todo = [0], sb_held = [], sb_capacity = False\<rparr>#}, ds_jobs = {#}\<rparr>"

lemma sample_dispatcher_new: "new_dispatcher 1 = Inr sample_dispatcher"
  by (simp add: new_dispatcher_def sample_dispatcher_def)

lemma begun_reachable: "dispatch_step\<^sup>*\<^sup>* (new_system sample_dispatcher) begun_system"
proof -
  let ?s = "\<lparr>ds_state = registered_dispatcher, ds_submits = {#}, ds_jobs = {#}\<rparr>"
  have "dispatch_step (new_system sample_dispatcher) ?s"
    using dispatch_step.registered [of "''r''" "[]" "[(''child'', 1)]" "new_system sample_dispatcher" registered_dispatcher
        "snd (register ''r'' [] [(''child'', 1)] sample_dispatcher)"]
    by (simp add: new_system_def registered_dispatcher_def)
  moreover have "dispatch_step ?s begun_system"
    using dispatch_step.begun [of "''r''" "''s''" ?s]
    by (simp add: begun_system_def registered_dispatcher_def register_def add_gate_def sample_dispatcher_def
        submit_begin_def Let_def)
  ultimately show ?thesis by (meson r_into_rtranclp rtranclp.rtrancl_into_rtrancl)
qed


theorem dispatch_progress_witness:
  "0 < size (ds_jobs begun_system) \<or> (\<exists>x \<in># ds_submits begun_system. sb_capacity x \<or>
     (\<exists>r. acquire_gate x (ds_state begun_system) = Some r) \<or>
     (\<exists>r. acquire_capacity x (ds_state begun_system) = Some r))"
  by (rule dispatch_progress [OF sample_dispatcher_new begun_reachable, of id]) (simp_all add: begun_system_def)

end
