(* ===== verification/Execution.thy ===== *)
theory Execution
  imports Dispatch
begin

text \<open>
  \<open>WorkerDispatcher._execute\<close> of \<open>runtime/dispatch.py\<close>: what becomes of one request that was
  reserved, from the answer of the router to the committed completion.

  The router is a remote actor; \<open>answer\<close> is what its call ends with.  \<open>Failed\<close> carries the text of
  the exception.  The commit is repeated while the database reports an error; an error says nothing
  about whether the transaction took effect, so \<open>commit_attempts\<close> has both cases, and other
  transactions run between two attempts.
\<close>

section \<open>The result\<close>

type_synonym response = "pydict \<times> string \<times> request_config"

datatype answer = Replied response | Failed string | Interrupted string

text \<open>\<open>elapsed\<close>: the seconds of the monotonic clock since the start.\<close>

definition error_response :: "string \<Rightarrow> pyfloat \<Rightarrow> step \<Rightarrow> response" where
  "error_response text elapsed s =
     ([(KStr ''error_code'', PStr ''worker_request_error''),
       (KStr ''error_msg'', PStr text),
       (KStr ''end_to_end_latency_s'', PFloat elapsed),
       (KStr ''ttft_s'', PNone),
       (KStr ''number_input_tokens'', PInt (snd (rq_prompt (step_request s))))], [], step_request s)"

text \<open>The environment of the Runner is looked up inside the guarded call: a missing one is an error of the request.\<close>

definition request_answer ::
    "(string \<Rightarrow> request_config \<Rightarrow> (string \<times> string) list \<Rightarrow> answer) \<Rightarrow> string \<Rightarrow> step \<Rightarrow> dispatcher \<Rightarrow> answer" where
  "request_answer router runner_id s d =
     (case map_of (dp_environments d) runner_id of
        None \<Rightarrow> Failed (CHR 0x27 # runner_id @ [CHR 0x27])
      | Some env \<Rightarrow> router runner_id (step_request s) env)"

definition answered_response :: "answer \<Rightarrow> pyfloat \<Rightarrow> step \<Rightarrow> response res" where
  "answered_response a elapsed s =
     (case a of
        Replied r \<Rightarrow> Inr r
      | Failed text \<Rightarrow> Inr (error_response text elapsed s)
      | Interrupted text \<Rightarrow> Inl (CancelledError text))"

text \<open>\<open>dict(metrics.get(REQUEST_METADATA) or step.request.metadata or {})\<close>.\<close>

definition result_metadata :: "pydict \<Rightarrow> step \<Rightarrow> pydict res" where
  "result_metadata metrics s =
     (let v = dict_get ''request_metadata'' metrics
      in if truthy v then (if is_mapping v then Inr (as_dict v) else Inl (TypeError ''request metadata''))
         else Inr (case rq_metadata (step_request s) of Some m \<Rightarrow> m | None \<Rightarrow> []))"

definition has_key :: "string \<Rightarrow> pydict \<Rightarrow> bool" where
  "has_key name d \<longleftrightarrow> map_of d (KStr name) \<noteq> None"

text \<open>The metrics with the identity of the Worker, its accounting and its timing.\<close>

definition result_metrics :: "instant \<Rightarrow> instant \<Rightarrow> pydict \<Rightarrow> step \<Rightarrow> pydict res" where
  "result_metrics started completed metrics s =
     rbind (result_metadata metrics s) (\<lambda>metadata.
       let metadata = dict_set (KStr ''worker_id'') (PStr (step_id s)) metadata;
           metrics = dict_set (KStr ''request_metadata'') (PDict metadata) metrics;
           metrics = (if has_key ''history_version'' metadata
             then dict_set (KStr ''number_input_tokens'') (dict_get ''provider_input_tokens'' metrics)
               (dict_set (KStr ''local_input_tokens'') PNone metrics)
             else metrics)
       in Inr (if has_key ''request_timing'' metrics then metrics
               else dict_set (KStr ''request_timing'')
                 (PDict [(KStr ''client_start_utc'', PTime (Aware started)),
                         (KStr ''completed_utc'', PTime (Aware completed))]) metrics))"

definition execute_result ::
    "answer \<Rightarrow> step \<Rightarrow> instant \<Rightarrow> pyfloat \<Rightarrow> instant \<Rightarrow> instant \<Rightarrow> worker_result res" where
  "execute_result a s started elapsed completed now =
     rbind (answered_response a elapsed s) (\<lambda>(metrics, text, request).
     rbind (result_metrics started completed metrics s) (\<lambda>metrics.
       Inr \<lparr>wr_step_id = step_id s, wr_metrics = metrics, wr_generated_text = text,
            wr_request = request, wr_completed_at = now\<rparr>))"

section \<open>Publication\<close>

inductive commit_attempts ::
    "(instant \<Rightarrow> 's \<Rightarrow> ('m option \<times> 's) res) \<Rightarrow> ('s \<Rightarrow> 's \<Rightarrow> bool) \<Rightarrow> 's \<Rightarrow> 'm res \<Rightarrow> 's \<Rightarrow> bool"
  for commit :: "instant \<Rightarrow> 's \<Rightarrow> ('m option \<times> 's) res" and others :: "'s \<Rightarrow> 's \<Rightarrow> bool" where
  committed: "commit t s = Inr (Some m, s') \<Longrightarrow> commit_attempts commit others s (Inr m) s'"
| rejected: "commit t s = Inr (None, s') \<Longrightarrow>
    commit_attempts commit others s (Inl (RuntimeError ''Worker result commit rejected'')) s'"
| failed: "commit t s = Inl e \<Longrightarrow> \<nexists>text. e = SQLAlchemyError text \<Longrightarrow> commit_attempts commit others s (Inl e) s"
| lost_request: "others s s1 \<Longrightarrow> commit_attempts commit others s1 out s' \<Longrightarrow> commit_attempts commit others s out s'"
| lost_answer: "commit t s = Inr (m, s1) \<Longrightarrow> others s1 s2 \<Longrightarrow> commit_attempts commit others s2 out s' \<Longrightarrow>
    commit_attempts commit others s out s'"

text \<open>
  What publication relies on: an identity that is ready stays so, a commit that answered with a
  message has stored it, a stored one is never replaced, and a repeated commit answers the same or
  rejects.
\<close>

locale durable_commit =
  fixes commit :: "instant \<Rightarrow> 's \<Rightarrow> ('m option \<times> 's) res"
    and others :: "'s \<Rightarrow> 's \<Rightarrow> bool"
    and ready :: "'s \<Rightarrow> bool"
    and stored :: "'m \<Rightarrow> 's \<Rightarrow> bool"
  assumes ready_others: "ready s \<Longrightarrow> others s s' \<Longrightarrow> ready s'"
    and ready_commit: "ready s \<Longrightarrow> commit t s = Inr (x, s') \<Longrightarrow> ready s'"
    and commit_stores: "ready s \<Longrightarrow> commit t s = Inr (Some m, s') \<Longrightarrow> stored m s'"
    and stored_others: "stored m s \<Longrightarrow> others s s' \<Longrightarrow> stored m s'"
    and commit_again: "stored m s \<Longrightarrow> commit t s = Inr (x, s') \<Longrightarrow> s' = s \<and> (x = None \<or> x = Some m)"
begin

lemma attempts_store:
  assumes "commit_attempts commit others s out s'" "ready s"
  shows "\<forall>m. out = Inr m \<longrightarrow> stored m s'"
  using assms
proof induction
  case (committed t s m s')
  then show ?case using commit_stores by blast
next
  case (lost_request s s1 out s')
  then show ?case using ready_others by blast
next
  case (lost_answer t s m s1 s2 out s')
  then show ?case using ready_others ready_commit by blast
qed simp_all

lemma attempts_agree:
  assumes "commit_attempts commit others s out s'" "stored m s"
  shows "stored m s' \<and> (\<forall>m'. out = Inr m' \<longrightarrow> m' = m)"
  using assms
proof induction
  case (committed t s m' s')
  then show ?case using commit_again by fastforce
next
  case (rejected t s s')
  then show ?case using commit_again by fastforce
next
  case (lost_request s s1 out s')
  then show ?case using stored_others by blast
next
  case (lost_answer t s x s1 s2 out s')
  then have "s1 = s" using commit_again by blast
  with lost_answer show ?case using stored_others by blast
qed simp_all

text \<open>An answer that was lost decides the outcome: the attempts after it return its message or none.\<close>

lemma lost_answer_decides:
  assumes "ready s" "commit t s = Inr (Some m, s1)" "others s1 s2" "commit_attempts commit others s2 (Inr m') s'"
  shows "m' = m"
  using attempts_agree [OF assms(4) stored_others [OF commit_stores [OF assms(1,2)] assms(3)]] by simp

end

section \<open>The repository's commit\<close>

text \<open>The Worker was reserved, and the completion of this result is stored and answers a retry.\<close>

definition reserved_row :: "string \<Rightarrow> worker_result \<Rightarrow> db \<Rightarrow> bool" where
  "reserved_row i res d \<longleftrightarrow> (\<exists>w. get_worker (worker_identity i (wr_step_id res)) d = Some w \<and> wk_state w \<noteq> WCreated)"

definition completion_stored :: "string \<Rightarrow> worker_result \<Rightarrow> stored_log \<Rightarrow> runner_message \<Rightarrow> db \<Rightarrow> bool" where
  "completion_stored i res stored m d \<longleftrightarrow>
     (\<exists>w. get_worker (worker_identity i (wr_step_id res)) d = Some w \<and> \<not> is_open w \<and>
        wk_completion_hash w = Some (completion_hash (stored_key stored))) \<and>
     (\<exists>x. get_message (completion_identity i (wr_step_id res)) d = Some x \<and>
        m = x\<lparr>msg_runner_id := i, msg_payload := stored_payload stored\<rparr>)"

lemma reserved_row_steps: "reserved_row i res d \<Longrightarrow> db_step\<^sup>*\<^sup>* d d' \<Longrightarrow> reserved_row i res d'"
proof -
  assume "reserved_row i res d" and steps: "db_step\<^sup>*\<^sup>* d d'"
  then obtain w where w: "get_worker (worker_identity i (wr_step_id res)) d = Some w" "wk_state w \<noteq> WCreated"
    by (auto simp: reserved_row_def)
  then obtain w' where w': "get_worker (worker_identity i (wr_step_id res)) d' = Some w'" "worker_le w w'"
    using steps_worker [OF steps] by blast
  then have "wk_state w \<le> wk_state w'" by (simp add: worker_le_def)
  with w(2) have "wk_state w' \<noteq> WCreated"
    by (cases "wk_state w") (auto simp: less_eq_worker_state_def)
  with w'(1) show ?thesis by (simp add: reserved_row_def)
qed

lemma completion_stored_steps:
  assumes "completion_stored i res stored m d" "db_step\<^sup>*\<^sup>* d d'"
  shows "completion_stored i res stored m d'"
proof -
  obtain w x where w: "get_worker (worker_identity i (wr_step_id res)) d = Some w" "\<not> is_open w"
      "wk_completion_hash w = Some (completion_hash (stored_key stored))"
      "get_message (completion_identity i (wr_step_id res)) d = Some x"
      "m = x\<lparr>msg_runner_id := i, msg_payload := stored_payload stored\<rparr>"
    using assms(1) by (auto simp: completion_stored_def)
  have "get_worker (worker_identity i (wr_step_id res)) d' = Some w"
    using steps_worker [OF assms(2) w(1)] w(2) by (auto simp: worker_le_def)
  moreover have "get_message (completion_identity i (wr_step_id res)) d' = Some x"
    by (rule evolvesD(3) [OF db_steps_evolves [OF assms(2)] w(4)])
  ultimately show ?thesis using w by (auto simp: completion_stored_def)
qed

lemma commit_worker_stores:
  assumes "commit_worker h i res stored t d = Inr (Some m, d')" "reserved_row i res d"
  shows "completion_stored i res stored m d'"
proof (cases "d' = d")
  case True
  from assms obtain w where "get_worker (worker_identity i (wr_step_id res)) d = Some w" "wk_state w \<noteq> WCreated"
    by (auto simp: reserved_row_def)
  with assms(1) True show ?thesis
    by (auto simp: commit_worker_def Let_def completion_stored_def is_open_def insert_row_def
        split: option.splits if_splits dest: arg_cong [of _ _ messages])
next
  case False
  from assms(1) show ?thesis
  proof (cases rule: commit_worker_cases)
    case (2 r w)
    let ?f = "\<lambda>w. w\<lparr>wk_state := (if wr_succeeded res then WSucceeded else WFailed),
                        wk_completed_at := Some (wr_completed_at res),
                        wk_completion_hash := Some (completion_hash (stored_key stored)),
                        wk_log_key := Some (stored_key stored)\<rparr>"
    have "get_worker (worker_identity i (wr_step_id res)) (update_worker (worker_identity i (wr_step_id res)) ?f d) = Some (?f w)"
      by (rule get_worker_update [OF 2(3)]) simp
    then have "get_worker (worker_identity i (wr_step_id res)) d' = Some (?f w)" unfolding 2(8) by simp
    moreover have "get_message (completion_identity i (wr_step_id res)) d' = Some (completion_row i res (stored_key stored))"
      unfolding 2(8) using 2(6) by (simp add: get_row_append completion_row_def)
    ultimately show ?thesis using 2(7) by (auto simp: completion_stored_def is_open_def completion_row_def)
  qed (use False in simp)
qed

interpretation worker_commit: durable_commit "commit_worker h i res stored" "db_step\<^sup>*\<^sup>*" "reserved_row i res"
    "completion_stored i res stored" for h i res stored
proof unfold_locales
  fix s s' assume "reserved_row i res s" "db_step\<^sup>*\<^sup>* s s'"
  then show "reserved_row i res s'" by (rule reserved_row_steps)
next
  fix s s' t x assume "reserved_row i res s" "commit_worker h i res stored t s = Inr (x, s')"
  then show "reserved_row i res s'" by (metis reserved_row_steps db_step.commit r_into_rtranclp)
next
  fix s s' t m assume "reserved_row i res s" "commit_worker h i res stored t s = Inr (Some m, s')"
  then show "completion_stored i res stored m s'" by (rule commit_worker_stores [rotated])
next
  fix s s' m assume "completion_stored i res stored m s" "db_step\<^sup>*\<^sup>* s s'"
  then show "completion_stored i res stored m s'" by (rule completion_stored_steps)
next
  fix s s' t m x assume c: "completion_stored i res stored m s" "commit_worker h i res stored t s = Inr (x, s')"
  then obtain w y where w: "get_worker (worker_identity i (wr_step_id res)) s = Some w" "wk_state w \<noteq> WSubmitted"
      "wk_completion_hash w = Some (completion_hash (stored_key stored))"
      "get_message (completion_identity i (wr_step_id res)) s = Some y"
      "m = y\<lparr>msg_runner_id := i, msg_payload := stored_payload stored\<rparr>"
    by (auto simp: completion_stored_def is_open_def)
  from commit_worker_retry [OF w(1-4) c(2)] w(5) show "s' = s \<and> (x = None \<or> x = Some m)" by simp
qed

lemma attempts_steps:
  "commit_attempts (commit_worker h i res stored) db_step\<^sup>*\<^sup>* d out d' \<Longrightarrow> db_step\<^sup>*\<^sup>* d d'"
proof (induction rule: commit_attempts.induct)
  case (lost_answer t s m s1 s2 out s')
  then show ?case by (meson db_step.commit r_into_rtranclp rtranclp_trans)
qed (auto intro: db_step.commit r_into_rtranclp rtranclp_trans)

lemma filter_key: "x \<in> set xs \<Longrightarrow> distinct (map f xs) \<Longrightarrow> filter (\<lambda>y. f y = f x) xs = [x]"
proof (induction xs)
  case (Cons a xs)
  show ?case
  proof (cases "x = a")
    case True
    moreover have "f a \<notin> f ` set xs" using Cons.prems(2) by simp
    ultimately have "f y \<noteq> f x" if "y \<in> set xs" for y using that by (metis imageI)
    with True show ?thesis by (simp add: filter_empty_conv)
  next
    case False
    with Cons show ?thesis by force
  qed
qed simp

lemma single_row:
  assumes "get_message k d = Some x" "distinct (map msg_id (messages d))"
  shows "filter (\<lambda>x. msg_id x = k) (messages d) = [x]"
  using filter_key [OF _ assms(2)] get_row_Some [of msg_id k "messages d" x] assms(1) by auto

text \<open>
  C9.  A result is published once.  However often the commit of a reserved Worker's result is
  repeated over lost requests and lost answers, with other transactions between the attempts: when
  it returns a message, the store holds exactly one completion of the Worker, the one returned (and
  the one an earlier, unanswered attempt stored, if it did), and the Worker is closed with its hash.
\<close>

theorem execute_commits_once:
  assumes "db_ok d" "reserved_row i res d"
    and "commit_attempts (commit_worker h i res stored) db_step\<^sup>*\<^sup>* d (Inr m) d'"
  shows "(\<exists>x. filter (\<lambda>x. msg_id x = completion_identity i (wr_step_id res)) (messages d') = [x] \<and>
        m = x\<lparr>msg_runner_id := i, msg_payload := stored_payload stored\<rparr>) \<and>
    (\<exists>w. get_worker (worker_identity i (wr_step_id res)) d' = Some w \<and> \<not> is_open w \<and>
        wk_completion_hash w = Some (completion_hash (stored_key stored))) \<and>
    (\<forall>m0. completion_stored i res stored m0 d \<longrightarrow> m0 = m)"
proof -
  have "db_ok d'" by (rule db_steps_ok [OF attempts_steps [OF assms(3)] assms(1)])
  then have "distinct (map msg_id (messages d'))" using view_okD(3) [OF db_okD(2)] by blast
  moreover have stored: "completion_stored i res stored m d'"
    using worker_commit.attempts_store [OF assms(3,2)] by simp
  moreover have "\<forall>m0. completion_stored i res stored m0 d \<longrightarrow> m0 = m"
    using worker_commit.attempts_agree [OF assms(3)] by blast
  ultimately show ?thesis unfolding completion_stored_def using single_row by blast
qed

lemma sample_commit:
  "\<exists>m d1. commit_worker new_repo ''r'' sample_result sample_stored 5 (sample_db Running False WSubmitted) = Inr (Some m, d1)"
  by (simp add: commit_worker_def check_runtime_def sample_simps sample_result_def insert_row_def update_worker_def Let_def)

theorem execute_commits_once_witness:
  "\<exists>m d'. commit_attempts (commit_worker new_repo ''r'' sample_result sample_stored) db_step\<^sup>*\<^sup>*
       (sample_db Running False WSubmitted) (Inr m) d' \<and>
     (\<exists>x. filter (\<lambda>x. msg_id x = completion_identity ''r'' (wr_step_id sample_result)) (messages d') = [x] \<and>
        m = x\<lparr>msg_runner_id := ''r'', msg_payload := stored_payload sample_stored\<rparr>)"
proof -
  let ?d = "sample_db Running False WSubmitted"
  obtain m d1 where c: "commit_worker new_repo ''r'' sample_result sample_stored 5 ?d = Inr (Some m, d1)"
    using sample_commit by blast
  have r: "reserved_row ''r'' sample_result ?d" by (simp add: reserved_row_def sample_simps sample_result_def)
  have "commit_attempts (commit_worker new_repo ''r'' sample_result sample_stored) db_step\<^sup>*\<^sup>* ?d (Inr m) d1"
    by (rule commit_attempts.committed) (rule c)
  with execute_commits_once [OF sample_db_ok r this] show ?thesis by blast
qed

lemma has_key_set [simp]: "has_key n (dict_set (KStr m) v d) \<longleftrightarrow> n = m \<or> has_key n d"
  by (simp add: has_key_def)

text \<open>The metrics before the timing is added.\<close>

lemma result_metrics_split:
  assumes "result_metrics started completed metrics s = Inr out"
  obtains md base where
    "base = (if has_key ''history_version'' md
       then dict_set (KStr ''number_input_tokens'') (dict_get ''provider_input_tokens'' metrics)
         (dict_set (KStr ''local_input_tokens'') PNone (dict_set (KStr ''request_metadata'') (PDict md) metrics))
       else dict_set (KStr ''request_metadata'') (PDict md) metrics)"
    "dict_get ''worker_id'' md = PStr (step_id s)"
    "\<exists>v. out = (if has_key ''request_timing'' base then base else dict_set (KStr ''request_timing'') v base)"
proof -
  obtain m where m: "result_metadata metrics s = Inr m" using assms by (auto simp: result_metrics_def)
  show ?thesis
    by (rule that [of _ "dict_set (KStr ''worker_id'') (PStr (step_id s)) m", OF refl])
      (use assms m in \<open>auto simp: result_metrics_def Let_def cong: if_cong\<close>)
qed

lemma result_metrics_fields:
  assumes "result_metrics started completed metrics s = Inr out"
  shows "has_key ''request_timing'' out" "dict_get ''error_code'' out = dict_get ''error_code'' metrics"
    "dict_get ''error_msg'' out = dict_get ''error_msg'' metrics"
    "field ''worker_id'' (dict_get ''request_metadata'' out) = PStr (step_id s)"
    "has_key ''history_version'' (as_dict (dict_get ''request_metadata'' out)) \<Longrightarrow>
       dict_get ''number_input_tokens'' out = dict_get ''provider_input_tokens'' out"
  by (rule result_metrics_split [OF assms]; fastforce split: if_splits)+

text \<open>
  Every request that was answered yields a result that can be published: it is the Worker's
  own, its metrics name the Worker and carry a timing, an error of the router is a failed result
  with the text of the error, a reply succeeded exactly when it has no error code, and with reused
  messages the input tokens are those the provider reported.
\<close>

theorem execute_result_complete:
  assumes "execute_result a s started elapsed completed now = Inr res"
  shows "wr_step_id res = step_id s \<and> has_key ''request_timing'' (wr_metrics res) \<and>
    field ''worker_id'' (dict_get ''request_metadata'' (wr_metrics res)) = PStr (step_id s) \<and>
    (\<forall>msg. a = Failed msg \<longrightarrow> \<not> wr_succeeded res \<and> dict_get ''error_msg'' (wr_metrics res) = PStr msg) \<and>
    (\<forall>ms msg q. a = Replied (ms, msg, q) \<longrightarrow>
       (wr_succeeded res \<longleftrightarrow> dict_get ''error_code'' ms = PNone) \<and> wr_generated_text res = msg) \<and>
    (has_key ''history_version'' (as_dict (dict_get ''request_metadata'' (wr_metrics res))) \<longrightarrow>
       dict_get ''number_input_tokens'' (wr_metrics res) = dict_get ''provider_input_tokens'' (wr_metrics res))"
proof -
  obtain ms msg q out where r: "answered_response a elapsed s = Inr (ms, msg, q)"
      "result_metrics started completed ms s = Inr out"
      "res = \<lparr>wr_step_id = step_id s, wr_metrics = out, wr_generated_text = msg, wr_request = q, wr_completed_at = now\<rparr>"
    using assms by (auto simp: execute_result_def)
  show ?thesis
    using r(1) result_metrics_fields [OF r(2)]
    by (auto simp: r(3) wr_succeeded_def answered_response_def error_response_def dict_get_def split: answer.splits)
qed

definition answered_step :: step where
  "answered_step = \<lparr>step_id = ''w'', step_request = wr_request sample_result, step_dependencies = [],
     step_delay = Fin 0, step_due_at = None, step_message_sources = []\<rparr>"

theorem execute_result_complete_witness:
  "\<exists>res. execute_result (Failed ''down'') answered_step 0 (Fin 1) 1 2 = Inr res \<and> wr_step_id res = ''w'' \<and>
     \<not> wr_succeeded res \<and> dict_get ''error_msg'' (wr_metrics res) = PStr ''down''"
proof -
  obtain res where r: "execute_result (Failed ''down'') answered_step 0 (Fin 1) 1 2 = Inr res"
    by (simp add: execute_result_def answered_response_def error_response_def result_metrics_def result_metadata_def
        answered_step_def Let_def dict_get_def)
  from execute_result_complete [OF r] show ?thesis using r by (auto simp: answered_step_def)
qed

end
