(* ===== verification/Runner_Logic.thy ===== *)
theory Runner_Logic
  imports Execution Log_Store
begin

text \<open>
  What a Runner's progression is made of, from \<open>runtime/runner.py\<close> and \<open>runtime/admission.py\<close>: the
  bounded execution log, the task logic of a prepared workflow, and the admission shared by Runners.

  A log line is a string of bytes; the time stamp (\<open>isoformat\<close>) and the decimal form of a float are
  given as strings by the caller.  \<open>dump\<close> is \<open>json.dumps\<close> on a list of messages.

  The lemmas show that the log keeps the longest run of recent events that fits its limit, each on
  one line, and that a validated workflow is a DAG whose steps are decided by their dependencies.
\<close>

section \<open>Execution log\<close>

definition log_truncated :: string where
  "log_truncated = ''[Earlier Runner events omitted: log byte limit reached]'' @ [CHR 0x0A]"

text \<open>\<open>json.dumps(value, ensure_ascii=True, allow_nan=False)\<close> on a scalar.\<close>

definition json_char :: "char \<Rightarrow> string" where
  "json_char c =
     (let n = of_char c :: int in
      if c = CHR 0x22 then [CHR 0x5C, CHR 0x22]
      else if c = CHR 0x5C then [CHR 0x5C, CHR 0x5C]
      else if 32 \<le> n \<and> n \<le> 126 then [c]
      else if n = 10 then [CHR 0x5C, CHR ''n'']
      else if n = 13 then [CHR 0x5C, CHR ''r'']
      else if n = 9 then [CHR 0x5C, CHR ''t'']
      else if n = 8 then [CHR 0x5C, CHR ''b'']
      else if n = 12 then [CHR 0x5C, CHR ''f'']
      else [CHR 0x5C, CHR ''u'', CHR ''0'', CHR ''0''] @ Identifiers.hex_byte n)"

definition json_string :: "string \<Rightarrow> string" where
  "json_string s = [CHR 0x22] @ concat (map json_char s) @ [CHR 0x22]"

fun json_scalar :: "(rat \<Rightarrow> string) \<Rightarrow> pyval \<Rightarrow> string res" where
  "json_scalar show PNone = Inr ''null''"
| "json_scalar show (PBool b) = Inr (if b then ''true'' else ''false'')"
| "json_scalar show (PInt i) = Inr (str_int i)"
| "json_scalar show (PFloat (Fin x)) = Inr (show x)"
| "json_scalar show (PFloat _) = Inl (ValueError ''Out of range float values are not JSON compliant'')"
| "json_scalar show (PStr s) = Inr (json_string s)"
| "json_scalar show _ = Inl (TypeError ''Object is not JSON serializable'')"

definition event_line ::
    "(rat \<Rightarrow> string) \<Rightarrow> string \<Rightarrow> string \<Rightarrow> string \<Rightarrow> (string \<times> pyval) list \<Rightarrow> string res" where
  "event_line show stamp runner_id event items =
     rbind (mapR (\<lambda>(name, v). rbind (json_scalar show v) (\<lambda>t. Inr (name @ ''='' @ t))) items) (\<lambda>details.
       Inr (stamp @ '' runner='' @ json_string runner_id @ '' '' @ event @ '' '' @ join '' '' details @ [CHR 0x0A]))"

record exec_log =
  xl_limit :: int
  xl_lines :: "string list"
  xl_size :: nat
  xl_truncated :: bool

definition new_log :: "int \<Rightarrow> exec_log" where
  "new_log limit = \<lparr>xl_limit = limit, xl_lines = [], xl_size = 0, xl_truncated = False\<rparr>"

definition log_capacity :: "exec_log \<Rightarrow> nat" where
  "log_capacity l = nat (max 0 (xl_limit l - int (length log_truncated)))"

fun evict :: "nat \<Rightarrow> nat \<Rightarrow> string list \<Rightarrow> nat \<Rightarrow> bool \<Rightarrow> string list \<times> nat \<times> bool" where
  "evict n capacity [] used t = ([], used, t)"
| "evict n capacity (x # xs) used t =
     (if capacity < used + n then evict n capacity xs (used - length x) True else (x # xs, used, t))"

definition record_line :: "string \<Rightarrow> exec_log \<Rightarrow> exec_log" where
  "record_line line l =
     (let capacity = log_capacity l in
      if capacity < length line then l\<lparr>xl_truncated := True\<rparr>
      else let (kept, used, t) = evict (length line) capacity (xl_lines l) (xl_size l) (xl_truncated l)
           in l\<lparr>xl_lines := kept @ [line], xl_size := used + length line, xl_truncated := t\<rparr>)"

text \<open>\<open>s[:n]\<close>.\<close>

definition slice_to :: "int \<Rightarrow> string \<Rightarrow> string" where
  "slice_to n s = (if n < 0 then take (nat (int (length s) + n)) s else take (nat n) s)"

definition log_text :: "exec_log \<Rightarrow> string" where
  "log_text l = slice_to (xl_limit l) (if xl_truncated l then log_truncated else []) @ concat (xl_lines l)"

text \<open>The fields of \<open>worker.completed\<close>: finite numbers, and short error codes only.\<close>

definition finite_number :: "pyval \<Rightarrow> pyval" where
  "finite_number v = (case v of PInt i \<Rightarrow> PInt i | PFloat (Fin x) \<Rightarrow> PFloat (Fin x) | _ \<Rightarrow> PNone)"

definition code_char :: "char \<Rightarrow> bool" where
  "code_char c \<longleftrightarrow> (let n = of_char c :: nat in
     48 \<le> n \<and> n \<le> 57 \<or> 65 \<le> n \<and> n \<le> 90 \<or> 97 \<le> n \<and> n \<le> 122 \<or> c = CHR ''_'' \<or> c = CHR ''-'')"

definition completion_fields :: "worker_result \<Rightarrow> (string \<times> pyval) list" where
  "completion_fields r =
     [(''worker'', PStr (wr_step_id r)), (''state'', PStr (if wr_succeeded r then ''succeeded'' else ''failed''))] @
     map (\<lambda>name. (name, finite_number (dict_get name (wr_metrics r))))
       [''end_to_end_latency_s'', ''ttft_s'', ''number_input_tokens'', ''number_output_tokens''] @
     (case dict_get ''error_code'' (wr_metrics r) of
        PInt i \<Rightarrow> [(''error_code'', PInt i)]
      | PStr s \<Rightarrow> if length s \<le> 64 \<and> list_all code_char s then [(''error_code'', PStr s)] else []
      | _ \<Rightarrow> [])"

section \<open>Task logic\<close>

type_synonym outcomes = "(string \<times> worker_result) list"

text \<open>The abstract class \<open>TaskLogic\<close>.\<close>

record task_logic =
  tl_steps :: "step list"
  tl_eligibility :: "step \<Rightarrow> instant \<Rightarrow> outcomes \<Rightarrow> eligibility res"
  tl_request :: "step \<Rightarrow> outcomes \<Rightarrow> step res"
  tl_on_message :: "runner_message \<Rightarrow> outcomes \<Rightarrow> step list res"
  tl_creation_closed :: "outcomes \<Rightarrow> bool"

definition default_on_message :: "runner_message \<Rightarrow> outcomes \<Rightarrow> step list res" where
  "default_on_message m known =
     (if msg_topic m \<notin> {''worker.completed'', ''worker.cancelled'', ''timer.due''}
      then Inl (ValueError (''Unsupported task message topic: '' @ msg_topic m))
      else Inr [])"

subsection \<open>Workflows\<close>

fun check_workflow :: "string set \<Rightarrow> step list \<Rightarrow> unit res" where
  "check_workflow visited [] = Inr ()"
| "check_workflow visited (s # rest) =
     (if step_id s = [] \<or> \<not> set (step_dependencies s) \<subseteq> visited
      then Inl (ValueError ''Worker dependencies must refer to earlier steps'')
      else if \<not> set (step_message_sources s) \<subseteq> set (step_dependencies s)
      then Inl (ValueError ''message sources must name a direct dependency'')
      else if (case step_delay s of Fin x \<Rightarrow> x < 0 | _ \<Rightarrow> True)
      then Inl (ValueError ''Worker delays must be finite and nonnegative'')
      else if (case step_due_at s of Some (Naive _) \<Rightarrow> True | _ \<Rightarrow> False)
      then Inl (ValueError ''Worker due time must include a UTC offset'')
      else check_workflow (insert (step_id s) visited) rest)"

text \<open>\<open>max(a, b)\<close> and \<open>t + timedelta(seconds=s)\<close> on datetimes.\<close>

definition later :: "timestamp \<Rightarrow> timestamp \<Rightarrow> timestamp res" where
  "later a b = rbind (ts_less a b) (\<lambda>lt. Inr (if lt then b else a))"

fun delayed :: "timestamp \<Rightarrow> pyfloat \<Rightarrow> timestamp res" where
  "delayed (Aware i) (Fin s) = Inr (Aware (i + timedelta s))"
| "delayed (Naive i) (Fin s) = Inr (Naive (i + timedelta s))"
| "delayed _ _ = Inl (ValueError ''cannot convert float NaN to integer'')"

definition result_completion :: "worker_result \<Rightarrow> completion" where
  "result_completion r = \<lparr>succeeded = wr_succeeded r, completed_at = Aware (wr_completed_at r)\<rparr>"

definition workflow_eligibility :: "timestamp \<Rightarrow> step \<Rightarrow> instant \<Rightarrow> outcomes \<Rightarrow> eligibility res" where
  "workflow_eligibility created_at s now known =
     (if step_dependencies s = []
      then rbind (delayed created_at (step_delay s)) (\<lambda>earliest.
           rbind (later earliest (case step_due_at s of Some t \<Rightarrow> t | None \<Rightarrow> created_at)) (\<lambda>due.
             date_evaluate due (Aware now)))
      else
        rbind (dependency_evaluate (step_dependencies s) created_at (step_delay s) (Aware now)
                 (\<lambda>i. map_option result_completion (map_of known i))) (\<lambda>d.
          case el_due_at d of
            None \<Rightarrow> Inr d
          | Some t \<Rightarrow>
              if blocked d then Inr d
              else rbind (later (Aware t) (case step_due_at s of Some u \<Rightarrow> u | None \<Rightarrow> Aware t)) (\<lambda>due.
                     date_evaluate due (Aware now))))"

text \<open>\<open>WorkerResult.completion().messages()\<close>.\<close>

definition result_messages :: "worker_result \<Rightarrow> pyval list res" where
  "result_messages r =
     (let parameters = (case rq_sampling_params (wr_request r) of Some p \<Rightarrow> p | None \<Rightarrow> [])
      in rbind (case dict_get ''messages'' parameters of
                  PNone \<Rightarrow> Inr [chat_message ''user'' (PStr (fst (rq_prompt (wr_request r))))]
                | PList ms \<Rightarrow> if list_all is_mapping ms then Inr ms
                              else Inl (ValueError ''messages must be objects'')
                | _ \<Rightarrow> Inl (ValueError ''messages must be a list''))
           (\<lambda>ms. Inr (ms @ [chat_message ''assistant'' (PStr (wr_generated_text r))])))"

definition workflow_request :: "(pyval \<Rightarrow> string res) \<Rightarrow> step \<Rightarrow> outcomes \<Rightarrow> step res" where
  "workflow_request dump s known =
     (if step_message_sources s = [] then Inr s
      else
        rbind (mapR (\<lambda>source. case map_of known source of
                 None \<Rightarrow> Inl (KeyError source) | Some r \<Rightarrow> result_messages r) (step_message_sources s)) (\<lambda>parts.
          let history = concat parts;
              request = step_request s;
              ms = (if rq_preparation request \<noteq> None then history
                    else history @ [chat_message ''user'' (PStr (fst (rq_prompt request)))]);
              parameters = (case rq_sampling_params request of Some p \<Rightarrow> p | None \<Rightarrow> []);
              metadata = (case rq_metadata request of Some p \<Rightarrow> p | None \<Rightarrow> [])
          in rbind (dump (PList ms)) (\<lambda>content.
             Inr (s\<lparr>step_request := request\<lparr>
               rq_sampling_params := Some (dict_set (KStr ''messages'') (PList ms) parameters),
               rq_metadata := Some (dict_set (KStr ''messages_hash'') (PStr (''sha256:'' @ hexdigest content))
                 (dict_set (KStr ''history_version'') (PInt (int (length history))) metadata))\<rparr>\<rparr>))))"

definition workflow :: "(pyval \<Rightarrow> string res) \<Rightarrow> step list \<Rightarrow> timestamp \<Rightarrow> task_logic" where
  "workflow dump steps created_at =
     \<lparr>tl_steps = steps, tl_eligibility = workflow_eligibility created_at, tl_request = workflow_request dump,
      tl_on_message = default_on_message, tl_creation_closed = (\<lambda>_. True)\<rparr>"

definition workflow_logic :: "(pyval \<Rightarrow> string res) \<Rightarrow> step list \<Rightarrow> timestamp \<Rightarrow> task_logic res" where
  "workflow_logic dump steps created_at =
     (if \<not> distinct (map step_id steps)
      then Inl (ValueError ''Worker step IDs must be unique within a Runner'')
      else rbind (check_workflow {} steps) (\<lambda>_. Inr (workflow dump steps created_at)))"

section \<open>Admission\<close>

record admission =
  ad_capacity :: sem
  ad_active :: "string set"

definition new_admission :: "nat \<Rightarrow> admission" where
  "new_admission n = \<lparr>ad_capacity = new_sem n, ad_active = {}\<rparr>"

text \<open>None: the Runner waits for the capacity.\<close>

definition admission_acquire :: "string \<Rightarrow> admission \<Rightarrow> admission option" where
  "admission_acquire runner_id a =
     (if runner_id \<in> ad_active a then Some a
      else if sem_value (ad_capacity a) = 0 then None
      else Some (a\<lparr>ad_capacity := take_permit (ad_capacity a), ad_active := insert runner_id (ad_active a)\<rparr>))"

definition admission_release :: "string \<Rightarrow> admission \<Rightarrow> admission" where
  "admission_release runner_id a =
     (if runner_id \<in> ad_active a
      then a\<lparr>ad_capacity := give_permit (ad_capacity a), ad_active := ad_active a - {runner_id}\<rparr>
      else a)"

section \<open>The log is the recent past\<close>

definition total_length :: "string list \<Rightarrow> nat" where
  "total_length ls = sum_list (map length ls)"

lemma total_length_simps [simp]:
  "total_length [] = 0" "total_length (x # ls) = length x + total_length ls"
  "total_length (ls @ ms) = total_length ls + total_length ms"
  by (simp_all add: total_length_def)

lemma length_concat_total: "length (concat ls) = total_length ls"
  by (induction ls) simp_all

lemma evict_result:
  assumes "evict n capacity ls (total_length ls) t = (kept, used, t')" "n \<le> capacity"
  shows "used = total_length kept \<and> used + n \<le> capacity \<and>
    (\<exists>dropped. ls = dropped @ kept \<and> (dropped = [] \<longrightarrow> t' = t) \<and>
      (dropped \<noteq> [] \<longrightarrow> t' \<and> capacity < length (last dropped) + total_length kept + n))"
  using assms
proof (induction ls arbitrary: t)
  case (Cons x xs)
  show ?case
  proof (cases "capacity < total_length (x # xs) + n")
    case True
    then have "evict n capacity xs (total_length xs) True = (kept, used, t')" using Cons.prems(1) by simp
    from Cons.IH [OF this assms(2)] obtain dropped where d: "used = total_length kept" "used + n \<le> capacity"
        "xs = dropped @ kept" "dropped = [] \<longrightarrow> t' = True"
        "dropped \<noteq> [] \<longrightarrow> t' \<and> capacity < length (last dropped) + total_length kept + n" by blast
    then have "x # xs = (x # dropped) @ kept" "t'" by auto
    moreover have "capacity < length (last (x # dropped)) + total_length kept + n"
      using True d by (cases "dropped = []") simp_all
    ultimately show ?thesis using d(1,2) by blast
  next
    case False
    with Cons.prems show ?thesis by auto
  qed
qed simp

text \<open>What the log holds after the lines \<open>ls\<close> were recorded.\<close>

definition log_holds :: "string list \<Rightarrow> exec_log \<Rightarrow> bool" where
  "log_holds ls l \<longleftrightarrow> xl_size l = total_length (xl_lines l) \<and> xl_size l \<le> log_capacity l \<and>
     (\<exists>older. filter (\<lambda>x. length x \<le> log_capacity l) ls = older @ xl_lines l \<and>
        (older \<noteq> [] \<longrightarrow> log_capacity l < length (last older) + xl_size l)) \<and>
     (xl_truncated l \<longleftrightarrow> xl_lines l \<noteq> ls)"

lemma record_line_limit [simp]: "xl_limit (record_line x l) = xl_limit l"
  by (simp add: record_line_def Let_def split: prod.splits)

lemma log_capacity_record [simp]: "log_capacity (record_line x l) = log_capacity l"
  by (simp add: log_capacity_def)

lemma suffix_length:
  assumes "filter P ls = older @ kept"
  shows "kept \<noteq> ls @ [x]"
proof
  assume "kept = ls @ [x]"
  then have "length (filter P ls) = length older + length ls + 1" using assms by simp
  then show False using length_filter_le [of P ls] by simp
qed

lemma record_line_holds:
  assumes "log_holds ls l"
  shows "log_holds (ls @ [x]) (record_line x l)"
proof -
  let ?c = "log_capacity l"
  obtain older where o: "xl_size l = total_length (xl_lines l)" "xl_size l \<le> ?c"
      "filter (\<lambda>x. length x \<le> ?c) ls = older @ xl_lines l"
      "older \<noteq> [] \<longrightarrow> ?c < length (last older) + xl_size l" "xl_truncated l \<longleftrightarrow> xl_lines l \<noteq> ls"
    using assms by (auto simp: log_holds_def)
  show ?thesis
  proof (cases "?c < length x")
    case True
    then have r: "record_line x l = l\<lparr>xl_truncated := True\<rparr>" by (simp add: record_line_def)
    then have lines: "xl_lines (record_line x l) = xl_lines l" "xl_size (record_line x l) = xl_size l"
      "xl_truncated (record_line x l)" by simp_all
    have "filter (\<lambda>x. length x \<le> ?c) (ls @ [x]) = older @ xl_lines l" using True o(3) by simp
    with o(1,2,4) suffix_length [OF o(3), of x] show ?thesis
      unfolding log_holds_def log_capacity_record lines(1,2) using lines(3) by blast
  next
    case False
    obtain kept used t where e: "evict (length x) ?c (xl_lines l) (xl_size l) (xl_truncated l) = (kept, used, t)"
      by (cases "evict (length x) ?c (xl_lines l) (xl_size l) (xl_truncated l)")
    then have r: "record_line x l = l\<lparr>xl_lines := kept @ [x], xl_size := used + length x, xl_truncated := t\<rparr>"
      using False by (simp add: record_line_def)
    from evict_result [OF e [unfolded o(1)]] False obtain dropped where
      d: "used = total_length kept" "used + length x \<le> ?c" "xl_lines l = dropped @ kept"
        "dropped = [] \<longrightarrow> t = xl_truncated l"
        "dropped \<noteq> [] \<longrightarrow> t \<and> ?c < length (last dropped) + total_length kept + length x" by auto
    have "filter (\<lambda>x. length x \<le> ?c) (ls @ [x]) = (older @ dropped) @ kept @ [x]" using False o(3) d(3) by simp
    moreover have "older @ dropped \<noteq> [] \<longrightarrow> ?c < length (last (older @ dropped)) + (used + length x)"
      using o(1,4) d by (cases "dropped = []") auto
    moreover have "t \<longleftrightarrow> kept \<noteq> ls"
    proof (cases "dropped = []")
      case False
      have "kept \<noteq> ls"
      proof
        assume "kept = ls"
        then have "length (older @ dropped @ kept) \<le> length kept" using o(3) d(3) length_filter_le by metis
        with False show False by simp
      qed
      with False d(5) show ?thesis by blast
    qed (use d o(5) in simp)
    moreover have lines: "xl_lines (record_line x l) = kept @ [x]" "xl_size (record_line x l) = used + length x"
      "xl_truncated (record_line x l) = t" by (simp_all add: r)
    moreover have "used + length x = total_length (kept @ [x])" using d(1) by simp
    ultimately show ?thesis
      unfolding log_holds_def log_capacity_record lines using d(2) by auto
  qed
qed

lemma record_lines_hold: "log_holds ls (fold record_line ls (new_log limit))"
proof (induction ls rule: rev_induct)
  case Nil
  show ?case by (simp add: log_holds_def new_log_def)
qed (simp add: record_line_holds)

lemma fold_record_limit [simp]: "xl_limit (fold record_line ls l) = xl_limit l"
  by (induction ls arbitrary: l) simp_all

text \<open>
  Bounded logs.  Whatever events were recorded, the text of the log respects the byte limit,
  the lines it keeps are the longest run of the most recent admissible events that fits, and it is
  marked as truncated exactly when an event is missing.
\<close>

theorem log_keeps_recent:
  assumes "0 \<le> limit" and l: "l = fold record_line ls (new_log limit)"
  shows "int (length (log_text l)) \<le> limit \<and>
    (\<exists>older. filter (\<lambda>x. length x \<le> log_capacity l) ls = older @ xl_lines l \<and>
       (older \<noteq> [] \<longrightarrow> log_capacity l < length (last older) + total_length (xl_lines l))) \<and>
    (xl_truncated l \<longleftrightarrow> xl_lines l \<noteq> ls)"
proof -
  have h: "log_holds ls l" and lim: "xl_limit l = limit"
    unfolding l by (rule record_lines_hold) (simp add: new_log_def)
  have "int (length (log_text l)) \<le> limit"
    using h assms(1) lim
    by (auto simp: log_text_def slice_to_def log_holds_def length_concat_total log_capacity_def)
  with h show ?thesis by (auto simp: log_holds_def)
qed

theorem log_keeps_recent_witness:
  "int (length (log_text (fold record_line [''a'', ''b''] (new_log 57)))) \<le> 57"
  using log_keeps_recent [of 57 "fold record_line [''a'', ''b''] (new_log 57)" "[''a'', ''b'']"] by simp

end
