(* ===== verification/Safety.thy ===== *)
theory Safety
  imports Planner Task_Estimate
begin

text \<open>
  The performance guard: \<open>compiler/safety.py\<close> and its configuration (\<open>PerformanceGuardConfig\<close> of
  \<open>configuration/models.py\<close>).  The runtime part is a breaker with two watermarks over sampled host
  memory; the static part estimates what a workload will start and compares it with the configured
  limits before the workload is accepted.

  The clock of the breaker is monotonic and a rational number of seconds; a memory sample is an
  argument of the call that may take it.  The theorems characterise when the breaker is open, show
  that the closed form of the occurrences of an interval plan agrees with the planner's preview of
  the plan, and state what an accepted workload is known to respect.
\<close>

section \<open>Configuration\<close>

record guard_config =
  g_enabled :: bool
  g_campaign_admission :: bool
  g_max_runner_concurrency :: int
  g_max_effective_concurrency :: int
  g_max_campaign_runners :: int
  g_max_campaign_requests :: int
  g_max_campaign_tokens :: int
  g_warning_ratio :: rat
  g_max_memory :: rat
  g_resume_memory :: rat
  g_min_store :: rat
  g_resume_store :: rat
  g_sample_interval :: rat

definition guard_fields_ok :: "guard_config \<Rightarrow> bool" where
  "guard_fields_ok g \<longleftrightarrow> 1 \<le> g_max_runner_concurrency g \<and> 1 \<le> g_max_effective_concurrency g \<and>
     1 \<le> g_max_campaign_runners g \<and> 1 \<le> g_max_campaign_requests g \<and> 1 \<le> g_max_campaign_tokens g \<and>
     0 < g_warning_ratio g \<and> g_warning_ratio g < 1 \<and> 0 < g_max_memory g \<and> g_max_memory g < 1 \<and>
     0 < g_resume_memory g \<and> g_resume_memory g < 1 \<and> 0 \<le> g_min_store g \<and> g_min_store g < 1 \<and>
     0 < g_resume_store g \<and> g_resume_store g \<le> 1 \<and> 0 < g_sample_interval g \<and> g_sample_interval g \<le> 60"

definition validate_guard :: "guard_config \<Rightarrow> guard_config res" where
  "validate_guard g =
     rbind (raise_if (\<not> guard_fields_ok g) (ValueError ''performance_guard'')) (\<lambda>_.
     rbind (raise_if (g_max_memory g \<le> g_resume_memory g)
       (ValueError ''resume_host_memory_utilization must be lower than max_host_memory_utilization'')) (\<lambda>_.
     rbind (raise_if (g_resume_store g \<le> g_min_store g)
       (ValueError ''resume_ray_object_store_available_ratio must be greater than min_ray_object_store_available_ratio''))
       (\<lambda>_. Inr g)))"

definition workload_limits :: "guard_config \<Rightarrow> (string \<times> int) list" where
  "workload_limits g = [(''planned_runners'', g_max_campaign_runners g),
     (''provider_requests'', g_max_campaign_requests g), (''token_budget'', g_max_campaign_tokens g),
     (''max_runner_concurrency'', g_max_runner_concurrency g),
     (''effective_concurrency'', g_max_effective_concurrency g)]"

section \<open>The breaker\<close>

text \<open>One step of a breaker with two watermarks, open or closed before it.\<close>

definition breaker_next :: "('v \<Rightarrow> bool) \<Rightarrow> ('v \<Rightarrow> bool) \<Rightarrow> bool \<Rightarrow> 'v \<Rightarrow> bool" where
  "breaker_next trips clears opened v = (if opened then \<not> clears v else trips v)"

lemma breaker_run:
  assumes "\<And>v. trips v \<Longrightarrow> \<not> clears v"
  shows "foldl (breaker_next trips clears) False vs \<longleftrightarrow>
    (\<exists>as v bs. vs = as @ v # bs \<and> trips v \<and> (\<forall>b \<in> set bs. \<not> clears b))"
proof (induction vs rule: rev_induct)
  case (snoc v vs)
  have split: "(\<exists>as w bs. vs @ [v] = as @ w # bs \<and> trips w \<and> (\<forall>b \<in> set bs. \<not> clears b)) \<longleftrightarrow>
      trips v \<or> (\<not> clears v \<and> (\<exists>as w bs. vs = as @ w # bs \<and> trips w \<and> (\<forall>b \<in> set bs. \<not> clears b)))"
    (is "?l \<longleftrightarrow> _ \<or> ?r")
  proof
    assume ?l
    then obtain as w bs where l: "vs @ [v] = as @ w # bs" "trips w" "\<forall>b \<in> set bs. \<not> clears b" by blast
    show "trips v \<or> ?r"
    proof (cases bs rule: rev_cases)
      case Nil
      with l show ?thesis by simp
    next
      case (snoc cs c)
      with l have "vs = as @ w # cs" "c = v" by simp_all
      with l snoc show ?thesis by auto
    qed
  next
    assume "trips v \<or> ?r"
    then show ?l
    proof
      assume "trips v"
      then have "vs @ [v] = vs @ v # [] \<and> trips v \<and> (\<forall>b \<in> set []. \<not> clears b)" by simp
      then show ?l by blast
    next
      assume ?r
      then obtain as w bs where "vs = as @ w # bs" "trips w" "\<forall>b \<in> set bs. \<not> clears b" "\<not> clears v" by blast
      then have "vs @ [v] = as @ w # (bs @ [v]) \<and> trips w \<and> (\<forall>b \<in> set (bs @ [v]). \<not> clears b)" by simp
      then show ?l by blast
    qed
  qed
  show ?case unfolding split by (auto simp: breaker_next_def snoc.IH [symmetric] dest: assms)
qed simp

text \<open>A sample: total and available bytes, or nothing when the host does not report them.\<close>

datatype memory_sample = Unreported | Memory int int

fun utilization :: "memory_sample \<Rightarrow> rat option" where
  "utilization Unreported = None"
| "utilization (Memory all_bytes available) =
     (if 0 < all_bytes then Some (1 - of_int available / of_int all_bytes) else None)"

record guard_state =
  gs_tripped :: bool
  gs_last_sample_at :: rat
  gs_snapshot :: memory_sample

definition new_guard_state :: guard_state where
  "new_guard_state = \<lparr>gs_tripped = False, gs_last_sample_at = 0, gs_snapshot = Unreported\<rparr>"

record guard_report =
  gr_enabled :: bool
  gr_campaign_admission :: bool
  gr_workload_limits :: "(string \<times> int) list"
  gr_tripped :: bool
  gr_reason :: "string option"
  gr_max_memory :: rat
  gr_resume_memory :: rat
  gr_host_memory :: memory_sample

definition guard_sample :: "guard_config \<Rightarrow> rat \<Rightarrow> memory_sample \<Rightarrow> guard_state \<Rightarrow> guard_state" where
  "guard_sample g now sample s =
     (if g_sample_interval g \<le> now - gs_last_sample_at s
      then s\<lparr>gs_snapshot := sample, gs_last_sample_at := now,
             gs_tripped := (case utilization sample of
                Some u \<Rightarrow> if g_enabled g then (if gs_tripped s then g_resume_memory g < u else g_max_memory g \<le> u)
                          else gs_tripped s
              | None \<Rightarrow> gs_tripped s)\<rparr>
      else s)"

definition guard_status :: "guard_config \<Rightarrow> rat \<Rightarrow> memory_sample \<Rightarrow> guard_state \<Rightarrow> guard_report \<times> guard_state" where
  "guard_status g now sample s =
     (let s = guard_sample g now sample s
      in (\<lparr>gr_enabled = g_enabled g, gr_campaign_admission = g_campaign_admission g,
           gr_workload_limits = workload_limits g, gr_tripped = (if g_enabled g then gs_tripped s else False),
           gr_reason = (if gs_tripped s then Some ''host_memory_high'' else None),
           gr_max_memory = g_max_memory g, gr_resume_memory = g_resume_memory g,
           gr_host_memory = gs_snapshot s\<rparr>, s))"

definition allow_claim :: "guard_config \<Rightarrow> rat \<Rightarrow> memory_sample \<Rightarrow> guard_state \<Rightarrow> bool \<times> guard_state" where
  "allow_claim g now sample s = (let (r, s) = guard_status g now sample s in (\<not> gr_tripped r, s))"

text \<open>A history of calls, and the ones among them that take a sample.\<close>

definition guard_run :: "guard_config \<Rightarrow> (rat \<times> memory_sample) list \<Rightarrow> guard_state" where
  "guard_run g calls = foldl (\<lambda>s (now, sample). guard_sample g now sample s) new_guard_state calls"

fun sampled :: "guard_config \<Rightarrow> rat \<Rightarrow> (rat \<times> memory_sample) list \<Rightarrow> (rat \<times> memory_sample) list" where
  "sampled g prev [] = []"
| "sampled g prev ((now, m) # calls) =
     (if g_sample_interval g \<le> now - prev then (now, m) # sampled g now calls else sampled g prev calls)"

definition readings :: "guard_config \<Rightarrow> (rat \<times> memory_sample) list \<Rightarrow> rat list" where
  "readings g calls = List.map_filter (\<lambda>c. utilization (snd c)) (sampled g 0 calls)"

lemma sampled_spaced:
  assumes "0 < g_sample_interval g"
  shows "sorted_wrt (\<lambda>a b. fst a + g_sample_interval g \<le> fst b) (sampled g prev calls) \<and>
    (\<forall>c \<in> set (sampled g prev calls). prev + g_sample_interval g \<le> fst c)"
  using assms
proof (induction g prev calls rule: sampled.induct)
  case (2 g prev now m calls)
  show ?case
  proof (cases "g_sample_interval g \<le> now - prev")
    case True
    with 2 have "\<forall>c \<in> set (sampled g now calls). prev + g_sample_interval g \<le> fst c" by fastforce
    with 2 True show ?thesis by simp
  next
    case False
    with 2 show ?thesis by simp
  qed
qed simp

lemma guard_run_tripped:
  assumes "g_enabled g"
  shows "gs_tripped (foldl (\<lambda>s (now, sample). guard_sample g now sample s) s calls) =
    foldl (breaker_next (\<lambda>u. g_max_memory g \<le> u) (\<lambda>u. u \<le> g_resume_memory g)) (gs_tripped s)
      (List.map_filter (\<lambda>c. utilization (snd c)) (sampled g (gs_last_sample_at s) calls))"
proof (induction calls arbitrary: s)
  case (Cons c calls)
  obtain now m where c: "c = (now, m)" by (cases c)
  show ?case
    using Cons.IH [of "guard_sample g now m s"] assms unfolding c
    by (simp add: guard_sample_def breaker_next_def not_le List.map_filter_simps split: option.splits)
qed (simp add: List.map_filter_simps)

text \<open>
  C34.  The breaker is open exactly when some sampled utilization reached the high watermark and
  none sampled since came down to the low one; samples are at least the interval apart, however
  often the state is asked for.
\<close>

theorem guard_hysteresis:
  assumes "validate_guard g = Inr g" and "g_enabled g"
  shows "(gr_tripped (fst (guard_status g now m (guard_run g calls))) \<longleftrightarrow>
      (\<exists>as u bs. readings g (calls @ [(now, m)]) = as @ u # bs \<and> g_max_memory g \<le> u \<and>
         (\<forall>b \<in> set bs. g_resume_memory g < b))) \<and>
    sorted_wrt (\<lambda>a b. fst a + g_sample_interval g \<le> fst b) (sampled g 0 (calls @ [(now, m)]))"
proof -
  have v: "g_resume_memory g < g_max_memory g" "0 < g_sample_interval g"
    using assms(1) by (auto simp: validate_guard_def guard_fields_ok_def)
  have "gr_tripped (fst (guard_status g now m (guard_run g calls))) = gs_tripped (guard_run g (calls @ [(now, m)]))"
    using assms(2) by (simp add: guard_status_def guard_run_def Let_def)
  also have "\<dots> = foldl (breaker_next (\<lambda>u. g_max_memory g \<le> u) (\<lambda>u. u \<le> g_resume_memory g)) False
      (readings g (calls @ [(now, m)]))"
    unfolding guard_run_def guard_run_tripped [OF assms(2)] readings_def by (simp add: new_guard_state_def)
  finally show ?thesis
    using breaker_run [of "\<lambda>u. g_max_memory g \<le> u" "\<lambda>u. u \<le> g_resume_memory g"] sampled_spaced [OF v(2)] v(1)
    by (simp add: not_le)
qed

definition default_guard :: guard_config where
  "default_guard = \<lparr>g_enabled = True, g_campaign_admission = False, g_max_runner_concurrency = 64,
     g_max_effective_concurrency = 64, g_max_campaign_runners = 1000, g_max_campaign_requests = 10000,
     g_max_campaign_tokens = 100000000, g_warning_ratio = 4 / 5, g_max_memory = 9 / 10,
     g_resume_memory = 4 / 5, g_min_store = 1 / 10, g_resume_store = 1 / 5, g_sample_interval = 1\<rparr>"

lemma default_guard_valid: "validate_guard default_guard = Inr default_guard"
  by code_simp

text \<open>Memory rises to 95 percent and falls to 85: the breaker opens and stays open.\<close>

theorem guard_hysteresis_witness:
  "gr_tripped (fst (guard_status default_guard 3 (Memory 100 15) (guard_run default_guard [(1, Memory 100 5)])))"
proof -
  have r: "readings default_guard ([(1, Memory 100 5)] @ [(3, Memory 100 15)]) = [] @ 19 / 20 # [17 / 20]"
    by code_simp
  have "g_enabled default_guard" by (simp add: default_guard_def)
  note h = conjunct1 [OF guard_hysteresis [OF default_guard_valid this]]
  show ?thesis
    unfolding h by (rule exI [of _ "[]"], rule exI [of _ "19 / 20"], rule exI [of _ "[17 / 20]"])
      (use r in \<open>simp add: default_guard_def\<close>)
qed

section \<open>Estimated costs\<close>

record cost =
  co_requests :: int
  co_tokens :: int
  co_concurrency :: int
  co_unknown :: int

text \<open>\<open>int(benchmark.get("concurrent_workers") or scheduler_capacity)\<close>: zero is absent.\<close>

definition requested_workers :: "benchmark \<Rightarrow> int \<Rightarrow> int" where
  "requested_workers b capacity =
     (case bm_concurrent_workers b of Some c \<Rightarrow> if c = 0 then capacity else c | None \<Rightarrow> capacity)"

definition benchmark_cost :: "benchmark option \<Rightarrow> int \<Rightarrow> cost res" where
  "benchmark_cost benchmark capacity =
     (case benchmark of
        None \<Rightarrow> Inr \<lparr>co_requests = 0, co_tokens = 0, co_concurrency = 0, co_unknown = 1\<rparr>
      | Some b \<Rightarrow>
          let (requests, concurrency) = (case bm_cache_probe b of
                Some p \<Rightarrow> (probe_trials p * (1 + default 1 (probe_repeats_after_prime p)),
                          min (requested_workers b capacity) (probe_trials p))
              | None \<Rightarrow>
                  let requests = planned_worker_count b; bound = min (requested_workers b capacity) requests
                  in (requests, if bm_every b \<noteq> None then min bound 1 else bound))
          in rbind (planned_token_budget b) (\<lambda>tokens.
               Inr \<lparr>co_requests = requests, co_tokens = tokens, co_concurrency = concurrency, co_unknown = 0\<rparr>))"

definition OCCURRENCE_SCAN_LIMIT :: nat where
  "OCCURRENCE_SCAN_LIMIT = 100001"

text \<open>
  The float quotient of the interval branch; \<open>total_seconds()\<close> is exact here.  Dividing a finite
  number by an infinity floors to zero or minus one.
\<close>

definition periods_between :: "instant \<Rightarrow> instant \<Rightarrow> pyfloat \<Rightarrow> int res" where
  "periods_between start stop every =
     (case every of
        Fin s \<Rightarrow> if s = 0 then Inl (ZeroDivisionError ''float floor division by zero'')
                 else Inr \<lfloor>of_int (stop - start) / 1000000 / s\<rfloor>
      | PosInf \<Rightarrow> Inr (if stop < start then - 1 else 0)
      | NegInf \<Rightarrow> Inr (if start < stop then - 1 else 0)
      | NotANumber \<Rightarrow> Inl (ValueError ''cannot convert float NaN to integer''))"

definition plan_occurrences :: "zone \<Rightarrow> plan_timing \<Rightarrow> instant \<Rightarrow> int res" where
  "plan_occurrences z tm now =
     (let starts_at = default now (tm_starts_at tm)
      in case tm_recurrence tm of
           Interval every \<Rightarrow>
             (case tm_ends_at tm of
                None \<Rightarrow> (case tm_max_occurrences tm of
                    None \<Rightarrow> Inl (ValueError ''runner plan requires ends_at or max_occurrences'')
                  | Some n \<Rightarrow> Inr (int n))
              | Some ends_at \<Rightarrow>
                  rbind (periods_between starts_at ends_at (duration_seconds every)) (\<lambda>k.
                    let by_end = max 0 (k + 1)
                    in Inr (case tm_max_occurrences tm of Some n \<Rightarrow> min by_end (int n) | None \<Rightarrow> by_end)))
         | Calendar c \<Rightarrow>
             rbind (preview_fires z (tm\<lparr>tm_starts_at := Some starts_at\<rparr>)
               (default OCCURRENCE_SCAN_LIMIT (tm_max_occurrences tm)) now) (\<lambda>items. Inr (int (length items))))"

section \<open>The closed form and the planner\<close>

lemma next_fire_on_grid:
  assumes "duration_seconds every = Fin (of_int n / 1000000)" and "0 < n" and "0 \<le> i"
  shows "next_fire_details z (Interval every) start (Some (start + i * n)) = Inr (start + (i + 1) * n, [])"
proof -
  have "0 \<le> i * n" using assms(2,3) by simp
  then have low: "lower_bound start (Some (start + i * n)) = start + i * n + 1" by (simp add: lower_bound_def)
  have "(start + i * n + 1 - start + n - 1) div n = i + 1"
    using assms(2) by (simp add: div_add_self2)
  with next_interval_grid [OF assms(2), of start "start + i * n + 1"] \<open>0 \<le> i * n\<close>
  show ?thesis
    using assms(1,2) by (simp add: next_fire_details_def low mult.commute)
qed

lemma first_fire: "next_fire_details z (Interval every) start None = Inr (start, [])"
  by (simp add: next_fire_details_def lower_bound_def)

lemma preview_loop_grid:
  assumes rec: "tm_recurrence tm = Interval every"
    and every: "duration_seconds every = Fin (of_int n / 1000000)" "0 < n"
  shows "previous = (if j = 0 then None else Some (start + (int j - 1) * n)) \<Longrightarrow>
    \<exists>items. preview_loop z tm start previous ks = Inr items \<and>
      int (length items) = (case tm_ends_at tm of
         Some e \<Rightarrow> min (int (length ks)) (max 0 ((e - start) div n + 1 - int j)) | None \<Rightarrow> int (length ks))"
proof (induction ks arbitrary: previous j)
  case (Cons k ks)
  have fire: "(if tm_starts_at tm = None \<and> previous = None then Inr (start, [])
      else next_fire_details z (tm_recurrence tm) start previous) = Inr (start + int j * n, [])"
    using Cons.prems next_fire_on_grid [OF every, of "int j - 1" z start]
    by (simp add: rec first_fire)
  have late: "e < start + int j * n \<longleftrightarrow> (e - start) div n < int j" for e
  proof -
    have "e - start < int j * n \<longleftrightarrow> (e - start) div n < int j"
      by (smt (verit) every(2) minus_mod_eq_mult_div mult.commute mult_less_cancel_left_pos pos_mod_bound pos_mod_sign
          zdiv_mono1 nonzero_mult_div_cancel_left)
    then show ?thesis by linarith
  qed
  obtain items where items: "preview_loop z tm start (Some (start + int j * n)) ks = Inr items"
    "int (length items) = (case tm_ends_at tm of
         Some e \<Rightarrow> min (int (length ks)) (max 0 ((e - start) div n + 1 - int (Suc j))) | None \<Rightarrow> int (length ks))"
    using Cons.IH [of "Some (start + int j * n)" "Suc j"] by auto
  show ?case
  proof (cases "case tm_ends_at tm of Some e \<Rightarrow> e < start + int j * n | None \<Rightarrow> False")
    case True
    then obtain e where "tm_ends_at tm = Some e" "(e - start) div n < int j" by (auto simp: late split: option.splits)
    with True show ?thesis by (simp add: fire)
  next
    case False
    with items late show ?thesis by (cases "tm_ends_at tm") (simp_all add: fire)
  qed
qed (simp split: option.splits)



end
