(* ===== verification/Fair_Queue.thy ===== *)
theory Fair_Queue
  imports Prelude "HOL-Library.AList"
begin

text \<open>
  The interface behind the two schedulers of the runtime: \<open>RequestRouter\<close>
  (\<open>runtime/request_pool.py\<close>) queues Workers per Runner, \<open>RuntimeCoordinator\<close>
  (\<open>runtime/coordinator.py\<close>) queues Runners per campaign.  Both keep a dict of non-empty FIFO queues
  and a deque with the service order of its keys.  The abstract operations below are that
  discipline; the locale \<open>fair_queue\<close> states that a component follows it, and its lemmas give the
  client the invariant and a bound on how often a waiting key is bypassed.
\<close>

section \<open>Round-robin queues\<close>

type_synonym ('k, 'w) rr = "('k \<times> 'w list) list \<times> 'k list"

definition queue_at :: "('k \<times> 'w list) list \<Rightarrow> 'k \<Rightarrow> 'w list" where
  "queue_at q k = (case map_of q k of Some ws \<Rightarrow> ws | None \<Rightarrow> [])"

definition queued :: "('k \<times> 'w list) list \<Rightarrow> nat" where
  "queued q = sum_list (map (\<lambda>(_, ws). length ws) q)"

fun rr_put :: "'k \<Rightarrow> 'w \<Rightarrow> ('k, 'w) rr \<Rightarrow> ('k, 'w) rr" where
  "rr_put k w (q, order) =
     (AList.update k (queue_at q k @ [w]) q, if map_of q k = None then order @ [k] else order)"

fun rr_take :: "('k, 'w) rr \<Rightarrow> (('k \<times> 'w) \<times> ('k, 'w) rr) option" where
  "rr_take (q, []) = None"
| "rr_take (q, k # order) = (case queue_at q k of
     [] \<Rightarrow> None
   | w # ws \<Rightarrow> Some ((k, w), if ws = [] then (AList.delete k q, order)
                             else (AList.update k ws q, order @ [k])))"

text \<open>A waiter gives up; an emptied queue disappears with its place in the order.\<close>

fun rr_drop :: "'k \<Rightarrow> 'w \<Rightarrow> ('k, 'w) rr \<Rightarrow> ('k, 'w) rr" where
  "rr_drop k w (q, order) =
     (if w \<notin> set (queue_at q k) then (q, order)
      else let ws = remove1 w (queue_at q k)
           in if ws = [] then (AList.delete k q, remove1 k order) else (AList.update k ws q, order))"

fun rr_wf :: "('k, 'w) rr \<Rightarrow> bool" where
  "rr_wf (q, order) \<longleftrightarrow> distinct (map fst q) \<and> distinct order \<and> set order = fst ` set q \<and>
     (\<forall>(k, ws) \<in> set q. ws \<noteq> [])"

section \<open>Dicts of queues\<close>

lemma queue_at_update [simp]: "queue_at (AList.update k ws q) k' = (if k' = k then ws else queue_at q k')"
  by (simp add: queue_at_def update_conv')

lemma queue_at_delete [simp]: "queue_at (AList.delete k q) k' = (if k' = k then [] else queue_at q k')"
  by (simp add: queue_at_def delete_conv')

lemma queue_at_None: "map_of q k = None \<Longrightarrow> queue_at q k = []"
  by (simp add: queue_at_def)

lemma queued_update:
  "distinct (map fst q) \<Longrightarrow> queued (AList.update k ws q) + length (queue_at q k) = queued q + length ws"
proof (induction q)
  case (Cons p q)
  have "k \<notin> fst ` set q \<Longrightarrow> AList.update k ws q = q @ [(k, ws)]" by (induction q) auto
  with Cons show ?case by (cases p) (auto simp: queued_def queue_at_def)
qed (simp add: queued_def queue_at_def)

lemma queued_delete:
  "distinct (map fst q) \<Longrightarrow> queued (AList.delete k q) + length (queue_at q k) = queued q"
proof (induction q)
  case (Cons p q)
  have "k \<notin> fst ` set q \<Longrightarrow> AList.delete k q = q" by (induction q) (auto simp: AList.delete_eq)
  moreover have "k \<notin> fst ` set q \<Longrightarrow> queue_at q k = []"
    by (simp add: queue_at_def map_of_eq_None_iff [THEN iffD2])
  ultimately show ?case using Cons by (cases p) (auto simp: queued_def queue_at_def AList.delete_eq)
qed (simp add: queued_def queue_at_def AList.delete_eq)

lemma rr_wf_iff:
  "rr_wf (q, order) \<longleftrightarrow> distinct (map fst q) \<and> distinct order \<and> set order = dom (map_of q) \<and>
     (\<forall>k. map_of q k \<noteq> Some [])"
proof -
  have "(\<forall>(k, ws) \<in> set q. ws \<noteq> []) \<longleftrightarrow> (\<forall>k. map_of q k \<noteq> Some [])" if "distinct (map fst q)"
    using that map_of_is_SomeI [OF that] by (fastforce dest: map_of_SomeD)
  then show ?thesis by (auto simp: dom_map_of_conv_image_fst)
qed

declare rr_wf.simps [simp del]

lemma queue_at_nonempty: "rr_wf (q, order) \<Longrightarrow> queue_at q k \<noteq> [] \<longleftrightarrow> k \<in> set order"
  by (auto simp: rr_wf_iff queue_at_def split: option.splits)

section \<open>The discipline keeps its invariant\<close>

lemma rr_put_wf [wf_intros]: "rr_wf s \<Longrightarrow> rr_wf (rr_put k w s)"
  by (cases s) (auto simp: rr_wf_iff update_conv' distinct_update  split: if_splits)

lemma rr_take_wf [wf_intros]:
  assumes "rr_wf s" and "rr_take s = Some (kw, s')"
  shows "rr_wf s'"
proof (cases s)
  case (Pair q order)
  then obtain k rest where order: "order = k # rest" using assms(2) by (cases order) auto
  with assms(2) Pair obtain w ws where q: "queue_at q k = w # ws" by (auto split: list.splits)
  have s': "s' = (if ws = [] then (AList.delete k q, rest) else (AList.update k ws q, rest @ [k]))"
    using assms(2) Pair order q by simp
  from assms(1) show ?thesis unfolding s' Pair order
    by (auto simp: rr_wf_iff update_conv' delete_conv' distinct_update distinct_delete  split: if_splits)
qed

lemma rr_drop_wf [wf_intros]: "rr_wf s \<Longrightarrow> rr_wf (rr_drop k w s)"
proof (cases s)
  case (Pair q order)
  assume wf: "rr_wf s"
  show ?thesis
  proof (cases "w \<in> set (queue_at q k)")
    case True
    then have "k \<in> set order" using queue_at_nonempty [of q order k] wf Pair by (metis list.set(1) empty_iff)
    with True wf Pair show ?thesis
      by (auto simp: rr_wf_iff update_conv' delete_conv' distinct_update distinct_delete Let_def
           split: if_splits)
  qed (use wf Pair in simp)
qed

lemma rr_take_total: "rr_wf (q, order) \<Longrightarrow> order \<noteq> [] \<Longrightarrow> \<exists>kw s'. rr_take (q, order) = Some (kw, s')"
  using queue_at_nonempty [of q order "hd order"] by (cases order) (auto split: list.splits)

section \<open>Bounded bypass\<close>

text \<open>
  A history of the queue: arrivals, services and withdrawals.  \<open>served\<close> lists the keys in the order
  in which the services of the history pick them.
\<close>

datatype ('k, 'w) event = Put 'k 'w | Take | Drop 'k 'w

fun served :: "('k, 'w) rr \<Rightarrow> ('k, 'w) event list \<Rightarrow> 'k list" where
  "served s [] = []"
| "served s (Put k w # es) = served (rr_put k w s) es"
| "served s (Drop k w # es) = served (rr_drop k w s) es"
| "served s (Take # es) = (case rr_take s of None \<Rightarrow> served s es | Some ((k, w), s') \<Rightarrow> k # served s' es)"

fun position :: "'k \<Rightarrow> 'k list \<Rightarrow> nat" where
  "position k [] = 0"
| "position k (x # xs) = (if x = k then 0 else Suc (position k xs))"

lemma position_append: "k \<in> set xs \<Longrightarrow> position k (xs @ ys) = position k xs"
  by (induction xs) auto

lemma position_remove1: "k \<noteq> x \<Longrightarrow> position k (remove1 x xs) \<le> position k xs"
  by (induction xs) auto

text \<open>Whatever arrives meanwhile and whoever else withdraws, a waiting key is next after at most
  as many services as there were keys before it.\<close>

lemma served_within_position:
  assumes "rr_wf s" and "k \<in> set (snd s)" and "\<forall>w. Drop k w \<notin> set es"
    and "position k (snd s) < length (served s es)"
  shows "k \<in> set (take (Suc (position k (snd s))) (served s es))"
  using assms
proof (induction s es rule: served.induct)
  case (2 s k' w es)
  obtain q order where s: "s = (q, order)" by (cases s)
  have ord: "snd (rr_put k' w s) = order \<or> snd (rr_put k' w s) = order @ [k']" by (simp add: s)
  then have pos: "position k (snd (rr_put k' w s)) = position k order"
    using 2(3) s position_append [of k order] by auto
  have "k \<in> set (snd (rr_put k' w s))" using ord 2(3) s by auto
  from 2(1) [OF rr_put_wf [OF 2(2)] this] 2(4,5) pos show ?case by (simp add: s)
next
  case (3 s k' w es)
  obtain q order where s: "s = (q, order)" by (cases s)
  have kk: "k \<noteq> k'" using 3(4) by auto
  have ord: "snd (rr_drop k' w s) = order \<or> snd (rr_drop k' w s) = remove1 k' order" by (simp add: s Let_def)
  then have pos: "position k (snd (rr_drop k' w s)) \<le> position k order"
    using position_remove1 [OF kk] by auto
  have "k \<in> set (snd (rr_drop k' w s))" using ord 3(3) s kk by auto
  from 3(1) [OF rr_drop_wf [OF 3(2)] this] 3(4,5) pos
  have "k \<in> set (take (Suc (position k (snd (rr_drop k' w s)))) (served (rr_drop k' w s) es))" by (auto simp: s)
  moreover have "set (take (Suc (position k (snd (rr_drop k' w s)))) (served (rr_drop k' w s) es)) \<subseteq>
      set (take (Suc (position k order)) (served (rr_drop k' w s) es))"
    using pos by (intro set_take_subset_set_take) simp
  ultimately show ?case by (auto simp: s)
next
  case (4 s es)
  obtain q order where s: "s = (q, order)" by (cases s)
  from 4(4) s obtain h rest where order: "order = h # rest" by (cases order) auto
  from rr_take_total [of q order] 4(3) s order obtain w s' where t: "rr_take s = Some ((h, w), s')"
    by (auto split: list.splits if_splits)
  show ?case
  proof (cases "h = k")
    case True
    with t order s show ?thesis by simp
  next
    case False
    with 4(4) s order have k: "k \<in> set rest" by simp
    have "snd s' = rest \<or> snd s' = rest @ [h]" using t s order by (auto split: list.splits if_splits)
    then have pos: "position k (snd s') = position k rest" "k \<in> set (snd s')"
      using position_append [OF k] k by auto
    have "k \<in> set (take (Suc (position k (snd s'))) (served s' es))"
      using 4(2) [OF t refl refl rr_take_wf [OF 4(3) t] pos(2)] 4(5,6) pos(1) t s order False by auto
    with pos(1) t s order False show ?thesis by simp
  qed
qed simp

section \<open>The interface\<close>

text \<open>The keys a component serves along a history; a service it refuses leaves it unchanged.\<close>

fun run_queue ::
    "('k \<Rightarrow> 'w \<Rightarrow> 's \<Rightarrow> 's) \<Rightarrow> ('s \<Rightarrow> (('k \<times> 'w) \<times> 's) option) \<Rightarrow> ('k \<Rightarrow> 'w \<Rightarrow> 's \<Rightarrow> 's) \<Rightarrow>
     's \<Rightarrow> ('k, 'w) event list \<Rightarrow> 'k list" where
  "run_queue p s d x [] = []"
| "run_queue p s d x (Put k w # es) = run_queue p s d (p k w x) es"
| "run_queue p s d x (Drop k w # es) = run_queue p s d (d k w x) es"
| "run_queue p s d x (Take # es) = (case s x of
     None \<Rightarrow> run_queue p s d x es | Some ((k, w), y) \<Rightarrow> k # run_queue p s d y es)"

locale fair_service =
  fixes abs :: "'s \<Rightarrow> ('k, 'w) rr"
    and put :: "'k \<Rightarrow> 'w \<Rightarrow> 's \<Rightarrow> 's"
    and serve :: "'s \<Rightarrow> (('k \<times> 'w) \<times> 's) option"
  assumes put_abs: "rr_wf (abs s) \<Longrightarrow> abs (put k w s) = rr_put k w (abs s)"
    and serve_abs: "rr_wf (abs s) \<Longrightarrow> serve s = Some (kw, s') \<Longrightarrow> rr_take (abs s) = Some (kw, abs s')"
begin

lemma put_wf: "rr_wf (abs s) \<Longrightarrow> rr_wf (abs (put k w s))"
  by (simp add: put_abs rr_put_wf)

lemma serve_wf: "rr_wf (abs s) \<Longrightarrow> serve s = Some (kw, s') \<Longrightarrow> rr_wf (abs s')"
  using serve_abs rr_take_wf by blast

lemma put_queued:
  assumes "rr_wf (abs s)"
  shows "queued (fst (abs (put k w s))) = Suc (queued (fst (abs s)))"
proof -
  obtain q order where s: "abs s = (q, order)" by (cases "abs s")
  then have "distinct (map fst q)" using assms by (simp add: rr_wf_iff)
  from queued_update [OF this, of k "queue_at q k @ [w]"] put_abs [OF assms, of k w] s show ?thesis by simp
qed

lemma serve_head:
  assumes "rr_wf (abs s)" and "serve s = Some ((k, w), s')"
  shows "\<exists>rest. snd (abs s) = k # rest" and "\<exists>ws. queue_at (fst (abs s)) k = w # ws"
  using serve_abs [OF assms] by (cases "abs s"; cases "snd (abs s)"; auto split: list.splits if_splits)+

lemma serve_queued:
  assumes "rr_wf (abs s)" and "serve s = Some (kw, s')"
  shows "queued (fst (abs s)) = Suc (queued (fst (abs s')))"
proof -
  obtain q order where s: "abs s = (q, order)" by (cases "abs s")
  then have d: "distinct (map fst q)" using assms by (simp add: rr_wf_iff)
  obtain k w where kw: "kw = (k, w)" by (cases kw)
  from serve_head [OF assms(1) assms(2) [unfolded kw]] s obtain rest ws where
    order: "order = k # rest" and q: "queue_at q k = w # ws" by auto
  from serve_abs [OF assms] s order q have "fst (abs s') = (if ws = [] then AList.delete k q else AList.update k ws q)"
    by (auto split: if_splits dest!: sym [of _ "abs s'"])
  with queued_update [OF d, of k ws] queued_delete [OF d, of k] q s show ?thesis by (auto split: if_splits)
qed

text \<open>Withdrawals of the history, if any, must follow the discipline too.\<close>

lemma run_served:
  assumes "\<And>s k w. Drop k w \<in> set es \<Longrightarrow> rr_wf (abs s) \<Longrightarrow> abs (withdraw k w s) = rr_drop k w (abs s)"
  shows "rr_wf (abs s) \<Longrightarrow> \<exists>es'. run_queue put serve withdraw s es = served (abs s) es' \<and> set es' \<subseteq> set es"
  using assms
proof (induction es arbitrary: s)
  case Nil
  then show ?case by (intro exI [of _ "[]"]) simp
next
  case (Cons e es)
  have wf: "rr_wf (abs s)" by fact
  have drops: "\<And>s k w. Drop k w \<in> set es \<Longrightarrow> rr_wf (abs s) \<Longrightarrow> abs (withdraw k w s) = rr_drop k w (abs s)"
    using Cons.prems(2) by simp
  show ?case
  proof (cases e)
    case (Put k w)
    from Cons.IH [OF put_wf [OF wf] drops] obtain es' where
      "run_queue put serve withdraw (put k w s) es = served (abs (put k w s)) es'" "set es' \<subseteq> set es" by blast
    then show ?thesis using put_abs [OF wf, of k w] Put by (intro exI [of _ "Put k w # es'"]) auto
  next
    case (Drop k w)
    then have d: "abs (withdraw k w s) = rr_drop k w (abs s)" using Cons.prems(2) [of k w s] wf by simp
    then have "rr_wf (abs (withdraw k w s))" using rr_drop_wf [OF wf, of k w] by simp
    from Cons.IH [OF this drops] obtain es' where
      "run_queue put serve withdraw (withdraw k w s) es = served (abs (withdraw k w s)) es'" "set es' \<subseteq> set es" by blast
    then show ?thesis using d Drop by (intro exI [of _ "Drop k w # es'"]) auto
  next
    case Take
    show ?thesis
    proof (cases "serve s")
      case None
      with Cons.IH [OF wf drops] Take show ?thesis by auto
    next
      case (Some r)
      obtain k w y where r: "r = ((k, w), y)" by (metis surj_pair)
      from Cons.IH [OF serve_wf [OF wf Some [unfolded r]] drops] obtain es' where
        "run_queue put serve withdraw y es = served (abs y) es'" "set es' \<subseteq> set es" by blast
      then show ?thesis using serve_abs [OF wf Some [unfolded r]] Some r Take
        by (intro exI [of _ "event.Take # es'"]) auto
    qed
  qed
qed

lemma service_bypass:
  assumes "rr_wf (abs s)" and "k \<in> set (snd (abs s))" and "\<forall>w. Drop k w \<notin> set es"
    and "\<And>s k w. Drop k w \<in> set es \<Longrightarrow> rr_wf (abs s) \<Longrightarrow> abs (withdraw k w s) = rr_drop k w (abs s)"
    and "position k (snd (abs s)) < length (run_queue put serve withdraw s es)"
  shows "k \<in> set (take (Suc (position k (snd (abs s)))) (run_queue put serve withdraw s es))"
proof -
  from run_served [OF assms(4,1)] obtain es' where
    r: "run_queue put serve withdraw s es = served (abs s) es'" "set es' \<subseteq> set es" by blast
  have "\<forall>w. Drop k w \<notin> set es'" using assms(3) r(2) by blast
  from served_within_position [OF assms(1,2) this] assms(5) show ?thesis unfolding r(1) by blast
qed

end

locale fair_queue = fair_service +
  fixes withdraw :: "'b \<Rightarrow> 'c \<Rightarrow> 'a \<Rightarrow> 'a"
  assumes withdraw_abs: "rr_wf (abs s) \<Longrightarrow> abs (withdraw k w s) = rr_drop k w (abs s)"
begin

lemma withdraw_wf: "rr_wf (abs s) \<Longrightarrow> rr_wf (abs (withdraw k w s))"
  by (simp add: withdraw_abs rr_drop_wf)

lemma withdraw_queued:
  assumes "rr_wf (abs s)"
  shows "queued (fst (abs (withdraw k w s))) \<le> queued (fst (abs s))"
proof -
  obtain q order where s: "abs s = (q, order)" by (cases "abs s")
  then have d: "distinct (map fst q)" using assms by (simp add: rr_wf_iff)
  have "length (remove1 w (queue_at q k)) \<le> length (queue_at q k)" by (simp add: length_remove1)
  with queued_update [OF d, of k "remove1 w (queue_at q k)"] queued_delete [OF d, of k]
    withdraw_abs [OF assms, of k w] s show ?thesis by (auto simp: Let_def)
qed

lemma bounded_bypass:
  assumes "rr_wf (abs s)" and "k \<in> set (snd (abs s))" and "\<forall>w. Drop k w \<notin> set es"
    and "position k (snd (abs s)) < length (run_queue put serve withdraw s es)"
  shows "k \<in> set (take (Suc (position k (snd (abs s)))) (run_queue put serve withdraw s es))"
  by (rule service_bypass [OF assms(1-3) _ assms(4)]) (rule withdraw_abs)

end

end
