(* ===== verification/Request_Pool.thy ===== *)
theory Request_Pool
  imports Fair_Queue
begin

text \<open>
  \<open>RequestRouter\<close> of \<open>runtime/request_pool.py\<close>: bounded admission of Workers to the shared request
  actors, round-robin over the Runners.  The router is one asyncio actor: between two awaits a
  coroutine runs alone, so every transition below is one such uninterrupted stretch of
  \<open>execute\<close>, \<open>cancel\<close> or \<open>forget\<close>.  A \<open>WaitingRequest\<close> compares by identity, so it is a number
  here; the actor index a coroutine holds after it left the queue is its entry in \<open>rt_slots\<close>.
  Shielding makes the slot of a Worker outlive the cancellation of its caller: only the physical
  completion gives it back, which is the transition \<open>finish\<close>.
\<close>

section \<open>State\<close>

type_synonym waiter = nat

record router =
  rt_limit :: nat
  rt_max_pending :: nat
  rt_capacity :: nat
  rt_busy :: "nat list"
  rt_queues :: "(string \<times> waiter list) list"
  rt_order :: "string list"
  rt_cancelled :: "string set"
  rt_executing :: "(string \<times> nat) list"
  rt_slots :: "(waiter \<times> string \<times> nat) list"

text \<open>\<open>RequestRouter.__init__\<close>; \<open>max_requests or ...\<close> treats zero as absent.\<close>

definition make_router :: "nat \<Rightarrow> nat \<Rightarrow> nat \<Rightarrow> nat option \<Rightarrow> router res" where
  "make_router actors requests_per_actor max_pending max_requests =
     (if actors = 0 \<or> requests_per_actor < 1 \<or> max_pending < 1
      then Inl (ValueError ''Request pool requires positive bounded capacity'')
      else Inr \<lparr>rt_limit = requests_per_actor, rt_max_pending = max_pending,
        rt_capacity = min (actors * requests_per_actor)
          (case max_requests of Some n \<Rightarrow> if n = 0 then actors * requests_per_actor else n
           | None \<Rightarrow> actors * requests_per_actor),
        rt_busy = replicate actors 0, rt_queues = [], rt_order = [], rt_cancelled = {},
        rt_executing = [], rt_slots = []\<rparr>)"

section \<open>Operations\<close>

text \<open>\<open>min(range(len(busy)), key=busy.__getitem__)\<close>: the first least busy actor.\<close>

definition least_busy :: "nat list \<Rightarrow> nat" where
  "least_busy bs = position (fold min bs (hd bs)) bs"

definition remove_waiter :: "string \<Rightarrow> waiter \<Rightarrow> router \<Rightarrow> router" where
  "remove_waiter runner_id w s =
     (case map_of (rt_queues s) runner_id of
        None \<Rightarrow> s
      | Some queue \<Rightarrow>
          if w \<notin> set queue then s
          else if remove1 w queue = []
          then s\<lparr>rt_queues := AList.delete runner_id (rt_queues s), rt_order := remove1 runner_id (rt_order s)\<rparr>
          else s\<lparr>rt_queues := AList.update runner_id (remove1 w queue) (rt_queues s)\<rparr>)"

text \<open>The entry of \<open>execute\<close>: the pending bound, then the Runner's queue and its turn.\<close>

definition enqueue :: "string \<Rightarrow> waiter \<Rightarrow> router \<Rightarrow> router" where
  "enqueue runner_id w s =
     (let s = (if map_of (rt_queues s) runner_id = None
               then s\<lparr>rt_queues := AList.update runner_id [] (rt_queues s), rt_order := rt_order s @ [runner_id]\<rparr>
               else s)
      in s\<lparr>rt_queues := AList.update runner_id (queue_at (rt_queues s) runner_id @ [w]) (rt_queues s)\<rparr>)"

definition admit :: "string \<Rightarrow> waiter \<Rightarrow> router \<Rightarrow> router res" where
  "admit runner_id w s =
     (if rt_max_pending s \<le> queued (rt_queues s)
      then Inl (RuntimeError ''Request pool pending capacity exceeded'')
      else Inr (enqueue runner_id w s))"

datatype attempt_result = Waiting | Granted nat | Rejected py_exc

definition count_up :: "string \<Rightarrow> (string \<times> nat) list \<Rightarrow> (string \<times> nat) list" where
  "count_up k m = AList.update k ((case map_of m k of Some n \<Rightarrow> n | None \<Rightarrow> 0) + 1) m"

definition count_down :: "string \<Rightarrow> (string \<times> nat) list \<Rightarrow> (string \<times> nat) list" where
  "count_down k m = (case map_of m k of
     None \<Rightarrow> m
   | Some n \<Rightarrow> if n - 1 = 0 then AList.delete k m else AList.update k (n - 1) m)"

text \<open>One iteration of the waiting loop, with the \<open>finally\<close> clause when it ends.\<close>

definition attempt :: "string \<Rightarrow> waiter \<Rightarrow> router \<Rightarrow> attempt_result \<times> router" where
  "attempt runner_id w s =
     (if runner_id \<in> rt_cancelled s
      then (Rejected (RuntimeError ''Runner cancelled before request dispatch''), remove_waiter runner_id w s)
      else let candidate = least_busy (rt_busy s)
           in if rt_order s \<noteq> [] \<and> hd (rt_order s) = runner_id \<and>
                 queue_at (rt_queues s) runner_id \<noteq> [] \<and> hd (queue_at (rt_queues s) runner_id) = w \<and>
                 rt_busy s ! candidate < rt_limit s \<and> sum_list (rt_busy s) < rt_capacity s
              then (Granted candidate, remove_waiter runner_id w
                     (s\<lparr>rt_busy := (rt_busy s)[candidate := rt_busy s ! candidate + 1],
                        rt_executing := count_up runner_id (rt_executing s),
                        rt_order := rotate1 (rt_order s),
                        rt_slots := (w, runner_id, candidate) # rt_slots s\<rparr>))
              else (Waiting, s))"

text \<open>The final \<open>finally\<close>: the slot is free once the actor has answered.\<close>

definition finish :: "waiter \<Rightarrow> router \<Rightarrow> router" where
  "finish w s = (case map_of (rt_slots s) w of
     None \<Rightarrow> s
   | Some (runner_id, i) \<Rightarrow>
       s\<lparr>rt_busy := (rt_busy s)[i := rt_busy s ! i - 1],
         rt_executing := count_down runner_id (rt_executing s),
         rt_slots := AList.delete w (rt_slots s)\<rparr>)"

definition cancel_runner :: "string \<Rightarrow> router \<Rightarrow> router" where
  "cancel_runner runner_id s = s\<lparr>rt_cancelled := insert runner_id (rt_cancelled s)\<rparr>"

definition forget_runner :: "string \<Rightarrow> router \<Rightarrow> router" where
  "forget_runner runner_id s = s\<lparr>rt_cancelled := rt_cancelled s - {runner_id}\<rparr>"

record pool_status =
  ps_actor_count :: nat
  ps_request_capacity :: nat
  ps_executing :: nat
  ps_available :: int
  ps_queued :: nat
  ps_runners :: "(string \<times> nat \<times> nat) list"

definition status :: "router \<Rightarrow> pool_status" where
  "status s = \<lparr>ps_actor_count = length (rt_busy s), ps_request_capacity = rt_capacity s,
     ps_executing = sum_list (rt_busy s),
     ps_available = int (rt_capacity s) - int (sum_list (rt_busy s)),
     ps_queued = queued (rt_queues s),
     ps_runners = map (\<lambda>r. (r, length (queue_at (rt_queues s) r),
         case map_of (rt_executing s) r of Some n \<Rightarrow> n | None \<Rightarrow> 0))
       (remdups (map fst (rt_queues s) @ map fst (rt_executing s)))\<rparr>"

lemmas router_defs [step_defs] = admit_def enqueue_def attempt_def finish_def cancel_runner_def forget_runner_def

section \<open>The queue discipline\<close>

definition router_abs :: "router \<Rightarrow> (string, waiter) rr" where
  "router_abs s = (rt_queues s, rt_order s)"

text \<open>The grant that the wake-up of the head waiter performs.\<close>

definition serve_head :: "router \<Rightarrow> ((string \<times> waiter) \<times> router) option" where
  "serve_head s = (case rt_order s of
     [] \<Rightarrow> None
   | r # _ \<Rightarrow> (case queue_at (rt_queues s) r of
       [] \<Rightarrow> None
     | w # _ \<Rightarrow> (case attempt r w s of (Granted _, s') \<Rightarrow> Some ((r, w), s') | _ \<Rightarrow> None)))"

lemma queue_at_Some: "map_of q k = Some ws \<Longrightarrow> queue_at q k = ws"
  by (simp add: queue_at_def)

lemma remove_waiter_abs: "router_abs (remove_waiter r w s) = rr_drop r w (router_abs s)"
  by (cases "map_of (rt_queues s) r")
     (auto simp: router_abs_def remove_waiter_def queue_at_Some queue_at_None Let_def)

lemma update_update: "AList.update k v (AList.update k u q) = AList.update k v q"
  by (induction q) auto

lemma enqueue_abs: "router_abs (enqueue r w s) = rr_put r w (router_abs s)"
  by (cases "map_of (rt_queues s) r")
     (auto simp: router_abs_def enqueue_def queue_at_Some queue_at_None Let_def update_update)

lemma serve_head_abs:
  assumes "rr_wf (router_abs s)" and "serve_head s = Some (kw, s')"
  shows "rr_take (router_abs s) = Some (kw, router_abs s')"
proof -
  from assms(2) obtain r rest w ws where order: "rt_order s = r # rest" and q: "queue_at (rt_queues s) r = w # ws"
    by (auto simp: serve_head_def split: list.splits)
  from assms(2) order q have kw: "kw = (r, w)"
    and s': "s' = remove_waiter r w (s\<lparr>rt_busy := (rt_busy s)[least_busy (rt_busy s) := rt_busy s ! least_busy (rt_busy s) + 1],
        rt_executing := count_up r (rt_executing s), rt_order := rotate1 (rt_order s),
        rt_slots := (w, r, least_busy (rt_busy s)) # rt_slots s\<rparr>)"
    by (auto simp: serve_head_def attempt_def Let_def split: if_splits)
  have d: "r \<notin> set rest" using assms(1) order by (simp add: router_abs_def rr_wf_iff)
  have "router_abs s' = rr_drop r w (rt_queues s, rest @ [r])"
    unfolding s' remove_waiter_abs by (simp add: router_abs_def order)
  also have "\<dots> = (if ws = [] then (AList.delete r (rt_queues s), rest) else (AList.update r ws (rt_queues s), rest @ [r]))"
    using q d by (simp add: Let_def remove1_append)
  finally show ?thesis using q order kw by (simp add: router_abs_def)
qed

interpretation rq: fair_queue router_abs enqueue serve_head remove_waiter
  by unfold_locales (simp_all add: enqueue_abs serve_head_abs remove_waiter_abs)

section \<open>Transitions\<close>

definition fresh_waiter :: "waiter \<Rightarrow> router \<Rightarrow> bool" where
  "fresh_waiter w s \<longleftrightarrow> w \<notin> fst ` set (rt_slots s) \<and> (\<forall>k. w \<notin> set (queue_at (rt_queues s) k))"

inductive router_step :: "router \<Rightarrow> router \<Rightarrow> bool" where
  submit: "fresh_waiter w s \<Longrightarrow> admit r w s = Inr s1 \<Longrightarrow> attempt r w s1 = (res, s') \<Longrightarrow> router_step s s'"
| wake: "w \<in> set (queue_at (rt_queues s) r) \<Longrightarrow> attempt r w s = (res, s') \<Longrightarrow> router_step s s'"
| abandon: "w \<in> set (queue_at (rt_queues s) r) \<Longrightarrow> router_step s (remove_waiter r w s)"
| complete: "w \<in> fst ` set (rt_slots s) \<Longrightarrow> router_step s (finish w s)"
| cancel: "router_step s (cancel_runner r s)"
| forget: "router_step s (forget_runner r s)"

inductive router_reachable :: "router \<Rightarrow> router \<Rightarrow> bool" for s0 where
  start: "router_reachable s0 s0"
| step: "router_reachable s0 s \<Longrightarrow> router_step s s' \<Longrightarrow> router_reachable s0 s'"

section \<open>Invariant\<close>

definition count_of :: "(string \<times> nat) list \<Rightarrow> string \<Rightarrow> nat" where
  "count_of m k = (case map_of m k of Some n \<Rightarrow> n | None \<Rightarrow> 0)"

definition waiters_ok :: "router \<Rightarrow> bool" where
  "waiters_ok s \<longleftrightarrow> distinct (map fst (rt_slots s)) \<and>
     (\<forall>k. distinct (queue_at (rt_queues s) k) \<and> set (queue_at (rt_queues s) k) \<inter> fst ` set (rt_slots s) = {}) \<and>
     (\<forall>k k' w. w \<in> set (queue_at (rt_queues s) k) \<and> w \<in> set (queue_at (rt_queues s) k') \<longrightarrow> k = k')"

definition slots_ok :: "router \<Rightarrow> bool" where
  "slots_ok s \<longleftrightarrow> sum_list (rt_busy s) = length (rt_slots s) \<and>
     (\<forall>(w, r, i) \<in> set (rt_slots s). i < length (rt_busy s)) \<and>
     (\<forall>i < length (rt_busy s). rt_busy s ! i = length (filter (\<lambda>(w, r, j). j = i) (rt_slots s))) \<and>
     (\<forall>r. count_of (rt_executing s) r = length (filter (\<lambda>(w, r', j). r' = r) (rt_slots s))) \<and>
     (\<forall>r. map_of (rt_executing s) r \<noteq> Some 0)"

definition bounds_ok :: "router \<Rightarrow> bool" where
  "bounds_ok s \<longleftrightarrow> rt_busy s \<noteq> [] \<and> (\<forall>b \<in> set (rt_busy s). b \<le> rt_limit s) \<and>
     sum_list (rt_busy s) \<le> rt_capacity s \<and> rt_capacity s \<le> length (rt_busy s) * rt_limit s \<and>
     queued (rt_queues s) \<le> rt_max_pending s"

definition router_inv :: "router \<Rightarrow> bool" where
  "router_inv s \<longleftrightarrow> rr_wf (router_abs s) \<and> bounds_ok s \<and> waiters_ok s \<and> slots_ok s"

lemma make_router_inv [wf_intros]: "make_router a l p m = Inr s \<Longrightarrow> router_inv s"
  by (auto simp: make_router_def router_inv_def router_abs_def rr_wf_iff bounds_ok_def waiters_ok_def slots_ok_def
      queue_at_def queued_def count_of_def sum_list_replicate split: if_splits)

lemma fold_min_in: "fold min bs b \<in> insert b (set bs)"
  by (induction bs arbitrary: b) (auto simp: min_def)

lemma fold_min_le: "c \<in> insert b (set bs) \<Longrightarrow> fold min bs b \<le> (c::nat)"
proof (induction bs arbitrary: b c)
  case (Cons x bs)
  have "fold min bs (min x b) \<le> min x b" by (rule Cons.IH) simp
  moreover have "c \<in> set bs \<Longrightarrow> fold min bs (min x b) \<le> c" by (rule Cons.IH) simp
  ultimately show ?case using Cons.prems by auto
qed simp

lemma position_nth: "x \<in> set xs \<Longrightarrow> position x xs < length xs \<and> xs ! position x xs = x"
  by (induction xs) auto

lemma least_busy_spec:
  assumes "bs \<noteq> []"
  shows "least_busy bs < length bs" and "\<forall>b \<in> set bs. bs ! least_busy bs \<le> b"
proof -
  have "fold min bs (hd bs) \<in> set bs" using fold_min_in [of bs "hd bs"] assms by auto
  from position_nth [OF this] have p: "least_busy bs < length bs" "bs ! least_busy bs = fold min bs (hd bs)"
    by (simp_all add: least_busy_def)
  then show "least_busy bs < length bs" by simp
  show "\<forall>b \<in> set bs. bs ! least_busy bs \<le> b" using fold_min_le p(2) by auto
qed

lemma remove_waiter_fields [simp]:
  "rt_limit (remove_waiter r w s) = rt_limit s" "rt_max_pending (remove_waiter r w s) = rt_max_pending s"
  "rt_capacity (remove_waiter r w s) = rt_capacity s" "rt_busy (remove_waiter r w s) = rt_busy s"
  "rt_executing (remove_waiter r w s) = rt_executing s" "rt_slots (remove_waiter r w s) = rt_slots s"
  "rt_cancelled (remove_waiter r w s) = rt_cancelled s"
  by (simp_all add: remove_waiter_def split: option.split)

lemma queue_at_remove_waiter:
  "queue_at (rt_queues (remove_waiter r w s)) k =
     (if k = r then remove1 w (queue_at (rt_queues s) r) else queue_at (rt_queues s) k)"
proof -
  have "rt_queues (remove_waiter r w s) = fst (rr_drop r w (router_abs s))"
    using remove_waiter_abs [of r w s] by (metis fst_conv router_abs_def)
  then show ?thesis
    by (auto simp: router_abs_def Let_def remove1_idem)
qed

lemma enqueue_fields [simp]:
  "rt_limit (enqueue r w s) = rt_limit s" "rt_max_pending (enqueue r w s) = rt_max_pending s"
  "rt_capacity (enqueue r w s) = rt_capacity s" "rt_busy (enqueue r w s) = rt_busy s"
  "rt_executing (enqueue r w s) = rt_executing s" "rt_slots (enqueue r w s) = rt_slots s"
  "rt_cancelled (enqueue r w s) = rt_cancelled s"
  by (simp_all add: enqueue_def Let_def)

lemma queue_at_enqueue:
  "queue_at (rt_queues (enqueue r w s)) k =
     (if k = r then queue_at (rt_queues s) r @ [w] else queue_at (rt_queues s) k)"
proof -
  have "rt_queues (enqueue r w s) = fst (rr_put r w (router_abs s))"
    using enqueue_abs [of r w s] by (metis fst_conv router_abs_def)
  then show ?thesis by (simp add: router_abs_def)
qed

text \<open>Leaving the queue keeps the invariant; so does entering it below the pending bound.\<close>

lemma waiters_ok_unique:
  "waiters_ok s \<Longrightarrow> w \<in> set (queue_at (rt_queues s) k) \<Longrightarrow> w \<in> set (queue_at (rt_queues s) k') \<Longrightarrow> k = k'"
  unfolding waiters_ok_def by blast

lemma waiters_ok_slots:
  "waiters_ok s \<Longrightarrow> w \<in> set (queue_at (rt_queues s) k) \<Longrightarrow> w \<notin> fst ` set (rt_slots s)"
  unfolding waiters_ok_def by blast

lemma waiters_ok_distinct:
  "waiters_ok s \<Longrightarrow> distinct (queue_at (rt_queues s) k)" "waiters_ok s \<Longrightarrow> distinct (map fst (rt_slots s))"
  unfolding waiters_ok_def by blast+

lemma remove_waiter_inv [wf_intros]: "router_inv s \<Longrightarrow> router_inv (remove_waiter r w s)"
proof -
  assume inv: "router_inv s"
  then have wf: "rr_wf (router_abs s)" by (simp add: router_inv_def)
  have "queued (rt_queues (remove_waiter r w s)) \<le> queued (rt_queues s)"
    using rq.withdraw_queued [OF wf, of r w] by (simp add: router_abs_def)
  moreover have "waiters_ok (remove_waiter r w s)"
  proof -
    have "set (queue_at (rt_queues (remove_waiter r w s)) k) \<subseteq> set (queue_at (rt_queues s) k)" for k
      by (simp add: queue_at_remove_waiter set_remove1_subset)
    moreover have "distinct (queue_at (rt_queues (remove_waiter r w s)) k)" for k
      using inv by (simp add: queue_at_remove_waiter router_inv_def waiters_ok_def)
    ultimately show ?thesis using inv unfolding router_inv_def waiters_ok_def remove_waiter_fields by blast
  qed
  ultimately show ?thesis
    using inv rq.withdraw_wf [OF wf] by (auto simp: router_inv_def bounds_ok_def slots_ok_def)
qed

lemma enqueue_inv [wf_intros]:
  assumes "router_inv s" and "fresh_waiter w s" and "admit r w s = Inr s'"
  shows "router_inv s' \<and> w \<in> set (queue_at (rt_queues s') r)"
proof -
  from assms(3) have s': "s' = enqueue r w s" and room: "queued (rt_queues s) < rt_max_pending s"
    by (auto simp: admit_def split: if_splits)
  have wf: "rr_wf (router_abs s)" using assms(1) by (simp add: router_inv_def)
  have "queued (rt_queues s') \<le> rt_max_pending s'"
    using rq.put_queued [OF wf, of r w] room by (simp add: router_abs_def s')
  moreover have "waiters_ok s'"
  proof -
    have ok: "waiters_ok s" using assms(1) by (simp add: router_inv_def)
    note facts = waiters_ok_unique [OF ok] waiters_ok_slots [OF ok]
    have new: "w \<notin> fst ` set (rt_slots s)" "\<And>k. w \<notin> set (queue_at (rt_queues s) k)"
      using assms(2) by (auto simp: fresh_waiter_def)
    show ?thesis unfolding waiters_ok_def s' enqueue_fields queue_at_enqueue
      using new waiters_ok_distinct [OF ok] by (auto split: if_splits dest: facts)
  qed
  ultimately show ?thesis
    using assms(1) rq.put_wf [OF wf, of r w]
    by (auto simp: router_inv_def bounds_ok_def slots_ok_def s' queue_at_enqueue)
qed

lemma count_of_up: "count_of (count_up r m) k = count_of m k + (if k = r then 1 else 0)"
  by (simp add: count_of_def count_up_def update_conv')

lemma count_of_down: "count_of (count_down r m) k = count_of m k - (if k = r then 1 else 0)"
  by (auto simp: count_of_def count_down_def update_conv' delete_conv' split: option.splits)

lemma count_up_nonzero: "\<forall>k. map_of m k \<noteq> Some 0 \<Longrightarrow> map_of (count_up r m) k \<noteq> Some 0"
  by (simp add: count_up_def update_conv')

lemma count_down_nonzero: "\<forall>k. map_of m k \<noteq> Some 0 \<Longrightarrow> map_of (count_down r m) k \<noteq> Some 0"
  by (auto simp: count_down_def update_conv' delete_conv' split: option.splits)

lemma sum_list_inc: "i < length bs \<Longrightarrow> sum_list (bs[i := bs ! i + 1]) = Suc (sum_list (bs :: nat list))"
  by (simp add: sum_list_update)

lemma slots_ok_cong:
  "rt_busy s = rt_busy s' \<Longrightarrow> rt_executing s = rt_executing s' \<Longrightarrow> rt_slots s = rt_slots s' \<Longrightarrow> slots_ok s = slots_ok s'"
  by (simp add: slots_ok_def)

text \<open>A grant: the state before its waiter leaves the queue has one slot more.\<close>

lemma slots_ok_grant:
  assumes "slots_ok s" and i: "i < length (rt_busy s)"
  shows "slots_ok (s\<lparr>rt_busy := (rt_busy s)[i := rt_busy s ! i + 1], rt_executing := count_up r (rt_executing s),
      rt_order := ord, rt_slots := (w, r, i) # rt_slots s\<rparr>)"
proof -
  have "sum_list ((rt_busy s)[i := rt_busy s ! i + 1]) = Suc (length (rt_slots s))"
    using sum_list_inc [OF i] assms(1) unfolding slots_ok_def by metis
  moreover have "\<forall>k. map_of (count_up r (rt_executing s)) k \<noteq> Some 0"
    using assms(1) count_up_nonzero unfolding slots_ok_def by blast
  ultimately show ?thesis
    using assms unfolding slots_ok_def by (auto simp: nth_list_update count_of_up simp del: One_nat_def)
qed

lemma attempt_inv [wf_intros]:
  assumes inv: "router_inv s" and w: "w \<in> set (queue_at (rt_queues s) r)" and a: "attempt r w s = (res, s')"
  shows "router_inv s'"
proof -
  let ?i = "least_busy (rt_busy s)"
  let ?s = "s\<lparr>rt_busy := (rt_busy s)[?i := rt_busy s ! ?i + 1], rt_executing := count_up r (rt_executing s),
      rt_order := rotate1 (rt_order s), rt_slots := (w, r, ?i) # rt_slots s\<rparr>"
  from a consider (rejected) "s' = remove_waiter r w s" | (waiting) "s' = s"
    | (granted) "s' = remove_waiter r w ?s" "rt_order s \<noteq> []" "hd (rt_order s) = r" "hd (queue_at (rt_queues s) r) = w"
        "queue_at (rt_queues s) r \<noteq> []" "rt_busy s ! ?i < rt_limit s" "sum_list (rt_busy s) < rt_capacity s" "r \<notin> rt_cancelled s"
    by (auto simp: attempt_def Let_def split: if_splits)
  then show ?thesis
  proof cases
    case granted
    have bs: "rt_busy s \<noteq> []" using inv by (simp add: router_inv_def bounds_ok_def)
    note i = least_busy_spec [OF bs]
    have "serve_head s = Some ((r, w), s')"
    proof -
      obtain rest where "rt_order s = r # rest" using granted(2,3) by (cases "rt_order s") auto
      moreover obtain ws where "queue_at (rt_queues s) r = w # ws" using granted(4,5) by (cases "queue_at (rt_queues s) r") auto
      ultimately show ?thesis using granted by (simp add: serve_head_def attempt_def Let_def)
    qed
    note served = rq.serve_wf [OF _ this] rq.serve_queued [OF _ this]
    have wf: "rr_wf (router_abs s)" using inv by (simp add: router_inv_def)
    have "waiters_ok s'"
    proof -
      have sub: "set (queue_at (rt_queues s') k) \<subseteq> set (queue_at (rt_queues s) k)" for k
        by (simp add: granted(1) queue_at_remove_waiter set_remove1_subset)
      have dist: "distinct (queue_at (rt_queues s') k)" for k
        using inv by (simp add: granted(1) queue_at_remove_waiter router_inv_def waiters_ok_def)
      have ok: "waiters_ok s" using inv by (simp add: router_inv_def)
      have gone: "w \<notin> set (queue_at (rt_queues s') k)" for k
        using waiters_ok_unique [OF ok w, of k] waiters_ok_distinct(1) [OF ok, of r]
        by (auto simp: granted(1) queue_at_remove_waiter)
      have "w \<notin> fst ` set (rt_slots s)" by (rule waiters_ok_slots [OF ok w])
      with sub dist gone inv show ?thesis
        unfolding router_inv_def waiters_ok_def by (simp add: granted(1)) blast
    qed
    moreover have "slots_ok s'"
    proof -
      have "slots_ok ?s" using inv by (intro slots_ok_grant [OF _ i(1)]) (simp add: router_inv_def)
      then show ?thesis by (rule slots_ok_cong [THEN iffD1, rotated 3]) (simp_all add: granted(1))
    qed
    moreover have "bounds_ok s'"
    proof -
      have "queued (rt_queues s') \<le> rt_max_pending s"
        using served(2) [OF wf] inv by (simp add: router_abs_def router_inv_def bounds_ok_def)
      moreover have "\<forall>b \<in> set ((rt_busy s)[?i := rt_busy s ! ?i + 1]). b \<le> rt_limit s"
        using granted(6) inv set_update_subset_insert [of "rt_busy s" ?i "rt_busy s ! ?i + 1"]
        by (auto simp: router_inv_def bounds_ok_def)
      moreover have "sum_list ((rt_busy s)[?i := rt_busy s ! ?i + 1]) \<le> rt_capacity s"
        unfolding sum_list_inc [OF i(1)] using granted(7) by simp
      ultimately show ?thesis using inv bs by (simp add: bounds_ok_def granted(1) router_inv_def)
    qed
    ultimately show ?thesis using served(1) [OF wf] by (simp add: router_inv_def)
  qed (use inv remove_waiter_inv in auto)
qed

lemma filter_delete_slots:
  assumes "distinct (map fst xs)" and "map_of xs w = Some v"
  shows "length (filter P xs) = length (filter P (AList.delete w xs)) + (if P (w, v) then 1 else 0)"
  using assms
proof (induction xs)
  case (Cons x xs)
  obtain k u where x: "x = (k, u)" by (cases x)
  have "k \<notin> fst ` set xs \<Longrightarrow> AList.delete k xs = xs" by (induction xs) (auto simp: AList.delete_eq)
  with Cons show ?case by (auto simp: x AList.delete_eq split: if_splits)
qed simp

lemma map_of_slot:
  assumes "distinct (map fst (rt_slots s))" and "w \<in> fst ` set (rt_slots s)"
  obtains r i where "map_of (rt_slots s) w = Some (r, i)" and "(w, r, i) \<in> set (rt_slots s)"
  using assms by (metis (no_types, lifting) domD dom_map_of_conv_image_fst map_of_SomeD surj_pair)

lemma sum_list_dec:
  "i < length bs \<Longrightarrow> 0 < bs ! i \<Longrightarrow> Suc (sum_list (bs[i := bs ! i - 1])) = sum_list (bs :: nat list)"
  using member_le_sum_list [of "bs ! i" bs] by (simp add: sum_list_update)

lemma finish_slots_ok:
  assumes inv: "router_inv s" and w: "map_of (rt_slots s) w = Some (r, i)"
  shows "slots_ok (finish w s)" and "i < length (rt_busy s)" and "0 < rt_busy s ! i"
proof -
  have ok: "slots_ok s" and d: "distinct (map fst (rt_slots s))"
    using inv by (auto simp: router_inv_def waiters_ok_def)
  note del = filter_delete_slots [OF d w]
  have mem: "(w, r, i) \<in> set (rt_slots s)" using w by (rule map_of_SomeD)
  with ok show i: "i < length (rt_busy s)" by (auto simp: slots_ok_def)
  have "rt_busy s ! i = length (filter (\<lambda>(w, r, j). j = i) (rt_slots s))" using ok i by (simp add: slots_ok_def)
  with del [of "\<lambda>(w, r, j). j = i"] show pos: "0 < rt_busy s ! i" by simp
  have "length (rt_slots s) = Suc (length (AList.delete w (rt_slots s)))" using del [of "\<lambda>_. True"] by simp
  with sum_list_dec [OF i pos] ok have "sum_list ((rt_busy s)[i := rt_busy s ! i - 1]) = length (AList.delete w (rt_slots s))"
    by (simp add: slots_ok_def)
  moreover have "(rt_busy s)[i := rt_busy s ! i - 1] ! j = length (filter (\<lambda>(w, r, j'). j' = j) (AList.delete w (rt_slots s)))"
    if "j < length (rt_busy s)" for j
    using ok that i del [of "\<lambda>(w, r, j'). j' = j"] by (auto simp: slots_ok_def nth_list_update)
  moreover have "count_of (count_down r (rt_executing s)) k = length (filter (\<lambda>(w, r', j). r' = k) (AList.delete w (rt_slots s)))" for k
    using ok del [of "\<lambda>(w, r', j). r' = k"] by (auto simp: slots_ok_def count_of_down)
  moreover have "\<forall>k. map_of (count_down r (rt_executing s)) k \<noteq> Some 0"
    using ok count_down_nonzero unfolding slots_ok_def by blast
  moreover have "\<forall>(w, r, i) \<in> set (AList.delete w (rt_slots s)). i < length (rt_busy s)"
    using ok by (auto simp: slots_ok_def AList.delete_eq)
  ultimately show "slots_ok (finish w s)" by (simp add: finish_def w slots_ok_def)
qed

lemma finish_inv [wf_intros]:
  assumes "router_inv s" and "w \<in> fst ` set (rt_slots s)"
  shows "router_inv (finish w s)"
proof -
  have ok: "waiters_ok s" and b: "bounds_ok s" and d: "distinct (map fst (rt_slots s))" and so: "slots_ok s"
    using assms(1) by (auto simp: router_inv_def waiters_ok_def)
  from d assms(2) obtain r i where w: "map_of (rt_slots s) w = Some (r, i)" by (rule map_of_slot)
  note f = finish_slots_ok [OF assms(1) w]
  have fin: "finish w s = s\<lparr>rt_busy := (rt_busy s)[i := rt_busy s ! i - 1],
         rt_executing := count_down r (rt_executing s), rt_slots := AList.delete w (rt_slots s)\<rparr>"
    by (simp add: finish_def w)
  have "fst ` set (AList.delete w (rt_slots s)) \<subseteq> fst ` set (rt_slots s)" by (auto simp: AList.delete_eq)
  then have "waiters_ok (finish w s)"
    using ok d unfolding waiters_ok_def by (simp add: fin distinct_delete) blast
  moreover have "bounds_ok (finish w s)"
  proof -
    have "\<forall>b \<in> set ((rt_busy s)[i := rt_busy s ! i - 1]). b \<le> rt_limit s"
    proof -
      have le: "\<forall>b \<in> set (rt_busy s). b \<le> rt_limit s" using b by (simp add: bounds_ok_def)
      with nth_mem [OF f(2)] have "rt_busy s ! i - 1 \<le> rt_limit s" by (meson diff_le_self order_trans)
      with le set_update_subset_insert [of "rt_busy s" i "rt_busy s ! i - 1"] show ?thesis by blast
    qed
    moreover have "sum_list ((rt_busy s)[i := rt_busy s ! i - 1]) \<le> rt_capacity s"
      using sum_list_dec [OF f(2,3)] b by (simp add: bounds_ok_def)
    ultimately show ?thesis using b by (simp add: bounds_ok_def fin)
  qed
  moreover have "router_abs (finish w s) = router_abs s" by (simp add: fin router_abs_def)
  ultimately show ?thesis using f(1) assms(1) by (simp add: router_inv_def)
qed

lemma router_step_inv: "router_step s s' \<Longrightarrow> router_inv s \<Longrightarrow> router_inv s'"
proof (induction rule: router_step.induct)
  case (submit w s r s1 res s')
  from enqueue_inv [OF submit(4,1,2)] attempt_inv [OF _ _ submit(3)] show ?case by blast
next
  case (wake w s r res s')
  then show ?case using attempt_inv by blast
next
  case (cancel s r)
  then show ?case
    by (simp add: cancel_runner_def router_inv_def router_abs_def bounds_ok_def waiters_ok_def slots_ok_def)
next
  case (forget s r)
  then show ?case
    by (simp add: forget_runner_def router_inv_def router_abs_def bounds_ok_def waiters_ok_def slots_ok_def)
qed (auto intro: remove_waiter_inv finish_inv)

lemma router_reachable_inv:
  assumes "router_reachable s0 s" and "make_router a l p m = Inr s0"
  shows "router_inv s"
  using assms(1) by induction (use assms(2) make_router_inv router_step_inv in blast)+

text \<open>
  C36.  In every state the router can reach, no actor runs more than its limit of requests, the
  executing requests are exactly the granted Workers and stay within the capacity, the queued ones
  stay within the pending bound, and the reported number of free slots is never negative.
\<close>

theorem router_bounds:
  assumes "make_router actors limit max_pending max_requests = Inr s0" and "router_reachable s0 s"
  shows "(\<forall>b \<in> set (rt_busy s). b \<le> rt_limit s) \<and>
    ps_executing (status s) = length (rt_slots s) \<and> length (rt_slots s) \<le> rt_capacity s \<and>
    0 \<le> ps_available (status s) \<and> ps_queued (status s) \<le> rt_max_pending s \<and>
    (\<forall>r. count_of (rt_executing s) r = length (filter (\<lambda>(w, r', i). r' = r) (rt_slots s)))"
  using router_reachable_inv [OF assms(2,1)]
  by (simp add: router_inv_def bounds_ok_def slots_ok_def status_def)

definition example_router :: router where
  "example_router = \<lparr>rt_limit = 2, rt_max_pending = 8, rt_capacity = 3, rt_busy = [0, 0], rt_queues = [],
     rt_order = [], rt_cancelled = {}, rt_executing = [], rt_slots = []\<rparr>"

lemma example_router_made: "make_router 2 2 8 (Some 3) = Inr example_router"
  by (simp add: make_router_def example_router_def numeral_2_eq_2)

theorem router_bounds_witness:
  "\<exists>s. router_reachable example_router s \<and> length (rt_slots s) = 1 \<and> 0 \<le> ps_available (status s)"
proof -
  let ?s = "snd (attempt ''r'' 7 (enqueue ''r'' 7 example_router))"
  have "router_step example_router ?s"
    by (rule submit [of 7 _ "''r''" "enqueue ''r'' 7 example_router" "fst (attempt ''r'' 7 (enqueue ''r'' 7 example_router))"])
       (simp_all add: fresh_waiter_def example_router_def queue_at_def admit_def queued_def)
  then have r: "router_reachable example_router ?s" by (blast intro: router_reachable.intros)
  moreover have "length (rt_slots ?s) = 1"
    by (simp add: attempt_def enqueue_def example_router_def queue_at_def least_busy_def remove_waiter_def)
  ultimately show ?thesis using router_bounds [OF example_router_made r] by auto
qed

lemma sum_list_lower: "\<forall>b \<in> set bs. k \<le> b \<Longrightarrow> length bs * k \<le> sum_list (bs :: nat list)"
  by (induction bs) auto


text \<open>One actor with one slot: Runner \<open>a\<close> holds it while \<open>b\<close> queues, then gives it back.\<close>

definition small_router :: router where
  "small_router = \<lparr>rt_limit = 1, rt_max_pending = 8, rt_capacity = 1, rt_busy = [0], rt_queues = [],
     rt_order = [], rt_cancelled = {}, rt_executing = [], rt_slots = []\<rparr>"

definition freed_router :: router where
  "freed_router = small_router\<lparr>rt_queues := [(''b'', [2])], rt_order := [''b'']\<rparr>"

lemma small_router_made: "make_router 1 1 8 None = Inr small_router"
  by (simp add: make_router_def small_router_def)

lemma freed_router_reachable: "router_reachable small_router freed_router"
proof -
  let ?s1 = "small_router\<lparr>rt_busy := [1], rt_executing := [(''a'', 1)], rt_slots := [(1, ''a'', 0)]\<rparr>"
  let ?s2 = "?s1\<lparr>rt_queues := [(''b'', [2])], rt_order := [''b'']\<rparr>"
  note defs = small_router_def attempt_def enqueue_def queue_at_def least_busy_def remove_waiter_def count_up_def
    fresh_waiter_def admit_def queued_def finish_def count_down_def AList.delete_eq freed_router_def
  have "router_step small_router ?s1"
    by (rule submit [of 1 _ "''a''" "enqueue ''a'' 1 small_router" "Granted 0"]) (simp_all add: defs)
  moreover have "router_step ?s1 ?s2"
    by (rule submit [of 2 _ "''b''" "enqueue ''b'' 2 ?s1" Waiting]) (simp_all add: defs)
  moreover have "router_step ?s2 freed_router"
    using complete [of 1 ?s2] by (simp add: defs)
  ultimately show ?thesis by (blast intro: router_reachable.intros)
qed




end
