(* ===== verification/Scheduler.thy ===== *)
theory Scheduler
  imports Supervision Runner_Logic Safety Request_Pool
begin

text \<open>
  The scheduler of \<open>runtime/scheduler.py\<close> around the supervision of one Runner: the sampling of the
  Ray runtime and its breaker, the loop that claims Runners under a permit, the transfer of the
  permit to the claimed Runner, and one pass of the maintenance that delivers cancellations.

  What Ray answers is an argument of the sample.  The claiming loop and the supervised Runners are
  one step relation: between two of its steps everything else may happen.  The theorems show that
  permits are neither lost nor invented, and that a maintenance pass delivers every cancellation
  requested before it.
\<close>

section \<open>The Ray runtime\<close>

text \<open>The resources a sample reports: CPUs, and total and available object store.\<close>

record ray_sample =
  ra_cpu :: rat
  ra_store_total :: rat
  ra_store_available :: rat
  ra_alive_nodes :: "nat option"

definition store_ratio :: "ray_sample \<Rightarrow> rat option" where
  "store_ratio s = (if 0 < ra_store_total s then Some (ra_store_available s / ra_store_total s) else None)"

record ray_runtime =
  ry_attached :: bool
  ry_healthy :: bool
  ry_store_tripped :: bool
  ry_status :: string
  ry_error :: "string option"
  ry_claim_block_reason :: "string option"
  ry_pool :: pool_status
  ry_pool_observed_at :: "rat option"

definition ray_failed :: "py_exc \<Rightarrow> ray_runtime \<Rightarrow> ray_runtime" where
  "ray_failed e s = s\<lparr>ry_healthy := False, ry_status := ''unhealthy'', ry_error := Some (exc_text e),
     ry_claim_block_reason := None\<rparr>"

text \<open>
  The two calls of a sample: the resources, and the status of the router when there is one; either
  may raise or run into its time limit, the second after the first has been stored.
\<close>

definition sample_ray_runtime ::
    "guard_config \<Rightarrow> ray_sample res \<Rightarrow> pool_status res option \<Rightarrow> rat \<Rightarrow> ray_runtime \<Rightarrow> ray_runtime" where
  "sample_ray_runtime g snapshot router now s =
     (if \<not> ry_attached s
      then s\<lparr>ry_healthy := False, ry_status := ''stopped'', ry_error := None, ry_claim_block_reason := None\<rparr>
      else case snapshot of
        Inl e \<Rightarrow> ray_failed e s
      | Inr sample \<Rightarrow>
          (case router of
             Some (Inl e) \<Rightarrow> ray_failed e s
           | _ \<Rightarrow>
               let s = (case router of
                     Some (Inr pool) \<Rightarrow> s\<lparr>ry_pool := pool, ry_pool_observed_at := Some now\<rparr> | _ \<Rightarrow> s);
                   healthy = (0 < ra_cpu sample);
                   tripped = (case store_ratio sample of
                     Some ratio \<Rightarrow> if ry_store_tripped s then ratio < g_resume_store g else ratio \<le> g_min_store g
                   | None \<Rightarrow> ry_store_tripped s)
               in s\<lparr>ry_healthy := healthy, ry_store_tripped := tripped,
                    ry_status := (if healthy then ''healthy'' else ''unhealthy''),
                    ry_error := (if healthy then None else Some ''Ray runtime exposes no CPU resources''),
                    ry_claim_block_reason := (if tripped then Some ''ray_object_store_low'' else None)\<rparr>))"

text \<open>The object store has the same kind of breaker as the host memory, with the watermarks swapped.\<close>

lemma store_breaker:
  assumes "ry_attached s" "store_ratio sample = Some q" "\<forall>e. router \<noteq> Some (Inl e)"
  shows "ry_store_tripped (sample_ray_runtime g (Inr sample) router now s) =
    breaker_next (\<lambda>q. q \<le> g_min_store g) (\<lambda>q. g_resume_store g \<le> q) (ry_store_tripped s) q"
  using assms
  by (auto simp: sample_ray_runtime_def breaker_next_def Let_def not_le split: option.splits sum.splits)

lemma store_breaker_run:
  assumes "validate_guard g = Inr g"
  shows "foldl (breaker_next (\<lambda>q. q \<le> g_min_store g) (\<lambda>q. g_resume_store g \<le> q)) False qs \<longleftrightarrow>
    (\<exists>as q bs. qs = as @ q # bs \<and> q \<le> g_min_store g \<and> (\<forall>b \<in> set bs. b < g_resume_store g))"
  using breaker_run [of "\<lambda>q. q \<le> g_min_store g" "\<lambda>q. g_resume_store g \<le> q" qs] assms
  by (auto simp: validate_guard_def not_le)

text \<open>What the claiming loop asks for before every claim.\<close>

definition may_claim :: "bool \<Rightarrow> ray_runtime \<Rightarrow> string option \<Rightarrow> bool" where
  "may_claim guard_allows ray coordinator_error \<longleftrightarrow>
     guard_allows \<and> ry_healthy ray \<and> \<not> ry_store_tripped ray \<and> coordinator_error = None"

section \<open>Claiming under a permit\<close>

datatype claim_phase = ClaimIdle | ClaimAdmitting | ClaimHolding

record scheduler =
  sc_admission :: admission
  sc_phase :: claim_phase
  sc_executing :: "string set"

definition new_scheduler :: "nat \<Rightarrow> scheduler" where
  "new_scheduler n = \<lparr>sc_admission = new_admission n, sc_phase = ClaimIdle, sc_executing = {}\<rparr>"

text \<open>The permit of the slot becomes the permit of the Runner, without being free in between.\<close>

definition transfer_permit :: "string \<Rightarrow> string \<Rightarrow> admission \<Rightarrow> admission" where
  "transfer_permit slot runner_id a = a\<lparr>ad_active := insert runner_id (ad_active a - {slot})\<rparr>"

definition claimed :: "string \<Rightarrow> string \<Rightarrow> scheduler \<Rightarrow> scheduler" where
  "claimed slot runner_id s = s\<lparr>sc_admission := transfer_permit slot runner_id (sc_admission s),
     sc_phase := ClaimIdle, sc_executing := insert runner_id (sc_executing s)\<rparr>"

text \<open>A claim that failed, found no Runner or was cancelled gives its permit back.\<close>

definition claim_dropped :: "string \<Rightarrow> scheduler \<Rightarrow> scheduler" where
  "claim_dropped slot s = s\<lparr>sc_admission := admission_release slot (sc_admission s), sc_phase := ClaimIdle\<rparr>"

text \<open>\<open>_supervise\<close>: the execution is over and its permit, if it still holds one, is released.\<close>

definition supervised :: "string \<Rightarrow> scheduler \<Rightarrow> scheduler" where
  "supervised runner_id s = s\<lparr>sc_admission := admission_release runner_id (sc_admission s),
     sc_executing := sc_executing s - {runner_id}\<rparr>"

text \<open>
  A cooling Runner releases its permit and takes one again before it goes on.  A Runner is claimed
  at most once at a time, and no Runner has the name of the slot.
\<close>

inductive scheduler_step :: "string \<Rightarrow> scheduler \<Rightarrow> scheduler \<Rightarrow> bool" for slot :: string where
  opened: "sc_phase s = ClaimIdle \<Longrightarrow> may_claim allows ray err \<Longrightarrow>
    scheduler_step slot s (s\<lparr>sc_phase := ClaimAdmitting\<rparr>)"
| admitted: "sc_phase s = ClaimAdmitting \<Longrightarrow> admission_acquire slot (sc_admission s) = Some a \<Longrightarrow>
    scheduler_step slot s (s\<lparr>sc_admission := a, sc_phase := ClaimHolding\<rparr>)"
| dropped: "sc_phase s \<noteq> ClaimIdle \<Longrightarrow> scheduler_step slot s (claim_dropped slot s)"
| claim: "sc_phase s = ClaimHolding \<Longrightarrow> runner_id \<notin> sc_executing s \<Longrightarrow> runner_id \<noteq> slot \<Longrightarrow>
    scheduler_step slot s (claimed slot runner_id s)"
| cool: "runner_id \<in> sc_executing s \<Longrightarrow>
    scheduler_step slot s (s\<lparr>sc_admission := admission_release runner_id (sc_admission s)\<rparr>)"
| resume: "runner_id \<in> sc_executing s \<Longrightarrow> admission_acquire runner_id (sc_admission s) = Some a \<Longrightarrow>
    scheduler_step slot s (s\<lparr>sc_admission := a\<rparr>)"
| over: "runner_id \<in> sc_executing s \<Longrightarrow> scheduler_step slot s (supervised runner_id s)"

inductive_cases scheduler_stepE: "scheduler_step slot s s'"

definition permits_ok :: "nat \<Rightarrow> string \<Rightarrow> scheduler \<Rightarrow> bool" where
  "permits_ok n slot s \<longleftrightarrow> finite (ad_active (sc_admission s)) \<and>
     sem_value (ad_capacity (sc_admission s)) + card (ad_active (sc_admission s)) = n \<and>
     ad_active (sc_admission s) \<subseteq> insert slot (sc_executing s) \<and> slot \<notin> sc_executing s \<and>
     (slot \<in> ad_active (sc_admission s) \<longleftrightarrow> sc_phase s = ClaimHolding)"

lemma acquire_permits:
  assumes "admission_acquire x a = Some a'" "finite (ad_active a)"
  shows "ad_active a' = insert x (ad_active a) \<and> finite (ad_active a') \<and>
    sem_value (ad_capacity a') + card (ad_active a') = sem_value (ad_capacity a) + card (ad_active a)"
  using assms by (auto simp: admission_acquire_def take_permit_def insert_absorb split: if_splits)

lemma release_permits:
  assumes "finite (ad_active a)"
  shows "ad_active (admission_release x a) = ad_active a - {x} \<and>
    sem_value (ad_capacity (admission_release x a)) + card (ad_active (admission_release x a)) =
      sem_value (ad_capacity a) + card (ad_active a)"
proof (cases "x \<in> ad_active a")
  case True
  with assms card_Suc_Diff1 [of "ad_active a" x] show ?thesis
    by (simp add: admission_release_def give_permit_def)
qed (simp add: admission_release_def)

lemma permits_ok_step:
  assumes "scheduler_step slot s s'" and "permits_ok n slot s"
  shows "permits_ok n slot s'"
  using assms
proof (cases rule: scheduler_step.cases)
  case (admitted a)
  with assms(2) acquire_permits [OF admitted(3)] show ?thesis by (auto simp: permits_ok_def)
next
  case dropped
  with assms(2) release_permits [of "sc_admission s" slot] show ?thesis
    by (auto simp: permits_ok_def claim_dropped_def)
next
  case (claim runner_id)
  let ?A = "ad_active (sc_admission s)"
  have p: "finite ?A" "slot \<in> ?A" "?A \<subseteq> insert slot (sc_executing s)" using assms(2) claim by (auto simp: permits_ok_def)
  then have "runner_id \<notin> ?A" using claim by blast
  then have "card (insert runner_id (?A - {slot})) = card ?A"
    using p card_Suc_Diff1 [OF p(1,2)] by simp
  with assms(2) claim p show ?thesis
    by (auto simp: permits_ok_def claimed_def transfer_permit_def)
next
  case (cool runner_id)
  with assms(2) release_permits [of "sc_admission s" runner_id] show ?thesis by (auto simp: permits_ok_def)
next
  case (resume runner_id a)
  with assms(2) acquire_permits [OF resume(3)] show ?thesis by (auto simp: permits_ok_def)
next
  case (over runner_id)
  with assms(2) release_permits [of "sc_admission s" runner_id] show ?thesis
    by (auto simp: permits_ok_def supervised_def)
qed (auto simp: permits_ok_def)

lemma permits_ok_reachable:
  assumes "(scheduler_step slot)\<^sup>*\<^sup>* (new_scheduler n) s"
  shows "permits_ok n slot s"
  using assms
proof (induction rule: rtranclp_induct)
  case base
  show ?case by (simp add: permits_ok_def new_scheduler_def new_admission_def new_sem_def)
next
  case (step s s')
  from permits_ok_step [OF step(2,3)] show ?case .
qed

text \<open>
  C11.  The permits of the scheduler.  In every reachable state the free permits and the holders
  make up the configured number, so at most that many Runners are active; a permit is held only by
  a supervised Runner or by the slot while it claims; and with nothing supervised and no claim under
  way all permits are free again: none is ever lost, however claims fail, Runners cool down or end.
\<close>

theorem scheduler_permits:
  assumes "(scheduler_step slot)\<^sup>*\<^sup>* (new_scheduler n) s"
  shows "sem_value (ad_capacity (sc_admission s)) + card (ad_active (sc_admission s)) = n \<and>
    card (ad_active (sc_admission s) \<inter> sc_executing s) + (if sc_phase s = ClaimHolding then 1 else 0) =
      card (ad_active (sc_admission s)) \<and>
    (sc_executing s = {} \<and> sc_phase s \<noteq> ClaimHolding \<longrightarrow> sem_value (ad_capacity (sc_admission s)) = n)"
proof -
  let ?A = "ad_active (sc_admission s)"
  have p: "finite ?A" "sem_value (ad_capacity (sc_admission s)) + card ?A = n" "?A \<subseteq> insert slot (sc_executing s)"
    "slot \<notin> sc_executing s" "slot \<in> ?A \<longleftrightarrow> sc_phase s = ClaimHolding"
    using permits_ok_reachable [OF assms] by (auto simp: permits_ok_def)
  have "?A \<inter> sc_executing s = ?A - {slot}" using p(3,4) by blast
  then have "card (?A \<inter> sc_executing s) + (if sc_phase s = ClaimHolding then 1 else 0) = card ?A"
    using p(1,5) card_Suc_Diff1 [of ?A slot] by auto
  moreover have "sem_value (ad_capacity (sc_admission s)) = n" if "sc_executing s = {}" "sc_phase s \<noteq> ClaimHolding"
  proof -
    have "?A = {}" using p(3,5) that by blast
    with p(2) show ?thesis by simp
  qed
  ultimately show ?thesis using p(2) by blast
qed

definition idle_ray :: ray_runtime where
  "idle_ray = \<lparr>ry_attached = True, ry_healthy = True, ry_store_tripped = False, ry_status = ''healthy'', ry_error = None,
     ry_claim_block_reason = None, ry_pool = \<lparr>ps_actor_count = 0, ps_request_capacity = 0, ps_executing = 0,
       ps_available = 0, ps_queued = 0, ps_runners = []\<rparr>, ry_pool_observed_at = None\<rparr>"

theorem scheduler_permits_witness:
  "\<exists>s. (scheduler_step ''slot'')\<^sup>*\<^sup>* (new_scheduler 2) s \<and> sc_executing s = {''r''} \<and>
     sem_value (ad_capacity (sc_admission s)) + card (ad_active (sc_admission s)) = 2"
proof -
  let ?s0 = "new_scheduler 2"
  let ?s1 = "?s0\<lparr>sc_phase := ClaimAdmitting\<rparr>"
  let ?a = "\<lparr>ad_capacity = take_permit (new_sem 2), ad_active = {''slot''}\<rparr>"
  let ?s2 = "?s1\<lparr>sc_admission := ?a, sc_phase := ClaimHolding\<rparr>"
  have "scheduler_step ''slot'' ?s0 ?s1"
    by (rule scheduler_step.opened [of _ True idle_ray None]) (simp_all add: new_scheduler_def may_claim_def idle_ray_def)
  moreover have "scheduler_step ''slot'' ?s1 ?s2"
    by (rule scheduler_step.admitted) (simp_all add: new_scheduler_def new_admission_def admission_acquire_def new_sem_def)
  moreover have "scheduler_step ''slot'' ?s2 (claimed ''slot'' ''r'' ?s2)"
    by (rule scheduler_step.claim) (simp_all add: new_scheduler_def)
  ultimately have r: "(scheduler_step ''slot'')\<^sup>*\<^sup>* ?s0 (claimed ''slot'' ''r'' ?s2)"
    by (blast intro: converse_rtranclp_into_rtranclp)
  then show ?thesis using scheduler_permits [OF r] by (intro exI [of _ "claimed ''slot'' ''r'' ?s2"]) (simp add: claimed_def new_scheduler_def)
qed

section \<open>Delivering cancellations\<close>

definition HEARTBEAT_CHUNK :: nat where
  "HEARTBEAT_CHUNK = 128"

text \<open>\<open>runner_ids[offset : offset + 128]\<close> for every offset.\<close>

function chunks :: "nat \<Rightarrow> 'a list \<Rightarrow> 'a list list" where
  "chunks n xs = (if xs = [] \<or> n = 0 then [] else take n xs # chunks n (drop n xs))"
  by auto
termination by (relation "measure (\<lambda>(n, xs). length xs)") auto

declare chunks.simps [simp del]

lemma concat_chunks: "0 < n \<Longrightarrow> concat (chunks n xs) = xs"
proof (induction n xs rule: chunks.induct)
  case (1 n xs)
  then show ?case by (cases "xs = []") (simp_all add: chunks.simps [of n xs] chunks.simps [of n "[]"])
qed

text \<open>
  One pass over the supervised Runners: a heartbeat transaction per chunk, other transactions in
  between, and the cancellation event of every Runner it names.
\<close>

inductive maintenance_pass :: "repo \<Rightarrow> bool \<Rightarrow> string list list \<Rightarrow> db \<Rightarrow> string set \<Rightarrow> db \<Rightarrow> bool"
  for h :: repo and refresh :: bool where
  pass_done: "maintenance_pass h refresh [] d {} d"
| pass_chunk: "db_step\<^sup>*\<^sup>* d d1 \<Longrightarrow> heartbeat_runners h c refresh locked t d1 = Inr (found, d2) \<Longrightarrow>
    maintenance_pass h refresh cs d2 delivered d3 \<Longrightarrow>
    maintenance_pass h refresh (c # cs) d (set found \<union> delivered) d3"

lemma maintenance_steps: "maintenance_pass h refresh cs d delivered d' \<Longrightarrow> db_step\<^sup>*\<^sup>* d d'"
  by (induction rule: maintenance_pass.induct) (meson db_step.heartbeat r_into_rtranclp rtranclp.rtrancl_refl rtranclp_trans)+

definition stopped_runner :: "string \<Rightarrow> db \<Rightarrow> bool" where
  "stopped_runner i d \<longleftrightarrow> (\<exists>r. get_runner i d = Some r \<and> (run_cancel_requested r \<or> terminal (run_status r)))"

lemma stopped_stays: "db_step\<^sup>*\<^sup>* d d' \<Longrightarrow> stopped_runner i d \<Longrightarrow> stopped_runner i d'"
proof -
  assume s: "db_step\<^sup>*\<^sup>* d d'" and "stopped_runner i d"
  then obtain r where r: "get_runner i d = Some r" "run_cancel_requested r \<or> terminal (run_status r)"
    by (auto simp: stopped_runner_def)
  obtain r' where r': "get_runner i d' = Some r'" "runner_le r r'" using steps_runner [OF s r(1)] by blast
  then have "run_cancel_requested r' \<or> terminal (run_status r')" using r(2) by (auto simp: runner_le_def)
  with r'(1) show ?thesis by (auto simp: stopped_runner_def)
qed

lemma heartbeat_found:
  assumes "heartbeat_runners h c refresh locked t d = Inr (found, d')" and "distinct (map run_id (runners d))"
  shows "i \<in> set found \<longleftrightarrow> i \<in> set c \<and> \<not> (\<exists>r. get_runner i d = Some r \<and> accepting r)"
proof (cases "c = []")
  case True
  with assms show ?thesis by (simp add: heartbeat_runners_def)
next
  case False
  have "i \<in> set found \<longleftrightarrow> i \<in> set c \<and> i \<notin> run_id ` {r \<in> set (runners d). run_id r \<in> set c \<and> accepting r}"
    using assms(1) False by (auto simp: heartbeat_runners_def Let_def)
  moreover have "(\<exists>r. get_runner i d = Some r \<and> accepting r) \<longleftrightarrow> (\<exists>r \<in> set (runners d). run_id r = i \<and> accepting r)"
    using get_row_unique [OF assms(2)] get_row_Some [of run_id i "runners d"] by blast
  ultimately show ?thesis by auto
qed

text \<open>
  C12.  Cancellations arrive.  A pass over the supervised Runners sets the event of every Runner
  among them whose cancellation had been requested, or that had ended, when the pass began; and it
  never sets the event of a Runner that at its heartbeat was running and not to be cancelled.
\<close>

theorem cancellation_delivered:
  assumes "maintenance_pass h refresh (chunks HEARTBEAT_CHUNK runner_ids) d delivered d'" and "db_ok d"
  shows "(\<forall>i \<in> set runner_ids. stopped_runner i d \<longrightarrow> i \<in> delivered) \<and> delivered \<subseteq> set runner_ids \<and>
    (\<forall>i \<in> delivered. \<forall>r. get_runner i d = Some r \<and> run_status r \<noteq> Queued \<longrightarrow> stopped_runner i d')"
proof -
  have "(\<forall>i \<in> set (concat cs). stopped_runner i d \<longrightarrow> i \<in> delivered) \<and> delivered \<subseteq> set (concat cs) \<and>
      (\<forall>i \<in> delivered. \<forall>r. get_runner i d = Some r \<and> run_status r \<noteq> Queued \<longrightarrow> stopped_runner i d')"
    if "maintenance_pass h refresh cs d delivered d'" "db_ok d" for cs
    using that
  proof (induction rule: maintenance_pass.induct)
    case (pass_chunk d d1 c locked t found d2 cs delivered d3)
    have ok1: "db_ok d1" using db_steps_ok [OF pass_chunk.hyps(1) pass_chunk.prems] .
    have s2: "db_step d1 d2" using pass_chunk.hyps(2) by (rule db_step.heartbeat)
    then have ok2: "db_ok d2" using ok1 by (rule db_step_ok)
    have s12: "db_step\<^sup>*\<^sup>* d d2" using pass_chunk.hyps(1) s2 by simp
    note found = heartbeat_found [OF pass_chunk.hyps(2) ok1 [unfolded db_ok_def, THEN conjunct1]]
    note IH = pass_chunk.IH [OF ok2]
    have "i \<in> set found" if "i \<in> set c" "stopped_runner i d" for i
    proof -
      have "stopped_runner i d1" using stopped_stays [OF pass_chunk.hyps(1) that(2)] .
      then have "\<not> (\<exists>r. get_runner i d1 = Some r \<and> accepting r)"
        by (auto simp: stopped_runner_def accepting_def)
      with that(1) found show ?thesis by blast
    qed
    moreover have "stopped_runner i d3" if i: "i \<in> set found" "get_runner i d = Some r" "run_status r \<noteq> Queued" for i r
    proof -
      obtain r1 where r1: "get_runner i d1 = Some r1" "run_status r1 \<noteq> Queued"
        using started_stays [OF pass_chunk.hyps(1) i(2,3)] by metis
      with i(1) found have "\<not> accepting r1" by blast
      then have "stopped_runner i d1"
        using r1 by (cases "run_status r1") (auto simp: stopped_runner_def accepting_def)
      moreover have "db_step\<^sup>*\<^sup>* d1 d3" using s2 maintenance_steps [OF pass_chunk.hyps(3)] by simp
      ultimately show ?thesis by (rule stopped_stays [rotated])
    qed
    moreover have "stopped_runner i d3" if i: "i \<in> delivered" "get_runner i d = Some r" "run_status r \<noteq> Queued" for i r
      using started_stays [OF s12 i(2,3)] IH i(1) by metis
    ultimately show ?case
      using IH stopped_stays [OF s12] found by auto
  qed simp
  note pass = this
  have "concat (chunks HEARTBEAT_CHUNK runner_ids) = runner_ids" by (rule concat_chunks) (simp add: HEARTBEAT_CHUNK_def)
  with pass [OF assms] show ?thesis by metis
qed

theorem cancellation_delivered_witness:
  "\<exists>delivered d'. maintenance_pass new_repo False (chunks HEARTBEAT_CHUNK [''r'']) (sample_db Running True WSubmitted)
     delivered d' \<and> ''r'' \<in> delivered"
proof -
  let ?d = "sample_db Running True WSubmitted"
  have c: "chunks HEARTBEAT_CHUNK [''r''] = [[''r'']]"
    unfolding HEARTBEAT_CHUNK_def by (subst chunks.simps, subst chunks.simps) simp
  have "heartbeat_runners new_repo [''r''] False [] 5 ?d = Inr ([''r''], ?d)"
    by (simp add: heartbeat_runners_def sample_simps)
  then have p: "maintenance_pass new_repo False (chunks HEARTBEAT_CHUNK [''r'']) ?d (set [''r''] \<union> {}) ?d"
    unfolding c by (rule maintenance_pass.pass_chunk [OF rtranclp.rtrancl_refl _ maintenance_pass.pass_done])
  have "stopped_runner ''r'' ?d" by (simp add: stopped_runner_def sample_simps)
  with cancellation_delivered [OF p sample_db_ok [of WSubmitted True]] p show ?thesis by auto
qed

end
