(* ===== verification/Rounds.thy ===== *)
theory Rounds
  imports Task_Syntax
begin

text \<open>
  \<open>compiler/rounds.py\<close>: expansion of a Runner matrix and of completion-gated rounds, and the
  admission rule that only the earliest unfinished round of a campaign may execute.  A Runner
  document is the record of the keys these functions read and write.
\<close>

section \<open>Runner documents\<close>

record runner_group =
  rg_name :: string
  rg_dimensions :: "(string \<times> int) list"
  rg_phase :: "string option"

record round_info =
  ri_index :: nat
  ri_count :: nat
  ri_family :: nat
  ri_seed :: int
  ri_cycle :: nat
  ri_phase :: string
  ri_family_scope :: bool

record runner_doc =
  rd_label :: "string option"
  rd_dataset_seed :: "int option"
  rd_shared_prefix_seed :: "int option"
  rd_group :: "runner_group option"
  rd_round :: "round_info option"

section \<open>Canonical JSON\<close>

text \<open>\<open>json.dumps([name, dimensions], sort_keys=True, separators=(",", ":"))\<close> on ASCII text.\<close>

definition hex_digit :: "nat \<Rightarrow> char" where
  "hex_digit n = ''0123456789abcdef'' ! n"

definition json_char :: "char \<Rightarrow> string" where
  "json_char c =
     (if c = CHR 0x22 then [CHR 0x5C, CHR 0x22]
      else if c = CHR 0x5C then [CHR 0x5C, CHR 0x5C]
      else if c = CHR 0x0A then [CHR 0x5C, CHR ''n'']
      else if c = CHR 0x0D then [CHR 0x5C, CHR ''r'']
      else if c = CHR 0x09 then [CHR 0x5C, CHR ''t'']
      else if c = CHR 0x08 then [CHR 0x5C, CHR ''b'']
      else if c = CHR 0x0C then [CHR 0x5C, CHR ''f'']
      else if of_char c < (32 :: nat)
      then CHR 0x5C # ''u00'' @ [hex_digit (of_char c div 16), hex_digit (of_char c mod 16)]
      else [c])"

definition json_string :: "string \<Rightarrow> string" where
  "json_string s = [CHR 0x22] @ concat (map json_char s) @ [CHR 0x22]"

definition json_identity :: "string \<Rightarrow> (string \<times> int) list \<Rightarrow> string" where
  "json_identity name dims = ''['' @ json_string name @ '',{'' @
     join '','' (map (\<lambda>(k, v). json_string k @ '':'' @ str_int v) (sort_key fst dims)) @ ''}]''"

section \<open>Expansion\<close>

text \<open>\<open>expand_runner_group\<close>: one Runner per coordinate of the matrix, names sorted.\<close>

definition group_coordinates :: "(string \<times> int list) list \<Rightarrow> (string \<times> int) list list" where
  "group_coordinates matrix =
     (let dims = sort (map fst matrix)
      in map (zip dims) (product_lists (map (\<lambda>d. default [] (map_of matrix d)) dims)))"

definition group_runner :: "runner_doc \<Rightarrow> string \<Rightarrow> string option \<Rightarrow> (string \<times> int) list \<Rightarrow> runner_doc" where
  "group_runner template name phase coords =
     template\<lparr>rd_dataset_seed := Some (seed64 (''runner-matrix-v1:'' @
         str_int (default 11111 (rd_dataset_seed template)) @ '':'' @ json_identity name coords)),
       rd_group := Some \<lparr>rg_name = name, rg_dimensions = coords, rg_phase = phase\<rparr>,
       rd_label := Some (take 200 (name @ ''/'' @
         join '','' (map (\<lambda>(k, v). k @ ''='' @ str_int v) coords)))\<rparr>"

definition expand_runner_group ::
    "runner_doc \<Rightarrow> string \<Rightarrow> (string \<times> int list) list \<Rightarrow> string option \<Rightarrow> runner_doc list" where
  "expand_runner_group template name matrix phase =
     map (group_runner template name phase) (group_coordinates matrix)"

text \<open>\<open>(group or {}).get("phase") or phases[0]\<close>.\<close>

definition assigned_phase :: "string list \<Rightarrow> runner_doc \<Rightarrow> string" where
  "assigned_phase phases r = or_else (Option.bind (rd_group r) rg_phase) (hd phases)"

definition round_seeds :: "bool \<Rightarrow> int \<Rightarrow> nat \<Rightarrow> string \<Rightarrow> nat \<Rightarrow> nat \<Rightarrow> runner_doc \<Rightarrow> runner_doc" where
  "round_seeds family seed cycle phase stage_index family_index r =
     (if family
      then let identity = (case rd_group r of
                  Some g \<Rightarrow> json_identity (rg_name g) (rg_dimensions g)
                | None \<Rightarrow> str_nat family_index);
               prefix = seed64 (''round-family-prefix-v1:'' @ str_int seed @ '':'' @ identity)
           in r\<lparr>rd_shared_prefix_seed := Some prefix,
                rd_dataset_seed := Some (seed64 (''round-family-suffix-v1:'' @ str_int prefix @ '':'' @
                  str_nat cycle @ '':'' @ phase))\<rparr>
      else r\<lparr>rd_dataset_seed := Some (seed64 (str_int seed @ '':'' @ str_nat stage_index @ '':'' @
               str_nat family_index))\<rparr>)"

definition round_runner ::
    "bool \<Rightarrow> int \<Rightarrow> nat \<Rightarrow> string list \<Rightarrow> nat \<Rightarrow> string \<Rightarrow> nat \<Rightarrow> nat \<Rightarrow> runner_doc \<Rightarrow> runner_doc" where
  "round_runner family seed count phases cycle phase stage_index family_index template =
     (round_seeds family seed cycle phase stage_index family_index template)
       \<lparr>rd_label := Some (take 200 (''round-'' @ str_pad 3 stage_index @ ''/'' @
           or_else (rd_label template) (str_nat family_index))),
        rd_round := Some \<lparr>ri_index = stage_index, ri_count = count * length phases, ri_family = family_index,
          ri_seed = seed, ri_cycle = cycle, ri_phase = phase, ri_family_scope = family\<rparr>\<rparr>"

text \<open>
  \<open>expand_rounds\<close>; the scope is the literal \<open>round\<close> or \<open>family\<close>, any other text raises.  With
  no phase \<open>phases[0]\<close> is never evaluated, because the inner loop does not run.
\<close>

definition expand_stage ::
    "bool \<Rightarrow> int \<Rightarrow> nat \<Rightarrow> string list \<Rightarrow> runner_doc list \<Rightarrow> nat \<Rightarrow> nat \<times> string \<Rightarrow> runner_doc list" where
  "expand_stage family seed count phases runners cycle = (\<lambda>(phase_index, phase).
     let stage_index = (cycle - 1) * length phases + phase_index + 1
     in map (\<lambda>(family_index, template).
            round_runner family seed count phases cycle phase stage_index family_index template)
          (filter (\<lambda>(_, template). assigned_phase phases template = phase) (enumerate 1 runners)))"

definition expand_rounds ::
    "runner_doc list \<Rightarrow> nat \<Rightarrow> int \<Rightarrow> string \<Rightarrow> string list \<Rightarrow> runner_doc list res" where
  "expand_rounds runners count seed scope phases =
     (if scope \<noteq> ''round'' \<and> scope \<noteq> ''family''
      then Inl (ValueError ''prefix_seed_scope must be round or family'')
      else Inr (concat (map (\<lambda>cycle.
             concat (map (expand_stage (scope = ''family'') seed count phases runners cycle) (enumerate 0 phases)))
           [1 ..< Suc count])))"

section \<open>Admission\<close>

record round_state =
  rs_campaign :: string
  rs_round_index :: nat
  rs_status :: string

record ready_runner =
  rr_runner_id :: string
  rr_campaign :: "string option"
  rr_round :: "nat option"

text \<open>\<open>earliest.get(c, i)\<close> then \<open>min\<close>, over the unfinished states.\<close>

definition unfinished :: "round_state \<Rightarrow> bool" where
  "unfinished st \<longleftrightarrow> rs_status st = ''queued'' \<or> rs_status st = ''running''"

definition earliest_rounds :: "round_state list \<Rightarrow> string \<rightharpoonup> nat" where
  "earliest_rounds states =
     fold (\<lambda>st m. m(rs_campaign st \<mapsto> min (default (rs_round_index st) (m (rs_campaign st))) (rs_round_index st)))
       (filter unfinished states) Map.empty"

definition ready_round_runners :: "ready_runner list \<Rightarrow> round_state list \<Rightarrow> ready_runner list" where
  "ready_round_runners runners states =
     (let earliest = earliest_rounds states
      in filter (\<lambda>r. case rr_round r of
             None \<Rightarrow> True
           | Some i \<Rightarrow> earliest (default ''None'' (rr_campaign r)) = Some i) runners)"

section \<open>Only the earliest unfinished round runs\<close>

lemma earliest_fold:
  "fold (\<lambda>st m. m(rs_campaign st \<mapsto> min (default (rs_round_index st) (m (rs_campaign st))) (rs_round_index st))) sts m c
   = (let is = map rs_round_index (filter (\<lambda>st. rs_campaign st = c) sts)
      in case m c of Some i \<Rightarrow> Some (fold min is i)
         | None \<Rightarrow> (case is of [] \<Rightarrow> None | i # js \<Rightarrow> Some (fold min js i)))"
proof (induction sts arbitrary: m)
  case (Cons st sts)
  show ?case
    by (subst fold.simps, simp only: comp_apply Cons.IH)
       (auto simp: Let_def min.commute split: option.splits list.splits)
qed (simp split: option.splits)

lemma fold_min_lower: "fold min xs i \<in> insert i (set xs) \<and> (\<forall>x \<in> insert i (set xs). fold min xs i \<le> (x::nat))"
proof (induction xs arbitrary: i)
  case (Cons x xs)
  from Cons.IH [of "min x i"] show ?case by (auto simp: min_def split: if_splits)
qed simp

lemma earliest_rounds_min:
  "earliest_rounds states c = Some i \<longleftrightarrow>
     (\<exists>st \<in> set states. unfinished st \<and> rs_campaign st = c \<and> rs_round_index st = i) \<and>
     (\<forall>st \<in> set states. unfinished st \<and> rs_campaign st = c \<longrightarrow> i \<le> rs_round_index st)"
proof -
  let ?is = "map rs_round_index (filter (\<lambda>st. rs_campaign st = c) (filter unfinished states))"
  have e: "earliest_rounds states c = (case ?is of [] \<Rightarrow> None | i # js \<Rightarrow> Some (fold min js i))"
    unfolding earliest_rounds_def earliest_fold by (simp add: Let_def)
  have mem: "x \<in> set ?is \<longleftrightarrow> (\<exists>st \<in> set states. unfinished st \<and> rs_campaign st = c \<and> rs_round_index st = x)" for x
    by auto
  show ?thesis
  proof (cases ?is)
    case Nil
    then have "\<nexists>st. st \<in> set states \<and> unfinished st \<and> rs_campaign st = c" by (auto simp: filter_empty_conv)
    then show ?thesis unfolding e Nil by auto
  next
    case (Cons j js)
    from fold_min_lower [of js j] have m: "fold min js j \<in> set ?is" "\<forall>x \<in> set ?is. fold min js j \<le> x"
      unfolding Cons by auto
    have "earliest_rounds states c = Some i \<longleftrightarrow> i \<in> set ?is \<and> (\<forall>x \<in> set ?is. i \<le> x)"
      unfolding e Cons list.case using m unfolding Cons by (metis option.inject order_antisym)
    then show ?thesis unfolding mem by (metis (no_types, lifting) mem)
  qed
qed

text \<open>
  Round gating: a Runner of round \<open>i\<close> is let through exactly when some Runner of that round of
  its campaign is unfinished and no earlier round of the campaign has an unfinished Runner;
  Runners outside rounds always pass.
\<close>

theorem ready_round_iff:
  "r \<in> set (ready_round_runners runners states) \<longleftrightarrow> r \<in> set runners \<and>
     (case rr_round r of None \<Rightarrow> True | Some i \<Rightarrow>
        (\<exists>st \<in> set states. unfinished st \<and> rs_campaign st = default ''None'' (rr_campaign r) \<and> rs_round_index st = i) \<and>
        (\<forall>st \<in> set states. unfinished st \<and> rs_campaign st = default ''None'' (rr_campaign r) \<longrightarrow> i \<le> rs_round_index st))"
  by (auto simp: ready_round_runners_def Let_def earliest_rounds_min split: option.splits)

theorem ready_round_iff_witness:
  "(let r = \<lparr>rr_runner_id = ''x'', rr_campaign = Some ''c'', rr_round = Some 2\<rparr>
    in r \<notin> set (ready_round_runners [r] [\<lparr>rs_campaign = ''c'', rs_round_index = 1, rs_status = ''running''\<rparr>]))"
  unfolding Let_def ready_round_iff by (simp add: unfinished_def)

section \<open>Every Runner runs once per cycle\<close>

lemma round_runner_round: "rd_round (round_runner f seed n ps cyc ph st fam t) =
    Some \<lparr>ri_index = st, ri_count = n * length ps, ri_family = fam, ri_seed = seed, ri_cycle = cyc, ri_phase = ph, ri_family_scope = f\<rparr>"
  by (simp add: round_runner_def)

lemma sum_phase_counts:
  assumes "distinct ps"
  shows "sum_list (map (\<lambda>p. length (filter (\<lambda>x. f x = p) xs)) ps) = length (filter (\<lambda>x. f x \<in> set ps) xs)"
  using assms
proof (induction ps)
  case (Cons p ps)
  have "length (filter (\<lambda>x. f x = p) xs) + length (filter (\<lambda>x. f x \<in> set ps) xs) =
      length (filter (\<lambda>x. f x \<in> set (p # ps)) xs)"
    using Cons.prems by (induction xs) auto
  with Cons show ?case by simp
qed simp

text \<open>
  With distinct phases, the rounds hold every Runner whose phase is one of them exactly once
  per cycle, and none of the others.
\<close>

theorem expand_rounds_count:
  assumes "expand_rounds runners count seed scope phases = Inr rs" and "distinct phases"
  shows "length rs = count * length (filter (\<lambda>r. assigned_phase phases r \<in> set phases) runners)"
proof -
  let ?f = "scope = ''family''"
  let ?n = "length (filter (\<lambda>r. assigned_phase phases r \<in> set phases) runners)"
  have rs: "rs = concat (map (\<lambda>cycle.
      concat (map (expand_stage ?f seed count phases runners cycle) (enumerate 0 phases))) [1 ..< Suc count])"
    using assms(1) by (auto simp: expand_rounds_def split: if_splits)
  have stage: "length (expand_stage ?f seed count phases runners cycle (i, p)) =
      length (filter (\<lambda>r. assigned_phase phases r = p) runners)" for cycle i p
  proof -
    have "length (filter (\<lambda>(_, r). assigned_phase phases r = p) (enumerate k runners)) =
        length (filter (\<lambda>r. assigned_phase phases r = p) runners)" for k
      by (induction runners arbitrary: k) auto
    then show ?thesis by (simp add: expand_stage_def Let_def)
  qed
  have "length (concat (map (expand_stage ?f seed count phases runners cycle) (enumerate 0 phases))) =
      sum_list (map (\<lambda>p. length (filter (\<lambda>r. assigned_phase phases r = p) runners)) (map snd (enumerate 0 phases)))" for cycle
    unfolding length_concat by (simp add: comp_def stage case_prod_unfold del: map_snd_enumerate) (metis stage surjective_pairing)
  then have cyc: "length (concat (map (expand_stage ?f seed count phases runners cycle) (enumerate 0 phases))) = ?n" for cycle
    using sum_phase_counts [OF assms(2), of "assigned_phase phases" runners] by simp
  show ?thesis unfolding rs length_concat by (simp add: comp_def cyc sum_list_triv del: length_concat)
qed

theorem expand_rounds_count_witness:
  "\<exists>rs. expand_rounds [\<lparr>rd_label = None, rd_dataset_seed = None, rd_shared_prefix_seed = None, rd_group = None,
        rd_round = None\<rparr>] 3 7 ''round'' [''default''] = Inr rs \<and> length rs = 3"
proof -
  let ?r = "\<lparr>rd_label = None, rd_dataset_seed = None, rd_shared_prefix_seed = None, rd_group = None, rd_round = None\<rparr>"
  obtain rs where rs: "expand_rounds [?r] 3 7 ''round'' [''default''] = Inr rs"
    by (simp add: expand_rounds_def)
  from expand_rounds_count [OF this] rs show ?thesis by (simp add: assigned_phase_def or_else_def)
qed

end
