(* ===== verification/Coordinator.thy ===== *)
theory Coordinator
  imports Fair_Queue Rounds
begin

text \<open>
  \<open>runtime/coordinator.py\<close>: the in-memory ready queue of the scheduler process, rebuilt from durable
  snapshots.  \<open>ReconcileNotifier\<close>, \<open>ready_nodes\<close> and the operations of \<open>RuntimeCoordinator\<close> follow
  the code; the repository it calls is a parameter (\<open>runtime_snapshot\<close> gives the snapshot,
  \<open>activate_node\<close> the created Runner, \<open>start_selected\<close> decides whether a claim holds).  The cache
  \<open>instances\<close>, which is only written, is left out; the clock that ends a reconciliation pass is
  the number of iterations it allows.  \<open>co_claimed\<close> is not a field of the class: it records the
  Runners handed out and not yet released, so that exclusiveness can be stated.
\<close>

section \<open>Notifications\<close>

type_synonym hint = "string option"

record notifier =
  nt_capacity :: nat
  nt_queue :: "hint list"
  nt_pending :: "hint set"

definition notifier_full :: "notifier \<Rightarrow> bool" where
  "notifier_full n \<longleftrightarrow> 0 < nt_capacity n \<and> nt_capacity n \<le> length (nt_queue n)"

definition publish_hint :: "hint \<Rightarrow> notifier \<Rightarrow> notifier" where
  "publish_hint h n =
     (if h \<in> nt_pending n \<or> notifier_full n then n
      else n\<lparr>nt_pending := insert h (nt_pending n), nt_queue := nt_queue n @ [h]\<rparr>)"

text \<open>\<open>receive\<close>; an empty queue is the timeout.\<close>

definition receive_hint :: "notifier \<Rightarrow> hint option \<times> notifier" where
  "receive_hint n = (case nt_queue n of
     [] \<Rightarrow> (None, n)
   | h # hs \<Rightarrow> (Some h, n\<lparr>nt_queue := hs, nt_pending := nt_pending n - {h}\<rparr>))"

definition notifier_inv :: "notifier \<Rightarrow> bool" where
  "notifier_inv n \<longleftrightarrow> distinct (nt_queue n) \<and> nt_pending n = set (nt_queue n) \<and>
     (0 < nt_capacity n \<longrightarrow> length (nt_queue n) \<le> nt_capacity n)"

lemma publish_hint_inv [wf_intros]: "notifier_inv n \<Longrightarrow> notifier_inv (publish_hint h n)"
  by (auto simp: notifier_inv_def publish_hint_def notifier_full_def)

lemma receive_hint_inv [wf_intros]: "notifier_inv n \<Longrightarrow> notifier_inv (snd (receive_hint n))"
  by (auto simp: notifier_inv_def receive_hint_def split: list.splits)

text \<open>A published hint is in the queue unless the queue is full: wakeups coalesce, none is stale.\<close>

lemma publish_hint_delivered:
  "notifier_inv n \<Longrightarrow> h \<in> set (nt_queue (publish_hint h n)) \<or> notifier_full n"
  by (auto simp: notifier_inv_def publish_hint_def)

section \<open>Readiness of the nodes of an instance\<close>

record node_snapshot =
  ns_id :: string
  ns_dependencies :: "string list"
  ns_delay :: pyfloat
  ns_state :: string
  ns_completed_at :: "timestamp option"
  ns_terminal_status :: "string option"

definition node_completion :: "node_snapshot \<Rightarrow> completion option" where
  "node_completion n = (case (ns_terminal_status n, ns_completed_at n) of
     (Some st, Some t) \<Rightarrow> Some \<lparr>succeeded = (st = ''succeeded''), completed_at = t\<rparr>
   | _ \<Rightarrow> None)"

definition node_completions :: "node_snapshot list \<Rightarrow> string \<rightharpoonup> completion" where
  "node_completions nodes =
     map_of (rev (map (\<lambda>n. (ns_id n, the (node_completion n))) (filter (\<lambda>n. node_completion n \<noteq> None) nodes)))"

definition awaiting :: "node_snapshot \<Rightarrow> bool" where
  "awaiting n \<longleftrightarrow> ns_state n = ''pending'' \<or> ns_state n = ''blocked''"

definition ready_node ::
    "timestamp \<Rightarrow> timestamp \<Rightarrow> (string \<rightharpoonup> completion) \<Rightarrow> (string \<times> instant) list \<Rightarrow> node_snapshot \<Rightarrow>
     (string \<times> instant) list res" where
  "ready_node created_at now completions ready_so_far n =
     (if \<not> awaiting n then Inr ready_so_far
      else rbind (dependency_evaluate (ns_dependencies n) created_at (ns_delay n) now completions) (\<lambda>e.
        Inr (case el_due_at e of
               Some due \<Rightarrow> if ready e then AList.update (ns_id n) due ready_so_far else ready_so_far
             | None \<Rightarrow> ready_so_far)))"

definition ready_nodes :: "node_snapshot list \<Rightarrow> timestamp \<Rightarrow> timestamp \<Rightarrow> (string \<times> instant) list res" where
  "ready_nodes nodes created_at now =
     foldR (ready_node created_at now (node_completions nodes)) [] nodes"

section \<open>The coordinator\<close>

record coordinator =
  co_ready_capacity :: nat
  co_queues :: "(string \<times> string list) list"
  co_order :: "string list"
  co_admitted :: "string set"
  co_notifier :: notifier
  co_last_instance :: "string option"
  co_claimed :: "string set"

definition new_coordinator :: "nat \<Rightarrow> coordinator" where
  "new_coordinator capacity = \<lparr>co_ready_capacity = capacity, co_queues = [], co_order = [], co_admitted = {},
     co_notifier = \<lparr>nt_capacity = 1024, nt_queue = [], nt_pending = {}\<rparr>, co_last_instance = None, co_claimed = {}\<rparr>"

text \<open>The body of the loop of \<open>_enqueue_runners\<close> once the Runner is not admitted yet.\<close>

definition push_runner :: "string \<Rightarrow> string \<Rightarrow> coordinator \<Rightarrow> coordinator" where
  "push_runner campaign_id runner_id c =
     c\<lparr>co_queues := AList.update campaign_id (queue_at (co_queues c) campaign_id @ [runner_id]) (co_queues c),
       co_order := (if map_of (co_queues c) campaign_id = None then co_order c @ [campaign_id] else co_order c),
       co_admitted := insert runner_id (co_admitted c)\<rparr>"

text \<open>\<open>runner.get("campaign_id") or runner_id\<close>.\<close>

definition campaign_of :: "ready_runner \<Rightarrow> string" where
  "campaign_of r = or_else (rr_campaign r) (rr_runner_id r)"

fun enqueue_runners :: "ready_runner list \<Rightarrow> coordinator \<Rightarrow> coordinator" where
  "enqueue_runners [] c = c"
| "enqueue_runners (r # rs) c =
     (if co_ready_capacity c \<le> queued (co_queues c) then c
      else if rr_runner_id r \<in> co_admitted c then enqueue_runners rs c
      else enqueue_runners rs (push_runner (campaign_of r) (rr_runner_id r) c))"

text \<open>The locked part of \<open>claim_ready_runner\<close>; then the claim holds, or the Runner is let go.\<close>

definition pop_ready :: "coordinator \<Rightarrow> ((string \<times> string) \<times> coordinator) option" where
  "pop_ready c = (case co_order c of
     [] \<Rightarrow> None
   | k # order \<Rightarrow> (case queue_at (co_queues c) k of
       [] \<Rightarrow> None
     | r # rs \<Rightarrow> Some ((k, r),
         c\<lparr>co_queues := (if rs = [] then AList.delete k (co_queues c) else AList.update k rs (co_queues c)),
           co_order := (if rs = [] then order else order @ [k]),
           co_claimed := insert r (co_claimed c)\<rparr>)))"

definition drop_claim :: "string \<Rightarrow> coordinator \<Rightarrow> coordinator" where
  "drop_claim runner_id c =
     c\<lparr>co_admitted := co_admitted c - {runner_id}, co_claimed := co_claimed c - {runner_id}\<rparr>"

definition release_runner :: "string \<Rightarrow> coordinator \<Rightarrow> coordinator" where
  "release_runner runner_id c =
     (drop_claim runner_id c)\<lparr>co_notifier := publish_hint (Some runner_id) (co_notifier c)\<rparr>"

section \<open>Reconciliation\<close>

record instance_snapshot =
  is_id :: string
  is_state :: string
  is_created_at :: timestamp
  is_nodes :: "node_snapshot list"

record runtime_snapshot =
  sn_runners :: "ready_runner list"
  sn_round_states :: "round_state list"
  sn_instances :: "instance_snapshot list"

type_synonym candidate = "string \<times> (string \<times> instant) list"

text \<open>The pass starts after the instance that was materialized last.\<close>

definition start_after :: "string option \<Rightarrow> instance_snapshot list \<Rightarrow> instance_snapshot list" where
  "start_after last_id xs =
     (let before = takeWhile (\<lambda>i. Some (is_id i) \<noteq> last_id) xs
      in if length before = length xs then xs
         else drop (Suc (length before)) xs @ take (Suc (length before)) xs)"

definition make_candidates :: "timestamp \<Rightarrow> instance_snapshot list \<Rightarrow> candidate list res" where
  "make_candidates now xs =
     rbind (mapR (\<lambda>i. rbind (ready_nodes (is_nodes i) (is_created_at i) now) (\<lambda>due. Inr (is_id i, due))) xs)
       (\<lambda>cs. Inr (filter (\<lambda>(_, due). due \<noteq> []) cs))"

text \<open>
  The materialization loop.  \<open>budget\<close> is the number of iterations that start before the deadline of
  the pass; \<open>activate\<close> is \<open>repository.activate_node\<close>.  The nodes it activates are returned too.
\<close>

definition activate_next ::
    "(string \<Rightarrow> instant \<Rightarrow> ready_runner option) \<Rightarrow> string \<Rightarrow> string \<Rightarrow> instant \<Rightarrow> coordinator \<Rightarrow> coordinator" where
  "activate_next activate i node_id due c =
     (case activate node_id due of
        None \<Rightarrow> c\<lparr>co_last_instance := Some i\<rparr>
      | Some r \<Rightarrow> enqueue_runners [r] (c\<lparr>co_last_instance := Some i\<rparr>))"

fun materialize ::
    "(string \<Rightarrow> instant \<Rightarrow> ready_runner option) \<Rightarrow> nat \<Rightarrow> candidate list \<Rightarrow> coordinator \<Rightarrow> coordinator \<times> string list" where
  "materialize activate 0 cs c = (c, [])"
| "materialize activate (Suc budget) ((i, (node_id, due) # rest) # cs) c =
     (if co_ready_capacity c \<le> queued (co_queues c) then (c, [])
      else let (c', done) = materialize activate budget (if rest = [] then cs else cs @ [(i, rest)])
                 (activate_next activate i node_id due c)
           in (c', node_id # done))"
| "materialize activate (Suc budget) _ c = (c, [])"

definition reconcile ::
    "runtime_snapshot \<Rightarrow> timestamp \<Rightarrow> (string \<Rightarrow> instant \<Rightarrow> ready_runner option) \<Rightarrow> nat \<Rightarrow> coordinator \<Rightarrow>
     (coordinator \<times> string list) res" where
  "reconcile snapshot now activate budget c =
     (let c = enqueue_runners (ready_round_runners (sn_runners snapshot) (sn_round_states snapshot)) c;
          eligible_instances = filter (\<lambda>i. is_state i = ''planned'' \<or> is_state i = ''active'') (sn_instances snapshot)
      in rbind (make_candidates now (start_after (co_last_instance c) eligible_instances)) (\<lambda>cs.
           Inr (materialize activate budget cs c)))"

definition stop_coordinator :: "coordinator \<Rightarrow> coordinator" where
  "stop_coordinator c = c\<lparr>co_queues := [], co_order := [], co_admitted := {}, co_last_instance := None, co_claimed := {}\<rparr>"

section \<open>Service discipline\<close>

definition coord_abs :: "coordinator \<Rightarrow> (string, string) rr" where
  "coord_abs c = (co_queues c, co_order c)"

lemma pop_ready_abs: "pop_ready c = Some (kr, c') \<Longrightarrow> rr_take (coord_abs c) = Some (kr, coord_abs c')"
  by (auto simp: pop_ready_def coord_abs_def split: list.splits)

interpretation cq: fair_service coord_abs push_runner pop_ready
  by unfold_locales (simp_all add: coord_abs_def push_runner_def pop_ready_abs [unfolded coord_abs_def])

section \<open>Transitions and invariant\<close>

text \<open>A claim that \<open>start_selected\<close> refuses is dropped; a finished Runner is released.\<close>

inductive coord_step :: "coordinator \<Rightarrow> coordinator \<Rightarrow> bool" where
  enqueue: "coord_step c (enqueue_runners rs c)"
| claim: "pop_ready c = Some (kr, c') \<Longrightarrow> coord_step c c'"
| refused: "r \<in> co_claimed c \<Longrightarrow> coord_step c (drop_claim r c)"
| release: "r \<in> co_claimed c \<Longrightarrow> coord_step c (release_runner r c)"
| reconcile: "reconcile snapshot now activate budget c = Inr (c', done) \<Longrightarrow> coord_step c c'"

inductive coord_reachable :: "nat \<Rightarrow> coordinator \<Rightarrow> bool" for capacity where
  start: "coord_reachable capacity (new_coordinator capacity)"
| step: "coord_reachable capacity c \<Longrightarrow> coord_step c c' \<Longrightarrow> coord_reachable capacity c'"

definition in_queue :: "string \<Rightarrow> coordinator \<Rightarrow> bool" where
  "in_queue r c \<longleftrightarrow> (\<exists>k. r \<in> set (queue_at (co_queues c) k))"

definition coord_inv :: "coordinator \<Rightarrow> bool" where
  "coord_inv c \<longleftrightarrow> rr_wf (coord_abs c) \<and> queued (co_queues c) \<le> co_ready_capacity c \<and>
     (\<forall>k. distinct (queue_at (co_queues c) k)) \<and>
     (\<forall>k k' r. r \<in> set (queue_at (co_queues c) k) \<and> r \<in> set (queue_at (co_queues c) k') \<longrightarrow> k = k') \<and>
     (\<forall>r. in_queue r c \<longrightarrow> r \<in> co_admitted c \<and> r \<notin> co_claimed c) \<and>
     co_claimed c \<subseteq> co_admitted c \<and> notifier_inv (co_notifier c)"

lemma coord_invD:
  assumes "coord_inv c"
  shows "rr_wf (coord_abs c)" and "queued (co_queues c) \<le> co_ready_capacity c"
    and "distinct (queue_at (co_queues c) k)"
    and "r \<in> set (queue_at (co_queues c) k) \<Longrightarrow> r \<in> set (queue_at (co_queues c) k') \<Longrightarrow> k = k'"
    and "r \<in> set (queue_at (co_queues c) k) \<Longrightarrow> r \<in> co_admitted c \<and> r \<notin> co_claimed c"
    and "co_claimed c \<subseteq> co_admitted c" and "notifier_inv (co_notifier c)"
  using assms unfolding coord_inv_def in_queue_def by blast+

lemma coord_invI:
  assumes "rr_wf (coord_abs c)" and "queued (co_queues c) \<le> co_ready_capacity c"
    and "\<And>k. distinct (queue_at (co_queues c) k)"
    and "\<And>r k k'. r \<in> set (queue_at (co_queues c) k) \<Longrightarrow> r \<in> set (queue_at (co_queues c) k') \<Longrightarrow> k = k'"
    and "\<And>r k. r \<in> set (queue_at (co_queues c) k) \<Longrightarrow> r \<in> co_admitted c \<and> r \<notin> co_claimed c"
    and "co_claimed c \<subseteq> co_admitted c" and "notifier_inv (co_notifier c)"
  shows "coord_inv c"
  unfolding coord_inv_def in_queue_def using assms by blast

lemma new_coordinator_inv [wf_intros]: "coord_inv (new_coordinator n)"
  by (simp add: coord_inv_def new_coordinator_def coord_abs_def rr_wf_iff queued_def queue_at_def in_queue_def notifier_inv_def)

lemma queue_at_push:
  "queue_at (co_queues (push_runner k r c)) k' = (if k' = k then queue_at (co_queues c) k @ [r] else queue_at (co_queues c) k')"
  by (simp add: push_runner_def)

lemma push_runner_inv [wf_intros]:
  assumes "coord_inv c" and "queued (co_queues c) < co_ready_capacity c" and "r \<notin> co_admitted c"
  shows "coord_inv (push_runner k r c)"
proof -
  note d = coord_invD [OF assms(1)]
  have notin: "r \<notin> set (queue_at (co_queues c) k')" for k' using d(5) assms(3) by blast
  show ?thesis
  proof (rule coord_invI)
    show "rr_wf (coord_abs (push_runner k r c))" by (rule cq.put_wf [OF d(1)])
    show "queued (co_queues (push_runner k r c)) \<le> co_ready_capacity (push_runner k r c)"
      using cq.put_queued [OF d(1), of k r] assms(2) by (simp add: coord_abs_def push_runner_def)
    show "distinct (queue_at (co_queues (push_runner k r c)) k')" for k'
      using d(3) notin by (simp add: queue_at_push)
    show "k1 = k2" if "x \<in> set (queue_at (co_queues (push_runner k r c)) k1)"
      "x \<in> set (queue_at (co_queues (push_runner k r c)) k2)" for x k1 k2
      using that d(4) [of x] notin by (auto simp: queue_at_push split: if_splits)
    show "x \<in> co_admitted (push_runner k r c) \<and> x \<notin> co_claimed (push_runner k r c)"
      if "x \<in> set (queue_at (co_queues (push_runner k r c)) k1)" for x k1
      using that d(5) [of x] d(6) assms(3) by (auto simp: queue_at_push push_runner_def split: if_splits)
    show "co_claimed (push_runner k r c) \<subseteq> co_admitted (push_runner k r c)"
      using d(6) by (auto simp: push_runner_def)
    show "notifier_inv (co_notifier (push_runner k r c))" using d(7) by (simp add: push_runner_def)
  qed
qed

lemma enqueue_runners_inv [wf_intros]: "coord_inv c \<Longrightarrow> coord_inv (enqueue_runners rs c)"
  by (induction rs c rule: enqueue_runners.induct) (auto intro: push_runner_inv simp: linorder_not_le)

lemma pop_ready_queue:
  assumes "pop_ready c = Some ((k, r), c')"
  shows "queue_at (co_queues c) k = r # queue_at (co_queues c') k"
    and "k' \<noteq> k \<Longrightarrow> queue_at (co_queues c') k' = queue_at (co_queues c) k'"
    and "co_claimed c' = insert r (co_claimed c)" "co_admitted c' = co_admitted c" "co_notifier c' = co_notifier c"
      "co_ready_capacity c' = co_ready_capacity c"
  using assms by (auto simp: pop_ready_def split: list.splits)

lemma pop_ready_inv [wf_intros]:
  assumes "coord_inv c" and "pop_ready c = Some ((k, r), c')"
  shows "coord_inv c'"
proof -
  note d = coord_invD [OF assms(1)] and p = pop_ready_queue [OF assms(2)]
  have r: "r \<in> set (queue_at (co_queues c) k)" using p(1) by simp
  have sub: "set (queue_at (co_queues c') k') \<subseteq> set (queue_at (co_queues c) k')" for k'
    using p(1) p(2) [of k'] by (cases "k' = k") auto
  have gone: "r \<notin> set (queue_at (co_queues c') k')" for k'
  proof (cases "k' = k")
    case True
    then show ?thesis using d(3) [of k] p(1) by simp
  next
    case False
    then show ?thesis using d(4) [OF r, of k'] p(2) [of k'] by auto
  qed
  show ?thesis
  proof (rule coord_invI)
    show "rr_wf (coord_abs c')" by (rule cq.serve_wf [OF d(1) assms(2)])
    show "queued (co_queues c') \<le> co_ready_capacity c'"
      using cq.serve_queued [OF d(1) assms(2)] d(2) p(6) by (simp add: coord_abs_def)
    show "distinct (queue_at (co_queues c') k')" for k'
      using d(3) [of k'] p(1) p(2) [of k'] by (cases "k' = k") auto
    show "k1 = k2" if "x \<in> set (queue_at (co_queues c') k1)" "x \<in> set (queue_at (co_queues c') k2)" for x k1 k2
      using that sub d(4) by blast
    show "x \<in> co_admitted c' \<and> x \<notin> co_claimed c'" if "x \<in> set (queue_at (co_queues c') k1)" for x k1
      using that sub [of k1] d(5) [of x k1] gone [of k1] unfolding p(3,4) by auto
    show "co_claimed c' \<subseteq> co_admitted c'" using d(5) [OF r] d(6) unfolding p(3,4) by simp
    show "notifier_inv (co_notifier c')" using d(7) p(5) by simp
  qed
qed

lemma drop_claim_inv [wf_intros]:
  assumes "coord_inv c" and "r \<in> co_claimed c"
  shows "coord_inv (drop_claim r c)"
proof -
  note d = coord_invD [OF assms(1)]
  have "r \<notin> set (queue_at (co_queues c) k)" for k using d(5) assms(2) by blast
  then show ?thesis
    using assms(1) d(6) unfolding coord_inv_def in_queue_def by (auto simp: drop_claim_def coord_abs_def)
qed

lemma notifier_update_inv: "coord_inv c \<Longrightarrow> notifier_inv n \<Longrightarrow> coord_inv (c\<lparr>co_notifier := n\<rparr>)"
  by (simp add: coord_inv_def in_queue_def coord_abs_def)

lemma release_runner_inv [wf_intros]:
  assumes "coord_inv c" and "r \<in> co_claimed c"
  shows "coord_inv (release_runner r c)"
  unfolding release_runner_def
  by (intro notifier_update_inv drop_claim_inv publish_hint_inv coord_invD(7) assms)

lemma last_instance_inv: "coord_inv c \<Longrightarrow> coord_inv (c\<lparr>co_last_instance := i\<rparr>)"
  by (simp add: coord_inv_def in_queue_def coord_abs_def)

lemma activate_next_inv [wf_intros]: "coord_inv c \<Longrightarrow> coord_inv (activate_next activate i n due c)"
  unfolding activate_next_def
  by (cases "activate n due") (simp_all add: last_instance_inv enqueue_runners_inv del: enqueue_runners.simps)

lemma materialize_inv [wf_intros]: "coord_inv c \<Longrightarrow> coord_inv (fst (materialize activate n cs c))"
  by (induction activate n cs c rule: materialize.induct) (auto simp: activate_next_inv split: prod.splits)

lemma coord_step_inv: "coord_step c c' \<Longrightarrow> coord_inv c \<Longrightarrow> coord_inv c'"
proof (induction rule: coord_step.induct)
  case (claim c kr c')
  then show ?case using pop_ready_inv by (cases kr) auto
next
  case (reconcile snapshot now activate budget c c' "done")
  then obtain cs where "materialize activate budget cs
      (enqueue_runners (ready_round_runners (sn_runners snapshot) (sn_round_states snapshot)) c) = (c', done)"
    by (auto simp: reconcile_def Let_def)
  then show ?case using materialize_inv [OF enqueue_runners_inv [OF reconcile(2)]] by (metis fst_conv)
qed (auto intro: enqueue_runners_inv drop_claim_inv release_runner_inv)

lemma coord_reachable_inv: "coord_reachable n c \<Longrightarrow> coord_inv c"
  by (induction rule: coord_reachable.induct) (auto intro: new_coordinator_inv coord_step_inv)

text \<open>
  C39.  The ready queue never grows beyond its capacity, and a Runner is never handed out while an
  earlier claim on it is still held: the claimed Runner was queued exactly once, was not claimed,
  and stays out of the queue until it is released, whatever reconciliation offers again.
\<close>

theorem claim_exclusive:
  assumes "coord_reachable capacity c" and "pop_ready c = Some ((k, r), c')"
  shows "queued (co_queues c) \<le> co_ready_capacity c \<and> r \<notin> co_claimed c \<and> r \<in> co_claimed c' \<and>
    \<not> in_queue r c' \<and> \<not> in_queue r (enqueue_runners rs c')"
proof -
  note inv = coord_reachable_inv [OF assms(1)]
  note p = pop_ready_queue [OF assms(2)]
  have r: "r \<in> set (queue_at (co_queues c) k)" using p(1) by simp
  note inv' = pop_ready_inv [OF inv assms(2)]
  have held: "r \<in> co_claimed (enqueue_runners rs c')"
  proof -
    have "co_claimed (enqueue_runners rs c') = co_claimed c'"
      by (induction rs c' rule: enqueue_runners.induct) (auto simp: push_runner_def)
    then show ?thesis using p(3) by simp
  qed
  with coord_invD(5) [OF enqueue_runners_inv [OF inv', of rs]] have "\<not> in_queue r (enqueue_runners rs c')"
    by (auto simp: in_queue_def)
  moreover have "\<not> in_queue r c'" using coord_invD(5) [OF inv'] p(3) by (auto simp: in_queue_def)
  ultimately show ?thesis using coord_invD(2) [OF inv] coord_invD(5) [OF inv r] p(3) by simp
qed

definition queued_coordinator :: coordinator where
  "queued_coordinator = enqueue_runners
     [\<lparr>rr_runner_id = ''r1'', rr_campaign = Some ''c'', rr_round = None\<rparr>,
      \<lparr>rr_runner_id = ''r2'', rr_campaign = None, rr_round = None\<rparr>] (new_coordinator 4)"

lemma queued_coordinator_reachable: "coord_reachable 4 queued_coordinator"
  unfolding queued_coordinator_def by (blast intro: coord_reachable.intros coord_step.enqueue)

lemma queued_coordinator_eq:
  "co_queues queued_coordinator = [(''c'', [''r1'']), (''r2'', [''r2''])]" "co_order queued_coordinator = [''c'', ''r2'']"
  by (simp_all add: queued_coordinator_def new_coordinator_def queued_def push_runner_def campaign_of_def or_else_def queue_at_def)

theorem claim_exclusive_witness:
  "\<exists>c'. pop_ready queued_coordinator = Some ((''c'', ''r1''), c') \<and> \<not> in_queue ''r1'' (enqueue_runners
     [\<lparr>rr_runner_id = ''r1'', rr_campaign = Some ''c'', rr_round = None\<rparr>] c')"
proof -
  obtain c' where "pop_ready queued_coordinator = Some ((''c'', ''r1''), c')"
    by (simp add: pop_ready_def queued_coordinator_eq queue_at_def)
  with claim_exclusive [OF queued_coordinator_reachable this] show ?thesis by blast
qed

text \<open>
  Campaigns are served round-robin: while Runners keep arriving, a campaign with \<open>n\<close> others
  before it in the order is served among the next \<open>n + 1\<close> claims.
\<close>

theorem campaign_bounded_bypass:
  assumes "coord_reachable capacity c" and "k \<in> set (co_order c)" and "\<forall>k w. Drop k w \<notin> set es"
    and "position k (co_order c) < length (run_queue push_runner pop_ready (\<lambda>_ _ c. c) c es)"
  shows "k \<in> set (take (Suc (position k (co_order c))) (run_queue push_runner pop_ready (\<lambda>_ _ c. c) c es))"
proof -
  note wf = coord_invD(1) [OF coord_reachable_inv [OF assms(1)]]
  from cq.service_bypass [OF wf, of k es "\<lambda>_ _ c. c"] assms(2-4) show ?thesis by (simp add: coord_abs_def)
qed

theorem campaign_bounded_bypass_witness:
  "''r2'' \<in> set (take 2 (run_queue push_runner pop_ready (\<lambda>_ _ c. c) queued_coordinator [Take, Take]))"
proof -
  have "run_queue push_runner pop_ready (\<lambda>_ _ c. c) queued_coordinator [Take, Take] = [''c'', ''r2'']"
    by (simp add: pop_ready_def queued_coordinator_eq queue_at_def AList.delete_eq)
  with campaign_bounded_bypass [OF queued_coordinator_reachable, of "''r2''" "[Take, Take]"] show ?thesis
    by (simp add: queued_coordinator_eq)
qed

end
