(* ===== verification/Runner.thy ===== *)
theory Runner
  imports Runner_Logic
begin

text \<open>
  \<open>RunnerRuntime\<close> of \<open>runtime/runner.py\<close>: one Runner's progression through its steps.

  \<open>run\<close> is a loop; between two of its waits it takes messages from its mailbox, looks at its
  submission and timer tasks and passes once over the pending steps.  \<open>run_turn\<close> is one such turn:
  from the state and what the turn finds (\<open>turn_input\<close>) it computes the new state, what it did to
  the outside in order (\<open>effect\<close>), and how the turn ends (\<open>verdict\<close>).  A turn reads each clock
  once.  \<open>decode\<close> are the pydantic models of the two payloads, \<open>send\<close> is what becomes of a
  published message, \<open>create\<close> of the creation of Workers.

  Not modelled: the \<open>_submit\<close> task between its start and its end (admission, then
  \<open>WorkerDispatcher.submit\<close>, which are modelled on their own) and the cleanup of the tasks when
  \<open>run\<close> returns; \<open>run_result\<close> tells whether it cancels open work.
\<close>

section \<open>State\<close>

record cancellation =
  cn_step_id :: string
  cn_reason :: string
  cn_failed_dependencies :: "string list"

record runner_state =
  rs_runner_id :: string
  rs_window :: "nat option"
  rs_cooldown :: "rat option"
  rs_timeout :: rat
  rs_next_worker_at :: "instant option"
  rs_results :: outcomes
  rs_cancelled :: "(string \<times> cancellation) list"
  rs_outstanding :: "string set"
  rs_pending :: "(string \<times> step) list"
  rs_known :: "(string \<times> step) list"
  rs_submission :: "step option"
  rs_timer :: "instant option"
  rs_timed_out :: bool

text \<open>The arguments of the constructor and its checks, then the first lines of \<open>run\<close>.\<close>

definition check_runner :: "pyfloat \<Rightarrow> int option \<Rightarrow> pyfloat option \<Rightarrow> unit res" where
  "check_runner timeout_seconds max_outstanding cooldown =
     rbind (raise_if (case max_outstanding of Some n \<Rightarrow> n < 1 | None \<Rightarrow> False)
       (ValueError ''max_outstanding_workers must be positive when specified'')) (\<lambda>_.
     rbind (raise_if (case timeout_seconds of Fin t \<Rightarrow> t \<le> 0 | _ \<Rightarrow> True)
       (ValueError ''Runner timeout must be finite and positive'')) (\<lambda>_.
     rbind (raise_if (case cooldown of Some (Fin c) \<Rightarrow> c < 0 | Some _ \<Rightarrow> True | None \<Rightarrow> False)
       (ValueError ''Worker cooldown must be finite and nonnegative'')) (\<lambda>_.
     raise_if (cooldown \<noteq> None \<and> max_outstanding \<notin> {None, Some 1})
       (ValueError ''Worker cooldown requires a serial Runner''))))"

definition finite_value :: "pyfloat \<Rightarrow> rat" where
  "finite_value x = (case x of Fin r \<Rightarrow> r | _ \<Rightarrow> 0)"

definition new_runner :: "string \<Rightarrow> step list \<Rightarrow> pyfloat \<Rightarrow> int option \<Rightarrow> pyfloat option \<Rightarrow> runner_state res" where
  "new_runner runner_id steps timeout_seconds max_outstanding cooldown =
     rbind (check_runner timeout_seconds max_outstanding cooldown) (\<lambda>_.
       let pending = dict_of (map (\<lambda>s. (step_id s, s)) steps)
       in Inr \<lparr>rs_runner_id = runner_id, rs_window = (if cooldown \<noteq> None then Some 1 else map_option nat max_outstanding),
            rs_cooldown = map_option finite_value cooldown, rs_timeout = finite_value timeout_seconds,
            rs_next_worker_at = None, rs_results = [], rs_cancelled = [], rs_outstanding = {},
            rs_pending = pending, rs_known = pending, rs_submission = None, rs_timer = None,
            rs_timed_out = False\<rparr>)"

section \<open>Messages\<close>

datatype effect =
    Recorded string "(string \<times> pyval) list"
  | Published runner_message
  | Created "step list"
  | Acknowledged "runner_message list"
  | Submitted step
  | ReleasedAdmission
  | StartedTimer instant
  | StoppedTimer

record worker_completion =
  wc_step_id :: string
  wc_metrics :: pydict
  wc_generated_text :: string
  wc_request :: request_config

record codec =
  cd_completion :: "pydict \<Rightarrow> worker_completion res"
  cd_cancellation :: "pydict \<Rightarrow> cancellation res"

definition completed_result :: "runner_message \<Rightarrow> worker_completion \<Rightarrow> worker_result" where
  "completed_result m c = \<lparr>wr_step_id = wc_step_id c, wr_metrics = wc_metrics c,
     wr_generated_text = wc_generated_text c, wr_request = wc_request c, wr_completed_at = msg_created_at m\<rparr>"

text \<open>\<open>d.setdefault(k, v)\<close>.\<close>

definition set_default :: "'k \<Rightarrow> 'v \<Rightarrow> ('k \<times> 'v) list \<Rightarrow> ('k \<times> 'v) list" where
  "set_default k v d = (if map_of d k = None then dict_set k v d else d)"

definition on_completed :: "codec \<Rightarrow> runner_message \<Rightarrow> runner_state \<Rightarrow> (runner_state \<times> effect list) res" where
  "on_completed cd m s =
     rbind (cd_completion cd (msg_payload m)) (\<lambda>c.
       let i = wc_step_id c; r = completed_result m c; fresh = map_of (rs_results s) i = None in
       if map_of (rs_known s) i = None then Inl (ValueError ''Worker completion does not belong to task'')
       else Inr
         (s\<lparr>rs_next_worker_at := (case rs_cooldown s of
                Some seconds \<Rightarrow> if fresh then Some (msg_created_at m + timedelta seconds) else rs_next_worker_at s
              | None \<Rightarrow> rs_next_worker_at s),
            rs_results := set_default i r (rs_results s),
            rs_outstanding := rs_outstanding s - {i}\<rparr>,
          if fresh then [Recorded ''worker.completed'' (completion_fields r)] else []))"

definition cancelled_event :: "cancellation \<Rightarrow> effect" where
  "cancelled_event c = Recorded ''worker.cancelled''
     [(''worker'', PStr (cn_step_id c)), (''reason'', PStr (cn_reason c))]"

definition on_cancelled :: "codec \<Rightarrow> runner_message \<Rightarrow> runner_state \<Rightarrow> (runner_state \<times> effect list) res" where
  "on_cancelled cd m s =
     rbind (cd_cancellation cd (msg_payload m)) (\<lambda>c.
       let i = cn_step_id c in
       if map_of (rs_known s) i = None then Inl (ValueError ''Worker cancellation does not belong to Runner'')
       else Inr
         (s\<lparr>rs_cancelled := set_default i c (rs_cancelled s),
            rs_pending := AList.delete i (rs_pending s)\<rparr>,
          if map_of (rs_cancelled s) i = None then [cancelled_event c] else []))"

text \<open>Steps that the task logic adds while the Runner runs.\<close>

definition add_step :: "step \<Rightarrow> runner_state \<Rightarrow> runner_state res" where
  "add_step n s =
     (case map_of (rs_known s) (step_id n) of
        Some known \<Rightarrow>
          if known \<noteq> n then Inl (ValueError ''Dynamic Worker ID reused with different inputs'') else Inr s
      | None \<Rightarrow>
          if \<not> set (step_dependencies n) \<subseteq> fst ` set (rs_known s)
          then Inl (ValueError ''Dynamic Worker has unknown dependencies'')
          else Inr (s\<lparr>rs_known := dict_set (step_id n) n (rs_known s),
                      rs_pending := dict_set (step_id n) n (rs_pending s)\<rparr>))"

definition progress_message :: "codec \<Rightarrow> runner_message \<Rightarrow> runner_state \<Rightarrow> (runner_state \<times> effect list) res" where
  "progress_message cd m s =
     (if msg_topic m = ''worker.completed'' then on_completed cd m s
      else if msg_topic m = ''worker.cancelled'' then on_cancelled cd m s
      else Inr (s, []))"

definition on_message ::
    "codec \<Rightarrow> task_logic \<Rightarrow> (step list \<Rightarrow> unit res) \<Rightarrow> runner_state \<times> effect list \<Rightarrow> runner_message
      \<Rightarrow> (runner_state \<times> effect list) res" where
  "on_message cd lg create = (\<lambda>(s, es) m.
     rbind (progress_message cd m s) (\<lambda>(s1, es1).
     rbind (tl_on_message lg m (rs_results s1)) (\<lambda>steps.
     rbind (foldR (\<lambda>s n. add_step n s) s1 steps) (\<lambda>s2.
       if steps = [] then Inr (s2, es @ es1)
       else rbind (create steps) (\<lambda>_. Inr (s2, es @ es1 @ [Created steps]))))))"

section \<open>The pass over the pending steps\<close>

record pass =
  ps_state :: runner_state
  ps_effects :: "effect list"
  ps_next_due :: "instant option"

definition failed_dependencies :: "step \<Rightarrow> runner_state \<Rightarrow> string list" where
  "failed_dependencies n s =
     filter (\<lambda>p. map_of (rs_cancelled s) p \<noteq> None \<or>
                (case map_of (rs_results s) p of Some r \<Rightarrow> \<not> wr_succeeded r | None \<Rightarrow> False)) (step_dependencies n)"

text \<open>\<open>_cancel_step\<close> and the removal of the step.\<close>

definition cancellation_message :: "string \<Rightarrow> instant \<Rightarrow> cancellation \<Rightarrow> runner_message" where
  "cancellation_message runner_id now c =
     \<lparr>msg_runner_id = runner_id, msg_topic = ''worker.cancelled'',
      msg_payload = [(KStr ''step_id'', PStr (cn_step_id c)), (KStr ''reason'', PStr (cn_reason c)),
        (KStr ''failed_dependencies'', PList (map PStr (cn_failed_dependencies c)))],
      msg_id = uuid5 NAMESPACE_URL (''llmperf:'' @ runner_id @ '':'' @ cn_step_id c @ '':cancelled''),
      msg_source = Some (cn_step_id c), msg_destination = ''runner'', msg_created_at = now\<rparr>"

definition cancel_step ::
    "(runner_message \<Rightarrow> unit res) \<Rightarrow> instant \<Rightarrow> string \<Rightarrow> step \<Rightarrow> string list \<Rightarrow> pass \<Rightarrow> pass res" where
  "cancel_step send now i n failed p =
     (let c = \<lparr>cn_step_id = step_id n,
               cn_reason = (if failed \<noteq> [] then ''dependency_failed'' else ''readiness_blocked''),
               cn_failed_dependencies = failed\<rparr>;
          s = ps_state p; m = cancellation_message (rs_runner_id s) now c
      in rbind (send m) (\<lambda>_. Inr (p\<lparr>
           ps_state := s\<lparr>rs_cancelled := dict_set (step_id n) c (rs_cancelled s),
                         rs_pending := AList.delete i (rs_pending s)\<rparr>,
           ps_effects := ps_effects p @ [Published m, cancelled_event c]\<rparr>)))"

text \<open>\<open>remaining\<close>: the seconds of the monotonic clock until the deadline.\<close>

definition prepare_step :: "instant \<Rightarrow> rat \<Rightarrow> step \<Rightarrow> step" where
  "prepare_step now remaining n =
     (if rq_preparation (step_request n) = None then n
      else n\<lparr>step_request := (step_request n)\<lparr>rq_deadline_at := Some (now + timedelta (max 0 remaining))\<rparr>\<rparr>)"

definition submit_step :: "task_logic \<Rightarrow> instant \<Rightarrow> rat \<Rightarrow> string \<Rightarrow> step \<Rightarrow> pass \<Rightarrow> pass res" where
  "submit_step lg now remaining i n p =
     (let s = ps_state p in
      rbind (tl_request lg n (rs_results s)) (\<lambda>eligible_step.
        let prepared = prepare_step now remaining eligible_step
        in Inr (p\<lparr>ps_state := s\<lparr>rs_outstanding := insert i (rs_outstanding s), rs_submission := Some prepared,
                               rs_pending := AList.delete i (rs_pending s)\<rparr>,
                  ps_effects := ps_effects p @ [Submitted prepared]\<rparr>)))"

definition has_capacity :: "runner_state \<Rightarrow> bool" where
  "has_capacity s \<longleftrightarrow> (case rs_window s of None \<Rightarrow> True | Some w \<Rightarrow> card (rs_outstanding s) < w)"

definition sooner :: "instant \<Rightarrow> instant option \<Rightarrow> instant option" where
  "sooner due next_due = Some (case next_due of None \<Rightarrow> due | Some d \<Rightarrow> min d due)"

definition visit ::
    "task_logic \<Rightarrow> (runner_message \<Rightarrow> unit res) \<Rightarrow> instant \<Rightarrow> rat \<Rightarrow> string \<Rightarrow> step \<Rightarrow> pass \<Rightarrow> pass res" where
  "visit lg send now remaining i n p =
     (let s = ps_state p; failed = failed_dependencies n s in
      if failed \<noteq> [] then cancel_step send now i n failed p
      else if list_ex (\<lambda>d. map_of (rs_results s) d = None) (step_dependencies n) then Inr p
      else rbind (tl_eligibility lg n now (rs_results s)) (\<lambda>e.
        if blocked e then cancel_step send now i n [] p
        else if ready e
        then (if rs_submission s = None \<and> has_capacity s \<and> 0 < remaining
              then submit_step lg now remaining i n p else Inr p)
        else case el_due_at e of
               Some due \<Rightarrow> Inr (p\<lparr>ps_next_due := sooner due (ps_next_due p)\<rparr>)
             | None \<Rightarrow> Inr p))"

text \<open>With a cooldown the pass stops at the first step that has to wait.\<close>

fun pass_over ::
    "task_logic \<Rightarrow> (runner_message \<Rightarrow> unit res) \<Rightarrow> instant \<Rightarrow> rat \<Rightarrow> (string \<times> step) list \<Rightarrow> pass \<Rightarrow> pass res" where
  "pass_over lg send now remaining [] p = Inr p"
| "pass_over lg send now remaining ((i, n) # rest) p =
     (let s = ps_state p in
      if rs_cooldown s \<noteq> None \<and> (rs_outstanding s \<noteq> {} \<or> rs_submission s \<noteq> None) then Inr p
      else if rs_cooldown s \<noteq> None \<and> (case rs_next_worker_at s of Some t \<Rightarrow> now < t | None \<Rightarrow> False)
      then Inr (p\<lparr>ps_next_due := rs_next_worker_at s\<rparr>)
      else rbind (visit lg send now remaining i n p) (pass_over lg send now remaining rest))"

section \<open>One turn\<close>

datatype verdict = Finished | TimedOut | Waits

record turn_input =
  ti_messages :: "runner_message list option"
  ti_submission :: "unit res option"
  ti_timer :: "unit res option"
  ti_now :: instant
  ti_remaining :: rat

definition work_left :: "task_logic \<Rightarrow> runner_state \<Rightarrow> bool" where
  "work_left lg s \<longleftrightarrow> rs_pending s \<noteq> [] \<or> rs_outstanding s \<noteq> {} \<or> rs_submission s \<noteq> None \<or>
     \<not> tl_creation_closed lg (rs_results s)"

definition take_messages ::
    "codec \<Rightarrow> task_logic \<Rightarrow> (step list \<Rightarrow> unit res) \<Rightarrow> runner_message list option \<Rightarrow> runner_state
      \<Rightarrow> (runner_state \<times> effect list) res" where
  "take_messages cd lg create arrived s =
     (case arrived of
        None \<Rightarrow> Inr (s, [])
      | Some ms \<Rightarrow> rbind (foldR (on_message cd lg create) (s, []) ms) (\<lambda>(s', es). Inr (s', es @ [Acknowledged ms])))"

text \<open>\<open>task.result()\<close> of a task that is done raises what it raised.\<close>

definition take_tasks :: "turn_input \<Rightarrow> runner_state \<Rightarrow> runner_state res" where
  "take_tasks inp s =
     rbind (case (rs_submission s, ti_submission inp) of
              (Some _, Some out) \<Rightarrow> rbind out (\<lambda>_. Inr (s\<lparr>rs_submission := None\<rparr>)) | _ \<Rightarrow> Inr s) (\<lambda>s1.
     case (rs_timer s1, ti_timer inp) of
       (Some _, Some out) \<Rightarrow> rbind out (\<lambda>_. Inr (s1\<lparr>rs_timer := None\<rparr>)) | _ \<Rightarrow> Inr s1)"

definition set_timer :: "instant option \<Rightarrow> runner_state \<times> effect list \<Rightarrow> runner_state \<times> effect list" where
  "set_timer next_due = (\<lambda>(s, es).
     case next_due of
       None \<Rightarrow> if rs_timer s = None then (s, es) else (s\<lparr>rs_timer := None\<rparr>, es @ [StoppedTimer])
     | Some due \<Rightarrow>
         (case rs_timer s of
            None \<Rightarrow> (s\<lparr>rs_timer := Some due\<rparr>, es @ [StartedTimer due])
          | Some t \<Rightarrow> if due < t then (s\<lparr>rs_timer := Some due\<rparr>, es @ [StoppedTimer, StartedTimer due]) else (s, es)))"

definition conclude :: "task_logic \<Rightarrow> rat \<Rightarrow> runner_state \<times> effect list \<Rightarrow> (runner_state \<times> effect list \<times> verdict) res" where
  "conclude lg remaining = (\<lambda>(s, es).
     if \<not> work_left lg s then Inr (s, es, Finished)
     else if remaining \<le> 0
     then Inr (s\<lparr>rs_timed_out := True\<rparr>,
       es @ [Recorded ''runner.timed_out''
         [(''timeout_seconds'', PFloat (Fin (rs_timeout s))), (''pending'', PInt (int (length (rs_pending s)))),
          (''outstanding'', PInt (int (card (rs_outstanding s))))]], TimedOut)
     else if rs_pending s \<noteq> [] \<and> rs_outstanding s = {} \<and> rs_submission s = None \<and> rs_timer s = None
     then Inl (RuntimeError ''Task has unresolved dependencies without an event source'')
     else Inr (s, es, Waits))"

definition run_turn ::
    "codec \<Rightarrow> task_logic \<Rightarrow> (runner_message \<Rightarrow> unit res) \<Rightarrow> (step list \<Rightarrow> unit res) \<Rightarrow> turn_input \<Rightarrow> runner_state
      \<Rightarrow> (runner_state \<times> effect list \<times> verdict) res" where
  "run_turn cd lg send create inp s =
     (if \<not> work_left lg s then Inr (s, [], Finished)
      else
        rbind (take_messages cd lg create (ti_messages inp) s) (\<lambda>(s1, es1).
        rbind (take_tasks inp s1) (\<lambda>s2.
        rbind (pass_over lg send (ti_now inp) (ti_remaining inp) (rs_pending s2)
                 \<lparr>ps_state = s2, ps_effects = es1, ps_next_due = None\<rparr>) (\<lambda>p.
          let s3 = ps_state p;
              es3 = ps_effects p @ (if ps_next_due p \<noteq> None \<and> rs_outstanding s3 = {} \<and> rs_submission s3 = None
                                    then [ReleasedAdmission] else [])
          in conclude lg (ti_remaining inp) (set_timer (ps_next_due p) (s3, es3))))))"

text \<open>The requests are the responses of the results; a Runner that leaves open work is cancelled.\<close>

definition run_result :: "runner_state \<Rightarrow> response list \<times> bool" where
  "run_result s = (map (\<lambda>(_, r). (wr_metrics r, wr_generated_text r, wr_request r)) (rs_results s), rs_outstanding s \<noteq> {})"

end
