(* ===== verification/Runner_Invariant.thy ===== *)
theory Runner_Invariant
  imports Runner
begin

text \<open>
  Runs of a Runner as sequences of turns, and the invariant they keep: every step is in exactly one
  place (pending, outstanding, completed or cancelled), a step is submitted at most once, after its
  dependencies succeeded, and the outstanding steps fit the window.  The invariant rests on one
  property of the task logic, the locale \<open>task_contract\<close>.
\<close>

section \<open>Runs\<close>

text \<open>
  A turn finds completions of submitted steps and cancellations of cancelled ones only: completions
  exist for reserved Workers (\<open>reserve_worker\<close>), and only this Runner publishes its cancellations.
\<close>

definition arrivals_ok :: "codec \<Rightarrow> runner_state \<Rightarrow> runner_message list \<Rightarrow> bool" where
  "arrivals_ok cd s ms \<longleftrightarrow> (\<forall>m \<in> set ms.
     (msg_topic m = ''worker.completed'' \<longrightarrow> (\<forall>c. cd_completion cd (msg_payload m) = Inr c \<longrightarrow>
        wc_step_id c \<in> rs_outstanding s \<union> fst ` set (rs_results s))) \<and>
     (msg_topic m = ''worker.cancelled'' \<longrightarrow> (\<forall>c. cd_cancellation cd (msg_payload m) = Inr c \<longrightarrow>
        cn_step_id c \<in> fst ` set (rs_cancelled s))))"

definition input_ok :: "codec \<Rightarrow> runner_state \<Rightarrow> turn_input \<Rightarrow> bool" where
  "input_ok cd s inp \<longleftrightarrow> (\<forall>ms. ti_messages inp = Some ms \<longrightarrow> arrivals_ok cd s ms)"

inductive runner_trace ::
    "codec \<Rightarrow> task_logic \<Rightarrow> (runner_message \<Rightarrow> unit res) \<Rightarrow> (step list \<Rightarrow> unit res)
      \<Rightarrow> runner_state \<Rightarrow> effect list \<Rightarrow> runner_state \<Rightarrow> bool"
  for cd lg send create s0 where
  start: "runner_trace cd lg send create s0 [] s0"
| turn: "runner_trace cd lg send create s0 es s \<Longrightarrow> input_ok cd s inp \<Longrightarrow>
    run_turn cd lg send create inp s = Inr (s', es', v) \<Longrightarrow> runner_trace cd lg send create s0 (es @ es') s'"

definition submits :: "effect list \<Rightarrow> string list" where
  "submits es = concat (map (\<lambda>e. case e of Submitted n \<Rightarrow> [step_id n] | _ \<Rightarrow> []) es)"

lemma submits_simps [simp]:
  "submits [] = []" "submits (es @ fs) = submits es @ submits fs"
  "submits (Submitted n # es) = step_id n # submits es" "submits (Recorded a b # es) = submits es"
  "submits (Published m # es) = submits es" "submits (Created ns # es) = submits es"
  "submits (Acknowledged ms # es) = submits es" "submits (ReleasedAdmission # es) = submits es"
  "submits (StartedTimer t # es) = submits es" "submits (StoppedTimer # es) = submits es"
  by (simp_all add: submits_def)

section \<open>Where the steps are\<close>

definition pend :: "runner_state \<Rightarrow> string set" where "pend s = fst ` set (rs_pending s)"
definition done_ids :: "runner_state \<Rightarrow> string set" where "done_ids s = fst ` set (rs_results s)"
definition gone :: "runner_state \<Rightarrow> string set" where "gone s = fst ` set (rs_cancelled s)"
definition known_ids :: "runner_state \<Rightarrow> string set" where "known_ids s = fst ` set (rs_known s)"

lemmas place_defs = pend_def done_ids_def gone_def known_ids_def

definition places :: "runner_state \<Rightarrow> bool" where
  "places s \<longleftrightarrow> distinct (map fst (rs_pending s)) \<and> distinct (map fst (rs_known s)) \<and>
     (\<forall>x \<in> set (rs_known s). step_id (snd x) = fst x) \<and> set (rs_pending s) \<subseteq> set (rs_known s) \<and>
     pend s \<inter> (rs_outstanding s \<union> done_ids s \<union> gone s) = {} \<and> rs_outstanding s \<inter> done_ids s = {} \<and>
     gone s \<inter> (rs_outstanding s \<union> done_ids s) = {} \<and>
     known_ids s = pend s \<union> rs_outstanding s \<union> done_ids s \<union> gone s \<and> finite (rs_outstanding s)"

lemma keys_set_default: "fst ` set (set_default k v d) = insert k (fst ` set d)"
proof (cases "map_of d k")
  case None
  then show ?thesis using keys_dict_set [of k v d] by (simp add: set_default_def)
next
  case (Some w)
  then have "(k, w) \<in> set d" by (rule map_of_SomeD)
  then have "k \<in> fst ` set d" by force
  with Some show ?thesis by (auto simp: set_default_def)
qed

lemma map_of_set_default: "map_of d j = Some x \<Longrightarrow> map_of (set_default k v d) j = Some x"
  by (auto simp: set_default_def)

lemma keys_delete: "fst ` set (AList.delete k d) = fst ` set d - {k}"
  using arg_cong [OF AList.delete_keys [of k d], of set] by simp

lemma completed_places:
  assumes "on_completed cd m s = Inr (s', es)" "places s"
    and "\<And>c. cd_completion cd (msg_payload m) = Inr c \<Longrightarrow> wc_step_id c \<in> rs_outstanding s \<union> done_ids s"
  shows "places s'" "rs_outstanding s' \<union> done_ids s' = rs_outstanding s \<union> done_ids s" "gone s' = gone s"
    "submits es = []" "rs_pending s' = rs_pending s" "rs_known s' = rs_known s"
proof -
  obtain c where c: "cd_completion cd (msg_payload m) = Inr c" using assms(1) by (auto simp: on_completed_def)
  let ?i = "wc_step_id c"
  have i: "?i \<in> rs_outstanding s \<union> done_ids s" by (rule assms(3) [OF c])
  have s': "rs_outstanding s' = rs_outstanding s - {?i}" "rs_results s' = set_default ?i (completed_result m c) (rs_results s)"
      "rs_cancelled s' = rs_cancelled s" "rs_pending s' = rs_pending s" "rs_known s' = rs_known s" "submits es = []"
    using assms(1) c by (auto simp: on_completed_def Let_def split: if_splits)
  then have p: "pend s' = pend s" "gone s' = gone s" "known_ids s' = known_ids s" "done_ids s' = insert ?i (done_ids s)"
    by (simp_all only: place_defs keys_set_default)
  then show "rs_outstanding s' \<union> done_ids s' = rs_outstanding s \<union> done_ids s" "gone s' = gone s"
    "submits es = []" "rs_pending s' = rs_pending s" "rs_known s' = rs_known s" using i s' by auto
  from assms(2) i show "places s'"
    unfolding places_def p s'(1,4,5) by blast
qed

lemma cancelled_places:
  assumes "on_cancelled cd m s = Inr (s', es)" "places s"
    and "\<And>c. cd_cancellation cd (msg_payload m) = Inr c \<Longrightarrow> cn_step_id c \<in> gone s"
  shows "places s'" "rs_outstanding s' = rs_outstanding s" "rs_results s' = rs_results s" "rs_cancelled s' = rs_cancelled s"
    "submits es = []" "rs_pending s' = rs_pending s" "rs_known s' = rs_known s"
proof -
  obtain c where c: "cd_cancellation cd (msg_payload m) = Inr c" using assms(1) by (auto simp: on_cancelled_def)
  let ?i = "cn_step_id c"
  have i: "?i \<in> gone s" by (rule assms(3) [OF c])
  then have "?i \<notin> fst ` set (rs_pending s)" using assms(2) by (auto simp: places_def pend_def)
  then have "AList.delete ?i (rs_pending s) = rs_pending s" by (rule delete_id)
  moreover have "map_of (rs_cancelled s) ?i \<noteq> None" using i by (simp add: map_of_eq_None_iff gone_def)
  ultimately show s': "rs_outstanding s' = rs_outstanding s" "rs_results s' = rs_results s" "rs_cancelled s' = rs_cancelled s"
    "submits es = []" "rs_pending s' = rs_pending s" "rs_known s' = rs_known s"
    using assms(1) c by (auto simp: on_cancelled_def Let_def cancelled_event_def set_default_def split: if_splits)
  from assms(2) show "places s'" unfolding places_def place_defs s' .
qed

section \<open>The invariant of a run\<close>

definition succeeded_in :: "runner_state \<Rightarrow> string \<Rightarrow> bool" where
  "succeeded_in s i \<longleftrightarrow> (\<exists>r. map_of (rs_results s) i = Some r \<and> wr_succeeded r)"

text \<open>What was submitted had its dependencies.\<close>

definition deps_ok :: "runner_state \<Rightarrow> bool" where
  "deps_ok s \<longleftrightarrow> (\<forall>x \<in> set (rs_known s). fst x \<in> rs_outstanding s \<union> done_ids s \<longrightarrow>
     (\<forall>d \<in> set (step_dependencies (snd x)). succeeded_in s d))"

definition window_ok :: "runner_state \<Rightarrow> bool" where
  "window_ok s \<longleftrightarrow> (\<forall>w. rs_window s = Some w \<longrightarrow> card (rs_outstanding s) \<le> w \<and> 0 < w) \<and>
     (rs_cooldown s \<noteq> None \<longrightarrow> rs_window s = Some 1)"

definition runner_inv :: "string list \<Rightarrow> runner_state \<Rightarrow> bool" where
  "runner_inv ids s \<longleftrightarrow> places s \<and> deps_ok s \<and> window_ok s \<and> distinct ids \<and> set ids = rs_outstanding s \<union> done_ids s"

text \<open>What no stage takes back.\<close>

definition grows :: "runner_state \<Rightarrow> runner_state \<Rightarrow> bool" where
  "grows s s' \<longleftrightarrow> set (rs_known s) \<subseteq> set (rs_known s') \<and> rs_window s' = rs_window s \<and> rs_cooldown s' = rs_cooldown s \<and>
     (\<forall>i r. map_of (rs_results s) i = Some r \<longrightarrow> map_of (rs_results s') i = Some r)"

lemma grows_refl [simp]: "grows s s"
  by (simp add: grows_def)

lemma grows_trans: "grows a b \<Longrightarrow> grows b c \<Longrightarrow> grows a c"
  unfolding grows_def by (metis subset_trans)

lemma succeeded_grows: "grows s s' \<Longrightarrow> succeeded_in s i \<Longrightarrow> succeeded_in s' i"
  unfolding grows_def succeeded_in_def by blast

lemma deps_ok_same:
  assumes "deps_ok s" "grows s s'" "rs_known s' = rs_known s"
    and "rs_outstanding s' \<union> done_ids s' = rs_outstanding s \<union> done_ids s"
  shows "deps_ok s'"
  using assms(1) succeeded_grows [OF assms(2)] unfolding deps_ok_def assms(3,4) by blast

lemma window_ok_sub:
  assumes "window_ok s" "grows s s'" "rs_outstanding s' \<subseteq> rs_outstanding s" "finite (rs_outstanding s)"
  shows "window_ok s'"
proof -
  have e: "rs_window s' = rs_window s" "rs_cooldown s' = rs_cooldown s" using assms(2) by (simp_all add: grows_def)
  show ?thesis
    using assms(1) le_trans [OF card_mono [OF assms(4,3)]] unfolding window_ok_def e by blast
qed

text \<open>A stage that moves nothing but completions.\<close>

lemma runner_inv_same:
  assumes "runner_inv ids s" "places s'" "grows s s'" "rs_known s' = rs_known s"
    and "rs_outstanding s' \<union> done_ids s' = rs_outstanding s \<union> done_ids s" "rs_outstanding s' \<subseteq> rs_outstanding s"
  shows "runner_inv ids s'"
proof -
  have fin: "finite (rs_outstanding s)" using assms(1) by (simp add: runner_inv_def places_def)
  show ?thesis
    using assms(1,2) deps_ok_same [OF _ assms(3,4,5)] window_ok_sub [OF _ assms(3,6) fin] assms(5)
    unfolding runner_inv_def by metis
qed

lemma completed_grows:
  assumes "on_completed cd m s = Inr (s', es)"
  shows "grows s s'" "rs_outstanding s' \<subseteq> rs_outstanding s" "rs_submission s' = rs_submission s"
    "rs_timer s' = rs_timer s" "rs_cancelled s' = rs_cancelled s"
  using assms by (auto simp: on_completed_def Let_def grows_def map_of_set_default split: if_splits)

lemma cancelled_grows:
  assumes "on_cancelled cd m s = Inr (s', es)"
  shows "grows s s'" "rs_submission s' = rs_submission s" "rs_timer s' = rs_timer s"
  using assms by (auto simp: on_cancelled_def Let_def grows_def split: if_splits)

lemma add_step_inv:
  assumes "add_step n s = Inr s'" "runner_inv ids s"
  shows "runner_inv ids s'" "grows s s'" "rs_outstanding s' = rs_outstanding s" "rs_results s' = rs_results s"
    "rs_cancelled s' = rs_cancelled s" "rs_submission s' = rs_submission s" "rs_timer s' = rs_timer s"
proof -
  consider "s' = s" | "map_of (rs_known s) (step_id n) = None"
      "s' = s\<lparr>rs_known := dict_set (step_id n) n (rs_known s), rs_pending := dict_set (step_id n) n (rs_pending s)\<rparr>"
    using assms(1) by (auto simp: add_step_def split: option.splits if_splits)
  note two = this
  have pl: "places s" using assms(2) by (simp add: runner_inv_def)
  have new: "set (dict_set (step_id n) n xs) = insert (step_id n, n) (set xs)" if "step_id n \<notin> fst ` set xs" for xs
    using that by (induction "step_id n" n xs rule: dict_set.induct) auto
  from two show "rs_outstanding s' = rs_outstanding s" "rs_results s' = rs_results s" "rs_cancelled s' = rs_cancelled s"
    "rs_submission s' = rs_submission s" "rs_timer s' = rs_timer s" by (cases; simp)+
  show "grows s s'" using two
  proof cases
    case 2
    then have "step_id n \<notin> fst ` set (rs_known s)" by (simp add: map_of_eq_None_iff)
    from new [OF this] show ?thesis unfolding 2(2) by (auto simp: grows_def)
  qed simp
  show "runner_inv ids s'" using two
  proof cases
    case 2
    have k: "step_id n \<notin> known_ids s" using 2(1) by (simp add: map_of_eq_None_iff known_ids_def)
    then have p: "step_id n \<notin> pend s" using pl by (auto simp: places_def)
    have s': "set (rs_known s') = insert (step_id n, n) (set (rs_known s))"
      "set (rs_pending s') = insert (step_id n, n) (set (rs_pending s))"
      using new [of "rs_known s"] new [of "rs_pending s"] k p unfolding 2(2) by (simp_all add: pend_def known_ids_def)
    have o: "rs_outstanding s' = rs_outstanding s" "done_ids s' = done_ids s" "gone s' = gone s"
      "pend s' = insert (step_id n) (pend s)" "known_ids s' = insert (step_id n) (known_ids s)"
      "rs_results s' = rs_results s" "rs_window s' = rs_window s" "rs_cooldown s' = rs_cooldown s"
      using s' by (simp_all add: 2(2) place_defs)
    have "distinct (map fst (rs_known s'))" "distinct (map fst (rs_pending s'))"
      using pl unfolding 2(2) by (simp_all add: places_def distinct_dict_set)
    then have "places s'" using pl k unfolding places_def o s' by auto
    moreover have "deps_ok s'"
      using assms(2) k unfolding runner_inv_def deps_ok_def o s' succeeded_in_def places_def by auto
    ultimately show ?thesis using assms(2) unfolding runner_inv_def window_ok_def o by simp
  qed (use assms(2) in simp)
qed

lemma add_steps_inv:
  assumes "foldR (\<lambda>s n. add_step n s) s ns = Inr s'" "runner_inv ids s"
  shows "runner_inv ids s' \<and> grows s s' \<and> rs_outstanding s' = rs_outstanding s \<and> rs_results s' = rs_results s \<and>
    rs_cancelled s' = rs_cancelled s"
  using assms
proof (induction ns arbitrary: s)
  case (Cons n ns)
  then obtain s1 where s1: "add_step n s = Inr s1" "foldR (\<lambda>s n. add_step n s) s1 ns = Inr s'" by auto
  note one = add_step_inv [OF s1(1) Cons.prems(2)]
  from Cons.IH [OF s1(2) one(1)] one grows_trans show ?case by metis
qed simp

text \<open>One message.\<close>

lemma on_message_split:
  assumes "on_message cd lg create (s, es) m = Inr (s', es')"
  obtains s1 es1 ns where "progress_message cd m s = Inr (s1, es1)"
    "tl_on_message lg m (rs_results s1) = Inr ns" "foldR (\<lambda>s n. add_step n s) s1 ns = Inr s'"
    "es' = es @ es1 \<or> es' = es @ es1 @ [Created ns]"
proof -
  obtain x where p: "progress_message cd m s = Inr x"
    using assms unfolding on_message_def prod.case rbind_eq_Inr by blast
  obtain s1 es1 where x: "x = (s1, es1)" by (cases x)
  obtain ns where ns: "tl_on_message lg m (rs_results s1) = Inr ns"
    using assms unfolding on_message_def prod.case p x rbind_Inr rbind_eq_Inr by blast
  obtain s2 where s2: "foldR (\<lambda>s n. add_step n s) s1 ns = Inr s2"
    using assms unfolding on_message_def prod.case p x ns rbind_Inr rbind_eq_Inr by blast
  have "s' = s2" "es' = es @ es1 \<or> es' = es @ es1 @ [Created ns]"
    using assms unfolding on_message_def prod.case p x ns s2 rbind_Inr by (auto split: if_splits)
  with p x ns s2 that show ?thesis by blast
qed

lemma on_message_inv:
  assumes "on_message cd lg create (s, es) m = Inr (s', es')" "runner_inv ids s" "arrivals_ok cd s [m]"
  shows "runner_inv ids s' \<and> grows s s' \<and> submits es' = submits es \<and> rs_cancelled s' = rs_cancelled s \<and>
    rs_outstanding s' \<union> done_ids s' = rs_outstanding s \<union> done_ids s"
proof -
  obtain s1 es1 ns where p: "progress_message cd m s = Inr (s1, es1)"
    and 2: "foldR (\<lambda>s n. add_step n s) s1 ns = Inr s'" and 3: "es' = es @ es1 \<or> es' = es @ es1 @ [Created ns]"
    by (rule on_message_split [OF assms(1)])
  note 1 = p [unfolded progress_message_def]
  have pl: "places s" using assms(2) by (simp add: runner_inv_def)
  have stage: "runner_inv ids s1 \<and> grows s s1 \<and> submits es1 = [] \<and> rs_cancelled s1 = rs_cancelled s \<and>
    rs_outstanding s1 \<union> done_ids s1 = rs_outstanding s \<union> done_ids s"
  proof (cases "msg_topic m = ''worker.completed''")
    case True
    then have c: "on_completed cd m s = Inr (s1, es1)" using 1 by simp
    note p = completed_places [OF c pl] note g = completed_grows [OF c]
    have a: "wc_step_id x \<in> rs_outstanding s \<union> done_ids s" if "cd_completion cd (msg_payload m) = Inr x" for x
      using assms(3) True that by (simp add: arrivals_ok_def done_ids_def)
    from runner_inv_same [OF assms(2) p(1) g(1) p(6) p(2) g(2)] a p(2,4) g show ?thesis by blast
  next
    case False
    show ?thesis
    proof (cases "msg_topic m = ''worker.cancelled''")
      case True
      then have c: "on_cancelled cd m s = Inr (s1, es1)" using 1 by simp
      have a: "cn_step_id x \<in> gone s" if "cd_cancellation cd (msg_payload m) = Inr x" for x
        using assms(3) True that by (simp add: arrivals_ok_def gone_def)
      note p = cancelled_places [OF c pl a] note g = cancelled_grows [OF c]
      have d: "done_ids s1 = done_ids s" using p(3) by (simp add: done_ids_def)
      show ?thesis
        using runner_inv_same [OF assms(2) p(1) g(1) p(7)] p(2,4,5) g(1) d by auto
    qed (use 1 False assms(2) in auto)
  qed
  from add_steps_inv [OF 2, of ids] stage have "runner_inv ids s'" "grows s1 s'" "rs_outstanding s' = rs_outstanding s1"
    "rs_results s' = rs_results s1" "rs_cancelled s' = rs_cancelled s1" by blast+
  with stage 3 show ?thesis by (auto intro: grows_trans simp: done_ids_def)
qed

lemma arrivals_later:
  assumes "arrivals_ok cd s ms" "rs_cancelled s' = rs_cancelled s"
    and "rs_outstanding s' \<union> done_ids s' = rs_outstanding s \<union> done_ids s"
  shows "arrivals_ok cd s' ms"
  using assms(1) unfolding arrivals_ok_def assms(2) using assms(3) unfolding done_ids_def by simp

lemma on_messages_inv:
  assumes "foldR (on_message cd lg create) (s, es) ms = Inr (s', es')" "runner_inv ids s" "arrivals_ok cd s ms"
  shows "runner_inv ids s' \<and> grows s s' \<and> submits es' = submits es \<and> rs_cancelled s' = rs_cancelled s"
  using assms
proof (induction ms arbitrary: s es)
  case (Cons m ms)
  then obtain s1 es1 where 1: "on_message cd lg create (s, es) m = Inr (s1, es1)"
      "foldR (on_message cd lg create) (s1, es1) ms = Inr (s', es')" by auto
  have "arrivals_ok cd s [m]" "arrivals_ok cd s ms" using Cons.prems(3) by (simp_all add: arrivals_ok_def)
  with on_message_inv [OF 1(1) Cons.prems(2)] have s1: "runner_inv ids s1" "grows s s1" "submits es1 = submits es"
    "rs_cancelled s1 = rs_cancelled s" "arrivals_ok cd s1 ms" using arrivals_later by blast+
  from Cons.IH [OF 1(2) s1(1,5)] s1 grows_trans show ?case by metis
qed simp

lemma take_messages_inv:
  assumes "take_messages cd lg create arrived s = Inr (s', es)" "runner_inv ids s"
    and "\<And>ms. arrived = Some ms \<Longrightarrow> arrivals_ok cd s ms"
  shows "runner_inv ids s' \<and> grows s s' \<and> submits es = [] \<and> rs_cancelled s' = rs_cancelled s"
proof (cases arrived)
  case (Some ms)
  with assms(1) obtain fs where "foldR (on_message cd lg create) (s, []) ms = Inr (s', fs)" "es = fs @ [Acknowledged ms]"
    by (auto simp: take_messages_def)
  with on_messages_inv [OF this(1) assms(2) assms(3) [OF Some]] show ?thesis by simp
qed (use assms in \<open>simp add: take_messages_def\<close>)

text \<open>Changes of the tasks alone.\<close>

lemma runner_inv_tasks [simp]:
  "runner_inv ids (s\<lparr>rs_submission := x\<rparr>) = runner_inv ids s" "runner_inv ids (s\<lparr>rs_timer := t\<rparr>) = runner_inv ids s"
  "runner_inv ids (s\<lparr>rs_timed_out := b\<rparr>) = runner_inv ids s"
  by (simp_all add: runner_inv_def places_def deps_ok_def window_ok_def succeeded_in_def place_defs)

lemma grows_tasks [simp]:
  "grows a (s\<lparr>rs_submission := x\<rparr>) = grows a s" "grows a (s\<lparr>rs_timer := t\<rparr>) = grows a s"
  "grows a (s\<lparr>rs_timed_out := b\<rparr>) = grows a s"
  by (simp_all add: grows_def)

lemma take_tasks_cases:
  assumes "take_tasks inp s = Inr s'"
  shows "s' = s \<or> s' = s\<lparr>rs_submission := None\<rparr> \<or> s' = s\<lparr>rs_timer := None\<rparr> \<or>
    s' = s\<lparr>rs_submission := None, rs_timer := None\<rparr>"
proof -
  obtain s1 where 1: "(case (rs_submission s, ti_submission inp) of
       (Some _, Some out) \<Rightarrow> rbind out (\<lambda>_. Inr (s\<lparr>rs_submission := None\<rparr>)) | _ \<Rightarrow> Inr s) = Inr s1"
    and 2: "(case (rs_timer s1, ti_timer inp) of
       (Some _, Some out) \<Rightarrow> rbind out (\<lambda>_. Inr (s1\<lparr>rs_timer := None\<rparr>)) | _ \<Rightarrow> Inr s1) = Inr s'"
    using assms unfolding take_tasks_def rbind_eq_Inr by blast
  from 1 have "s1 = s \<or> s1 = s\<lparr>rs_submission := None\<rparr>" by (auto split: option.splits)
  moreover from 2 have "s' = s1 \<or> s' = s1\<lparr>rs_timer := None\<rparr>" by (auto split: option.splits)
  ultimately show ?thesis by auto
qed

lemma take_tasks_inv:
  assumes "take_tasks inp s = Inr s'"
  shows "runner_inv ids s' = runner_inv ids s" "grows a s' = grows a s" "rs_pending s' = rs_pending s"
    "rs_known s' = rs_known s" "rs_outstanding s' = rs_outstanding s" "rs_results s' = rs_results s"
    "rs_cancelled s' = rs_cancelled s"
  using take_tasks_cases [OF assms] by (elim disjE; simp)+

section \<open>The pass keeps the invariant\<close>

lemma cancel_step_result:
  assumes "cancel_step send now i n failed p = Inr p'"
  shows "rs_pending (ps_state p') = AList.delete i (rs_pending (ps_state p))"
    "\<exists>c. rs_cancelled (ps_state p') = dict_set (step_id n) c (rs_cancelled (ps_state p)) \<and> cn_failed_dependencies c = failed"
    "rs_outstanding (ps_state p') = rs_outstanding (ps_state p)" "rs_results (ps_state p') = rs_results (ps_state p)"
    "rs_known (ps_state p') = rs_known (ps_state p)" "rs_submission (ps_state p') = rs_submission (ps_state p)"
    "rs_timer (ps_state p') = rs_timer (ps_state p)" "rs_window (ps_state p') = rs_window (ps_state p)"
    "rs_cooldown (ps_state p') = rs_cooldown (ps_state p)" "submits (ps_effects p') = submits (ps_effects p)"
    "ps_next_due p' = ps_next_due p" "rs_next_worker_at (ps_state p') = rs_next_worker_at (ps_state p)"
  using assms by (auto simp: cancel_step_def Let_def cancelled_event_def)

lemma removed_pending:
  assumes "places s" "(i, n) \<in> set (rs_pending s)" "rs_pending s' = AList.delete i (rs_pending s)"
  shows "pend s' = pend s - {i}" "i \<in> pend s" "step_id n = i" "set (rs_pending s') \<subseteq> set (rs_pending s)"
    "distinct (map fst (rs_pending s'))" "(i, n) \<in> set (rs_known s)"
proof -
  have d: "distinct (map fst (rs_pending s))" and k: "set (rs_pending s) \<subseteq> set (rs_known s)"
    and ids: "\<forall>x \<in> set (rs_known s). step_id (snd x) = fst x" using assms(1) by (simp_all add: places_def)
  show known: "(i, n) \<in> set (rs_known s)" using k assms(2) by blast
  show "step_id n = i" using bspec [OF ids known] by simp
  show "i \<in> pend s" using imageI [OF assms(2), of fst] by (simp add: pend_def)
  show "pend s' = pend s - {i}" by (simp only: pend_def assms(3) keys_delete)
  show "set (rs_pending s') \<subseteq> set (rs_pending s)" unfolding assms(3) by (rule set_AList_delete)
  show "distinct (map fst (rs_pending s'))" unfolding assms(3) by (rule distinct_delete [OF d])
qed

lemma cancel_step_inv:
  assumes c: "cancel_step send now i n failed p = Inr p'" and inv: "runner_inv ids (ps_state p)"
    and mem: "(i, n) \<in> set (rs_pending (ps_state p))"
  shows "runner_inv ids (ps_state p')" "grows (ps_state p) (ps_state p')"
    "gone (ps_state p') = insert i (gone (ps_state p))"
proof -
  let ?s = "ps_state p" and ?t = "ps_state p'"
  note r = cancel_step_result [OF c]
  have pl: "places ?s" using inv by (simp add: runner_inv_def)
  note q = removed_pending [OF pl mem r(1)]
  show g: "gone ?t = insert i (gone ?s)" using r(2) q(3) by (metis gone_def keys_dict_set)
  have o: "rs_outstanding ?t = rs_outstanding ?s" "done_ids ?t = done_ids ?s" "rs_known ?t = rs_known ?s"
    "known_ids ?t = known_ids ?s" "rs_results ?t = rs_results ?s"
    by (simp_all add: r done_ids_def known_ids_def)
  have "i \<notin> rs_outstanding ?s \<union> done_ids ?s" "i \<in> known_ids ?s" using pl q(2) unfolding places_def by blast+
  moreover have "set (rs_pending ?t) \<subseteq> set (rs_known ?s)" using pl q(4) unfolding places_def by blast
  ultimately have "places ?t"
    using pl q(2,5) unfolding places_def o g q(1) by blast
  then show "runner_inv ids ?t"
    using inv unfolding runner_inv_def deps_ok_def window_ok_def succeeded_in_def o r(8,9) by blast
  show "grows ?s ?t" by (simp add: grows_def r)
qed

definition ready_deps :: "step \<Rightarrow> runner_state \<Rightarrow> bool" where
  "ready_deps n s \<longleftrightarrow> failed_dependencies n s = [] \<and> (\<forall>d \<in> set (step_dependencies n). map_of (rs_results s) d \<noteq> None)"

lemma ready_deps_succeeded:
  assumes "ready_deps n s" "d \<in> set (step_dependencies n)"
  shows "succeeded_in s d"
proof -
  obtain r where r: "map_of (rs_results s) d = Some r" using assms by (auto simp: ready_deps_def)
  have "\<not> (map_of (rs_cancelled s) d \<noteq> None \<or>
      (case map_of (rs_results s) d of Some r \<Rightarrow> \<not> wr_succeeded r | None \<Rightarrow> False))"
    using assms unfolding ready_deps_def failed_dependencies_def filter_empty_conv by blast
  with r show ?thesis by (simp add: succeeded_in_def)
qed

lemma visit_cases:
  assumes "visit lg send now remaining i n p = Inr p'"
  obtains (cancelled) "cancel_step send now i n (failed_dependencies n (ps_state p)) p = Inr p'"
      "failed_dependencies n (ps_state p) \<noteq> []"
  | (unready) "p' = p" "failed_dependencies n (ps_state p) = []"
      "\<exists>d \<in> set (step_dependencies n). map_of (rs_results (ps_state p)) d = None"
  | (stopped) e where "ready_deps n (ps_state p)" "tl_eligibility lg n now (rs_results (ps_state p)) = Inr e"
      "blocked e" "cancel_step send now i n [] p = Inr p'"
  | (submit) e where "ready_deps n (ps_state p)" "tl_eligibility lg n now (rs_results (ps_state p)) = Inr e"
      "\<not> blocked e" "ready e" "rs_submission (ps_state p) = None" "has_capacity (ps_state p)" "0 < remaining"
      "submit_step lg now remaining i n p = Inr p'"
  | (full) e where "ready_deps n (ps_state p)" "tl_eligibility lg n now (rs_results (ps_state p)) = Inr e"
      "\<not> blocked e" "ready e" "\<not> (rs_submission (ps_state p) = None \<and> has_capacity (ps_state p) \<and> 0 < remaining)" "p' = p"
  | (later) e where "ready_deps n (ps_state p)" "tl_eligibility lg n now (rs_results (ps_state p)) = Inr e"
      "\<not> blocked e" "\<not> ready e"
      "p' = (case el_due_at e of Some due \<Rightarrow> p\<lparr>ps_next_due := sooner due (ps_next_due p)\<rparr> | None \<Rightarrow> p)"
proof (cases "failed_dependencies n (ps_state p) = []")
  case False
  then have "cancel_step send now i n (failed_dependencies n (ps_state p)) p = Inr p'"
    using assms by (simp add: visit_def Let_def)
  with False cancelled show ?thesis by blast
next
  case True
  show ?thesis
  proof (cases "\<exists>d \<in> set (step_dependencies n). map_of (rs_results (ps_state p)) d = None")
    case missing: True
    then have "p' = p" using assms True by (simp add: visit_def list_ex_iff)
    with True missing unready show ?thesis by blast
  next
    case False
    then have r: "ready_deps n (ps_state p)" using True by (auto simp: ready_deps_def)
    have v: "visit lg send now remaining i n p = rbind (tl_eligibility lg n now (rs_results (ps_state p))) (\<lambda>e.
        if blocked e then cancel_step send now i n [] p
        else if ready e
        then (if rs_submission (ps_state p) = None \<and> has_capacity (ps_state p) \<and> 0 < remaining
              then submit_step lg now remaining i n p else Inr p)
        else case el_due_at e of
               Some due \<Rightarrow> Inr (p\<lparr>ps_next_due := sooner due (ps_next_due p)\<rparr>)
             | None \<Rightarrow> Inr p)"
    proof -
      have "list_ex (\<lambda>d. map_of (rs_results (ps_state p)) d = None) (step_dependencies n) = False"
        using False by (simp add: list_ex_iff)
      with True show ?thesis unfolding visit_def Let_def by (simp only: simp_thms if_True if_False not_True_eq_False)
    qed
    obtain e where e: "tl_eligibility lg n now (rs_results (ps_state p)) = Inr e"
      using assms unfolding v rbind_eq_Inr by blast
    note q = assms [unfolded v e rbind_Inr]
    consider "blocked e" | "\<not> blocked e" "ready e" "rs_submission (ps_state p) = None \<and> has_capacity (ps_state p) \<and> 0 < remaining"
      | "\<not> blocked e" "ready e" "\<not> (rs_submission (ps_state p) = None \<and> has_capacity (ps_state p) \<and> 0 < remaining)"
      | "\<not> blocked e" "\<not> ready e" by blast
    then show ?thesis
    proof cases
      case 1
      with q show ?thesis by (intro stopped [OF r e]) simp_all
    next
      case 2
      with q show ?thesis by (intro submit [OF r e]) simp_all
    next
      case 3
      with q show ?thesis by (intro full [OF r e]) simp_all
    next
      case 4
      with q show ?thesis by (intro later [OF r e]) (simp_all split: option.splits)
    qed
  qed
qed

lemma pass_over_cases:
  assumes "pass_over lg send now remaining ((i, n) # rest) p = Inr p'"
  shows "rs_cooldown (ps_state p) \<noteq> None \<and> (rs_outstanding (ps_state p) \<noteq> {} \<or> rs_submission (ps_state p) \<noteq> None) \<and> p' = p \<or>
    rs_cooldown (ps_state p) \<noteq> None \<and> rs_next_worker_at (ps_state p) \<noteq> None \<and>
      p' = p\<lparr>ps_next_due := rs_next_worker_at (ps_state p)\<rparr> \<or>
    (rs_cooldown (ps_state p) \<noteq> None \<longrightarrow> rs_outstanding (ps_state p) = {} \<and> rs_submission (ps_state p) = None \<and>
       (\<forall>t. rs_next_worker_at (ps_state p) = Some t \<longrightarrow> t \<le> now)) \<and>
    (\<exists>p1. visit lg send now remaining i n p = Inr p1 \<and> pass_over lg send now remaining rest p1 = Inr p')"
proof (cases "rs_cooldown (ps_state p) \<noteq> None \<and> (rs_outstanding (ps_state p) \<noteq> {} \<or> rs_submission (ps_state p) \<noteq> None)")
  case True
  with assms show ?thesis by (simp add: Let_def)
next
  case a: False
  show ?thesis
  proof (cases "rs_cooldown (ps_state p) \<noteq> None \<and> (case rs_next_worker_at (ps_state p) of Some t \<Rightarrow> now < t | None \<Rightarrow> False)")
    case True
    have "p' = p\<lparr>ps_next_due := rs_next_worker_at (ps_state p)\<rparr>"
      using assms a True unfolding pass_over.simps Let_def by (simp only: if_True if_False simp_thms sum.inject)
    with True show ?thesis by (auto split: option.splits)
  next
    case False
    have "rbind (visit lg send now remaining i n p) (pass_over lg send now remaining rest) = Inr p'"
      using assms a False unfolding pass_over.simps Let_def by (simp only: if_True if_False simp_thms)
    with a False show ?thesis by (auto split: option.splits)
  qed
qed

lemma set_timer_eq:
  "set_timer None (s, es) = (if rs_timer s = None then (s, es) else (s\<lparr>rs_timer := None\<rparr>, es @ [StoppedTimer]))"
  "rs_timer s = None \<Longrightarrow> set_timer (Some due) (s, es) = (s\<lparr>rs_timer := Some due\<rparr>, es @ [StartedTimer due])"
  "rs_timer s = Some t \<Longrightarrow> set_timer (Some due) (s, es) =
     (if due < t then (s\<lparr>rs_timer := Some due\<rparr>, es @ [StoppedTimer, StartedTimer due]) else (s, es))"
  by (simp_all only: set_timer_def prod.case option.case)

lemma set_timer_result: "\<exists>t. fst (set_timer nd (s, es)) = s\<lparr>rs_timer := t\<rparr> \<and> submits (snd (set_timer nd (s, es))) = submits es"
proof -
  have keep: "\<exists>t. s = s\<lparr>rs_timer := t\<rparr>" by (rule exI [of _ "rs_timer s"]) simp
  consider "nd = None" "rs_timer s = None" | "nd = None" "rs_timer s \<noteq> None"
    | due where "nd = Some due" "rs_timer s = None" | due t where "nd = Some due" "rs_timer s = Some t"
    by (metis option.exhaust)
  then show ?thesis
  proof cases
    case 1
    then show ?thesis using keep unfolding 1(1) set_timer_eq(1) by simp
  next
    case 2
    then show ?thesis unfolding 2(1) set_timer_eq(1) by (simp add: exI [of _ None])
  next
    case (3 due)
    show ?thesis unfolding 3(1) set_timer_eq(2) [OF 3(2)] by (simp add: exI [of _ "Some due"])
  next
    case (4 due t)
    show ?thesis unfolding 4(1) set_timer_eq(3) [OF 4(2)] using keep
      by (cases "due < t") (simp_all add: exI [of _ "Some due"])
  qed
qed

lemma conclude_result:
  assumes "conclude lg remaining (s, es) = Inr (s', es', v)"
  shows "(s' = s \<or> s' = s\<lparr>rs_timed_out := True\<rparr>) \<and> submits es' = submits es"
proof -
  consider "\<not> work_left lg s" | "work_left lg s" "remaining \<le> 0" | "work_left lg s" "0 < remaining" by linarith
  then show ?thesis
  proof cases
    case 2
    with assms show ?thesis by (auto simp: conclude_def)
  qed (use assms in \<open>auto simp: conclude_def split: if_splits\<close>)
qed

lemma conclude_finished:
  assumes "conclude lg remaining x = Inr (s', es', Finished)"
  shows "\<not> work_left lg s'"
proof -
  obtain s es where x: "x = (s, es)" by (cases x)
  show ?thesis
  proof (rule ccontr)
    assume "\<not> ?thesis"
    with assms show False
      unfolding conclude_def x prod.case by (cases "work_left lg s") (auto split: if_splits)
  qed
qed

lemma rbind_InrE: "rbind m f = Inr y \<Longrightarrow> (\<And>x. m = Inr x \<Longrightarrow> f x = Inr y \<Longrightarrow> P) \<Longrightarrow> P"
  by auto

text \<open>The stages of a turn that has work left.\<close>

lemma run_turn_stages:
  assumes "run_turn cd lg send create inp s = out" "work_left lg s"
  shows "out = rbind (take_messages cd lg create (ti_messages inp) s) (\<lambda>(s1, es1).
        rbind (take_tasks inp s1) (\<lambda>s2.
        rbind (pass_over lg send (ti_now inp) (ti_remaining inp) (rs_pending s2)
                 \<lparr>ps_state = s2, ps_effects = es1, ps_next_due = None\<rparr>) (\<lambda>p.
          conclude lg (ti_remaining inp) (set_timer (ps_next_due p) (ps_state p,
            ps_effects p @ (if ps_next_due p \<noteq> None \<and> rs_outstanding (ps_state p) = {} \<and> rs_submission (ps_state p) = None
                            then [ReleasedAdmission] else []))))))"
  unfolding assms(1) [symmetric] run_turn_def Let_def using assms(2) by (simp only: simp_thms not_True_eq_False if_False)

lemma run_turn_cases:
  assumes "run_turn cd lg send create inp s = Inr (s', es, v)"
  obtains "\<not> work_left lg s" "s' = s" "es = []" "v = Finished"
  | s1 es1 s2 p t where "take_messages cd lg create (ti_messages inp) s = Inr (s1, es1)" "take_tasks inp s1 = Inr s2"
      "pass_over lg send (ti_now inp) (ti_remaining inp) (rs_pending s2)
         \<lparr>ps_state = s2, ps_effects = es1, ps_next_due = None\<rparr> = Inr p"
      "s' = (ps_state p)\<lparr>rs_timer := t\<rparr> \<or> s' = (ps_state p)\<lparr>rs_timer := t, rs_timed_out := True\<rparr>"
      "submits es = submits (ps_effects p)"
proof (cases "work_left lg s")
  case False
  then have "(s', es, v) = (s, [], Finished)" using assms by (simp add: run_turn_def)
  with False show ?thesis by (intro that(1)) simp_all
next
  case True
  note st = run_turn_stages [OF refl True, of cd send create inp, unfolded assms]
  from st [symmetric] obtain x where x: "take_messages cd lg create (ti_messages inp) s = Inr x"
    and r1: "(case x of (s1, es1) \<Rightarrow> rbind (take_tasks inp s1) (\<lambda>s2.
        rbind (pass_over lg send (ti_now inp) (ti_remaining inp) (rs_pending s2)
                 \<lparr>ps_state = s2, ps_effects = es1, ps_next_due = None\<rparr>) (\<lambda>p.
          conclude lg (ti_remaining inp) (set_timer (ps_next_due p) (ps_state p,
            ps_effects p @ (if ps_next_due p \<noteq> None \<and> rs_outstanding (ps_state p) = {} \<and> rs_submission (ps_state p) = None
                            then [ReleasedAdmission] else [])))))) = Inr (s', es, v)"
    by (rule rbind_InrE)
  obtain s1 es1 where 1: "x = (s1, es1)" by (cases x)
  from r1 [unfolded 1 prod.case] obtain s2 where 2: "take_tasks inp s1 = Inr s2"
    and r2: "rbind (pass_over lg send (ti_now inp) (ti_remaining inp) (rs_pending s2)
                 \<lparr>ps_state = s2, ps_effects = es1, ps_next_due = None\<rparr>) (\<lambda>p.
          conclude lg (ti_remaining inp) (set_timer (ps_next_due p) (ps_state p,
            ps_effects p @ (if ps_next_due p \<noteq> None \<and> rs_outstanding (ps_state p) = {} \<and> rs_submission (ps_state p) = None
                            then [ReleasedAdmission] else [])))) = Inr (s', es, v)"
    by (rule rbind_InrE)
  from r2 obtain p where p: "pass_over lg send (ti_now inp) (ti_remaining inp) (rs_pending s2)
         \<lparr>ps_state = s2, ps_effects = es1, ps_next_due = None\<rparr> = Inr p"
    and r3: "conclude lg (ti_remaining inp) (set_timer (ps_next_due p) (ps_state p,
            ps_effects p @ (if ps_next_due p \<noteq> None \<and> rs_outstanding (ps_state p) = {} \<and> rs_submission (ps_state p) = None
                            then [ReleasedAdmission] else []))) = Inr (s', es, v)"
    by (rule rbind_InrE)
  let ?es = "ps_effects p @ (if ps_next_due p \<noteq> None \<and> rs_outstanding (ps_state p) = {} \<and> rs_submission (ps_state p) = None
                            then [ReleasedAdmission] else [])"
  obtain t where t: "fst (set_timer (ps_next_due p) (ps_state p, ?es)) = (ps_state p)\<lparr>rs_timer := t\<rparr>"
      "submits (snd (set_timer (ps_next_due p) (ps_state p, ?es))) = submits ?es"
    using set_timer_result by blast
  obtain a b where ab: "set_timer (ps_next_due p) (ps_state p, ?es) = (a, b)" by (cases "set_timer (ps_next_due p) (ps_state p, ?es)")
  have a: "a = (ps_state p)\<lparr>rs_timer := t\<rparr>" "submits b = submits ?es" using t ab by simp_all
  from conclude_result [OF r3 [unfolded ab]] a
  have "s' = (ps_state p)\<lparr>rs_timer := t\<rparr> \<or> s' = (ps_state p)\<lparr>rs_timer := t, rs_timed_out := True\<rparr>"
    "submits es = submits ?es" by simp_all
  moreover have "submits ?es = submits (ps_effects p)" by simp
  ultimately show ?thesis by (intro that(2) [OF x [unfolded 1] 2 p]) simp_all
qed

locale task_contract =
  fixes lg :: task_logic
  assumes request_keeps: "tl_request lg n rs = Inr n' \<Longrightarrow> step_id n' = step_id n \<and> step_dependencies n' = step_dependencies n"
begin

lemma submit_step_result:
  assumes "submit_step lg now remaining i n p = Inr p'"
  shows "rs_pending (ps_state p') = AList.delete i (rs_pending (ps_state p))"
    "rs_outstanding (ps_state p') = insert i (rs_outstanding (ps_state p))"
    "rs_results (ps_state p') = rs_results (ps_state p)" "rs_cancelled (ps_state p') = rs_cancelled (ps_state p)"
    "rs_known (ps_state p') = rs_known (ps_state p)" "rs_timer (ps_state p') = rs_timer (ps_state p)"
    "rs_window (ps_state p') = rs_window (ps_state p)" "rs_cooldown (ps_state p') = rs_cooldown (ps_state p)"
    "ps_next_due p' = ps_next_due p" "rs_next_worker_at (ps_state p') = rs_next_worker_at (ps_state p)"
    "\<exists>n'. step_id n' = step_id n \<and> step_dependencies n' = step_dependencies n \<and>
       rs_submission (ps_state p') = Some n' \<and> ps_effects p' = ps_effects p @ [Submitted n']"
proof -
  obtain m where m: "tl_request lg n (rs_results (ps_state p)) = Inr m"
    using assms unfolding submit_step_def Let_def rbind_eq_Inr by blast
  have "step_id (prepare_step now remaining m) = step_id n" "step_dependencies (prepare_step now remaining m) = step_dependencies n"
    using request_keeps [OF m] by (simp_all add: prepare_step_def)
  with assms m show "\<exists>n'. step_id n' = step_id n \<and> step_dependencies n' = step_dependencies n \<and>
       rs_submission (ps_state p') = Some n' \<and> ps_effects p' = ps_effects p @ [Submitted n']"
    by (auto simp: submit_step_def Let_def)
qed (use assms in \<open>auto simp: submit_step_def Let_def\<close>)

lemma submit_step_inv:
  assumes c: "submit_step lg now remaining i n p = Inr p'" and inv: "runner_inv ids (ps_state p)"
    and mem: "(i, n) \<in> set (rs_pending (ps_state p))" and cap: "has_capacity (ps_state p)"
    and deps: "\<forall>d \<in> set (step_dependencies n). succeeded_in (ps_state p) d"
  shows "runner_inv (ids @ [i]) (ps_state p')" "grows (ps_state p) (ps_state p')"
    "submits (ps_effects p') = submits (ps_effects p) @ [i]"
proof -
  let ?s = "ps_state p" and ?t = "ps_state p'"
  note r = submit_step_result [OF c]
  have pl: "places ?s" using inv by (simp add: runner_inv_def)
  note q = removed_pending [OF pl mem r(1)]
  show "grows ?s ?t" by (simp add: grows_def r)
  show "submits (ps_effects p') = submits (ps_effects p) @ [i]" using r(11) q(3) by auto
  have o: "done_ids ?t = done_ids ?s" "gone ?t = gone ?s" "known_ids ?t = known_ids ?s"
    by (simp_all add: r place_defs)
  have i: "i \<notin> rs_outstanding ?s \<union> done_ids ?s" "i \<notin> gone ?s" "i \<in> known_ids ?s"
    using pl q(2) unfolding places_def by blast+
  have sub: "set (rs_pending ?t) \<subseteq> set (rs_known ?s)" using pl q(4) unfolding places_def by blast
  have fin: "finite (rs_outstanding ?s)" using pl by (simp add: places_def)
  have "places ?t"
    using pl i q(2,5) sub unfolding places_def o r(2,5) q(1) by (simp only: finite_insert) blast
  moreover have "deps_ok ?t"
    unfolding deps_ok_def o r(2,5) succeeded_in_def r(3)
  proof (intro ballI impI)
    fix x d assume x: "x \<in> set (rs_known ?s)" "fst x \<in> insert i (rs_outstanding ?s) \<union> done_ids ?s"
      and d: "d \<in> set (step_dependencies (snd x))"
    show "\<exists>r. map_of (rs_results ?s) d = Some r \<and> wr_succeeded r"
    proof (cases "fst x = i")
      case True
      have "distinct (map fst (rs_known ?s))" using pl by (simp add: places_def)
      then have "snd x = n" using True x(1) q(6) by (metis eq_key_imp_eq_value prod.collapse)
      with d deps show ?thesis by (auto simp: succeeded_in_def)
    next
      case False
      with x d inv show ?thesis unfolding runner_inv_def deps_ok_def succeeded_in_def by blast
    qed
  qed
  moreover have "window_ok ?t"
    using inv cap i(1) fin by (auto simp: runner_inv_def window_ok_def r has_capacity_def)
  ultimately show "runner_inv (ids @ [i]) ?t"
    using inv i(1) unfolding runner_inv_def o r(2) by auto
qed

lemma visit_inv:
  assumes v: "visit lg send now remaining i n p = Inr p'" and inv: "runner_inv (ids @ submits (ps_effects p)) (ps_state p)"
    and mem: "(i, n) \<in> set (rs_pending (ps_state p))"
  shows "runner_inv (ids @ submits (ps_effects p')) (ps_state p')" "grows (ps_state p) (ps_state p')"
    "rs_pending (ps_state p') = rs_pending (ps_state p) \<or> rs_pending (ps_state p') = AList.delete i (rs_pending (ps_state p))"
proof -
  have "runner_inv (ids @ submits (ps_effects p')) (ps_state p') \<and> grows (ps_state p) (ps_state p') \<and>
    (rs_pending (ps_state p') = rs_pending (ps_state p) \<or> rs_pending (ps_state p') = AList.delete i (rs_pending (ps_state p)))"
    using v
  proof (cases rule: visit_cases)
    case cancelled
    from cancel_step_inv [OF cancelled(1) inv mem] cancel_step_result(1,10) [OF cancelled(1)] show ?thesis by simp
  next
    case (stopped e)
    from cancel_step_inv [OF stopped(4) inv mem] cancel_step_result(1,10) [OF stopped(4)] show ?thesis by simp
  next
    case (submit e)
    have "\<forall>d \<in> set (step_dependencies n). succeeded_in (ps_state p) d"
      using ready_deps_succeeded [OF submit(1)] by blast
    from submit_step_inv [OF submit(8) inv mem submit(6) this] submit_step_result(1) [OF submit(8)]
    show ?thesis by simp
  next
    case (later e)
    then show ?thesis using inv by (simp split: option.splits)
  qed (use inv in simp_all)
  then show "runner_inv (ids @ submits (ps_effects p')) (ps_state p')" "grows (ps_state p) (ps_state p')"
    "rs_pending (ps_state p') = rs_pending (ps_state p) \<or> rs_pending (ps_state p') = AList.delete i (rs_pending (ps_state p))"
    by blast+
qed

lemma still_pending_later:
  assumes "set ((i, n) # rest) \<subseteq> set pending" "distinct (map fst ((i, n) # rest))"
    and "pending' = pending \<or> pending' = AList.delete i pending"
  shows "set rest \<subseteq> set pending'"
proof
  fix x assume x: "x \<in> set rest"
  then have "fst x \<noteq> i" using assms(2) by force
  with x assms(1,3) show "x \<in> set pending'" by (auto simp: AList.delete_eq)
qed

lemma pass_inv:
  assumes "pass_over lg send now remaining steps p = Inr p'" "runner_inv (ids @ submits (ps_effects p)) (ps_state p)"
    and "set steps \<subseteq> set (rs_pending (ps_state p))" "distinct (map fst steps)"
  shows "runner_inv (ids @ submits (ps_effects p')) (ps_state p') \<and> grows (ps_state p) (ps_state p')"
  using assms
proof (induction steps arbitrary: p)
  case (Cons x rest)
  obtain i n where x: "x = (i, n)" by (cases x)
  let ?s = "ps_state p"
  consider "p' = p" | "p' = p\<lparr>ps_next_due := rs_next_worker_at ?s\<rparr>"
    | p1 where "visit lg send now remaining i n p = Inr p1" "pass_over lg send now remaining rest p1 = Inr p'"
    using pass_over_cases [OF Cons.prems(1) [unfolded x]] by blast
  then show ?case
  proof cases
    case (3 p1)
    have mem: "(i, n) \<in> set (rs_pending ?s)" using Cons.prems(3) x by simp
    note one = visit_inv [OF 3(1) Cons.prems(2) mem]
    have "set rest \<subseteq> set (rs_pending (ps_state p1))"
      by (rule still_pending_later [OF Cons.prems(3,4) [unfolded x] one(3)])
    with Cons.IH [OF 3(2) one(1)] Cons.prems(4) one(2) show ?thesis by (auto intro: grows_trans)
  qed (use Cons.prems(2) in simp_all)
qed simp

lemma turn_inv:
  assumes "run_turn cd lg send create inp s = Inr (s', es, v)" "runner_inv ids s" "input_ok cd s inp"
  shows "runner_inv (ids @ submits es) s' \<and> grows s s'"
  using assms(1)
proof (cases rule: run_turn_cases)
  case 1
  then show ?thesis using assms(2) by simp
next
  case (2 s1 es1 s2 p t)
  have "\<And>ms. ti_messages inp = Some ms \<Longrightarrow> arrivals_ok cd s ms" using assms(3) by (simp add: input_ok_def)
  from take_messages_inv [OF 2(1) assms(2) this]
  have s1: "runner_inv ids s1" "grows s s1" "submits es1 = []" by blast+
  have s2: "runner_inv ids s2" "grows s s2" using s1 take_tasks_inv [OF 2(2)] by simp_all
  then have "distinct (map fst (rs_pending s2))" by (simp add: runner_inv_def places_def)
  with pass_inv [OF 2(3), of ids] s1(3) s2
  have "runner_inv (ids @ submits (ps_effects p)) (ps_state p)" "grows s (ps_state p)"
    by (auto intro: grows_trans)
  with 2(4,5) show ?thesis by auto
qed

lemma trace_inv:
  assumes "runner_trace cd lg send create s0 es s" "runner_inv [] s0"
  shows "runner_inv (submits es) s \<and> grows s0 s"
  using assms
proof induction
  case (turn es s inp s' es' v)
  then show ?case using turn_inv [OF turn.hyps(3)] by (auto intro: grows_trans)
qed simp

end

end
