(* ===== verification/Runner_Workflow.thy ===== *)
theory Runner_Workflow
  imports Runner_Invariant
begin

text \<open>
  Runners of a validated workflow (\<open>WorkflowTaskLogic\<close>), and the properties of their runs: the
  discipline of submissions, the outcome of a finished run, and the absence of a state without an
  event to wait for.
\<close>

section \<open>Workflows\<close>

lemma new_runner_inv:
  assumes "new_runner r steps timeout mo cooldown = Inr s"
  shows "runner_inv [] s" "rs_known s = dict_of (map (\<lambda>n. (step_id n, n)) steps)" "rs_pending s = rs_known s"
    "rs_results s = []" "rs_cancelled s = []" "rs_outstanding s = {}" "rs_submission s = None"
proof -
  have c: "check_runner timeout mo cooldown = Inr ()" and s: "s = \<lparr>rs_runner_id = r,
      rs_window = (if cooldown \<noteq> None then Some 1 else map_option nat mo),
      rs_cooldown = map_option finite_value cooldown, rs_timeout = finite_value timeout,
      rs_next_worker_at = None, rs_results = [], rs_cancelled = [], rs_outstanding = {},
      rs_pending = dict_of (map (\<lambda>n. (step_id n, n)) steps), rs_known = dict_of (map (\<lambda>n. (step_id n, n)) steps),
      rs_submission = None, rs_timer = None, rs_timed_out = False\<rparr>"
    using assms by (auto simp: new_runner_def Let_def)
  have "mo = Some n \<Longrightarrow> 1 \<le> n" for n using c by (simp add: check_runner_def)
  then have "window_ok s" by (auto simp: window_ok_def s)
  moreover have "\<forall>x \<in> set (dict_of (map (\<lambda>n. (step_id n, n)) steps)). step_id (snd x) = fst x"
    using dict_of_members [of "map (\<lambda>n. (step_id n, n)) steps"] by auto
  then have "places s"
    by (simp add: places_def s place_defs distinct_dict_of)
  ultimately show "runner_inv [] s" by (simp add: runner_inv_def deps_ok_def s done_ids_def)
qed (use assms in \<open>auto simp: new_runner_def Let_def\<close>)

interpretation workflow: task_contract "workflow dump steps created_at" for dump steps created_at
proof unfold_locales
  fix n rs n' assume "tl_request (workflow dump steps created_at) n rs = Inr n'"
  then show "step_id n' = step_id n \<and> step_dependencies n' = step_dependencies n"
    by (auto simp: workflow_def workflow_request_def Let_def split: if_splits)
qed

definition step_edges :: "step list \<Rightarrow> (string \<times> string list) list" where
  "step_edges steps = map (\<lambda>n. (step_id n, step_dependencies n)) steps"

lemma check_workflow_topological:
  "check_workflow seen steps = Inr () \<Longrightarrow> distinct (map step_id steps) \<Longrightarrow> step_id ` set steps \<inter> seen = {} \<Longrightarrow>
     topological seen (step_edges steps)"
proof (induction seen steps rule: check_workflow.induct)
  case (2 seen n rest)
  have d: "set (step_dependencies n) \<subseteq> seen" and c: "check_workflow (insert (step_id n) seen) rest = Inr ()"
    using 2(2) by (simp_all split: if_splits)
  have "step_id ` set rest \<inter> insert (step_id n) seen = {}" using 2(3,4) by auto
  from 2(1) [OF _ _ _ _ c _ this] 2(2,3) have "topological (insert (step_id n) seen) (step_edges rest)"
    by (simp split: if_splits)
  with d 2(4) show ?case by (simp add: step_edges_def)
qed (simp add: step_edges_def)

lemma check_workflow_step:
  "check_workflow seen steps = Inr () \<Longrightarrow> n \<in> set steps \<Longrightarrow>
     (\<exists>x. step_delay n = Fin x \<and> 0 \<le> x) \<and> (\<forall>i. step_due_at n \<noteq> Some (Naive i))"
  by (induction seen steps rule: check_workflow.induct) (auto split: if_splits pyfloat.splits option.splits timestamp.splits)

definition failed_in :: "runner_state \<Rightarrow> string \<Rightarrow> bool" where
  "failed_in s i \<longleftrightarrow> (\<exists>r. map_of (rs_results s) i = Some r \<and> \<not> wr_succeeded r)"

text \<open>What a workflow adds to the invariant: the order of the steps, and why a step was cancelled.\<close>

definition workflow_inv :: "step list \<Rightarrow> runner_state \<Rightarrow> bool" where
  "workflow_inv steps s \<longleftrightarrow> rs_known s = map (\<lambda>n. (step_id n, n)) steps \<and>
     rs_pending s = filter (\<lambda>x. fst x \<in> pend s) (rs_known s) \<and>
     (\<forall>i \<in> gone s. \<exists>n \<in> set steps. step_id n = i \<and> (\<exists>d \<in> set (step_dependencies n). d \<in> gone s \<or> failed_in s d))"

lemma failed_grows: "grows s s' \<Longrightarrow> failed_in s i \<Longrightarrow> failed_in s' i"
  unfolding grows_def failed_in_def by blast

lemma workflow_inv_same:
  assumes "workflow_inv steps s" "grows s s'" "rs_known s' = rs_known s" "rs_pending s' = rs_pending s"
    "rs_cancelled s' = rs_cancelled s"
  shows "workflow_inv steps s'"
proof -
  have e: "pend s' = pend s" "gone s' = gone s" using assms(4,5) by (simp_all add: place_defs)
  show ?thesis
    using assms(1) failed_grows [OF assms(2)] unfolding workflow_inv_def assms(3,4) e by blast
qed

lemma dependency_blocked_never:
  assumes "ready_deps n s" "step_dependencies n \<noteq> []"
  shows "dependency_evaluate (step_dependencies n) c d now (\<lambda>i. map_option result_completion (map_of (rs_results s) i)) =
    rbind (ts_max c (map (\<lambda>i. completed_at (the (map_option result_completion (map_of (rs_results s) i)))) (step_dependencies n)))
      (\<lambda>anchor. delay_evaluate anchor d now)"
proof -
  have "\<exists>r. map_of (rs_results s) i = Some r \<and> wr_succeeded r" if "i \<in> set (step_dependencies n)" for i
    using ready_deps_succeeded [OF assms(1) that] by (simp add: succeeded_in_def)
  then have "\<not> list_ex (\<lambda>i. case map_option result_completion (map_of (rs_results s) i) of
        Some c \<Rightarrow> \<not> succeeded c | None \<Rightarrow> False) (step_dependencies n)"
    "\<not> list_ex (\<lambda>i. map_option result_completion (map_of (rs_results s) i) = None) (step_dependencies n)"
    by (auto simp: list_ex_iff result_completion_def split: option.splits) fastforce+
  then show ?thesis unfolding dependency_evaluate_def by (simp only: if_False)
qed

lemma date_not_blocked: "date_evaluate due now = Inr e \<Longrightarrow> \<not> blocked e \<and> (\<exists>t. el_due_at e = Some t)"
  by (auto simp: date_evaluate_def)

lemma delay_not_blocked: "delay_evaluate a d now = Inr e \<Longrightarrow> \<not> blocked e \<and> (\<exists>t. el_due_at e = Some t)"
  by (cases d) (auto simp: delay_evaluate_def split: if_splits dest: date_not_blocked)

lemma workflow_not_blocked:
  assumes "ready_deps n s" "workflow_eligibility c n now (rs_results s) = Inr e"
  shows "\<not> blocked e \<and> (\<exists>t. el_due_at e = Some t)"
proof (cases "step_dependencies n = []")
  case True
  then show ?thesis using assms(2) unfolding workflow_eligibility_def by (auto dest: date_not_blocked)
next
  case False
  obtain d where d: "dependency_evaluate (step_dependencies n) c (step_delay n) (Aware now)
      (\<lambda>i. map_option result_completion (map_of (rs_results s) i)) = Inr d"
    and r: "(case el_due_at d of
            None \<Rightarrow> Inr d
          | Some t \<Rightarrow>
              if blocked d then Inr d
              else rbind (later (Aware t) (case step_due_at n of Some u \<Rightarrow> u | None \<Rightarrow> Aware t)) (\<lambda>due.
                     date_evaluate due (Aware now))) = Inr e"
    using assms(2) False unfolding workflow_eligibility_def by auto
  from d [unfolded dependency_blocked_never [OF assms(1) False]] have "\<not> blocked d \<and> (\<exists>t. el_due_at d = Some t)"
    by (auto dest: delay_not_blocked)
  with r show ?thesis by (auto dest: date_not_blocked)
qed

lemma workflow_message_frame:
  assumes "on_message cd (workflow dump steps c) create (s, es) m = Inr (s', es')" "runner_inv ids s" "arrivals_ok cd s [m]"
  shows "rs_pending s' = rs_pending s \<and> rs_known s' = rs_known s"
proof -
  obtain s1 es1 ns where p: "progress_message cd m s = Inr (s1, es1)"
    and n: "tl_on_message (workflow dump steps c) m (rs_results s1) = Inr ns"
    and f: "foldR (\<lambda>s n. add_step n s) s1 ns = Inr s'"
    by (rule on_message_split [OF assms(1)])
  have "ns = []" using n by (auto simp: workflow_def default_on_message_def split: if_splits)
  with f have s': "s' = s1" by simp
  have pl: "places s" using assms(2) by (simp add: runner_inv_def)
  consider "msg_topic m = ''worker.completed''" "on_completed cd m s = Inr (s1, es1)"
    | "msg_topic m = ''worker.cancelled''" "on_cancelled cd m s = Inr (s1, es1)" | "s1 = s"
    using p unfolding progress_message_def by (metis Pair_inject sum.inject(2))
  then show ?thesis
  proof cases
    case 1
    have a: "wc_step_id x \<in> rs_outstanding s \<union> done_ids s" if "cd_completion cd (msg_payload m) = Inr x" for x
      using assms(3) 1(1) that by (simp add: arrivals_ok_def done_ids_def)
    from completed_places(5,6) [OF 1(2) pl a] show ?thesis unfolding s' by simp
  next
    case 2
    have a: "cn_step_id x \<in> gone s" if "cd_cancellation cd (msg_payload m) = Inr x" for x
      using assms(3) 2(1) that by (simp add: arrivals_ok_def gone_def)
    from cancelled_places(6,7) [OF 2(2) pl a] show ?thesis unfolding s' by simp
  qed (simp add: s')
qed

lemma workflow_messages_frame:
  assumes "foldR (on_message cd (workflow dump steps c) create) (s, es) ms = Inr (s', es')" "runner_inv ids s"
    and "arrivals_ok cd s ms"
  shows "rs_pending s' = rs_pending s \<and> rs_known s' = rs_known s"
  using assms
proof (induction ms arbitrary: s es)
  case (Cons m ms)
  then obtain s1 es1 where 1: "on_message cd (workflow dump steps c) create (s, es) m = Inr (s1, es1)"
      "foldR (on_message cd (workflow dump steps c) create) (s1, es1) ms = Inr (s', es')" by auto
  have a: "arrivals_ok cd s [m]" "arrivals_ok cd s ms" using Cons.prems(3) by (simp_all add: arrivals_ok_def)
  note i = on_message_inv [OF 1(1) Cons.prems(2) a(1)]
  have "arrivals_ok cd s1 ms" by (rule arrivals_later [OF a(2)]) (use i in blast)+
  with Cons.IH [OF 1(2)] i workflow_message_frame [OF 1(1) Cons.prems(2) a(1)] show ?case by simp
qed simp

lemma workflow_take_messages:
  assumes "take_messages cd (workflow dump steps c) create arrived s = Inr (s', es)" "runner_inv ids s"
    and "\<And>ms. arrived = Some ms \<Longrightarrow> arrivals_ok cd s ms" "workflow_inv steps s"
  shows "workflow_inv steps s'"
proof -
  have i: "grows s s'" "rs_cancelled s' = rs_cancelled s" using take_messages_inv [OF assms(1-3)] by blast+
  have "rs_pending s' = rs_pending s \<and> rs_known s' = rs_known s"
  proof (cases arrived)
    case (Some ms)
    with assms(1) obtain fs where "foldR (on_message cd (workflow dump steps c) create) (s, []) ms = Inr (s', fs)"
      by (auto simp: take_messages_def)
    from workflow_messages_frame [OF this assms(2) assms(3) [OF Some]] show ?thesis .
  qed (use assms(1) in \<open>simp add: take_messages_def\<close>)
  with workflow_inv_same [OF assms(4) i(1)] i(2) show ?thesis by blast
qed

lemma deleted_filter:
  assumes "pending = filter (\<lambda>x. fst x \<in> P) known"
  shows "AList.delete i pending = filter (\<lambda>x. fst x \<in> P - {i}) known"
  using assms by (auto simp: AList.delete_eq intro: filter_cong)

lemma workflow_deleted:
  assumes "rs_pending s = filter (\<lambda>x. fst x \<in> pend s) (rs_known s)" "rs_pending s' = AList.delete i (rs_pending s)"
    and "rs_known s' = rs_known s" "pend s' = pend s - {i}"
  shows "rs_pending s' = filter (\<lambda>x. fst x \<in> pend s') (rs_known s')"
  using deleted_filter [OF assms(1), of i] assms(2-4) by simp

lemma failed_dependencies_member:
  assumes "failed_dependencies n s \<noteq> []"
  shows "\<exists>d \<in> set (step_dependencies n). d \<in> gone s \<or> failed_in s d"
proof -
  obtain d where "d \<in> set (failed_dependencies n s)" using assms by (meson last_in_set)
  then have d: "d \<in> set (step_dependencies n)" "map_of (rs_cancelled s) d \<noteq> None \<or>
      (case map_of (rs_results s) d of Some r \<Rightarrow> \<not> wr_succeeded r | None \<Rightarrow> False)"
    by (simp_all add: failed_dependencies_def)
  from d(2) have "d \<in> gone s \<or> failed_in s d"
    by (cases "map_of (rs_results s) d") (simp_all add: gone_def failed_in_def map_of_eq_None_iff)
  with d(1) show ?thesis by blast
qed

lemma workflow_visit:
  assumes v: "visit (workflow dump steps c) send now remaining i n p = Inr p'"
    and inv: "runner_inv ids (ps_state p)" "workflow_inv steps (ps_state p)"
    and mem: "(i, n) \<in> set (rs_pending (ps_state p))"
  shows "workflow_inv steps (ps_state p')"
proof -
  let ?s = "ps_state p" and ?t = "ps_state p'"
  have pl: "places ?s" using inv(1) by (simp add: runner_inv_def)
  note w = inv(2) [unfolded workflow_inv_def]
  from v show ?thesis
  proof (cases rule: visit_cases)
    case cancelled
    note r = cancel_step_result [OF cancelled(1)] note g = cancel_step_inv [OF cancelled(1) inv(1) mem]
    note q = removed_pending [OF pl mem r(1)]
    obtain d where d: "d \<in> set (step_dependencies n)" "d \<in> gone ?s \<or> failed_in ?s d"
      using failed_dependencies_member [OF cancelled(2)] by blast
    have n: "n \<in> set steps" using w q(6) by auto
    have "\<forall>j \<in> gone ?t. \<exists>n \<in> set steps. step_id n = j \<and> (\<exists>d \<in> set (step_dependencies n). d \<in> gone ?t \<or> failed_in ?t d)"
      using w d n q(3) failed_grows [OF g(2)] unfolding g(3) by blast
    moreover have "rs_pending ?t = filter (\<lambda>x. fst x \<in> pend ?t) (rs_known ?t)"
      by (rule workflow_deleted [OF _ r(1,5) q(1)]) (use w in blast)
    ultimately show ?thesis using w by (simp add: workflow_inv_def r(5))
  next
    case (stopped e)
    then show ?thesis using workflow_not_blocked [of n ?s c now e] by (simp add: workflow_def)
  next
    case (submit e)
    note r = workflow.submit_step_result [OF submit(8)]
    note q = removed_pending [OF pl mem r(1)]
    have "gone ?t = gone ?s" "\<And>d. failed_in ?t d = failed_in ?s d" by (simp_all add: gone_def r failed_in_def)
    moreover have "rs_pending ?t = filter (\<lambda>x. fst x \<in> pend ?t) (rs_known ?t)"
      by (rule workflow_deleted [OF _ r(1,5) q(1)]) (use w in blast)
    ultimately show ?thesis using w by (simp add: workflow_inv_def r(5))
  next
    case (later e)
    then show ?thesis using inv(2) by (simp split: option.splits)
  qed (use inv(2) in simp_all)
qed

lemma workflow_pass:
  assumes "pass_over (workflow dump ns c) send now remaining steps p = Inr p'"
    and "runner_inv (ids @ submits (ps_effects p)) (ps_state p)" "workflow_inv ns (ps_state p)"
    and "set steps \<subseteq> set (rs_pending (ps_state p))" "distinct (map fst steps)"
  shows "workflow_inv ns (ps_state p')"
  using assms
proof (induction steps arbitrary: p)
  case (Cons x rest)
  obtain i n where x: "x = (i, n)" by (cases x)
  let ?s = "ps_state p"
  consider "p' = p" | "p' = p\<lparr>ps_next_due := rs_next_worker_at ?s\<rparr>"
    | p1 where "visit (workflow dump ns c) send now remaining i n p = Inr p1"
        "pass_over (workflow dump ns c) send now remaining rest p1 = Inr p'"
    using pass_over_cases [OF Cons.prems(1) [unfolded x]] by blast
  then show ?case
  proof cases
    case (3 p1)
    have mem: "(i, n) \<in> set (rs_pending ?s)" using Cons.prems(4) x by simp
    note one = workflow.visit_inv [OF 3(1) Cons.prems(2) mem]
    have "set rest \<subseteq> set (rs_pending (ps_state p1))"
      by (rule workflow.still_pending_later [OF Cons.prems(4,5) [unfolded x] one(3)])
    with Cons.IH [OF 3(2) one(1) workflow_visit [OF 3(1) Cons.prems(2,3) mem]] Cons.prems(5) show ?thesis by simp
  qed (use Cons.prems(3) in simp_all)
qed simp

lemma workflow_inv_tasks [simp]:
  "workflow_inv ns (s\<lparr>rs_timer := t\<rparr>) = workflow_inv ns s"
  "workflow_inv ns (s\<lparr>rs_timed_out := b\<rparr>) = workflow_inv ns s"
  by (simp_all add: workflow_inv_def place_defs failed_in_def)

lemma workflow_turn:
  assumes "run_turn cd (workflow dump ns c) send create inp s = Inr (s', es, v)" "runner_inv ids s"
    and "input_ok cd s inp" "workflow_inv ns s"
  shows "workflow_inv ns s'"
  using assms(1)
proof (cases rule: run_turn_cases)
  case 1
  then show ?thesis using assms(4) by simp
next
  case (2 s1 es1 s2 p t)
  have a: "\<And>ms. ti_messages inp = Some ms \<Longrightarrow> arrivals_ok cd s ms" using assms(3) by (simp add: input_ok_def)
  have s1: "runner_inv ids s1" "submits es1 = []" using take_messages_inv [OF 2(1) assms(2) a] by blast+
  have w1: "workflow_inv ns s1" by (rule workflow_take_messages [OF 2(1) assms(2) a assms(4)])
  have i2: "runner_inv (ids @ submits es1) s2" using s1 take_tasks_inv(1) [OF 2(2)] by simp
  have "workflow_inv ns s2"
    by (rule workflow_inv_same [OF w1]) (use take_tasks_inv [OF 2(2)] in simp_all)
  moreover have "distinct (map fst (rs_pending s2))" using i2 by (simp add: runner_inv_def places_def)
  ultimately have "workflow_inv ns (ps_state p)" using workflow_pass [OF 2(3), of ids] i2 by simp
  with 2(4) show ?thesis by (elim disjE) simp_all
qed

text \<open>A Runner of a validated workflow.\<close>

definition workflow_runner :: "(pyval \<Rightarrow> string res) \<Rightarrow> step list \<Rightarrow> timestamp \<Rightarrow> string \<Rightarrow> pyfloat \<Rightarrow> int option
    \<Rightarrow> pyfloat option \<Rightarrow> (task_logic \<times> runner_state) res" where
  "workflow_runner dump ns c r timeout mo cooldown =
     rbind (workflow_logic dump ns c) (\<lambda>lg.
     rbind (new_runner r (tl_steps lg) timeout mo cooldown) (\<lambda>s. Inr (lg, s)))"

lemma workflow_runner_init:
  assumes "workflow_runner dump ns c r timeout mo cooldown = Inr (lg, s)"
  shows "lg = workflow dump ns c" "runner_inv [] s" "workflow_inv ns s" "topological {} (step_edges ns)"
    "\<And>n. n \<in> set ns \<Longrightarrow> (\<exists>x. step_delay n = Fin x \<and> 0 \<le> x) \<and> (\<forall>i. step_due_at n \<noteq> Some (Naive i))"
proof -
  have l: "workflow_logic dump ns c = Inr lg" and n: "new_runner r (tl_steps lg) timeout mo cooldown = Inr s"
    using assms by (auto simp: workflow_runner_def)
  have d: "distinct (map step_id ns)" and w: "check_workflow {} ns = Inr ()" and lg: "lg = workflow dump ns c"
    using l by (auto simp: workflow_logic_def split: if_splits)
  note q = new_runner_inv [OF n]
  show "lg = workflow dump ns c" "runner_inv [] s" using lg q by simp_all
  have "distinct (map fst (map (\<lambda>n. (step_id n, n)) ns))" using d by (simp add: comp_def)
  then have k: "rs_known s = map (\<lambda>n. (step_id n, n)) ns"
    using q(2) by (simp add: lg workflow_def dict_of_distinct)
  have "rs_pending s = filter (\<lambda>x. fst x \<in> pend s) (rs_known s)"
    unfolding q(3) pend_def by (auto intro!: filter_True [symmetric])
  then show "workflow_inv ns s" using k q(5) by (simp add: workflow_inv_def gone_def)
  show "topological {} (step_edges ns)" by (rule check_workflow_topological [OF w d]) simp
  show "(\<exists>x. step_delay n = Fin x \<and> 0 \<le> x) \<and> (\<forall>i. step_due_at n \<noteq> Some (Naive i))" if "n \<in> set ns" for n
    by (rule check_workflow_step [OF w that])
qed

lemma workflow_trace:
  assumes "runner_trace cd lg send create s0 es s" "workflow_runner dump ns c r timeout mo cooldown = Inr (lg, s0)"
  shows "runner_inv (submits es) s \<and> workflow_inv ns s"
  using assms(1)
proof induction
  case start
  show ?case using workflow_runner_init [OF assms(2)] by simp
next
  case (turn es s inp s' es' v)
  have t: "run_turn cd (workflow dump ns c) send create inp s = Inr (s', es', v)"
    using turn.hyps(3) workflow_runner_init(1) [OF assms(2)] by simp
  from workflow.turn_inv [OF t] workflow_turn [OF t] turn show ?case by auto
qed

section \<open>Properties\<close>

lemma succeeded_done: "succeeded_in s d \<Longrightarrow> d \<in> done_ids s"
  using map_of_SomeD [of "rs_results s" d] unfolding succeeded_in_def done_ids_def by force

lemma not_failed_succeeded: "failed_in s d \<Longrightarrow> \<not> succeeded_in s d"
  by (auto simp: failed_in_def succeeded_in_def)

lemma finished_no_work:
  assumes "run_turn cd lg send create inp s = Inr (s', es, Finished)"
  shows "\<not> work_left lg s'"
proof (cases "work_left lg s")
  case True
  show ?thesis
    using run_turn_stages [OF refl True, of cd send create inp, unfolded assms, symmetric]
    by (elim rbind_InrE, clarify, elim rbind_InrE) (drule conclude_finished, blast)
qed (use assms in \<open>simp add: run_turn_def\<close>)

text \<open>
  C13.  A Runner's discipline.  In every state a Runner of a validated workflow reaches, whatever
  messages, failures and clock readings its turns see: every step is in exactly one place, pending,
  outstanding, completed or cancelled; each was submitted at most once, and the submitted ones are
  those outstanding or completed; all dependencies of a submitted step have succeeded; the
  outstanding steps fit the window, and with a cooldown there is at most one.
\<close>

theorem runner_discipline:
  assumes "workflow_runner dump ns c r timeout mo cooldown = Inr (lg, s0)" "runner_trace cd lg send create s0 es s"
  shows "step_id ` set ns = pend s \<union> rs_outstanding s \<union> done_ids s \<union> gone s \<and>
    pend s \<inter> (rs_outstanding s \<union> done_ids s \<union> gone s) = {} \<and> rs_outstanding s \<inter> done_ids s = {} \<and>
    gone s \<inter> (rs_outstanding s \<union> done_ids s) = {} \<and>
    distinct (submits es) \<and> set (submits es) = rs_outstanding s \<union> done_ids s \<and>
    (\<forall>n \<in> set ns. step_id n \<in> set (submits es) \<longrightarrow> (\<forall>d \<in> set (step_dependencies n). succeeded_in s d)) \<and>
    (\<forall>w. rs_window s = Some w \<longrightarrow> card (rs_outstanding s) \<le> w) \<and>
    (rs_cooldown s \<noteq> None \<longrightarrow> card (rs_outstanding s) \<le> 1)"
proof -
  have inv: "runner_inv (submits es) s" and w: "workflow_inv ns s" using workflow_trace [OF assms(2,1)] by blast+
  have k: "rs_known s = map (\<lambda>n. (step_id n, n)) ns" using w by (simp add: workflow_inv_def)
  then have "known_ids s = step_id ` set ns" by (auto simp: known_ids_def image_image)
  moreover have "\<forall>n \<in> set ns. step_id n \<in> set (submits es) \<longrightarrow> (\<forall>d \<in> set (step_dependencies n). succeeded_in s d)"
    using inv by (auto simp: runner_inv_def deps_ok_def k)
  moreover have "places s" "window_ok s" using inv by (simp_all add: runner_inv_def)
  ultimately show ?thesis
    using inv unfolding runner_inv_def places_def window_ok_def by auto
qed

text \<open>
  C14.  The outcome of a finished run is decided by the results alone: every step has either a
  result or a cancellation, and it has a result exactly when all its dependencies succeeded.
\<close>

theorem runner_outcome:
  assumes "workflow_runner dump ns c r timeout mo cooldown = Inr (lg, s0)" "runner_trace cd lg send create s0 es s"
    and "input_ok cd s inp" "run_turn cd lg send create inp s = Inr (s', es', Finished)"
  shows "\<forall>n \<in> set ns. (step_id n \<in> done_ids s' \<longleftrightarrow> step_id n \<notin> gone s') \<and>
    (step_id n \<in> done_ids s' \<longleftrightarrow> (\<forall>d \<in> set (step_dependencies n). succeeded_in s' d))"
proof -
  have t: "runner_trace cd lg send create s0 (es @ es') s'" by (rule runner_trace.turn [OF assms(2-4)])
  have inv: "runner_inv (submits (es @ es')) s'" and w: "workflow_inv ns s'" using workflow_trace [OF t assms(1)] by blast+
  have k: "rs_known s' = map (\<lambda>n. (step_id n, n)) ns" using w by (simp add: workflow_inv_def)
  have "\<not> work_left lg s'" by (rule finished_no_work [OF assms(4)])
  then have e: "pend s' = {}" "rs_outstanding s' = {}" by (simp_all add: work_left_def pend_def)
  have pl: "places s'" using inv by (simp add: runner_inv_def)
  have known: "known_ids s' = step_id ` set ns" using k by (auto simp: known_ids_def image_image)
  show ?thesis
  proof
    fix n assume n: "n \<in> set ns"
    have one: "step_id n \<in> done_ids s' \<longleftrightarrow> step_id n \<notin> gone s'"
      using pl e known imageI [OF n, of step_id] unfolding places_def by blast
    have "\<forall>d \<in> set (step_dependencies n). succeeded_in s' d" if "step_id n \<in> done_ids s'"
      using inv that n by (auto simp: runner_inv_def deps_ok_def k)
    moreover have "\<exists>d \<in> set (step_dependencies n). \<not> succeeded_in s' d" if g: "step_id n \<in> gone s'"
    proof -
      obtain m d where m: "m \<in> set ns" "step_id m = step_id n" "d \<in> set (step_dependencies m)"
        "d \<in> gone s' \<or> failed_in s' d" using w g unfolding workflow_inv_def by blast
      have "distinct (map step_id ns)" using pl k by (simp add: places_def comp_def)
      then have "m = n" using m(1,2) n by (simp add: distinct_map inj_on_def)
      moreover have "\<not> succeeded_in s' d"
        using m(4) pl succeeded_done not_failed_succeeded unfolding places_def by blast
      ultimately show ?thesis using m(3) by blast
    qed
    ultimately show "(step_id n \<in> done_ids s' \<longleftrightarrow> step_id n \<notin> gone s') \<and>
      (step_id n \<in> done_ids s' \<longleftrightarrow> (\<forall>d \<in> set (step_dependencies n). succeeded_in s' d))"
      using one by blast
  qed
qed

section \<open>Progress\<close>

definition pass_le :: "pass \<Rightarrow> pass \<Rightarrow> bool" where
  "pass_le p q \<longleftrightarrow> rs_outstanding (ps_state p) \<subseteq> rs_outstanding (ps_state q) \<and>
     (rs_submission (ps_state p) \<noteq> None \<longrightarrow> rs_submission (ps_state q) \<noteq> None) \<and>
     (ps_next_due p \<noteq> None \<longrightarrow> ps_next_due q \<noteq> None) \<and> gone (ps_state p) \<subseteq> gone (ps_state q) \<and>
     rs_results (ps_state q) = rs_results (ps_state p)"

lemma pass_le_refl [simp]: "pass_le p p"
  by (simp add: pass_le_def)

lemma pass_le_trans: "pass_le p q \<Longrightarrow> pass_le q r \<Longrightarrow> pass_le p r"
  unfolding pass_le_def by auto

context task_contract
begin

lemma cancel_le:
  assumes "cancel_step send now i n failed p = Inr p'"
  shows "pass_le p p'"
proof -
  note r = cancel_step_result [OF assms]
  have "gone (ps_state p') = insert (step_id n) (gone (ps_state p))" using r(2) by (metis gone_def keys_dict_set)
  then show ?thesis unfolding pass_le_def r(3,4,6,11) by blast
qed

lemma visit_le:
  assumes "visit lg send now remaining i n p = Inr p'"
  shows "pass_le p p'"
  using assms
proof (cases rule: visit_cases)
  case cancelled
  then show ?thesis using cancel_le by blast
next
  case (stopped e)
  then show ?thesis using cancel_le by blast
next
  case (submit e)
  show ?thesis using submit_step_result [OF submit(8)] by (auto simp: pass_le_def gone_def)
next
  case (later e)
  then show ?thesis by (cases "el_due_at e") (simp_all add: pass_le_def sooner_def)
qed simp_all

lemma pass_over_le:
  assumes "pass_over lg send now remaining steps p = Inr p'"
  shows "pass_le p p'"
  using assms
proof (induction steps arbitrary: p)
  case (Cons x rest)
  obtain i n where x: "x = (i, n)" by (cases x)
  consider "p' = p" | "p' = p\<lparr>ps_next_due := rs_next_worker_at (ps_state p)\<rparr>" "rs_next_worker_at (ps_state p) \<noteq> None"
    | p1 where "visit lg send now remaining i n p = Inr p1" "pass_over lg send now remaining rest p1 = Inr p'"
    using pass_over_cases [OF Cons.prems [unfolded x]] by blast
  then show ?case
  proof cases
    case 2
    then show ?thesis by (simp add: pass_le_def)
  next
    case 3
    then show ?thesis using visit_le Cons.IH pass_le_trans by blast
  qed simp
qed simp

end

text \<open>A visit without an effect that lasts cancels the step.\<close>

lemma quiet_visit:
  assumes v: "visit (workflow dump ns c) send now remaining i n p = Inr p1" and le: "pass_le p1 p'"
    and quiet: "rs_outstanding (ps_state p') = {}" "rs_submission (ps_state p') = None" "ps_next_due p' = None"
    and "0 < remaining" "\<And>w. rs_window (ps_state p) = Some w \<Longrightarrow> 0 < w"
    and deps: "set (step_dependencies n) \<subseteq> done_ids (ps_state p) \<union> gone (ps_state p)" and id: "step_id n = i"
  shows "i \<in> gone (ps_state p1)"
proof -
  have o: "rs_outstanding (ps_state p) = {}" "rs_submission (ps_state p) = None"
    using quiet le workflow.visit_le [OF v] unfolding pass_le_def by auto
  then have cap: "has_capacity (ps_state p)" using assms(7) by (simp add: has_capacity_def split: option.splits)
  have cancels: "i \<in> gone (ps_state p1)" if "cancel_step send now i n failed p = Inr p1" for failed
    using cancel_step_result(2) [OF that] id by (metis gone_def keys_dict_set insertI1)
  from v show ?thesis
  proof (cases rule: visit_cases)
    case unready
    from unready(3) obtain d where d: "d \<in> set (step_dependencies n)" "map_of (rs_results (ps_state p)) d = None" by blast
    then have "d \<in> gone (ps_state p)" using deps by (auto simp: done_ids_def map_of_eq_None_iff)
    then have "map_of (rs_cancelled (ps_state p)) d \<noteq> None" by (simp add: gone_def map_of_eq_None_iff)
    with d(1) unready(2) show ?thesis by (auto simp: failed_dependencies_def filter_empty_conv)
  next
    case (submit e)
    then show ?thesis using workflow.submit_step_result(2) [OF submit(8)] le quiet(1) by (auto simp: pass_le_def)
  next
    case (full e)
    then show ?thesis using o cap assms(6) by blast
  next
    case (later e)
    have "tl_eligibility (workflow dump ns c) = workflow_eligibility c" by (simp add: workflow_def)
    with later(2) obtain t where "el_due_at e = Some t" using workflow_not_blocked [OF later(1)] by metis
    with later(5) have "ps_next_due p1 \<noteq> None" by (simp add: sooner_def)
    with le quiet(3) show ?thesis by (simp add: pass_le_def)
  qed (use cancels in blast)+
qed

lemma quiet_pass:
  assumes "pass_over (workflow dump ns c) send now remaining steps p = Inr p'"
    and "rs_outstanding (ps_state p') = {}" "rs_submission (ps_state p') = None" "ps_next_due p' = None" "0 < remaining"
    and "runner_inv (ids @ submits (ps_effects p)) (ps_state p)" "set steps \<subseteq> set (rs_pending (ps_state p))"
    and "topological (done_ids (ps_state p) \<union> gone (ps_state p)) (map (\<lambda>x. (fst x, step_dependencies (snd x))) steps)"
  shows "fst ` set steps \<subseteq> gone (ps_state p')"
  using assms(1,6-8)
proof (induction steps arbitrary: p)
  case (Cons x rest)
  obtain i n where x: "x = (i, n)" by (cases x)
  let ?s = "ps_state p"
  have le: "pass_le p p'" by (rule workflow.pass_over_le [OF Cons.prems(1)])
  then have o: "rs_outstanding ?s = {}" "rs_submission ?s = None" using assms(2,3) by (auto simp: pass_le_def)
  obtain p1 where v: "visit (workflow dump ns c) send now remaining i n p = Inr p1"
      "pass_over (workflow dump ns c) send now remaining rest p1 = Inr p'"
    using pass_over_cases [OF Cons.prems(1) [unfolded x]] o assms(4) by auto
  have mem: "(i, n) \<in> set (rs_pending ?s)" using Cons.prems(3) x by simp
  have pl: "places ?s" using Cons.prems(2) by (simp add: runner_inv_def)
  have id: "step_id n = i" using pl mem unfolding places_def by fastforce
  have win: "\<And>w. rs_window ?s = Some w \<Longrightarrow> 0 < w" using Cons.prems(2) by (simp add: runner_inv_def window_ok_def)
  have top: "set (step_dependencies n) \<subseteq> done_ids ?s \<union> gone ?s"
    "topological (insert i (done_ids ?s \<union> gone ?s)) (map (\<lambda>x. (fst x, step_dependencies (snd x))) rest)"
    using Cons.prems(4) by (simp_all add: x)
  note le1 = workflow.pass_over_le [OF v(2)]
  have i: "i \<in> gone (ps_state p1)" by (rule quiet_visit [OF v(1) le1 assms(2-5) win top(1) id])
  note one = workflow.visit_inv [OF v(1) Cons.prems(2) mem]
  have dist: "distinct (map fst (x # rest))"
    using topological_distinct [OF Cons.prems(4)] by (simp add: comp_def)
  have rest: "set rest \<subseteq> set (rs_pending (ps_state p1))"
    by (rule workflow.still_pending_later [OF Cons.prems(3) [unfolded x] dist [unfolded x] one(3)])
  have pl1: "places (ps_state p1)" using one(1) by (simp add: runner_inv_def)
  have "fst ` set rest \<subseteq> pend (ps_state p1)" using rest unfolding pend_def by (rule image_mono)
  then have "fst ` set rest \<inter> (done_ids (ps_state p1) \<union> gone (ps_state p1)) = {}"
    using pl1 unfolding places_def by blast
  moreover have "insert i (done_ids ?s \<union> gone ?s) \<subseteq> done_ids (ps_state p1) \<union> gone (ps_state p1)"
    using i workflow.visit_le [OF v(1)] by (auto simp: pass_le_def done_ids_def)
  ultimately have "topological (done_ids (ps_state p1) \<union> gone (ps_state p1)) (map (\<lambda>x. (fst x, step_dependencies (snd x))) rest)"
    using topological_mono [OF top(2)] by (simp add: image_image)
  from Cons.IH [OF v(2) one(1) rest this] i le1 show ?case by (auto simp: x pass_le_def)
qed simp

lemma topological_filter:
  assumes "topological S xs" "S \<subseteq> T" "\<And>x. x \<in> set xs \<Longrightarrow> (fst x \<in> T) = (\<not> P (fst x))"
  shows "topological T (filter (\<lambda>x. P (fst x)) xs)"
  using assms
proof (induction S xs arbitrary: T rule: topological.induct)
  case (2 S i ds xs)
  have top: "topological (insert i S) xs" "set ds \<subseteq> S" "i \<notin> S" using 2(2) by simp_all
  have new: "fst x \<noteq> i" if "x \<in> set xs" for x using topological_distinct [OF top(1)] that by blast
  show ?case
  proof (cases "P i")
    case True
    have "topological (insert i T) (filter (\<lambda>x. P (fst x)) xs)"
      by (rule 2(1) [OF top(1)]) (use 2(3,4) new in auto)
    with True 2(3) 2(4) [of "(i, ds)"] top(2) show ?thesis by auto
  next
    case False
    then have "i \<in> T" using 2(4) [of "(i, ds)"] by simp
    then have "topological T (filter (\<lambda>x. P (fst x)) xs)"
      by (intro 2(1) [OF top(1)]) (use 2(3,4) in auto)
    with False show ?thesis by simp
  qed
qed simp

lemma conclude_total:
  assumes "rs_pending s \<noteq> [] \<Longrightarrow> rs_outstanding s = {} \<Longrightarrow> rs_submission s = None \<Longrightarrow> rs_timer s = None \<Longrightarrow> remaining \<le> 0"
  shows "\<exists>s' es' v. conclude lg remaining (s, es) = Inr (s', es', v)"
proof -
  consider "\<not> work_left lg s" | "work_left lg s" "remaining \<le> 0"
    | "work_left lg s" "0 < remaining" "\<not> (rs_pending s \<noteq> [] \<and> rs_outstanding s = {} \<and> rs_submission s = None \<and> rs_timer s = None)"
    using assms by fastforce
  then show ?thesis by cases (simp_all add: conclude_def del: de_Morgan_conj)
qed

lemma timer_set:
  assumes "rs_timer (fst (set_timer nd (s, es))) = None"
  shows "nd = None"
proof (cases nd)
  case (Some due)
  then show ?thesis
    using assms set_timer_eq(2) [of s due es] set_timer_eq(3) [of s _ due es] by (cases "rs_timer s") (auto split: if_splits)
qed simp

text \<open>Pending steps of a Runner that has nothing in flight wait for steps that are done.\<close>

lemma pending_topological:
  assumes "topological {} (step_edges ns)" "workflow_inv ns s" "places s" "rs_outstanding s = {}"
  shows "topological (done_ids s \<union> gone s) (map (\<lambda>x. (fst x, step_dependencies (snd x))) (rs_pending s))"
proof -
  have k: "rs_known s = map (\<lambda>n. (step_id n, n)) ns" and p: "rs_pending s = filter (\<lambda>x. fst x \<in> pend s) (rs_known s)"
    using assms(2) by (simp_all add: workflow_inv_def)
  have known: "known_ids s = step_id ` set ns" using k by (auto simp: known_ids_def image_image)
  have "(fst x \<in> done_ids s \<union> gone s) = (\<not> fst x \<in> pend s)" if "x \<in> set (step_edges ns)" for x
  proof -
    have "fst x \<in> known_ids s" using that unfolding known by (auto simp: step_edges_def)
    then show ?thesis using assms(3,4) unfolding places_def by blast
  qed
  from topological_filter [OF assms(1) _ this]
  have "topological (done_ids s \<union> gone s) (filter (\<lambda>x. fst x \<in> pend s) (step_edges ns))" by simp
  moreover have "map (\<lambda>x. (fst x, step_dependencies (snd x))) (rs_pending s) = filter (\<lambda>x. fst x \<in> pend s) (step_edges ns)"
    unfolding p k step_edges_def by (simp add: filter_map comp_def)
  ultimately show ?thesis by simp
qed

lemma conclude_timer:
  assumes "rs_pending s \<noteq> [] \<Longrightarrow> rs_outstanding s = {} \<Longrightarrow> rs_submission s = None \<Longrightarrow> nd = None \<Longrightarrow> remaining \<le> 0"
  shows "\<exists>s' es' v. conclude lg remaining (set_timer nd (s, es)) = Inr (s', es', v)"
proof -
  obtain a b where ab: "set_timer nd (s, es) = (a, b)" by (cases "set_timer nd (s, es)")
  obtain t where a: "a = s\<lparr>rs_timer := t\<rparr>" using set_timer_result [of nd s es] ab by auto
  have "rs_timer a = None \<Longrightarrow> nd = None" using timer_set [of nd s es] ab by simp
  with assms have "\<exists>s' es' v. conclude lg remaining (a, b) = Inr (s', es', v)"
    unfolding a by (intro conclude_total) simp
  then show ?thesis unfolding ab .
qed

text \<open>A pass that leaves steps with nothing in flight has set a due time, or the deadline is over.\<close>

lemma pass_feeds:
  assumes p: "pass_over (workflow dump ns c) send now remaining (rs_pending s)
      \<lparr>ps_state = s, ps_effects = es, ps_next_due = None\<rparr> = Inr p"
    and inv: "runner_inv (ids @ submits es) s" "workflow_inv ns s" "topological {} (step_edges ns)"
    and q: "rs_pending (ps_state p) \<noteq> []" "rs_outstanding (ps_state p) = {}" "rs_submission (ps_state p) = None"
      "ps_next_due p = None"
  shows "remaining \<le> 0"
proof (rule ccontr)
  assume "\<not> remaining \<le> 0"
  then have pos: "0 < remaining" by simp
  have pl: "places s" using inv(1) by (simp add: runner_inv_def)
  then have dist: "distinct (map fst (rs_pending s))" by (simp add: places_def)
  have "runner_inv (ids @ submits (ps_effects p)) (ps_state p)" using workflow.pass_inv [OF p, of ids] inv(1) dist by simp
  then have plp: "places (ps_state p)" by (simp add: runner_inv_def)
  have wp: "workflow_inv ns (ps_state p)" using workflow_pass [OF p, of ids] inv(1,2) dist by simp
  have le: "pass_le \<lparr>ps_state = s, ps_effects = es, ps_next_due = None\<rparr> p" by (rule workflow.pass_over_le [OF p])
  then have o: "rs_outstanding s = {}" using q(2) by (simp add: pass_le_def)
  have gone: "fst ` set (rs_pending s) \<subseteq> gone (ps_state p)"
    using quiet_pass [OF p q(2,3,4) pos, of ids] inv(1) pending_topological [OF inv(3,2) pl o] by simp
  obtain x where x: "x \<in> pend (ps_state p)" using q(1) by (cases "rs_pending (ps_state p)") (auto simp: pend_def)
  have "known_ids (ps_state p) = known_ids s" using inv(2) wp by (simp add: workflow_inv_def known_ids_def)
  then have "x \<in> known_ids s" using x plp unfolding places_def by blast
  moreover have "gone s \<subseteq> gone (ps_state p)" "done_ids (ps_state p) = done_ids s"
    using le by (simp_all add: pass_le_def done_ids_def)
  ultimately have "x \<in> pend s" using x o pl plp unfolding places_def by blast
  with gone x plp show False unfolding places_def pend_def [of s] by blast
qed

text \<open>
  C15.  A Runner of a validated workflow never waits without an event: a turn in which its
  collaborators (the payload models, the mailbox, its tasks) do not fail ends with a verdict, so the
  error for unresolved dependencies is unreachable.
\<close>

theorem workflow_never_stuck:
  assumes "workflow_runner dump ns c r timeout mo cooldown = Inr (lg, s0)" "runner_trace cd lg send create s0 es s"
    and "input_ok cd s inp" "take_messages cd lg create (ti_messages inp) s = Inr (s1, es1)" "take_tasks inp s1 = Inr s2"
    and "pass_over lg send (ti_now inp) (ti_remaining inp) (rs_pending s2)
      \<lparr>ps_state = s2, ps_effects = es1, ps_next_due = None\<rparr> = Inr p"
  shows "\<exists>s' es' v. run_turn cd lg send create inp s = Inr (s', es', v)"
proof (cases "work_left lg s")
  case False
  then show ?thesis by (simp add: run_turn_def)
next
  case True
  note init = workflow_runner_init [OF assms(1)]
  have inv: "runner_inv (submits es) s" "workflow_inv ns s" using workflow_trace [OF assms(2,1)] by blast+
  note a = assms(3) [unfolded input_ok_def, rule_format] and m = assms(4) [unfolded init(1)]
  have s1: "runner_inv (submits es) s1" "submits es1 = []" using take_messages_inv [OF m inv(1) a] by blast+
  have w1: "workflow_inv ns s1" by (rule workflow_take_messages [OF m inv(1) a inv(2)])
  note tasks = take_tasks_inv [OF assms(5)]
  have i2: "runner_inv (submits es @ submits es1) s2" using s1 tasks(1) by simp
  have w2: "workflow_inv ns s2" by (rule workflow_inv_same [OF w1]) (use tasks in simp_all)
  note fed = pass_feeds [OF assms(6) [unfolded init(1)] i2 w2 init(4)]
  have st: "run_turn cd lg send create inp s = conclude lg (ti_remaining inp) (set_timer (ps_next_due p) (ps_state p,
      ps_effects p @ (if ps_next_due p \<noteq> None \<and> rs_outstanding (ps_state p) = {} \<and> rs_submission (ps_state p) = None
                      then [ReleasedAdmission] else [])))"
    unfolding run_turn_stages [OF refl True] assms(4,5) rbind_Inr prod.case assms(6) ..
  show ?thesis unfolding st by (rule conclude_timer) (rule fed)
qed

section \<open>A worked run\<close>

text \<open>Two steps, the second after the first; the first fails.\<close>

definition sample_step :: "string \<Rightarrow> string list \<Rightarrow> step" where
  "sample_step i ds = \<lparr>step_id = i, step_request = wr_request sample_result, step_dependencies = ds,
     step_delay = Fin 0, step_due_at = None, step_message_sources = []\<rparr>"

definition sample_steps :: "step list" where
  "sample_steps = [sample_step ''a'' [], sample_step ''b'' [''a'']]"

definition sample_logic :: task_logic where
  "sample_logic = workflow (\<lambda>_. Inr []) sample_steps (Aware 0)"

definition sample_codec :: codec where
  "sample_codec = \<lparr>cd_completion = (\<lambda>_. Inr \<lparr>wc_step_id = ''a'', wc_metrics = [(KStr ''error_code'', PInt 500)],
       wc_generated_text = [], wc_request = wr_request sample_result\<rparr>),
     cd_cancellation = (\<lambda>_. Inl (ValueError ''no cancellation''))\<rparr>"

definition sample_runner_state :: runner_state where
  "sample_runner_state = \<lparr>rs_runner_id = ''r'', rs_window = Some 1, rs_cooldown = None, rs_timeout = 10,
     rs_next_worker_at = None, rs_results = [], rs_cancelled = [], rs_outstanding = {},
     rs_pending = map (\<lambda>n. (step_id n, n)) sample_steps, rs_known = map (\<lambda>n. (step_id n, n)) sample_steps,
     rs_submission = None, rs_timer = None, rs_timed_out = False\<rparr>"

definition idle_input :: turn_input where
  "idle_input = \<lparr>ti_messages = None, ti_submission = None, ti_timer = None, ti_now = 5, ti_remaining = 10\<rparr>"

definition completed_input :: turn_input where
  "completed_input = \<lparr>ti_messages = Some [sample_message\<lparr>msg_topic := ''worker.completed''\<rparr>],
     ti_submission = Some (Inr ()), ti_timer = None, ti_now = 6, ti_remaining = 9\<rparr>"

definition submitted_state :: runner_state where
  "submitted_state = sample_runner_state\<lparr>rs_outstanding := {''a''}, rs_submission := Some (sample_step ''a'' []),
     rs_pending := [(''b'', sample_step ''b'' [''a''])]\<rparr>"

lemma sample_workflow_runner:
  "workflow_runner (\<lambda>_. Inr []) sample_steps (Aware 0) ''r'' (Fin 10) (Some 1) None = Inr (sample_logic, sample_runner_state)"
  by (simp add: workflow_runner_def workflow_logic_def sample_logic_def sample_steps_def sample_step_def
      workflow_def new_runner_def check_runner_def raise_if_def finite_value_def sample_runner_state_def dict_of_def Let_def)

lemma sample_first_turn:
  "run_turn sample_codec sample_logic (\<lambda>_. Inr ()) (\<lambda>_. Inr ()) idle_input sample_runner_state =
     Inr (submitted_state, [Submitted (sample_step ''a'' [])], Waits)"
  by (simp add: run_turn_def work_left_def take_messages_def take_tasks_def conclude_def set_timer_def visit_def
      failed_dependencies_def submit_step_def has_capacity_def workflow_def workflow_eligibility_def delayed.simps
      later_def date_evaluate_def workflow_request_def prepare_step_def idle_input_def submitted_state_def
      sample_runner_state_def sample_steps_def sample_step_def sample_logic_def sample_result_def Let_def)

lemma sample_second_turn:
  "\<exists>s es. run_turn sample_codec sample_logic (\<lambda>_. Inr ()) (\<lambda>_. Inr ()) completed_input submitted_state = Inr (s, es, Finished)"
  by (simp add: run_turn_def work_left_def take_messages_def take_tasks_def conclude_def set_timer_def visit_def
      on_message_def progress_message_def on_completed_def set_default_def completed_result_def wr_succeeded_def
      dict_get_def default_on_message_def sample_codec_def
      failed_dependencies_def cancel_step_def workflow_def
      completed_input_def submitted_state_def sample_message_def
      sample_runner_state_def sample_steps_def sample_step_def sample_logic_def Let_def)

lemma sample_trace:
  "runner_trace sample_codec sample_logic (\<lambda>_. Inr ()) (\<lambda>_. Inr ()) sample_runner_state
     [Submitted (sample_step ''a'' [])] submitted_state"
  using runner_trace.turn [OF runner_trace.start _ sample_first_turn]
  by (simp add: input_ok_def idle_input_def)

lemma sample_arrival: "input_ok sample_codec submitted_state completed_input"
  by (simp add: input_ok_def arrivals_ok_def completed_input_def sample_codec_def submitted_state_def sample_message_def)

theorem runner_discipline_witness:
  "card (rs_outstanding submitted_state) \<le> 1 \<and> distinct (submits [Submitted (sample_step ''a'' [])])"
  using runner_discipline [OF sample_workflow_runner sample_trace]
  by (simp add: submitted_state_def sample_runner_state_def)

theorem runner_outcome_witness:
  "\<exists>s' es'. run_turn sample_codec sample_logic (\<lambda>_. Inr ()) (\<lambda>_. Inr ()) completed_input submitted_state =
       Inr (s', es', Finished) \<and>
     (''b'' \<in> done_ids s' \<longleftrightarrow> ''b'' \<notin> gone s') \<and> (''b'' \<in> done_ids s' \<longleftrightarrow> succeeded_in s' ''a'')"
proof -
  obtain s' es' where t: "run_turn sample_codec sample_logic (\<lambda>_. Inr ()) (\<lambda>_. Inr ()) completed_input submitted_state =
       Inr (s', es', Finished)" using sample_second_turn by blast
  have "sample_step ''b'' [''a''] \<in> set sample_steps" by (simp add: sample_steps_def)
  from bspec [OF runner_outcome [OF sample_workflow_runner sample_trace sample_arrival t] this]
  have "(''b'' \<in> done_ids s' \<longleftrightarrow> ''b'' \<notin> gone s') \<and> (''b'' \<in> done_ids s' \<longleftrightarrow> succeeded_in s' ''a'')"
    by (simp add: sample_step_def) blast
  with t show ?thesis by blast
qed

theorem workflow_never_stuck_witness:
  "\<exists>s' es' v. run_turn sample_codec sample_logic (\<lambda>_. Inr ()) (\<lambda>_. Inr ()) idle_input sample_runner_state = Inr (s', es', v)"
proof -
  have m: "take_messages sample_codec sample_logic (\<lambda>_. Inr ()) (ti_messages idle_input) sample_runner_state =
      Inr (sample_runner_state, [])" "take_tasks idle_input sample_runner_state = Inr sample_runner_state"
    by (simp_all add: take_messages_def take_tasks_def idle_input_def sample_runner_state_def)
  have "\<exists>p. pass_over sample_logic (\<lambda>_. Inr ()) (ti_now idle_input) (ti_remaining idle_input) (rs_pending sample_runner_state)
      \<lparr>ps_state = sample_runner_state, ps_effects = [], ps_next_due = None\<rparr> = Inr p"
    by (simp add: visit_def failed_dependencies_def submit_step_def has_capacity_def workflow_def workflow_eligibility_def
      later_def date_evaluate_def workflow_request_def prepare_step_def idle_input_def
      sample_runner_state_def sample_steps_def sample_step_def sample_logic_def sample_result_def Let_def)
  then obtain p where "pass_over sample_logic (\<lambda>_. Inr ()) (ti_now idle_input) (ti_remaining idle_input) (rs_pending sample_runner_state)
      \<lparr>ps_state = sample_runner_state, ps_effects = [], ps_next_due = None\<rparr> = Inr p" by blast
  from workflow_never_stuck [OF sample_workflow_runner runner_trace.start _ m this] show ?thesis
    by (simp add: input_ok_def idle_input_def)
qed

end
