(* ===== verification/Store_Refinement.thy ===== *)
theory Store_Refinement
  imports Store_Contract
begin

text \<open>
  The abstract specification of a Runner: it is submitted, admitted at most once, sends each of its
  requests at most once and only while it is live, and stops with one outcome.  The abstraction
  function forgets everything else of the database, and every transaction of the repository is
  shown to be a sequence of steps of the specification for every Runner at once.
\<close>

section \<open>The specification\<close>

datatype phase = Absent | Waiting | Live | Stopped runner_status

record run =
  run_phase :: phase
  run_sent :: "string set"

inductive run_step :: "run \<Rightarrow> run \<Rightarrow> bool" where
  submitted: "run_phase x = Absent \<Longrightarrow> run_step x (x\<lparr>run_phase := Waiting\<rparr>)"
| admitted: "run_phase x = Waiting \<Longrightarrow> run_step x (x\<lparr>run_phase := Live\<rparr>)"
| sent: "run_phase x = Live \<Longrightarrow> s \<notin> run_sent x \<Longrightarrow> run_step x (x\<lparr>run_sent := insert s (run_sent x)\<rparr>)"
| withdrawn: "run_phase x = Waiting \<Longrightarrow> run_step x (x\<lparr>run_phase := Stopped Cancelled\<rparr>)"
| stopped: "run_phase x = Live \<Longrightarrow> terminal st \<Longrightarrow> run_step x (x\<lparr>run_phase := Stopped st\<rparr>)"

abbreviation run_steps :: "run \<Rightarrow> run \<Rightarrow> bool" where
  "run_steps \<equiv> run_step\<^sup>*\<^sup>*"

inductive_cases from_stopped: "run_step \<lparr>run_phase = Stopped st, run_sent = X\<rparr> y"

section \<open>The abstraction\<close>

fun phase_of :: "runner_status option \<Rightarrow> phase" where
  "phase_of None = Absent"
| "phase_of (Some Queued) = Waiting"
| "phase_of (Some Running) = Live"
| "phase_of (Some st) = Stopped st"

definition was_sent :: "worker_row \<Rightarrow> bool" where
  "was_sent w \<longleftrightarrow> wk_state w \<notin> {WCreated, WCancelled}"

definition sent_steps :: "string \<Rightarrow> worker_row list \<Rightarrow> string set" where
  "sent_steps i ws = {wk_step_id w | w. w \<in> set ws \<and> wk_runner_id w = i \<and> was_sent w}"

definition run_of :: "string \<Rightarrow> db \<Rightarrow> run" where
  "run_of i d = \<lparr>run_phase = phase_of (map_option fst (runner_state (runners d) i)), run_sent = sent_steps i (workers d)\<rparr>"

lemma run_of_eq: "runner_state (runners d') = runner_state (runners d) \<Longrightarrow> sent_steps i (workers d') = sent_steps i (workers d) \<Longrightarrow>
    run_of i d' = run_of i d"
  by (simp add: run_of_def)

lemma run_of_frame: "runners d' = runners d \<Longrightarrow> workers d' = workers d \<Longrightarrow> run_of i d' = run_of i d"
  by (rule run_of_eq) simp_all

lemma phase_terminal [simp]: "terminal st \<Longrightarrow> phase_of (Some st) = Stopped st"
  by (cases st) simp_all

text \<open>The changes of the view as steps.\<close>

lemma run_of_cancels:
  assumes "cancels (runner_state (runners d)) (runner_state (runners d'))" "workers d' = workers d"
  shows "run_steps (run_of i d) (run_of i d')"
proof -
  from assms(1) consider "runner_state (runners d') i = runner_state (runners d) i"
    | n where "runner_state (runners d) i = Some (Queued, n)" "runner_state (runners d') i = Some (Cancelled, n)"
    unfolding cancels_def by blast
  then show ?thesis
  proof cases
    case 1
    then have "run_of i d' = run_of i d" using assms(2) by (simp add: run_of_def)
    then show ?thesis by simp
  next
    case (2 n)
    then have "run_of i d' = (run_of i d)\<lparr>run_phase := Stopped Cancelled\<rparr>" "run_phase (run_of i d) = Waiting"
      using assms(2) by (simp_all add: run_of_def)
    then show ?thesis using run_step.withdrawn [of "run_of i d"] by auto
  qed
qed

lemma run_of_quiet: "quiet d d' \<Longrightarrow> run_steps (run_of i d) (run_of i d')"
  by (rule run_of_cancels) (simp_all only: quietD)

lemma run_of_submit:
  assumes "run_id r \<notin> run_id ` set (runners d)" "run_status r = Queued"
    "runners d' = runners d @ [r]" "workers d' = workers d"
  shows "run_steps (run_of i d) (run_of i d')"
proof -
  have s: "runner_state (runners d') = (runner_state (runners d))(run_id r \<mapsto> (Queued, run_planned_workers r))"
    unfolding assms(3) by (subst runner_state_append [OF assms(1) refl]) (simp add: assms(2))
  show ?thesis
  proof (cases "i = run_id r")
    case True
    have "runner_state (runners d) i = None" using assms(1) True by (simp add: runner_state_def get_row_None)
    then have "run_of i d' = (run_of i d)\<lparr>run_phase := Waiting\<rparr>" "run_phase (run_of i d) = Absent"
      using s True assms(4) by (simp_all add: run_of_def)
    then show ?thesis using run_step.submitted [of "run_of i d"] by auto
  next
    case False
    then have "run_of i d' = run_of i d" using s assms(4) by (simp add: run_of_def)
    then show ?thesis by simp
  qed
qed

lemma run_of_moves:
  assumes r: "get_runner j d = Some r" and f: "\<And>r. run_id (f r) = run_id r"
    and d': "runners d' = update_where (\<lambda>r. run_id r = j) f (runners d)"
    and sent: "\<And>i. sent_steps i (workers d') = sent_steps i (workers d)"
    and step: "\<And>x. run_phase x = phase_of (Some (run_status r)) \<Longrightarrow> run_step x (x\<lparr>run_phase := phase_of (Some (run_status (f r)))\<rparr>)"
  shows "run_steps (run_of i d) (run_of i d')"
proof -
  have s: "runner_state (runners d') = (runner_state (runners d))(j \<mapsto> (run_status (f r), run_planned_workers (f r)))"
    unfolding d' by (rule runner_state_update [OF r f])
  show ?thesis
  proof (cases "i = j")
    case True
    have "run_of i d' = (run_of i d)\<lparr>run_phase := phase_of (Some (run_status (f r)))\<rparr>"
      using s sent True by (simp add: run_of_def)
    moreover have "run_phase (run_of i d) = phase_of (Some (run_status r))"
      using runner_state_get [OF r] True by (simp add: run_of_def)
    ultimately show ?thesis using step [of "run_of i d"] by auto
  next
    case False
    then have "run_of i d' = run_of i d" using s sent by (simp add: run_of_def)
    then show ?thesis by simp
  qed
qed

text \<open>The changes of Workers.\<close>

lemma sent_steps_update:
  assumes "\<And>w. w \<in> set ws \<Longrightarrow> p w \<Longrightarrow> wk_step_id (f w) = wk_step_id w \<and> wk_runner_id (f w) = wk_runner_id w \<and> was_sent (f w) = was_sent w"
  shows "sent_steps i (update_where p f ws) = sent_steps i ws"
proof -
  have m: "map (\<lambda>w. (wk_step_id w, wk_runner_id w, was_sent w)) (update_where p f ws) =
      map (\<lambda>w. (wk_step_id w, wk_runner_id w, was_sent w)) ws"
    unfolding update_where_def map_map comp_def
    by (rule map_cong [OF refl]) (simp add: assms)
  have e: "(\<lambda>w. (wk_step_id w, wk_runner_id w, was_sent w)) ` set (update_where p f ws) =
      (\<lambda>w. (wk_step_id w, wk_runner_id w, was_sent w)) ` set ws"
    using arg_cong [OF m, of set] by (simp only: set_map)
  have "sent_steps i vs = {s. (s, i, True) \<in> (\<lambda>w. (wk_step_id w, wk_runner_id w, was_sent w)) ` set vs}" for vs
    by (auto simp: sent_steps_def image_iff)
  then show ?thesis by (simp only: e)
qed

lemma was_sent_close [simp]: "was_sent (close_worker now w) = was_sent w"
  by (cases "wk_state w") (simp_all add: close_worker_def was_sent_def)

lemma sent_steps_close: "sent_steps i (update_where p (close_worker now) ws) = sent_steps i ws"
  by (rule sent_steps_update) simp

lemma sent_steps_append: "(\<And>w. w \<in> set vs \<Longrightarrow> wk_state w = WCreated) \<Longrightarrow> sent_steps i (ws @ vs) = sent_steps i ws"
  by (auto simp: sent_steps_def was_sent_def)

lemma create_workers_created:
  assumes "create_workers h j steps now d = Inr (u, d')"
  shows "\<exists>vs. workers d' = workers d @ vs \<and> (\<forall>v \<in> set vs. wk_state v = WCreated) \<and> runners d' = runners d"
proof (cases "steps = []")
  case True
  with assms show ?thesis by (auto simp: create_workers_def)
next
  case False
  from assms False obtain ws xs where
    ws: "foldR (\<lambda>ws s. insert_row wk_id (new_worker h j now s) ws) (workers d) xs = Inr ws"
    and d': "d' = d\<lparr>workers := ws\<rparr>"
    by (auto simp: create_workers_def Let_def split: option.splits if_splits)
  have "\<exists>vs. ws = workers d @ vs \<and> (\<forall>v \<in> set vs. wk_state v = WCreated)"
    by (rule foldR_invariant [where P = "\<lambda>ws. \<exists>vs. ws = workers d @ vs \<and> (\<forall>v \<in> set vs. wk_state v = WCreated)", OF ws])
      (auto simp: new_worker_def)
  with d' show ?thesis by auto
qed

lemma run_of_one_worker:
  assumes "runners d' = runners d" "workers d' = update_where (\<lambda>w. wk_id w = k) f (workers d)"
    and "view_ok rs (workers d) ms ats" "get_worker k d = Some w"
    and "wk_step_id (f w) = wk_step_id w" "wk_runner_id (f w) = wk_runner_id w" "was_sent (f w) = was_sent w"
  shows "run_of i d' = run_of i d"
proof -
  have "sent_steps i (workers d') = sent_steps i (workers d)"
    unfolding assms(2)
  proof (rule sent_steps_update)
    fix v assume "v \<in> set (workers d)" "wk_id v = k"
    then have "v = w" by (rule unique_worker [OF assms(3,4)])
    with assms(5-7) show "wk_step_id (f v) = wk_step_id v \<and> wk_runner_id (f v) = wk_runner_id v \<and> was_sent (f v) = was_sent v"
      by simp
  qed
  with assms(1) show ?thesis by (intro run_of_eq) simp_all
qed

section \<open>Every transaction refines the specification\<close>

lemma reserve_refines:
  assumes "db_ok d" "reserve_worker h j s window now d = Inr (b, d')"
  shows "run_steps (run_of i d) (run_of i d')"
  using assms(2)
proof (cases rule: reserve_worker_cases)
  case (2 r w)
  let ?k = "worker_identity j s" and ?f = "\<lambda>w. w\<lparr>wk_state := WSubmitted, wk_submitted_at := Some now\<rparr>"
  note v = db_okD(2) [OF assms(1)]
  have w: "w \<in> set (workers d)" "wk_id w = ?k" using get_row_Some [OF 2(4)] by auto
  have d': "runners d' = runners d" "workers d' = update_where (\<lambda>w. wk_id w = ?k) ?f (workers d)"
    unfolding 2(8) by (simp_all add: update_worker_def)
  have only: "x = w" if "x \<in> set (workers d)" "wk_id x = ?k" for x by (rule unique_worker [OF v 2(4) that])
  have key: "x = w" if "x \<in> set (workers d)" "worker_key x = worker_key w" for x
    using view_okD(2) [OF v] w(1) that by (auto simp: distinct_map inj_on_def)
  have mem: "x \<in> set (workers d') \<longleftrightarrow> x \<in> set (workers d) \<and> wk_id x \<noteq> ?k \<or> x = ?f w" for x
  proof
    assume "x \<in> set (workers d')"
    then obtain y where "y \<in> set (workers d)" "x = (if wk_id y = ?k then ?f y else y)"
      unfolding d'(2) set_update_where by blast
    with only show "x \<in> set (workers d) \<and> wk_id x \<noteq> ?k \<or> x = ?f w" by (cases "wk_id y = ?k") simp_all
  next
    assume "x \<in> set (workers d) \<and> wk_id x \<noteq> ?k \<or> x = ?f w"
    with w have "\<exists>y \<in> set (workers d). x = (if wk_id y = ?k then ?f y else y)" by auto
    then show "x \<in> set (workers d')" unfolding d'(2) set_update_where by blast
  qed
  have unsent: "x = w \<Longrightarrow> \<not> was_sent x" for x using 2(5) by (simp add: was_sent_def)
  have new: "s' \<in> sent_steps i' (workers d') \<longleftrightarrow> s' \<in> sent_steps i' (workers d) \<or> i' = wk_runner_id w \<and> s' = wk_step_id w" for i' s'
  proof
    assume "s' \<in> sent_steps i' (workers d')"
    then obtain x where "x \<in> set (workers d')" "s' = wk_step_id x" "wk_runner_id x = i'" "was_sent x"
      unfolding sent_steps_def by blast
    then show "s' \<in> sent_steps i' (workers d) \<or> i' = wk_runner_id w \<and> s' = wk_step_id w"
      unfolding mem by (auto simp: sent_steps_def)
  next
    assume "s' \<in> sent_steps i' (workers d) \<or> i' = wk_runner_id w \<and> s' = wk_step_id w"
    then show "s' \<in> sent_steps i' (workers d')"
    proof
      assume "s' \<in> sent_steps i' (workers d)"
      then obtain x where x: "x \<in> set (workers d)" "s' = wk_step_id x" "wk_runner_id x = i'" "was_sent x"
        unfolding sent_steps_def by blast
      with only unsent have "wk_id x \<noteq> ?k" by blast
      with x show ?thesis unfolding sent_steps_def mem by blast
    next
      assume "i' = wk_runner_id w \<and> s' = wk_step_id w"
      moreover have "was_sent (?f w)" by (simp add: was_sent_def)
      ultimately show ?thesis unfolding sent_steps_def mem
        by (intro CollectI exI [of _ "?f w"]) simp
    qed
  qed
  have "sent_steps (wk_runner_id w) (workers d') = insert (wk_step_id w) (sent_steps (wk_runner_id w) (workers d))"
    using new by blast
  moreover have "sent_steps i (workers d') = sent_steps i (workers d)" if "i \<noteq> wk_runner_id w"
    using new that by blast
  moreover have "wk_step_id w \<notin> sent_steps (wk_runner_id w) (workers d)"
  proof
    assume "wk_step_id w \<in> sent_steps (wk_runner_id w) (workers d)"
    then obtain x where "x \<in> set (workers d)" "worker_key x = worker_key w" "was_sent x"
      by (auto simp: sent_steps_def worker_key_def)
    with key unsent show False by blast
  qed
  moreover have "run_phase (run_of (wk_runner_id w) d) = Live"
  proof -
    have "is_open w" using 2(5) by (simp add: is_open_def)
    with view_okD(5) [OF v w(1)] show ?thesis by (auto simp: worker_ok_def run_of_def)
  qed
  ultimately show ?thesis
    using run_step.sent [of "run_of i d" "wk_step_id w"] d'(1)
    by (cases "i = wk_runner_id w") (auto simp: run_of_def)
qed simp

lemma commit_refines:
  assumes "db_ok d" "commit_worker h j res stored now d = Inr (m, d')"
  shows "run_of i d' = run_of i d"
  using assms(2)
proof (cases rule: commit_worker_cases)
  case (2 r w)
  let ?f = "\<lambda>w. w\<lparr>wk_state := (if wr_succeeded res then WSucceeded else WFailed),
                      wk_completed_at := Some (wr_completed_at res),
                      wk_completion_hash := Some (completion_hash (stored_key stored)),
                      wk_log_key := Some (stored_key stored)\<rparr>"
  show ?thesis
    by (rule run_of_one_worker [OF _ _ db_okD(2) [OF assms(1)] 2(3), of _ ?f])
      (use 2(4) in \<open>simp_all add: 2(8) update_worker_def was_sent_def\<close>)
qed simp

lemma publish_refines:
  assumes "db_ok d" "publish_message h msg now d = Inr (b, d')"
  shows "run_of i d' = run_of i d"
  using assms(2)
proof (cases rule: publish_message_cases)
  case (2 r)
  then show ?thesis by (intro run_of_frame) simp_all
next
  case (3 r s w)
  let ?f = "\<lambda>w. w\<lparr>wk_state := WCancelled, wk_completed_at := Some (msg_created_at msg),
            wk_metadata := dict_set (KStr ''cancellation'') (PDict (msg_payload msg)) (wk_metadata w)\<rparr>"
  have w: "get_worker (wk_id w) d = Some w" using 3(7) get_row_Some [OF 3(7)] by simp
  show ?thesis
    by (rule run_of_one_worker [OF _ _ db_okD(2) [OF assms(1)] w, of _ ?f])
      (use 3(8) in \<open>simp_all add: 3(9) update_worker_def was_sent_def\<close>)
qed simp

lemma emit_refines:
  assumes "emit_dispatch decode fresh now planner n d = Inr d'"
  shows "run_steps (run_of i d) (run_of i d')"
  using assms by (rule emit_dispatch_frame) (rule run_of_submit, simp_all)

lemma start_refines:
  assumes "start_selected read h j owner fresh now d = Inr (v, d')"
  shows "run_steps (run_of i d) (run_of i d')"
  using assms
proof (cases rule: start_selected_cases)
  case (2 r)
  show ?thesis
    by (rule run_of_moves [OF 2(2), of "\<lambda>r. r\<lparr>run_status := Cancelled, run_finished_at := Some now\<rparr>"])
      (simp_all add: 2(3,4) add_event_def update_runner_def run_step.withdrawn)
next
  case (3 r a)
  show ?thesis
    by (rule run_of_moves [OF 3(2), of "start_runner owner now"])
      (simp_all add: 3(3,8) add_event_def update_runner_def start_runner_def run_step.admitted)
qed simp

lemma end_refines:
  assumes r: "get_runner j d = Some r" "run_status r = Running" "terminal st"
    and f: "\<And>r. run_id (f r) = run_id r \<and> run_status (f r) = st"
    and d1: "runners d1 = update_where (\<lambda>r. run_id r = j) f (runners d)"
      "workers d1 = update_where (\<lambda>w. wk_runner_id w = j) (close_worker now) (workers d)" and q: "quiet d1 d'"
  shows "run_steps (run_of i d) (run_of i d')"
proof -
  have "run_steps (run_of i d) (run_of i d1)"
    by (rule run_of_moves [OF r(1) _ d1(1)])
      (use f r in \<open>simp_all add: d1(2) sent_steps_close run_step.stopped\<close>)
  also have "run_steps (run_of i d1) (run_of i d')" by (rule run_of_quiet [OF q])
  finally show ?thesis .
qed

lemma complete_refines:
  assumes "complete_runner h j summary metrics code log_ref st err now d = Inr (b, d')"
  shows "run_steps (run_of i d) (run_of i d')"
  using assms
proof (cases rule: complete_runner_cases)
  case (2 r d1)
  show ?thesis by (rule end_refines [OF 2(2) _ 2(4) _ 2(5,6,12)]) (use 2(3) in \<open>simp_all add: accepting_def\<close>)
qed simp

lemma finish_refines:
  assumes "finish_runner h j st message code log_ref now d = Inr (b, d')"
  shows "run_steps (run_of i d) (run_of i d')"
  using assms
proof (cases rule: finish_runner_cases)
  case (2 r d1 ended)
  show ?thesis by (rule end_refines [OF 2(2,3,4) _ 2(5,6,12)]) simp
qed simp

lemma cancel_refines:
  assumes "request_cancel j now d = Inr (v, d')"
  shows "run_steps (run_of i d) (run_of i d')"
proof -
  have "terminal s \<or> s = Queued \<or> s = Running" for s by (cases s) simp_all
  then consider "get_runner j d = None" | r where "get_runner j d = Some r" "terminal (run_status r)"
    | r where "get_runner j d = Some r" "run_status r = Queued" | r where "get_runner j d = Some r" "run_status r = Running"
    by (metis option.exhaust)
  then show ?thesis
  proof cases
    case (3 r)
    with assms obtain d1 where c: "checkpoint_task_result (cancel_queued_runner now r) Cancelled now no_evidence []
        (update_runner j (cancel_queued_runner now) d) = Inr d1"
      and d': "d' = add_event j Cancelled ''Cancelled before execution'' d1"
      by (auto simp: request_cancel_def Let_def)
    have "run_steps (run_of i d) (run_of i (update_runner j (cancel_queued_runner now) d))"
      by (rule run_of_moves [OF 3(1), of "cancel_queued_runner now"])
        (simp_all add: 3(2) cancel_queued_runner_def update_runner_def run_step.withdrawn)
    also have "run_steps (run_of i (update_runner j (cancel_queued_runner now) d)) (run_of i d1)"
      by (rule run_of_quiet [OF quiet_checkpoint [OF c]])
    also have "run_of i d1 = run_of i d'" unfolding d' by (rule run_of_frame [symmetric]) (simp_all add: add_event_def)
    finally show ?thesis .
  next
    case (4 r)
    with assms have d': "d' = add_event j Running ''Cancellation requested''
        (update_runner j (\<lambda>r. r\<lparr>run_cancel_requested := True\<rparr>) d)"
      by (auto simp: request_cancel_def Let_def)
    have "runner_state (runners d') = runner_state (runners d)"
      unfolding d' by (simp add: add_event_def update_runner_def runner_state_same)
    then have "run_of i d' = run_of i d" by (rule run_of_eq) (simp add: d' add_event_def update_runner_def)
    then show ?thesis by simp
  qed (use assms in \<open>auto simp: request_cancel_def\<close>)
qed

lemma heartbeat_refines:
  assumes "heartbeat_runners h ids refresh locked now d = Inr (x, d')"
  shows "run_of i d' = run_of i d"
proof -
  from assms consider "d' = d" | p where "d' = d\<lparr>runners := update_where p (\<lambda>r. r\<lparr>run_heartbeat_at := Some now\<rparr>) (runners d)\<rparr>"
    by (auto simp: heartbeat_runners_def Let_def split: if_splits)
  then show ?thesis
    by cases (simp, rule run_of_eq, simp_all add: runner_state_same)
qed

lemma cancel_campaign_refines:
  assumes "request_cancel_campaign c now d = Inr (v, d')"
  shows "run_steps (run_of i d) (run_of i d')"
  using assms
proof (cases rule: request_cancel_campaign_frame)
  case 2
  show ?thesis
    by (rule run_of_cancels [OF _ 2(2)]) (unfold 2(1), rule cancels_campaign, simp)
qed simp

lemma activate_refines:
  assumes "activate_node decode h k fresh due now d = Inr (v, d')"
  shows "run_steps (run_of i d) (run_of i d')"
  using assms
proof (cases rule: activate_node_cases)
  case (2 f n inst d1)
  have "run_of i (d\<lparr>nodes := f\<rparr>) = run_of i d" by (rule run_of_frame) simp_all
  moreover have "run_of i d' = run_of i d1" unfolding 2(2) by (rule run_of_frame) (simp_all add: update_instance_def)
  ultimately show ?thesis using emit_refines [OF 2(1), of i] by simp
qed simp

lemma step_refines:
  assumes "db_ok d" "db_step d d'"
  shows "run_steps (run_of i d) (run_of i d')"
  using assms(2)
proof cases
  case (lease l)
  then have "run_of i d' = run_of i d" by (intro run_of_frame) simp_all
  then show ?thesis by simp
next
  case (submit r rs)
  then show ?thesis by (intro run_of_submit [of r]) simp_all
next
  case (create h j steps now u)
  from create_workers_created [OF this] obtain vs where "workers d' = workers d @ vs"
    "\<forall>v \<in> set vs. wk_state v = WCreated" "runners d' = runners d" by blast
  then have "run_of i d' = run_of i d" by (intro run_of_eq) (simp_all add: sent_steps_append)
  then show ?thesis by simp
next
  case (acknowledge h j ids consumer now u)
  then obtain rs where "d' = d\<lparr>receipts := rs\<rparr>" using acknowledge_messages_frame by blast
  then have "run_of i d' = run_of i d" by (intro run_of_frame) simp_all
  then show ?thesis by simp
next
  case (change_plan pid action now v)
  from change_runner_plan_frame [OF this] have "run_of i d' = run_of i d" by (intro run_of_frame) simp_all
  then show ?thesis by simp
next
  case (materialize zones decode fresh limit planner locked now n)
  show ?thesis
  proof (rule materialize_due_work_steps [where P = "\<lambda>e. run_steps (run_of i d) (run_of i e)", OF materialize])
    fix p e e' k assume "run_steps (run_of i d) (run_of i e)" "materialize_plan zones planner now (fresh k) p e = Inr e'"
    then show "run_steps (run_of i d) (run_of i e')" using run_of_frame [of e' e i] materialize_plan_frame by auto
  next
    fix n e e' k assume "run_steps (run_of i d) (run_of i e)" "emit_dispatch decode (fresh k) now planner n e = Inr e'"
    then show "run_steps (run_of i d) (run_of i e')" using emit_refines [of decode "fresh k" now planner n e e' i] by auto
  qed simp
next
  case (commit h j res stored now m)
  from commit_refines [OF assms(1) this] show ?thesis by simp
next
  case (publish h msg now b)
  from publish_refines [OF assms(1) this] show ?thesis by simp
next
  case (heartbeat h ids refresh locked now x)
  from heartbeat_refines [OF this] show ?thesis by simp
qed (erule reserve_refines [OF assms(1)] activate_refines start_refines cancel_refines complete_refines
    finish_refines cancel_campaign_refines)+

text \<open>
  C2.  Refinement.  Whatever sequence of transactions runs from a database with its integrity,
  every Runner, seen through the abstraction, makes a run of the specification: submitted once,
  admitted at most once, each request sent at most once and only while live, one outcome that
  nothing follows.
\<close>

theorem execution_refines:
  assumes "db_ok d" "db_step\<^sup>*\<^sup>* d d'"
  shows "run_steps (run_of i d) (run_of i d')"
  using assms(2)
proof (induction rule: rtranclp_induct)
  case (step e f)
  have "db_ok e" by (rule db_steps_ok [OF step.hyps(1) assms(1)])
  with step show ?case by (blast intro: rtranclp_trans step_refines)
qed simp

theorem execution_refines_witness:
  "\<exists>d'. reserve_worker new_repo ''r'' ''s'' (Some 1) 5 (sample_db Running False WCreated) = Inr (True, d') \<and>
     run_steps (run_of ''r'' (sample_db Running False WCreated)) (run_of ''r'' d')"
  using execution_refines [OF sample_db_ok r_into_rtranclp [of db_step, OF db_step.reserve [OF sample_reserve]]] sample_reserve [of 5] by blast

end
