(* ===== verification/Workload_Admission.thy ===== *)
theory Workload_Admission
  imports Safety
begin

text \<open>
  \<open>assess_workload\<close> of \<open>compiler/safety.py\<close>: the Runners, RunnerPlans and task definitions of a
  submission are summed into one table of metrics, which is compared with the configured limits.

  A RunnerPlan carries the time zone its recurrence names; a task definition is its decoded recipe
  with the benchmark of its Runner template.  \<open>peak_actors\<close>, which the source sums and never
  reads, is left out.  \<open>WorkloadSafetyError\<close> is the verdict \<open>Rejected\<close>; other exceptions are
  errors of the result type.
\<close>

record totals =
  tt_planned_runners :: int
  tt_provider_requests :: int
  tt_token_budget :: int
  tt_max_runner_concurrency :: int
  tt_unknown_benchmarks :: int

definition no_totals :: totals where
  "no_totals = \<lparr>tt_planned_runners = 0, tt_provider_requests = 0, tt_token_budget = 0,
     tt_max_runner_concurrency = 0, tt_unknown_benchmarks = 0\<rparr>"

definition add_cost :: "totals \<Rightarrow> cost \<Rightarrow> int \<Rightarrow> totals" where
  "add_cost t c multiplier = t\<lparr>
     tt_planned_runners := tt_planned_runners t + multiplier,
     tt_provider_requests := tt_provider_requests t + co_requests c * multiplier,
     tt_token_budget := tt_token_budget t + co_tokens c * multiplier,
     tt_max_runner_concurrency := max (tt_max_runner_concurrency t) (co_concurrency c),
     tt_unknown_benchmarks := tt_unknown_benchmarks t + co_unknown c\<rparr>"

record workload_plan =
  wp_timing :: plan_timing
  wp_zone :: zone
  wp_benchmark :: "benchmark option"

record workload_task =
  wk_recipe :: task_recipe
  wk_benchmark :: "worker_template option"

definition runner_totals :: "int \<Rightarrow> totals \<Rightarrow> benchmark option \<Rightarrow> totals res" where
  "runner_totals capacity t b = rbind (benchmark_cost b capacity) (\<lambda>c. Inr (add_cost t c 1))"

definition plan_totals :: "int \<Rightarrow> instant \<Rightarrow> totals \<Rightarrow> workload_plan \<Rightarrow> totals res" where
  "plan_totals capacity now t p =
     rbind (benchmark_cost (wp_benchmark p) capacity) (\<lambda>c.
     rbind (plan_occurrences (wp_zone p) (wp_timing p) now) (\<lambda>k. Inr (add_cost t c k)))"

text \<open>An undeclared concurrency counts as the capacity.\<close>

definition estimated_template :: "int \<Rightarrow> worker_template \<Rightarrow> worker_template" where
  "estimated_template capacity wt =
     (if bm_concurrent_workers (wt_benchmark wt) = None
      then wt\<lparr>wt_benchmark := (wt_benchmark wt)\<lparr>bm_concurrent_workers := Some capacity\<rparr>\<rparr> else wt)"

fun required :: "string \<Rightarrow> 'a option \<Rightarrow> 'a res" where
  "required name None = Inl (KeyError name)"
| "required name (Some x) = Inr x"

definition task_tokens :: "workload_task \<Rightarrow> int res" where
  "task_tokens w =
     (case wk_benchmark w of
        None \<Rightarrow> Inr 0
      | Some wt \<Rightarrow>
          rbind (required ''mean_input_tokens'' (bm_mean_input_tokens (wt_benchmark wt))) (\<lambda>mean_in.
          rbind (required ''mean_output_tokens'' (bm_mean_output_tokens (wt_benchmark wt))) (\<lambda>mean_out.
            estimate_token_budget (wk_recipe w) mean_in mean_out (Some (wt_benchmark wt)))))"

definition task_totals :: "int \<Rightarrow> int \<Rightarrow> totals \<times> int \<Rightarrow> workload_task \<Rightarrow> (totals \<times> int) res" where
  "task_totals capacity per_actor = (\<lambda>(t, peak_requests) w.
     rbind (estimate (wk_recipe w) per_actor (map_option (estimated_template capacity) (wk_benchmark w))) (\<lambda>e.
     rbind (task_tokens w) (\<lambda>tokens.
       Inr (t\<lparr>tt_planned_runners := tt_planned_runners t + int (we_runners e),
              tt_provider_requests := tt_provider_requests t + int (we_requests e),
              tt_token_budget := tt_token_budget t + tokens,
              tt_max_runner_concurrency := max (tt_max_runner_concurrency t)
                (if wk_benchmark w \<noteq> None then int (we_max_concurrency e) else 0),
              tt_unknown_benchmarks := tt_unknown_benchmarks t + (if wk_benchmark w = None then 1 else 0)\<rparr>,
            peak_requests + int (we_peak_requests e)))))"

text \<open>The sums over a whole submission, and the bound on its simultaneous requests.\<close>

definition workload_totals ::
    "int \<Rightarrow> int \<Rightarrow> instant \<Rightarrow> benchmark option list \<Rightarrow> workload_plan list \<Rightarrow> workload_task list \<Rightarrow>
     (totals \<times> int) res" where
  "workload_totals capacity per_actor now runners plans tasks =
     rbind (foldR (runner_totals capacity) no_totals runners) (\<lambda>t.
     rbind (foldR (plan_totals capacity now) t plans) (\<lambda>t.
       foldR (task_totals capacity per_actor)
         (t, tt_planned_runners t * tt_max_runner_concurrency t) tasks))"

definition min_opt :: "int \<Rightarrow> int option \<Rightarrow> int" where
  "min_opt n bound = (case bound of Some b \<Rightarrow> min n b | None \<Rightarrow> n)"

record issue =
  is_code :: string
  is_value :: int
  is_limit :: int

record assessment =
  as_campaign_admission :: bool
  as_safe :: bool
  as_metrics :: "(string \<times> int) list"
  as_limits :: "(string \<times> int) list"
  as_risks :: "issue list"
  as_blocking :: "issue list"
  as_warnings :: "issue list"

definition CAMPAIGN_BUDGET_METRICS :: "string list" where
  "CAMPAIGN_BUDGET_METRICS = [''planned_runners'', ''provider_requests'', ''token_budget'']"

text \<open>One limit: above it a risk, blocking unless it is a campaign budget nobody opted into; near it a warning.\<close>

definition check_limit ::
    "guard_config \<Rightarrow> (string \<times> int) list \<Rightarrow> issue list \<times> issue list \<times> issue list \<Rightarrow> string \<times> int \<Rightarrow>
     (issue list \<times> issue list \<times> issue list) res" where
  "check_limit g metrics = (\<lambda>(risks, blocking, warnings) (metric, limit).
     rbind (required metric (map_of metrics metric)) (\<lambda>value.
       let issue = \<lparr>is_code = metric @ ''_limit'', is_value = value, is_limit = limit\<rparr>
       in Inr (if limit < value
               then (risks @ [issue],
                     if metric \<notin> set CAMPAIGN_BUDGET_METRICS \<or> g_campaign_admission g
                     then blocking @ [issue] else blocking, warnings)
               else if of_int limit * g_warning_ratio g \<le> of_int value
               then (risks, blocking, warnings @ [issue]) else (risks, blocking, warnings))))"

datatype verdict = Accepted assessment | Rejected assessment

definition workload_metrics :: "totals \<Rightarrow> int \<Rightarrow> int \<Rightarrow> (string \<times> int) list" where
  "workload_metrics t effective requested =
     [(''planned_runners'', tt_planned_runners t), (''provider_requests'', tt_provider_requests t),
      (''token_budget'', tt_token_budget t), (''max_runner_concurrency'', tt_max_runner_concurrency t),
      (''unknown_benchmarks'', tt_unknown_benchmarks t), (''effective_concurrency'', effective),
      (''requested_concurrency'', requested)]"

definition requested_concurrency :: "totals \<Rightarrow> int \<Rightarrow> int \<Rightarrow> int option \<Rightarrow> int" where
  "requested_concurrency t peak_requests slots runtime_limit =
     min_opt (min peak_requests (min (tt_planned_runners t) slots * tt_max_runner_concurrency t)) runtime_limit"

definition judge_workload ::
    "guard_config \<Rightarrow> totals \<Rightarrow> int \<Rightarrow> int \<Rightarrow> int option \<Rightarrow> int \<Rightarrow> int option \<Rightarrow> verdict res" where
  "judge_workload g t peak_requests slots actors per_actor runtime_limit =
     (let requested = requested_concurrency t peak_requests slots runtime_limit;
          effective = min_opt requested (map_option (\<lambda>a. a * per_actor) actors);
          metrics = workload_metrics t effective requested @
            (if actors = None then [] else [(''ray_actor_demand'', (effective + per_actor - 1) div per_actor)]);
          limits = workload_limits g @ (case actors of Some a \<Rightarrow> [(''ray_actor_demand'', a)] | None \<Rightarrow> []);
          limited = (if effective < requested
            then [\<lparr>is_code = ''request_capacity_limited'', is_value = requested, is_limit = effective\<rparr>] else [])
      in rbind (foldR (check_limit g metrics) ([], [], limited) limits) (\<lambda>(risks, blocking, warnings).
           let a = \<lparr>as_campaign_admission = g_campaign_admission g, as_safe = (risks = []),
                as_metrics = metrics, as_limits = limits, as_risks = risks, as_blocking = blocking,
                as_warnings = warnings @ (if tt_unknown_benchmarks t \<noteq> 0
                  then [\<lparr>is_code = ''backend_default_benchmark_unknown'', is_value = tt_unknown_benchmarks t,
                         is_limit = 0\<rparr>] else [])\<rparr>
           in Inr (if blocking = [] then Accepted a else Rejected a)))"

definition assess_workload ::
    "benchmark option list \<Rightarrow> workload_plan list \<Rightarrow> workload_task list \<Rightarrow> guard_config \<Rightarrow> int \<Rightarrow> int option \<Rightarrow>
     instant \<Rightarrow> int \<Rightarrow> int option \<Rightarrow> verdict res" where
  "assess_workload runners plans tasks g slots actors now per_actor runtime_limit =
     rbind (raise_if (per_actor < 1) (ValueError ''ray_actor_max_concurrency must be positive'')) (\<lambda>_.
     rbind (raise_if (case runtime_limit of Some n \<Rightarrow> n < 1 | None \<Rightarrow> False)
              (ValueError ''Runtime concurrent_workers must be positive'')) (\<lambda>_.
     let capacity = (case actors of Some a \<Rightarrow> a * per_actor | None \<Rightarrow> g_max_effective_concurrency g)
     in rbind (workload_totals capacity per_actor now runners plans tasks) (\<lambda>(t, peak_requests).
          judge_workload g t peak_requests slots actors per_actor runtime_limit)))"

section \<open>The comparison with the limits\<close>

text \<open>What exceeds its limit, in the order of the limits.\<close>

definition exceeded :: "(string \<times> int) list \<Rightarrow> (string \<times> int) list \<Rightarrow> string list" where
  "exceeded metrics limits = [m. (m, l) \<leftarrow> limits, (case map_of metrics m of Some v \<Rightarrow> l < v | None \<Rightarrow> False)]"

definition blocks :: "guard_config \<Rightarrow> string \<Rightarrow> bool" where
  "blocks g m \<longleftrightarrow> m \<notin> set CAMPAIGN_BUDGET_METRICS \<or> g_campaign_admission g"

lemma check_limits:
  assumes "\<forall>(m, l) \<in> set limits. map_of metrics m \<noteq> None"
  shows "\<exists>rs bs ws. foldR (check_limit g metrics) (risks, blocking, warnings) limits =
      Inr (risks @ rs, blocking @ bs, warnings @ ws) \<and>
    map is_code rs = map (\<lambda>m. m @ ''_limit'') (exceeded metrics limits) \<and>
    map is_code bs = map (\<lambda>m. m @ ''_limit'') (filter (blocks g) (exceeded metrics limits))"
  using assms
proof (induction limits arbitrary: risks blocking warnings)
  case (Cons x limits)
  obtain m l v where x: "x = (m, l)" "map_of metrics m = Some v" using Cons.prems by (cases x) auto
  define i where "i = \<lparr>is_code = m @ ''_limit'', is_value = v, is_limit = l\<rparr>"
  define R where "R = (if l < v then [i] else [])"
  define B where "B = (if l < v \<and> blocks g m then [i] else [])"
  define W where "W = (if \<not> l < v \<and> of_int l * g_warning_ratio g \<le> of_int v then [i] else [])"
  have step: "check_limit g metrics (risks, blocking, warnings) x = Inr (risks @ R, blocking @ B, warnings @ W)"
    by (simp add: check_limit_def x(1) x(2) blocks_def Let_def R_def B_def W_def i_def)
  have codes: "map is_code R = map (\<lambda>m. m @ ''_limit'') (exceeded metrics [x])"
    "map is_code B = map (\<lambda>m. m @ ''_limit'') (filter (blocks g) (exceeded metrics [x]))"
    by (simp_all add: exceeded_def x(1) x(2) R_def B_def i_def)
  have split: "exceeded metrics (x # limits) = exceeded metrics [x] @ exceeded metrics limits"
    by (simp add: exceeded_def)
  obtain rs bs ws where r: "foldR (check_limit g metrics) (risks @ R, blocking @ B, warnings @ W) limits =
      Inr ((risks @ R) @ rs, (blocking @ B) @ bs, (warnings @ W) @ ws)"
    "map is_code rs = map (\<lambda>m. m @ ''_limit'') (exceeded metrics limits)"
    "map is_code bs = map (\<lambda>m. m @ ''_limit'') (filter (blocks g) (exceeded metrics limits))"
    using Cons.IH [of "risks @ R" "blocking @ B" "warnings @ W"] Cons.prems by auto
  have "foldR (check_limit g metrics) (risks, blocking, warnings) (x # limits) =
      Inr (risks @ (R @ rs), blocking @ (B @ bs), warnings @ (W @ ws))"
    unfolding foldR.simps step rbind_Inr r(1) by simp
  moreover have "map is_code (R @ rs) = map (\<lambda>m. m @ ''_limit'') (exceeded metrics (x # limits))"
    "map is_code (B @ bs) = map (\<lambda>m. m @ ''_limit'') (filter (blocks g) (exceeded metrics (x # limits)))"
    unfolding split by (simp_all add: codes r(2,3))
  ultimately show ?case by blast
qed (simp add: exceeded_def)

lemma exceeded_empty: "exceeded metrics limits = [] \<longleftrightarrow>
    (\<forall>(m, l) \<in> set limits. \<forall>v. map_of metrics m = Some v \<longrightarrow> v \<le> l)"
  by (induction limits) (auto simp: exceeded_def split: option.splits if_splits)

lemma judge_workload_cases:
  assumes "judge_workload g t peak slots actors per_actor runtime_limit = Inr v"
  obtains a where "v = (if as_blocking a = [] then Accepted a else Rejected a)"
    "as_safe a \<longleftrightarrow> exceeded (as_metrics a) (as_limits a) = []"
    "as_blocking a = [] \<longleftrightarrow> filter (blocks g) (exceeded (as_metrics a) (as_limits a)) = []"
    "as_metrics a = workload_metrics t
        (min_opt (requested_concurrency t peak slots runtime_limit) (map_option (\<lambda>n. n * per_actor) actors))
        (requested_concurrency t peak slots runtime_limit) @
      (if actors = None then [] else [(''ray_actor_demand'',
        (min_opt (requested_concurrency t peak slots runtime_limit) (map_option (\<lambda>n. n * per_actor) actors) +
         per_actor - 1) div per_actor)])"
    "as_limits a = workload_limits g @ (case actors of Some n \<Rightarrow> [(''ray_actor_demand'', n)] | None \<Rightarrow> [])"
proof -
  define requested where "requested = requested_concurrency t peak slots runtime_limit"
  define effective where "effective = min_opt requested (map_option (\<lambda>n. n * per_actor) actors)"
  define metrics where "metrics = workload_metrics t effective requested @
      (if actors = None then [] else [(''ray_actor_demand'', (effective + per_actor - 1) div per_actor)])"
  define limits where "limits = workload_limits g @ (case actors of Some n \<Rightarrow> [(''ray_actor_demand'', n)] | None \<Rightarrow> [])"
  have known: "\<forall>(m, l) \<in> set limits. map_of metrics m \<noteq> None"
    by (auto simp: limits_def metrics_def workload_limits_def workload_metrics_def split: option.splits)
  obtain rs bs ws where loop: "foldR (check_limit g metrics) ([], [], (if effective < requested
      then [\<lparr>is_code = ''request_capacity_limited'', is_value = requested, is_limit = effective\<rparr>] else [])) limits =
      Inr (rs, bs, ws)" "map is_code rs = map (\<lambda>m. m @ ''_limit'') (exceeded metrics limits)"
      "map is_code bs = map (\<lambda>m. m @ ''_limit'') (filter (blocks g) (exceeded metrics limits))"
    using check_limits [OF known, of g "[]" "[]"] by fastforce
  have empty: "rs = [] \<longleftrightarrow> exceeded metrics limits = []" "bs = [] \<longleftrightarrow> filter (blocks g) (exceeded metrics limits) = []"
    using loop(2,3) by (metis map_is_Nil_conv)+
  let ?a = "\<lparr>as_campaign_admission = g_campaign_admission g, as_safe = (rs = []), as_metrics = metrics,
      as_limits = limits, as_risks = rs, as_blocking = bs, as_warnings = ws @ (if tt_unknown_benchmarks t \<noteq> 0
        then [\<lparr>is_code = ''backend_default_benchmark_unknown'', is_value = tt_unknown_benchmarks t, is_limit = 0\<rparr>]
        else [])\<rparr>"
  have "judge_workload g t peak slots actors per_actor runtime_limit = Inr (if bs = [] then Accepted ?a else Rejected ?a)"
    unfolding judge_workload_def Let_def requested_def [symmetric] effective_def [symmetric]
      metrics_def [symmetric] limits_def [symmetric] loop(1) by simp
  with assms have v: "v = (if bs = [] then Accepted ?a else Rejected ?a)" by simp
  show ?thesis
    by (rule that [of ?a]; unfold v assessment.simps)
      (simp_all only: empty metrics_def effective_def requested_def limits_def refl if_True)
qed

lemma assess_workload_judged:
  assumes "assess_workload runners plans tasks g slots actors now per_actor runtime_limit = Inr v"
  obtains t peak where "1 \<le> per_actor" "\<forall>n. runtime_limit = Some n \<longrightarrow> 1 \<le> n"
    "workload_totals (case actors of Some a \<Rightarrow> a * per_actor | None \<Rightarrow> g_max_effective_concurrency g)
       per_actor now runners plans tasks = Inr (t, peak)"
    "judge_workload g t peak slots actors per_actor runtime_limit = Inr v"
  using assms by (auto simp: assess_workload_def Let_def split: option.splits)

lemma demand_within:
  assumes "1 \<le> k" and "n \<le> a * k"
  shows "(n + k - 1) div k \<le> (a :: int)"
proof -
  have "(n + k - 1) div k \<le> (a * k + k - 1) div k" using assms by (intro zdiv_mono1) simp_all
  also have "\<dots> = ((k - 1) + a * k) div k" by (simp add: algebra_simps)
  also have "\<dots> = a" using assms(1) by (intro div_offset) simp_all
  finally show ?thesis .
qed

text \<open>
  C32.  The verdict on a workload.  Every limit has its metric; the workload is safe exactly when
  no metric exceeds its limit, and it is rejected exactly when one that is not a campaign budget
  does, or any does once campaign budgets are opted into.  The concurrency it can reach never
  exceeds the slots of the actors or the limit of its runtime, so the demand for actors alone
  never rejects a workload.
\<close>

theorem assess_verdict:
  assumes "assess_workload runners plans tasks g slots actors now per_actor runtime_limit = Inr v"
  shows "\<exists>a e. v \<in> {Accepted a, Rejected a} \<and>
    (\<forall>(m, l) \<in> set (as_limits a). \<exists>n. map_of (as_metrics a) m = Some n) \<and>
    (as_safe a \<longleftrightarrow> (\<forall>(m, l) \<in> set (as_limits a). the (map_of (as_metrics a) m) \<le> l)) \<and>
    (v = Accepted a \<longleftrightarrow> (\<forall>(m, l) \<in> set (as_limits a). blocks g m \<longrightarrow> the (map_of (as_metrics a) m) \<le> l)) \<and>
    map_of (as_metrics a) ''effective_concurrency'' = Some e \<and>
    (\<forall>n. runtime_limit = Some n \<longrightarrow> e \<le> n) \<and>
    (\<forall>n. actors = Some n \<longrightarrow> e \<le> n * per_actor \<and>
       map_of (as_limits a) ''ray_actor_demand'' = Some n \<and> the (map_of (as_metrics a) ''ray_actor_demand'') \<le> n)"
proof -
  obtain t peak where w: "1 \<le> per_actor" "judge_workload g t peak slots actors per_actor runtime_limit = Inr v"
    using assess_workload_judged [OF assms] by metis
  obtain a where a: "v = (if as_blocking a = [] then Accepted a else Rejected a)"
    "as_safe a \<longleftrightarrow> exceeded (as_metrics a) (as_limits a) = []"
    "as_blocking a = [] \<longleftrightarrow> filter (blocks g) (exceeded (as_metrics a) (as_limits a)) = []"
    and m: "as_metrics a = workload_metrics t
        (min_opt (requested_concurrency t peak slots runtime_limit) (map_option (\<lambda>n. n * per_actor) actors))
        (requested_concurrency t peak slots runtime_limit) @
      (if actors = None then [] else [(''ray_actor_demand'',
        (min_opt (requested_concurrency t peak slots runtime_limit) (map_option (\<lambda>n. n * per_actor) actors) +
         per_actor - 1) div per_actor)])"
    and l: "as_limits a = workload_limits g @ (case actors of Some n \<Rightarrow> [(''ray_actor_demand'', n)] | None \<Rightarrow> [])"
    using judge_workload_cases [OF w(2)] by metis
  let ?e = "min_opt (requested_concurrency t peak slots runtime_limit) (map_option (\<lambda>n. n * per_actor) actors)"
  have known: "\<forall>(x, k) \<in> set (as_limits a). \<exists>n. map_of (as_metrics a) x = Some n"
    by (auto simp: l m workload_limits_def workload_metrics_def split: option.splits)
  have safe: "as_safe a \<longleftrightarrow> (\<forall>(x, k) \<in> set (as_limits a). the (map_of (as_metrics a) x) \<le> k)"
    unfolding a(2) exceeded_empty using known by fastforce
  have "as_blocking a = [] \<longleftrightarrow> (\<forall>x \<in> set (exceeded (as_metrics a) (as_limits a)). \<not> blocks g x)"
    unfolding a(3) by (simp add: filter_empty_conv)
  also have "\<dots> \<longleftrightarrow> (\<forall>(x, k) \<in> set (as_limits a). blocks g x \<longrightarrow> the (map_of (as_metrics a) x) \<le> k)"
    using known by (fastforce simp: exceeded_def split: option.splits if_splits)
  finally have accepted: "v = Accepted a \<longleftrightarrow> (\<forall>(x, k) \<in> set (as_limits a). blocks g x \<longrightarrow> the (map_of (as_metrics a) x) \<le> k)"
    using a(1) by simp
  have "?e \<le> n" if "runtime_limit = Some n" for n
    using that by (auto simp: min_opt_def requested_concurrency_def split: option.splits)
  moreover have "?e \<le> n * per_actor" if "actors = Some n" for n
    using that by (simp add: min_opt_def)
  moreover have "map_of (as_limits a) ''ray_actor_demand'' = Some n \<and> the (map_of (as_metrics a) ''ray_actor_demand'') \<le> n"
    if "actors = Some n" for n
    using that demand_within [OF w(1), of ?e n]
    by (simp add: l m workload_limits_def workload_metrics_def min_opt_def)
  moreover have "map_of (as_metrics a) ''effective_concurrency'' = Some ?e"
    by (simp add: m workload_metrics_def)
  moreover have "v \<in> {Accepted a, Rejected a}" using a(1) by simp
  ultimately show ?thesis using known safe accepted by blast
qed

section \<open>What an accepted workload contains\<close>

text \<open>One entry of a submission: the Runners, requests and tokens it adds and its own concurrency.\<close>

record part =
  pt_runners :: int
  pt_requests :: int
  pt_tokens :: int
  pt_concurrency :: int

definition cost_part :: "cost \<Rightarrow> int \<Rightarrow> part" where
  "cost_part c k = \<lparr>pt_runners = k, pt_requests = co_requests c * k, pt_tokens = co_tokens c * k,
     pt_concurrency = co_concurrency c\<rparr>"

definition runner_part :: "int \<Rightarrow> benchmark option \<Rightarrow> part res" where
  "runner_part capacity b = rbind (benchmark_cost b capacity) (\<lambda>c. Inr (cost_part c 1))"

definition plan_part :: "int \<Rightarrow> instant \<Rightarrow> workload_plan \<Rightarrow> part res" where
  "plan_part capacity now p =
     rbind (benchmark_cost (wp_benchmark p) capacity) (\<lambda>c.
     rbind (plan_occurrences (wp_zone p) (wp_timing p) now) (\<lambda>k. Inr (cost_part c k)))"

definition task_part :: "int \<Rightarrow> int \<Rightarrow> workload_task \<Rightarrow> part res" where
  "task_part capacity per_actor w =
     rbind (estimate (wk_recipe w) per_actor (map_option (estimated_template capacity) (wk_benchmark w))) (\<lambda>e.
     rbind (task_tokens w) (\<lambda>tokens.
       Inr \<lparr>pt_runners = int (we_runners e), pt_requests = int (we_requests e), pt_tokens = tokens,
            pt_concurrency = (if wk_benchmark w \<noteq> None then int (we_max_concurrency e) else 0)\<rparr>))"

definition workload_parts ::
    "int \<Rightarrow> int \<Rightarrow> instant \<Rightarrow> benchmark option list \<Rightarrow> workload_plan list \<Rightarrow> workload_task list \<Rightarrow> part list res" where
  "workload_parts capacity per_actor now runners plans tasks =
     rbind (mapR (runner_part capacity) runners) (\<lambda>as.
     rbind (mapR (plan_part capacity now) plans) (\<lambda>bs.
     rbind (mapR (task_part capacity per_actor) tasks) (\<lambda>cs. Inr (as @ bs @ cs))))"

text \<open>The table after some parts, from the table before them.\<close>

definition adds :: "totals \<Rightarrow> part list \<Rightarrow> totals \<Rightarrow> bool" where
  "adds t ps t' \<longleftrightarrow>
     tt_planned_runners t' = tt_planned_runners t + sum_list (map pt_runners ps) \<and>
     tt_provider_requests t' = tt_provider_requests t + sum_list (map pt_requests ps) \<and>
     tt_token_budget t' = tt_token_budget t + sum_list (map pt_tokens ps) \<and>
     tt_max_runner_concurrency t' = fold max (map pt_concurrency ps) (tt_max_runner_concurrency t)"

lemma adds_Nil [simp]: "adds t [] t"
  by (simp add: adds_def)

lemma adds_append: "adds t ps u \<Longrightarrow> adds u qs v \<Longrightarrow> adds t (ps @ qs) v"
  by (simp add: adds_def)

lemma fold_max_upper: "p \<in> set xs \<or> p = m \<Longrightarrow> p \<le> fold max xs (m :: int)"
proof (induction xs arbitrary: m p)
  case (Cons x xs)
  have "max x m \<le> fold max xs (max x m)" by (rule Cons.IH [OF disjI2 [OF refl]])
  then have "x \<le> fold max xs (max x m)" "m \<le> fold max xs (max x m)" by (simp_all only: max.bounded_iff)
  with Cons.IH [of p "max x m"] Cons.prems show ?case by auto
qed simp

lemma foldR_adds:
  assumes "\<And>s x s'. f s x = Inr s' \<Longrightarrow> \<exists>p. part_of x = Inr p \<and> adds (table s) [p] (table s')"
  shows "foldR f s xs = Inr s' \<Longrightarrow> \<exists>ps. mapR part_of xs = Inr ps \<and> adds (table s) ps (table s')"
proof (induction xs arbitrary: s)
  case (Cons x xs)
  then obtain u where u: "f s x = Inr u" "foldR f u xs = Inr s'" by auto
  obtain p where p: "part_of x = Inr p" "adds (table s) [p] (table u)" using assms [OF u(1)] by blast
  obtain ps where ps: "mapR part_of xs = Inr ps" "adds (table u) ps (table s')" using Cons.IH [OF u(2)] by blast
  have "adds (table s) (p # ps) (table s')" using adds_append [OF p(2) ps(2)] by simp
  with p(1) ps(1) show ?case by simp
qed simp

lemma workload_totals_parts:
  assumes "workload_totals capacity per_actor now runners plans tasks = Inr (t, peak)"
  shows "\<exists>ps. workload_parts capacity per_actor now runners plans tasks = Inr ps \<and> adds no_totals ps t"
proof -
  from assms obtain t1 t2 where f: "foldR (runner_totals capacity) no_totals runners = Inr t1"
      "foldR (plan_totals capacity now) t1 plans = Inr t2"
      "foldR (task_totals capacity per_actor) (t2, tt_planned_runners t2 * tt_max_runner_concurrency t2) tasks = Inr (t, peak)"
    by (auto simp: workload_totals_def)
  have "\<exists>ps. mapR (runner_part capacity) runners = Inr ps \<and> adds no_totals ps t1"
    by (rule foldR_adds [where table = "\<lambda>t. t", OF _ f(1)])
      (auto simp: runner_totals_def runner_part_def adds_def add_cost_def cost_part_def max.commute)
  moreover have "\<exists>ps. mapR (plan_part capacity now) plans = Inr ps \<and> adds t1 ps t2"
    by (rule foldR_adds [where table = "\<lambda>t. t", OF _ f(2)])
      (auto simp: plan_totals_def plan_part_def adds_def add_cost_def cost_part_def max.commute)
  moreover have "\<exists>ps. mapR (task_part capacity per_actor) tasks = Inr ps \<and>
      adds (fst (t2, tt_planned_runners t2 * tt_max_runner_concurrency t2)) ps (fst (t, peak))"
    by (rule foldR_adds [where table = fst, OF _ f(3)])
      (auto simp: task_totals_def task_part_def adds_def max.commute split: prod.splits)
  ultimately show ?thesis
    by (auto simp: workload_parts_def intro: adds_append)
qed

text \<open>
  C31.  An accepted workload can be trusted entry by entry: no Runner, plan or task definition in
  it asks for more concurrency than the guard allows one Runner, what can run at once stays within
  the guard's bound, and once campaign budgets are opted into the Runners, requests and tokens of
  all entries together stay within them.
\<close>

theorem accepted_workload:
  assumes "assess_workload runners plans tasks g slots actors now per_actor runtime_limit = Inr (Accepted a)"
  shows "\<exists>ps e. workload_parts (case actors of Some n \<Rightarrow> n * per_actor | None \<Rightarrow> g_max_effective_concurrency g)
        per_actor now runners plans tasks = Inr ps \<and>
      length ps = length runners + length plans + length tasks \<and>
      (\<forall>p \<in> set ps. pt_concurrency p \<le> g_max_runner_concurrency g) \<and>
      map_of (as_metrics a) ''effective_concurrency'' = Some e \<and> e \<le> g_max_effective_concurrency g \<and>
      (g_campaign_admission g \<longrightarrow>
         sum_list (map pt_runners ps) \<le> g_max_campaign_runners g \<and>
         sum_list (map pt_requests ps) \<le> g_max_campaign_requests g \<and>
         sum_list (map pt_tokens ps) \<le> g_max_campaign_tokens g)"
proof -
  obtain t peak where w: "workload_totals (case actors of Some n \<Rightarrow> n * per_actor | None \<Rightarrow> g_max_effective_concurrency g)
       per_actor now runners plans tasks = Inr (t, peak)"
      "judge_workload g t peak slots actors per_actor runtime_limit = Inr (Accepted a)"
    using assess_workload_judged [OF assms] by metis
  obtain ps where ps: "workload_parts (case actors of Some n \<Rightarrow> n * per_actor | None \<Rightarrow> g_max_effective_concurrency g)
       per_actor now runners plans tasks = Inr ps" "adds no_totals ps t"
    using workload_totals_parts [OF w(1)] by blast
  obtain b where "Accepted a = (if as_blocking b = [] then Accepted b else Rejected b)"
    and none: "as_blocking b = [] \<longleftrightarrow> filter (blocks g) (exceeded (as_metrics b) (as_limits b)) = []"
    and m: "as_metrics b = workload_metrics t
        (min_opt (requested_concurrency t peak slots runtime_limit) (map_option (\<lambda>n. n * per_actor) actors))
        (requested_concurrency t peak slots runtime_limit) @
      (if actors = None then [] else [(''ray_actor_demand'',
        (min_opt (requested_concurrency t peak slots runtime_limit) (map_option (\<lambda>n. n * per_actor) actors) +
         per_actor - 1) div per_actor)])"
    and l: "as_limits b = workload_limits g @ (case actors of Some n \<Rightarrow> [(''ray_actor_demand'', n)] | None \<Rightarrow> [])"
    using judge_workload_cases [OF w(2)] by metis
  then have b: "b = a" "as_blocking a = []" by (simp_all split: if_splits)
  have none': "filter (blocks g) (exceeded (as_metrics a) (as_limits a)) = []" using none b by simp
  have within: "v \<le> k" if "(x, k) \<in> set (workload_limits g)" "map_of (as_metrics a) x = Some v" "blocks g x" for x k v
  proof (rule ccontr)
    assume "\<not> v \<le> k"
    then have "x \<in> set (exceeded (as_metrics a) (as_limits a))"
      using that(1,2) l b(1) by (force simp: exceeded_def)
    with none' that(3) show False by (simp add: filter_empty_conv)
  qed
  let ?e = "min_opt (requested_concurrency t peak slots runtime_limit) (map_option (\<lambda>n. n * per_actor) actors)"
  have e: "map_of (as_metrics a) ''effective_concurrency'' = Some ?e"
    "map_of (as_metrics a) ''max_runner_concurrency'' = Some (tt_max_runner_concurrency t)"
    "map_of (as_metrics a) ''planned_runners'' = Some (tt_planned_runners t)"
    "map_of (as_metrics a) ''provider_requests'' = Some (tt_provider_requests t)"
    "map_of (as_metrics a) ''token_budget'' = Some (tt_token_budget t)"
    using m b(1) by (simp_all add: workload_metrics_def)
  have most: "?e \<le> g_max_effective_concurrency g"
    by (rule within [OF _ e(1)]) (simp_all add: workload_limits_def blocks_def CAMPAIGN_BUDGET_METRICS_def)
  have "tt_max_runner_concurrency t \<le> g_max_runner_concurrency g"
    by (rule within [OF _ e(2)]) (simp_all add: workload_limits_def blocks_def CAMPAIGN_BUDGET_METRICS_def)
  then have each: "\<forall>p \<in> set ps. pt_concurrency p \<le> g_max_runner_concurrency g"
    using ps(2) fold_max_upper [OF disjI1, of _ "map pt_concurrency ps" "tt_max_runner_concurrency no_totals"]
    by (auto simp: adds_def intro: order_trans)
  have len: "length ps = length runners + length plans + length tasks"
    using ps(1) by (auto simp: workload_parts_def dest!: mapR_length)
  have "tt_planned_runners t = sum_list (map pt_runners ps)" "tt_provider_requests t = sum_list (map pt_requests ps)"
    "tt_token_budget t = sum_list (map pt_tokens ps)"
    using ps(2) by (simp_all add: adds_def no_totals_def)
  then have budget: "sum_list (map pt_runners ps) \<le> g_max_campaign_runners g \<and>
      sum_list (map pt_requests ps) \<le> g_max_campaign_requests g \<and>
      sum_list (map pt_tokens ps) \<le> g_max_campaign_tokens g" if "g_campaign_admission g"
    using within [OF _ e(3)] within [OF _ e(4)] within [OF _ e(5)] that by (simp add: workload_limits_def blocks_def)
  show ?thesis using ps(1) len each e(1) most budget by blast
qed

section \<open>A worked submission\<close>

definition small_benchmark :: benchmark where
  "small_benchmark = empty_benchmark\<lparr>bm_repeat := Some 4, bm_concurrent_workers := Some 2,
     bm_mean_input_tokens := Some 10, bm_mean_output_tokens := Some 5\<rparr>"

definition small_plan :: workload_plan where
  "small_plan = \<lparr>wp_timing = half_hour_plan, wp_zone = utc_zone, wp_benchmark = Some small_benchmark\<rparr>"

lemma small_cost: "benchmark_cost (Some small_benchmark) 8 =
    Inr \<lparr>co_requests = 4, co_tokens = 60, co_concurrency = 2, co_unknown = 0\<rparr>"
  by (simp add: benchmark_cost_def small_benchmark_def empty_benchmark_def requested_workers_def planned_worker_count_def
      planned_token_budget_def decode_plan_def MAX_REQUEST_STEPS_def validate_graph_def worker_count_def plain_spec_def
      spec_message_sources_def step_prompt_tokens_def or_else_def Let_def)

lemma small_assessment:
  "\<exists>a. assess_workload [Some small_benchmark] [small_plan] [] default_guard 10 (Some 4) 0 2 (Some 6) = Inr (Accepted a) \<and>
     map_of (as_metrics a) ''effective_concurrency'' = Some 6 \<and> as_safe a"
proof -
  have "plan_occurrences utc_zone half_hour_plan 0 = Inr 3" by code_simp
  then have t: "workload_totals 8 2 0 [Some small_benchmark] [small_plan] [] = Inr (\<lparr>tt_planned_runners = 4,
      tt_provider_requests = 16, tt_token_budget = 240, tt_max_runner_concurrency = 2, tt_unknown_benchmarks = 0\<rparr>, 8)"
    by (simp add: workload_totals_def runner_totals_def plan_totals_def small_plan_def small_cost add_cost_def no_totals_def)
  show ?thesis
    by (simp add: assess_workload_def t judge_workload_def requested_concurrency_def min_opt_def workload_metrics_def
        workload_limits_def check_limit_def default_guard_def CAMPAIGN_BUDGET_METRICS_def Let_def)
qed

theorem assess_verdict_witness:
  "\<exists>v. assess_workload [Some small_benchmark] [small_plan] [] default_guard 10 (Some 4) 0 2 (Some 6) = Inr v \<and>
     (\<exists>a e. v \<in> {Accepted a, Rejected a} \<and> map_of (as_metrics a) ''effective_concurrency'' = Some e \<and> e \<le> 6)"
proof -
  obtain a where "assess_workload [Some small_benchmark] [small_plan] [] default_guard 10 (Some 4) 0 2 (Some 6) = Inr (Accepted a)"
    using small_assessment by blast
  with assess_verdict [OF this] show ?thesis by blast
qed

theorem accepted_workload_witness:
  "\<exists>ps. workload_parts 8 2 0 [Some small_benchmark] [small_plan] [] = Inr ps \<and> length ps = 2"
proof -
  obtain a where "assess_workload [Some small_benchmark] [small_plan] [] default_guard 10 (Some 4) 0 2 (Some 6) = Inr (Accepted a)"
    using small_assessment by blast
  from accepted_workload [OF this] show ?thesis by auto
qed

end
