(* ===== verification/Campaign_Status.thy ===== *)
theory Campaign_Status
  imports Store_Runners
begin

text \<open>
  What a campaign reports about itself (\<open>_campaign_runtime\<close>, \<open>get_campaign_status\<close> and the answer
  of \<open>request_cancel_campaign\<close> in \<open>storage/repository.py\<close>): its status and outcome, derived from
  the states of its Runners, plans, task instances and dispatches and never stored.

  The theorems say what each answer means for the rows of the campaign: pending exactly while
  something can still run, and what a cancelled campaign still waits for.
\<close>

section \<open>Counting states\<close>

text \<open>The source takes either a list of states or a table of counts per state.\<close>

datatype 'a tally = Listed "'a list" | Counted "('a \<times> int) list"

fun tally_count :: "'a tally \<Rightarrow> 'a \<Rightarrow> int" where
  "tally_count (Listed xs) s = int (count_list xs s)"
| "tally_count (Counted m) s = (case map_of m s of Some n \<Rightarrow> n | None \<Rightarrow> 0)"

definition group_counts :: "'a list \<Rightarrow> ('a \<times> int) list" where
  "group_counts xs = map (\<lambda>s. (s, int (count_list xs s))) (remdups xs)"

lemma tally_group_counts [simp]: "tally_count (Counted (group_counts xs)) s = int (count_list xs s)"
proof (cases "s \<in> set xs")
  case True
  then have "map_of (group_counts xs) s = Some (int (count_list xs s))"
    by (auto simp: group_counts_def map_of_map_restrict restrict_map_def)
  then show ?thesis by simp
next
  case False
  then have "map_of (group_counts xs) s = None"
    by (auto simp: group_counts_def map_of_map_restrict restrict_map_def)
  with False show ?thesis by (simp add: count_list_0_iff)
qed

lemma count_list_pos: "0 < count_list xs s \<longleftrightarrow> s \<in> set xs"
  using count_list_0_iff [of xs s] by auto

definition tally_sum :: "'a tally \<Rightarrow> 'a list \<Rightarrow> int" where
  "tally_sum t states = sum_list (map (tally_count t) states)"

definition runner_states :: "runner_status list" where
  "runner_states = [Queued, Running, Succeeded, Failed, Cancelled]"

definition plan_states :: "plan_status list" where
  "plan_states = [PlanActive, PlanPaused, PlanCompleted, PlanCancelled]"

definition task_states :: "instance_state list" where
  "task_states = [IPlanned, IActive, ICompleted, IFailed, ICancelled]"

definition dispatch_states :: "node_state list" where
  "dispatch_states = [NBlocked, NPending, NEmitted, NCancelled]"

section \<open>Status and outcome\<close>

datatype campaign_status = CampaignRunning | CampaignQueued | CampaignPlanned | CampaignPaused
  | CampaignCancelled | CampaignCompleted | CampaignEmpty

datatype campaign_outcome = OutcomePending | OutcomeFailed | OutcomePartial | OutcomeSucceeded
  | OutcomeCancelled | OutcomeNoRuns

definition campaign_status ::
    "runner_status tally \<Rightarrow> plan_status tally \<Rightarrow> instance_state tally \<Rightarrow> node_state tally \<Rightarrow> campaign_status" where
  "campaign_status rt pt it dt =
     (let runner_count = tally_sum rt runner_states; plan_count = tally_sum pt plan_states;
          instance_count = tally_sum it task_states; dispatch_count = tally_sum dt dispatch_states
      in if tally_count rt Running \<noteq> 0 then CampaignRunning
         else if tally_count rt Queued \<noteq> 0 then CampaignQueued
         else if tally_count it IPlanned + tally_count it IActive \<noteq> 0 \<or>
                 tally_count dt NBlocked + tally_count dt NPending \<noteq> 0 then CampaignPlanned
         else if tally_count pt PlanActive \<noteq> 0 then CampaignPlanned
         else if tally_count pt PlanPaused \<noteq> 0 then CampaignPaused
         else if runner_count = 0 \<and> plan_count = 0
         then (if instance_count \<noteq> 0
               then (if tally_count it ICancelled = instance_count then CampaignCancelled else CampaignCompleted)
               else if dispatch_count \<noteq> 0
               then (if tally_count dt NCancelled = dispatch_count then CampaignCancelled else CampaignCompleted)
               else CampaignEmpty)
         else if runner_count = 0
         then (if tally_count pt PlanCancelled = plan_count then CampaignCancelled else CampaignCompleted)
         else if tally_count rt Cancelled = runner_count \<and> (runner_count \<noteq> 0 \<or> tally_count pt PlanCancelled \<noteq> 0)
         then CampaignCancelled
         else CampaignCompleted)"

definition campaign_outcome ::
    "runner_status tally \<Rightarrow> instance_state tally \<Rightarrow> campaign_status \<Rightarrow> campaign_outcome" where
  "campaign_outcome rt it status =
     (let runner_count = tally_sum rt runner_states; instance_count = tally_sum it task_states
      in if status \<in> {CampaignRunning, CampaignQueued, CampaignPlanned, CampaignPaused} then OutcomePending
         else if tally_count it IFailed \<noteq> 0
         then (if tally_count it IFailed = instance_count then OutcomeFailed else OutcomePartial)
         else if runner_count = 0
         then (if status = CampaignCancelled then OutcomeCancelled else OutcomeNoRuns)
         else if tally_count rt Failed = runner_count then OutcomeFailed
         else if tally_count rt Failed \<noteq> 0 then OutcomePartial
         else if tally_count rt Succeeded = runner_count then OutcomeSucceeded
         else if tally_count rt Cancelled \<noteq> 0 then OutcomeCancelled
         else OutcomeNoRuns)"

record campaign_view =
  cv_status :: campaign_status
  cv_outcome :: campaign_outcome
  cv_has_failures :: bool
  cv_runner_count :: int
  cv_status_counts :: "(runner_status \<times> int) list"
  cv_runner_plan_count :: int
  cv_runner_plan_status_counts :: "(plan_status \<times> int) list"
  cv_task_instance_count :: int
  cv_task_instance_status_counts :: "(instance_state \<times> int) list"
  cv_dispatch_count :: int
  cv_dispatch_status_counts :: "(node_state \<times> int) list"

definition state_counts :: "'a tally \<Rightarrow> 'a list \<Rightarrow> ('a \<times> int) list" where
  "state_counts t states = map (\<lambda>s. (s, tally_count t s)) states"

definition campaign_runtime ::
    "runner_status tally \<Rightarrow> plan_status tally \<Rightarrow> instance_state tally \<Rightarrow> node_state tally \<Rightarrow> campaign_view" where
  "campaign_runtime rt pt it dt =
     (let status = campaign_status rt pt it dt
      in \<lparr>cv_status = status, cv_outcome = campaign_outcome rt it status,
          cv_has_failures = (tally_count rt Failed \<noteq> 0 \<or> tally_count it IFailed \<noteq> 0),
          cv_runner_count = tally_sum rt runner_states, cv_status_counts = state_counts rt runner_states,
          cv_runner_plan_count = tally_sum pt plan_states, cv_runner_plan_status_counts = state_counts pt plan_states,
          cv_task_instance_count = tally_sum it task_states,
          cv_task_instance_status_counts = state_counts it task_states,
          cv_dispatch_count = tally_sum dt dispatch_states,
          cv_dispatch_status_counts = state_counts dt dispatch_states\<rparr>)"

text \<open>The rows of one campaign.\<close>

definition campaign_runners :: "string \<Rightarrow> db \<Rightarrow> runner_status list" where
  "campaign_runners c d = map run_status (filter (\<lambda>r. run_campaign_id r = Some c) (runners d))"

definition campaign_plans :: "string \<Rightarrow> db \<Rightarrow> plan_status list" where
  "campaign_plans c d = map pl_status (filter (\<lambda>p. pl_campaign_id p = c) (plans d))"

definition campaign_instances :: "string \<Rightarrow> db \<Rightarrow> instance_state list" where
  "campaign_instances c d = map in_state (filter (\<lambda>i. in_campaign_id i = c) (instances d))"

definition campaign_dispatches :: "string \<Rightarrow> db \<Rightarrow> node_state list" where
  "campaign_dispatches c d = map nd_state (filter (\<lambda>n. nd_campaign_id n = c) (nodes d))"

definition get_campaign_status :: "string \<Rightarrow> db \<Rightarrow> (campaign_row \<times> campaign_view) option" where
  "get_campaign_status c d =
     (case get_row cp_id c (campaigns d) of
        None \<Rightarrow> None
      | Some campaign \<Rightarrow> Some (campaign, campaign_runtime (Counted (group_counts (campaign_runners c d)))
          (Counted (group_counts (campaign_plans c d))) (Counted (group_counts (campaign_instances c d)))
          (Counted (group_counts (campaign_dispatches c d)))))"

text \<open>The answer of the cancellation, computed from the rows it has just changed.\<close>

definition cancel_campaign :: "string \<Rightarrow> instant \<Rightarrow> db \<Rightarrow> (campaign_row \<times> campaign_view) option tx" where
  "cancel_campaign c now d =
     rbind (request_cancel_campaign c now d) (\<lambda>(found, d').
       Inr (map_option (\<lambda>campaign. (campaign, campaign_runtime (Listed (campaign_runners c d'))
         (Listed (campaign_plans c d')) (Listed (campaign_instances c d')) (Listed (campaign_dispatches c d')))) found, d'))"

section \<open>What the answers mean\<close>

lemma campaign_runtime_counts:
  assumes "tally_count rt = tally_count rt'" "tally_count pt = tally_count pt'"
    "tally_count it = tally_count it'" "tally_count dt = tally_count dt'"
  shows "campaign_runtime rt pt it dt = campaign_runtime rt' pt' it' dt'"
  unfolding campaign_runtime_def campaign_status_def campaign_outcome_def tally_sum_def state_counts_def assms ..

lemma grouped: "tally_count (Counted (group_counts xs)) = tally_count (Listed xs)"
  by (rule ext) (simp del: tally_count.simps(2))

text \<open>Every state of a row is one of the counted ones, so nothing is lost in the sums.\<close>

lemma tally_sums:
  "tally_sum (Listed rs) runner_states = int (length rs)"
  "tally_sum (Listed ps) plan_states = int (length ps)"
  "tally_sum (Listed is) task_states = int (length is)"
  "tally_sum (Listed ns) dispatch_states = int (length ns)"
proof -
  show "tally_sum (Listed rs) runner_states = int (length rs)"
    by (induction rs) (auto simp: tally_sum_def runner_states_def, (metis runner_status.exhaust)+)
  show "tally_sum (Listed ps) plan_states = int (length ps)"
    by (induction ps) (auto simp: tally_sum_def plan_states_def, (metis plan_status.exhaust)+)
  show "tally_sum (Listed is) task_states = int (length is)"
    by (induction "is") (auto simp: tally_sum_def task_states_def, (metis instance_state.exhaust)+)
  show "tally_sum (Listed ns) dispatch_states = int (length ns)"
    by (induction ns) (auto simp: tally_sum_def dispatch_states_def, (metis node_state.exhaust)+)
qed

lemma listed_nonzero: "tally_count (Listed xs) s \<noteq> 0 \<longleftrightarrow> s \<in> set xs"
  by (simp add: count_list_0_iff)

lemma listed_all: "tally_count (Listed xs) s = int (length xs) \<longleftrightarrow> (\<forall>x \<in> set xs. x = s)"
proof (induction xs)
  case (Cons x xs)
  then show ?case using count_le_length [of xs s] by auto
qed simp

lemma listed_pair: "tally_count (Listed xs) s + tally_count (Listed xs) t \<noteq> 0 \<longleftrightarrow> s \<in> set xs \<or> t \<in> set xs"
  using count_list_pos [of xs s] count_list_pos [of xs t] by auto

text \<open>Something of the campaign can still change.\<close>

definition campaign_open :: "runner_status list \<Rightarrow> plan_status list \<Rightarrow> instance_state list \<Rightarrow> node_state list \<Rightarrow> bool" where
  "campaign_open rs ps is ns \<longleftrightarrow> Running \<in> set rs \<or> Queued \<in> set rs \<or> IPlanned \<in> set is \<or> IActive \<in> set is \<or>
     NBlocked \<in> set ns \<or> NPending \<in> set ns \<or> PlanActive \<in> set ps \<or> PlanPaused \<in> set ps"

lemmas listed_simps = listed_nonzero listed_all listed_pair tally_sums of_nat_eq_0_iff length_0_conv

lemma campaign_status_listed:
  "campaign_status (Listed rs) (Listed ps) (Listed is) (Listed ns) =
     (if Running \<in> set rs then CampaignRunning else if Queued \<in> set rs then CampaignQueued
      else if IPlanned \<in> set is \<or> IActive \<in> set is \<or> NBlocked \<in> set ns \<or> NPending \<in> set ns then CampaignPlanned
      else if PlanActive \<in> set ps then CampaignPlanned else if PlanPaused \<in> set ps then CampaignPaused
      else if rs \<noteq> [] then (if \<forall>r \<in> set rs. r = Cancelled then CampaignCancelled else CampaignCompleted)
      else if ps \<noteq> [] then (if \<forall>p \<in> set ps. p = PlanCancelled then CampaignCancelled else CampaignCompleted)
      else if is \<noteq> [] then (if \<forall>i \<in> set is. i = ICancelled then CampaignCancelled else CampaignCompleted)
      else if ns \<noteq> [] then (if \<forall>n \<in> set ns. n = NCancelled then CampaignCancelled else CampaignCompleted)
      else CampaignEmpty)"
  unfolding campaign_status_def Let_def listed_simps by simp

lemma campaign_status_open:
  "campaign_status (Listed rs) (Listed ps) (Listed is) (Listed ns) \<in>
     {CampaignRunning, CampaignQueued, CampaignPlanned, CampaignPaused} \<longleftrightarrow> campaign_open rs ps is ns"
  unfolding campaign_status_listed campaign_open_def by simp

lemma campaign_outcome_listed:
  "campaign_outcome (Listed rs) (Listed is) (campaign_status (Listed rs) (Listed ps) (Listed is) (Listed ns)) =
     (if campaign_open rs ps is ns then OutcomePending
      else if IFailed \<in> set is then (if \<forall>i \<in> set is. i = IFailed then OutcomeFailed else OutcomePartial)
      else if rs = [] then (if campaign_status (Listed rs) (Listed ps) (Listed is) (Listed ns) = CampaignCancelled
        then OutcomeCancelled else OutcomeNoRuns)
      else if \<forall>r \<in> set rs. r = Failed then OutcomeFailed else if Failed \<in> set rs then OutcomePartial
      else if \<forall>r \<in> set rs. r = Succeeded then OutcomeSucceeded
      else if Cancelled \<in> set rs then OutcomeCancelled else OutcomeNoRuns)"
  unfolding campaign_outcome_def Let_def campaign_status_open listed_simps ..

lemma campaign_view_listed:
  assumes "get_campaign_status c d = Some (campaign, v)"
  shows "v = campaign_runtime (Listed (campaign_runners c d)) (Listed (campaign_plans c d))
    (Listed (campaign_instances c d)) (Listed (campaign_dispatches c d))"
  using assms unfolding get_campaign_status_def
  by (auto split: option.splits intro!: campaign_runtime_counts grouped)

text \<open>
  C6.  The outcome of a campaign.  It is pending exactly while a Runner is queued or running, an
  instance planned or active, a dispatch blocked or pending, or a plan active or paused.  Once it
  is not, it is a failure, whole or partial, exactly when a Runner or a task instance failed; it
  succeeded exactly when there were Runners, all succeeded and no instance failed; and it had no
  runs only when it has no Runner.
\<close>

theorem campaign_outcome_exact:
  assumes "get_campaign_status c d = Some (campaign, v)"
  shows "(cv_outcome v = OutcomePending \<longleftrightarrow>
      campaign_open (campaign_runners c d) (campaign_plans c d) (campaign_instances c d) (campaign_dispatches c d)) \<and>
    (cv_outcome v \<noteq> OutcomePending \<longrightarrow>
      (cv_outcome v \<in> {OutcomeFailed, OutcomePartial} \<longleftrightarrow>
         Failed \<in> set (campaign_runners c d) \<or> IFailed \<in> set (campaign_instances c d))) \<and>
    (cv_outcome v = OutcomeSucceeded \<longrightarrow> campaign_runners c d \<noteq> [] \<and> set (campaign_runners c d) = {Succeeded} \<and>
      IFailed \<notin> set (campaign_instances c d)) \<and>
    (cv_outcome v = OutcomeNoRuns \<longrightarrow> campaign_runners c d = [])"
proof -
  define rs where "rs = campaign_runners c d"
  define "is" where "is = campaign_instances c d"
  define ps where "ps = campaign_plans c d"
  define ns where "ns = campaign_dispatches c d"
  have v: "cv_outcome v = campaign_outcome (Listed rs) (Listed is)
      (campaign_status (Listed rs) (Listed ps) (Listed is) (Listed ns))"
    unfolding campaign_view_listed [OF assms] campaign_runtime_def rs_def is_def ps_def ns_def by (simp add: Let_def)
  have ended: "r \<in> {Succeeded, Failed, Cancelled}" if "\<not> campaign_open rs ps is ns" "r \<in> set rs" for r
    using that by (cases r) (auto simp: campaign_open_def)
  have "rs = []" if "cv_outcome v = OutcomeNoRuns"
  proof (rule ccontr)
    assume "rs \<noteq> []"
    with that have o: "\<not> campaign_open rs ps is ns" "Failed \<notin> set rs" "Cancelled \<notin> set rs" "\<exists>r \<in> set rs. r \<noteq> Succeeded"
      unfolding v campaign_outcome_listed by (auto split: if_splits)
    then show False using ended [OF o(1)] by blast
  qed
  moreover have "cv_outcome v \<in> {OutcomeFailed, OutcomePartial} \<longleftrightarrow> Failed \<in> set rs \<or> IFailed \<in> set is"
    if "\<not> campaign_open rs ps is ns"
    using that unfolding v campaign_outcome_listed
    by (cases "rs = []") (auto simp: neq_Nil_conv)
  moreover have "rs \<noteq> [] \<and> set rs = {Succeeded} \<and> IFailed \<notin> set is" if "cv_outcome v = OutcomeSucceeded"
    using that unfolding v campaign_outcome_listed by (cases rs) (auto split: if_splits)
  moreover have "cv_outcome v = OutcomePending \<longleftrightarrow> campaign_open rs ps is ns"
    unfolding v campaign_outcome_listed by simp
  ultimately show ?thesis unfolding rs_def is_def ps_def ns_def by blast
qed

lemma update_where_closes:
  assumes "\<And>r. P r \<Longrightarrow> state (f r) \<notin> S" and "\<And>r. member r \<Longrightarrow> \<not> P r \<Longrightarrow> state r \<notin> S"
  shows "set (map state (filter member (update_where P f rows))) \<inter> S = {}"
proof (induction rows)
  case (Cons r rows)
  then show ?case using assms(1) [of r] assms(2) [of r] by (cases "P r") auto
qed simp

lemma request_cancel_campaign_rows:
  assumes "request_cancel_campaign c now d = Inr (Some campaign, d')"
  shows "get_row cp_id c (campaigns d') = Some campaign"
    and "runners d' = update_where (\<lambda>r. run_campaign_id r = Some c \<and> \<not> terminal (run_status r))
      (cancel_campaign_runner now) (runners d)"
    and "set (campaign_plans c d') \<inter> {PlanActive, PlanPaused} = {}"
    and "set (campaign_instances c d') \<inter> {IPlanned, IActive} = {}"
    and "set (campaign_dispatches c d') \<inter> {NBlocked, NPending} = {}"
proof -
  obtain campaign' where found: "get_row cp_id c (campaigns d) = Some campaign'"
    using assms by (cases "get_row cp_id c (campaigns d)") (simp_all add: request_cancel_campaign_def)
  note r = assms [unfolded request_cancel_campaign_def Let_def found option.case, THEN sum.inject(2) [THEN iffD1],
      THEN prod.inject [THEN iffD1]]
  note d' = conjunct2 [OF r, symmetric]
  have tables: "campaigns d' = campaigns d"
    "runners d' = update_where (\<lambda>r. run_campaign_id r = Some c \<and> \<not> terminal (run_status r))
      (cancel_campaign_runner now) (runners d)"
    "plans d' = update_where (\<lambda>p. pl_campaign_id p = c \<and> pl_status p \<in> {PlanActive, PlanPaused})
      (\<lambda>p. p\<lparr>pl_status := PlanCancelled, pl_updated_at := now\<rparr>) (plans d)"
    "instances d' = update_where (\<lambda>i. in_campaign_id i = c \<and> \<not> instance_terminal (in_state i))
      (\<lambda>i. i\<lparr>in_state := ICancelled, in_error := Some ''Campaign cancelled'', in_updated_at := now\<rparr>) (instances d)"
    "nodes d' = update_where (\<lambda>n. nd_campaign_id n = c \<and> nd_state n \<in> {NBlocked, NPending})
      (\<lambda>n. n\<lparr>nd_state := NCancelled\<rparr>) (nodes d)"
    unfolding d' by simp_all
  have "campaign' = campaign" using conjunct1 [OF r] by simp
  with found tables(1) show "get_row cp_id c (campaigns d') = Some campaign" by metis
  show "runners d' = update_where (\<lambda>r. run_campaign_id r = Some c \<and> \<not> terminal (run_status r))
      (cancel_campaign_runner now) (runners d)" by (rule tables(2))
  show "set (campaign_plans c d') \<inter> {PlanActive, PlanPaused} = {}"
    unfolding campaign_plans_def tables(3) by (rule update_where_closes) simp_all
  have open_state: "s \<noteq> IPlanned \<and> s \<noteq> IActive" if "instance_terminal s" for s using that by (cases s) auto
  show "set (campaign_instances c d') \<inter> {IPlanned, IActive} = {}"
    unfolding campaign_instances_def tables(4) by (rule update_where_closes) (simp_all add: open_state)
  show "set (campaign_dispatches c d') \<inter> {NBlocked, NPending} = {}"
    unfolding campaign_dispatches_def tables(5) by (rule update_where_closes) simp_all
qed

lemma cancelled_runners:
  assumes "rows' = update_where (\<lambda>r. run_campaign_id r = Some c \<and> \<not> terminal (run_status r))
    (cancel_campaign_runner now) rows" and "r' \<in> set rows'" "run_campaign_id r' = Some c" "\<not> terminal (run_status r')"
  shows "run_status r' = Running \<and> run_cancel_requested r'"
proof -
  from assms(1,2) obtain r where r: "r \<in> set rows"
    "r' = (if run_campaign_id r = Some c \<and> \<not> terminal (run_status r) then cancel_campaign_runner now r else r)"
    by (auto simp: set_update_where)
  with assms(3,4) show ?thesis
    by (cases "run_status r") (auto simp: cancel_campaign_runner_def cancel_queued_runner_def split: if_splits)
qed

lemma cancelled_running:
  assumes "rows' = update_where (\<lambda>r. run_campaign_id r = Some c \<and> \<not> terminal (run_status r))
    (cancel_campaign_runner now) rows"
  shows "Running \<in> run_status ` {r \<in> set rows'. run_campaign_id r = Some c} \<longleftrightarrow>
    Running \<in> run_status ` {r \<in> set rows. run_campaign_id r = Some c}"
proof -
  define f where "f = (\<lambda>r. if run_campaign_id r = Some c \<and> \<not> terminal (run_status r) then cancel_campaign_runner now r else r)"
  have f: "run_status (f r) = Running \<longleftrightarrow> run_status r = Running" "run_campaign_id (f r) = run_campaign_id r" for r
    by (cases "run_status r"; simp add: f_def cancel_campaign_runner_def cancel_queued_runner_def)+
  have rows: "set rows' = f ` set rows" using assms by (simp add: set_update_where f_def)
  have running: "Running \<in> run_status ` {r \<in> A. run_campaign_id r = Some c} \<longleftrightarrow>
      (\<exists>r \<in> A. run_campaign_id r = Some c \<and> run_status r = Running)" for A :: "runner_row set" by (auto simp: image_iff)
  show ?thesis unfolding running rows bex_simps f ..
qed

text \<open>
  C5.  Cancelling a campaign leaves nothing of it that could start: no plan, instance or dispatch
  is open and the only Runners left are running ones that have been asked to stop.  The answer is
  what a query of the new state gives, and it is pending exactly when a Runner was running.
\<close>

theorem cancelled_campaign:
  assumes "cancel_campaign c now d = Inr (Some (campaign, v), d')"
  shows "get_campaign_status c d' = Some (campaign, v) \<and>
    (\<forall>r \<in> set (runners d'). run_campaign_id r = Some c \<and> \<not> terminal (run_status r) \<longrightarrow>
       run_status r = Running \<and> run_cancel_requested r) \<and>
    set (campaign_plans c d') \<inter> {PlanActive, PlanPaused} = {} \<and>
    set (campaign_instances c d') \<inter> {IPlanned, IActive} = {} \<and>
    set (campaign_dispatches c d') \<inter> {NBlocked, NPending} = {} \<and>
    (cv_outcome v = OutcomePending \<longleftrightarrow> Running \<in> set (campaign_runners c d))"
proof -
  obtain q where r: "request_cancel_campaign c now d = Inr (Some campaign, d')"
    and v: "v = campaign_runtime (Listed (campaign_runners c d')) (Listed (campaign_plans c d'))
      (Listed (campaign_instances c d')) (Listed (campaign_dispatches c d'))"
    using assms by (auto simp: cancel_campaign_def)
  note rows = request_cancel_campaign_rows [OF r]
  have status: "get_campaign_status c d' = Some (campaign, v)"
    unfolding get_campaign_status_def rows(1) v
    by (simp del: tally_count.simps) (rule campaign_runtime_counts; rule grouped)
  have left: "run_status x = Running \<and> run_cancel_requested x"
    if "x \<in> set (runners d')" "run_campaign_id x = Some c" "\<not> terminal (run_status x)" for x
    using cancelled_runners [OF rows(2) that] .
  have queued: "Queued \<notin> set (campaign_runners c d')"
  proof
    assume "Queued \<in> set (campaign_runners c d')"
    then obtain x where "x \<in> set (runners d')" "run_campaign_id x = Some c" "run_status x = Queued"
      by (auto simp: campaign_runners_def)
    with left [of x] show False by simp
  qed
  have "cv_outcome v = OutcomePending \<longleftrightarrow>
      campaign_open (campaign_runners c d') (campaign_plans c d') (campaign_instances c d') (campaign_dispatches c d')"
    unfolding v campaign_runtime_def Let_def campaign_view.simps campaign_outcome_listed by simp
  also have "\<dots> \<longleftrightarrow> Running \<in> set (campaign_runners c d')"
    using queued rows(3-5) by (auto simp: campaign_open_def)
  also have "\<dots> \<longleftrightarrow> Running \<in> set (campaign_runners c d)"
    using cancelled_running [OF rows(2)] by (simp add: campaign_runners_def)
  finally show ?thesis using status left rows(3-5) by blast
qed

section \<open>A worked campaign\<close>

definition campaign_db :: db where
  "campaign_db = \<lparr>leases = None, runners = [], attempts = [], workers = [], messages = [], receipts = [], results = [],
     events = [], nodes = [], instances = [\<lparr>in_id = ''i'', in_campaign_id = ''c'', in_state = IActive,
       in_checkpoint = [], in_outcome = [], in_error = None, in_created_at = 0, in_updated_at = 0\<rparr>],
     campaigns = [\<lparr>cp_id = ''c'', cp_runtime_id = None\<rparr>], plans = [], plan_events = [], runtimes = []\<rparr>"

lemma campaign_db_status: "\<exists>campaign v. get_campaign_status ''c'' campaign_db = Some (campaign, v)"
  by (simp add: get_campaign_status_def campaign_db_def)

theorem campaign_outcome_exact_witness:
  "\<exists>campaign v. get_campaign_status ''c'' campaign_db = Some (campaign, v) \<and> cv_outcome v = OutcomePending"
proof -
  obtain campaign v where s: "get_campaign_status ''c'' campaign_db = Some (campaign, v)"
    using campaign_db_status by blast
  have "campaign_open (campaign_runners ''c'' campaign_db) (campaign_plans ''c'' campaign_db)
      (campaign_instances ''c'' campaign_db) (campaign_dispatches ''c'' campaign_db)"
    by (simp add: campaign_open_def campaign_instances_def campaign_db_def)
  with campaign_outcome_exact [OF s] s show ?thesis by blast
qed

theorem cancelled_campaign_witness:
  "\<exists>campaign v d'. cancel_campaign ''c'' 7 campaign_db = Inr (Some (campaign, v), d') \<and>
     cv_outcome v \<noteq> OutcomePending"
proof -
  obtain campaign v d' where r: "cancel_campaign ''c'' 7 campaign_db = Inr (Some (campaign, v), d')"
    by (simp add: cancel_campaign_def request_cancel_campaign_def campaign_db_def Let_def)
  have "Running \<notin> set (campaign_runners ''c'' campaign_db)"
    by (simp add: campaign_runners_def campaign_db_def)
  with cancelled_campaign [OF r] r show ?thesis by blast
qed

end
