(* ===== verification/Usage.thy ===== *)
theory Usage
  imports Documents
begin

text \<open>
  The token accounting of one provider answer: \<open>llmperf/metrics/usage.py\<close>.  Providers report their
  counters under several schemas; \<open>normalize_usage\<close> reads the known ones, derives a miss count only
  where cached input is a part of the input, and never guesses.

  \<open>json_text\<close> stands for \<open>json.dumps\<close> (\<open>None\<close> when it raises) and \<open>py_text\<close> for \<open>str\<close>.
  The theorem shows that a valid record is consistent: its counters are natural numbers and the
  cached and uncached input fit into the input.
\<close>

section \<open>Counters\<close>

text \<open>Booleans are not counters, and neither are numbers that are not whole or not finite.\<close>

fun normalize_counter :: "pyval \<Rightarrow> int option" where
  "normalize_counter (PInt n) = (if n < 0 then None else Some n)"
| "normalize_counter (PFloat (Fin r)) = (if r < 0 \<or> of_int \<lfloor>r\<rfloor> \<noteq> r then None else Some \<lfloor>r\<rfloor>)"
| "normalize_counter _ = None"

lemma normalize_counter_nonneg: "normalize_counter v = Some n \<Longrightarrow> 0 \<le> n"
  by (induction v rule: normalize_counter.induct) (auto split: if_splits)

definition RAW_USAGE_LIMIT :: nat where
  "RAW_USAGE_LIMIT = 16384"

definition bounded_raw_usage :: "(pydict \<Rightarrow> string option) \<Rightarrow> (pydict \<Rightarrow> string) \<Rightarrow> pydict \<Rightarrow> pydict" where
  "bounded_raw_usage json_text py_text usage =
     (case json_text usage of
        None \<Rightarrow> [(KStr ''truncated'', PBool True), (KStr ''value'', PStr (take RAW_USAGE_LIMIT (py_text usage)))]
      | Some encoded \<Rightarrow>
          if length encoded \<le> RAW_USAGE_LIMIT then usage
          else [(KStr ''truncated'', PBool True), (KStr ''size_bytes'', PInt (int (length encoded))),
                (KStr ''preview'', PStr (take (RAW_USAGE_LIMIT div 2) encoded))])"

section \<open>Schemas\<close>

text \<open>
  One lookup: the counter of a name and the paths of the values that are present and no counters.
\<close>

type_synonym lookup = "int option \<times> string list"

definition checked :: "pydict \<Rightarrow> string \<Rightarrow> string \<Rightarrow> string list \<Rightarrow> lookup" where
  "checked container name path invalid =
     (let value = dict_get name container; counter = normalize_counter value
      in (counter, if value \<noteq> PNone \<and> counter = None then invalid @ [path] else invalid))"

definition checked_or :: "int option \<Rightarrow> pydict \<Rightarrow> string \<Rightarrow> string \<Rightarrow> string list \<Rightarrow> lookup" where
  "checked_or found container name path invalid =
     (if found = None then checked container name path invalid else (found, invalid))"

text \<open>The details of one schema: cached tokens, creation tokens unless known, the schema's name.\<close>

definition read_details ::
    "pydict \<Rightarrow> string \<Rightarrow> string \<Rightarrow> int option \<times> int option \<times> string \<times> string list \<Rightarrow>
     int option \<times> int option \<times> string \<times> string list" where
  "read_details usage name schema_name = (\<lambda>(hit, creation, schema, invalid).
     if hit = None \<and> is_mapping (dict_get name usage)
     then let details = as_dict (dict_get name usage);
              (hit, invalid) = checked details ''cached_tokens'' (name @ ''.cached_tokens'') invalid;
              (creation, invalid) = checked_or creation details ''cache_creation_tokens''
                 (name @ ''.cache_creation_tokens'') invalid
          in (hit, creation, if hit \<noteq> None then schema_name else schema, invalid)
     else (hit, creation, schema, invalid))"

record normalized_usage =
  nu_provider_input_tokens :: "int option"
  nu_provider_output_tokens :: "int option"
  nu_hit_tokens :: "int option"
  nu_miss_tokens :: "int option"
  nu_creation_tokens :: "int option"
  nu_source_schema :: string
  nu_complete :: bool
  nu_valid :: bool
  nu_validation_error :: "string option"
  nu_raw_usage :: pydict

definition derived_miss :: "int option \<Rightarrow> int option \<Rightarrow> int option \<Rightarrow> int option" where
  "derived_miss hit miss input =
     (case (hit, miss, input) of
        (Some h, None, Some n) \<Rightarrow> if h \<le> n then Some (n - h) else None
      | _ \<Rightarrow> miss)"

definition usage_error :: "string list \<Rightarrow> int option \<Rightarrow> int option \<Rightarrow> int option \<Rightarrow> string option" where
  "usage_error invalid hit miss input =
     (if invalid \<noteq> [] then Some (''invalid non-negative integer counters: '' @ join '', '' invalid)
      else case (hit, input) of
        (Some h, Some n) \<Rightarrow>
          if n < h then Some ''cache hit tokens exceed provider input tokens''
          else (case miss of
             Some m \<Rightarrow> if n < h + m then Some ''cache hit plus miss tokens exceed provider input tokens'' else None
           | None \<Rightarrow> None)
      | _ \<Rightarrow> None)"

definition normalize_usage :: "(pydict \<Rightarrow> string option) \<Rightarrow> (pydict \<Rightarrow> string) \<Rightarrow> pydict \<Rightarrow> normalized_usage" where
  "normalize_usage json_text py_text usage =
     (let (input, invalid) = checked usage ''prompt_tokens'' ''prompt_tokens'' [];
          (input, invalid) = checked_or input usage ''input_tokens'' ''input_tokens'' invalid;
          (output, invalid) = checked usage ''completion_tokens'' ''completion_tokens'' invalid;
          (output, invalid) = checked_or output usage ''output_tokens'' ''output_tokens'' invalid;
          (hit, invalid) = checked usage ''prompt_cache_hit_tokens'' ''prompt_cache_hit_tokens'' invalid;
          (miss, invalid) = checked usage ''prompt_cache_miss_tokens'' ''prompt_cache_miss_tokens'' invalid;
          (creation, invalid) = checked usage ''prompt_cache_creation_tokens'' ''prompt_cache_creation_tokens'' invalid;
          (creation, invalid) = checked_or creation usage ''cache_creation_input_tokens''
             ''cache_creation_input_tokens'' invalid;
          schema = (if hit \<noteq> None then ''deepseek_prompt_cache'' else ''unknown'');
          (hit, creation, schema, invalid) =
             read_details usage ''prompt_tokens_details'' ''openai_prompt_tokens_details'' (hit, creation, schema, invalid);
          (hit, creation, schema, invalid) =
             read_details usage ''input_tokens_details'' ''openai_input_tokens_details'' (hit, creation, schema, invalid);
          miss = derived_miss hit miss input;
          error = usage_error invalid hit miss input
      in \<lparr>nu_provider_input_tokens = input, nu_provider_output_tokens = output, nu_hit_tokens = hit,
          nu_miss_tokens = miss, nu_creation_tokens = creation, nu_source_schema = schema,
          nu_complete = (hit \<noteq> None \<and> miss \<noteq> None \<and> error = None), nu_valid = (error = None),
          nu_validation_error = error, nu_raw_usage = bounded_raw_usage json_text py_text usage\<rparr>)"

text \<open>\<open>to_metrics\<close>: a counter that is unknown has no key, the rate only when both parts are known.\<close>

fun counter_entry :: "string \<Rightarrow> int option \<Rightarrow> pydict" where
  "counter_entry name None = []"
| "counter_entry name (Some n) = [(KStr name, PInt n)]"

definition usage_dict :: "normalized_usage \<Rightarrow> pydict" where
  "usage_dict u =
     (let number = (\<lambda>v. case v of Some n \<Rightarrow> PInt n | None \<Rightarrow> PNone)
      in [(KStr ''provider_input_tokens'', number (nu_provider_input_tokens u)),
          (KStr ''provider_output_tokens'', number (nu_provider_output_tokens u)),
          (KStr ''hit_tokens'', number (nu_hit_tokens u)), (KStr ''miss_tokens'', number (nu_miss_tokens u)),
          (KStr ''creation_tokens'', number (nu_creation_tokens u)),
          (KStr ''source_schema'', PStr (nu_source_schema u)), (KStr ''complete'', PBool (nu_complete u)),
          (KStr ''valid'', PBool (nu_valid u)),
          (KStr ''validation_error'', case nu_validation_error u of Some e \<Rightarrow> PStr e | None \<Rightarrow> PNone),
          (KStr ''raw_usage'', PDict (nu_raw_usage u))])"

definition usage_metrics :: "normalized_usage \<Rightarrow> pydict" where
  "usage_metrics u =
     [(KStr ''normalized_usage'', PDict (usage_dict u)), (KStr ''raw_usage'', PDict (nu_raw_usage u))] @
     counter_entry ''provider_input_tokens'' (nu_provider_input_tokens u) @
     counter_entry ''provider_output_tokens'' (nu_provider_output_tokens u) @
     counter_entry ''kv_cache_hit_tokens'' (nu_hit_tokens u) @
     counter_entry ''kv_cache_miss_tokens'' (nu_miss_tokens u) @
     counter_entry ''kv_cache_creation_tokens'' (nu_creation_tokens u) @
     (case (nu_hit_tokens u, nu_miss_tokens u) of
        (Some h, Some m) \<Rightarrow> [(KStr ''kv_cache_hit_rate'',
           if h + m = 0 then PNone else PFloat (Fin (of_int h / of_int (h + m))))]
      | _ \<Rightarrow> [])"

section \<open>Consistency\<close>

lemma unit_ratio:
  assumes "0 \<le> a" "a \<le> b" "0 < b"
  shows "0 \<le> rat_of_int a / of_int b \<and> rat_of_int a / of_int b \<le> 1"
proof -
  have "rat_of_int 0 < of_int b" "rat_of_int a \<le> of_int b" "rat_of_int 0 \<le> of_int a"
    unfolding of_int_less_iff of_int_le_iff by (fact assms)+
  then show ?thesis by simp
qed

definition counted :: "int option \<Rightarrow> bool" where
  "counted v \<longleftrightarrow> (\<forall>n. v = Some n \<longrightarrow> 0 \<le> n)"

lemma counted_None [simp]: "counted None"
  by (simp add: counted_def)

lemma counted_Some [simp]: "counted (Some n) \<longleftrightarrow> 0 \<le> n"
  by (simp add: counted_def)

lemma checked_counted: "checked c name path invalid = (v, invalid') \<Longrightarrow> counted v"
  by (auto simp: checked_def Let_def counted_def dest: normalize_counter_nonneg)

lemma checked_or_counted: "checked_or found c name path invalid = (v, invalid') \<Longrightarrow> counted found \<Longrightarrow> counted v"
  by (auto simp: checked_or_def dest: checked_counted split: if_splits)

lemma read_details_counted:
  assumes "read_details usage name schema_name (hit, creation, schema, invalid) = (hit', creation', schema', invalid')"
    and "counted hit" "counted creation"
  shows "counted hit' \<and> counted creation'"
  using assms
  by (auto simp: read_details_def Let_def dest: checked_counted checked_or_counted split: if_splits prod.splits)

lemma derived_miss_counted: "counted miss \<Longrightarrow> counted (derived_miss hit miss input)"
  by (auto simp: derived_miss_def split: option.splits)

text \<open>The steps of the reader, each named.\<close>

lemma normalize_usage_cases:
  obtains miss invalid where
    "nu_miss_tokens (normalize_usage jt pt usage) = derived_miss (nu_hit_tokens (normalize_usage jt pt usage)) miss
       (nu_provider_input_tokens (normalize_usage jt pt usage))"
    "nu_validation_error (normalize_usage jt pt usage) = usage_error invalid (nu_hit_tokens (normalize_usage jt pt usage))
       (nu_miss_tokens (normalize_usage jt pt usage)) (nu_provider_input_tokens (normalize_usage jt pt usage))"
    "counted (nu_provider_input_tokens (normalize_usage jt pt usage))"
    "counted (nu_provider_output_tokens (normalize_usage jt pt usage))"
    "counted (nu_hit_tokens (normalize_usage jt pt usage))" "counted miss"
    "counted (nu_creation_tokens (normalize_usage jt pt usage))"
    "nu_valid (normalize_usage jt pt usage) \<longleftrightarrow> nu_validation_error (normalize_usage jt pt usage) = None"
    "nu_complete (normalize_usage jt pt usage) \<longleftrightarrow> nu_hit_tokens (normalize_usage jt pt usage) \<noteq> None \<and>
       nu_miss_tokens (normalize_usage jt pt usage) \<noteq> None \<and> nu_validation_error (normalize_usage jt pt usage) = None"
proof -
  obtain i1 e1 where 1: "checked usage ''prompt_tokens'' ''prompt_tokens'' [] = (i1, e1)" by fastforce
  obtain i2 e2 where 2: "checked_or i1 usage ''input_tokens'' ''input_tokens'' e1 = (i2, e2)" by fastforce
  obtain o1 e3 where 3: "checked usage ''completion_tokens'' ''completion_tokens'' e2 = (o1, e3)" by fastforce
  obtain o2 e4 where 4: "checked_or o1 usage ''output_tokens'' ''output_tokens'' e3 = (o2, e4)" by fastforce
  obtain h1 e5 where 5: "checked usage ''prompt_cache_hit_tokens'' ''prompt_cache_hit_tokens'' e4 = (h1, e5)" by fastforce
  obtain m1 e6 where 6: "checked usage ''prompt_cache_miss_tokens'' ''prompt_cache_miss_tokens'' e5 = (m1, e6)" by fastforce
  obtain c1 e7 where 7: "checked usage ''prompt_cache_creation_tokens'' ''prompt_cache_creation_tokens'' e6 = (c1, e7)"
    by fastforce
  obtain c2 e8 where 8: "checked_or c1 usage ''cache_creation_input_tokens'' ''cache_creation_input_tokens'' e7 = (c2, e8)"
    by fastforce
  obtain h2 c3 s2 e9 where 9: "read_details usage ''prompt_tokens_details'' ''openai_prompt_tokens_details''
      (h1, c2, if h1 \<noteq> None then ''deepseek_prompt_cache'' else ''unknown'', e8) = (h2, c3, s2, e9)"
    by (metis prod_cases4)
  obtain h3 c4 s3 e10 where 10: "read_details usage ''input_tokens_details'' ''openai_input_tokens_details''
      (h2, c3, s2, e9) = (h3, c4, s3, e10)"
    by (metis prod_cases4)
  note counted = checked_or_counted [OF 2 checked_counted [OF 1]] checked_or_counted [OF 4 checked_counted [OF 3]]
    checked_counted [OF 5] checked_counted [OF 6] checked_or_counted [OF 8 checked_counted [OF 7]]
  note details = read_details_counted [OF 9 counted(3) counted(5)]
  note details' = read_details_counted [OF 10 conjunct1 [OF details] conjunct2 [OF details]]
  let ?miss = "derived_miss h3 m1 i2"
  have e: "normalize_usage jt pt usage = \<lparr>nu_provider_input_tokens = i2, nu_provider_output_tokens = o2,
      nu_hit_tokens = h3, nu_miss_tokens = ?miss, nu_creation_tokens = c4, nu_source_schema = s3,
      nu_complete = (h3 \<noteq> None \<and> ?miss \<noteq> None \<and> usage_error e10 h3 ?miss i2 = None),
      nu_valid = (usage_error e10 h3 ?miss i2 = None), nu_validation_error = usage_error e10 h3 ?miss i2,
      nu_raw_usage = bounded_raw_usage jt pt usage\<rparr>"
    unfolding normalize_usage_def by (simp only: Let_def prod.case 1 2 3 4 5 6 7 8 9 10)
  show ?thesis
    by (rule that [of m1 e10]; simp only: e normalized_usage.simps counted details')
qed

text \<open>
  C24.  A record of usage is consistent.  All its counters are natural numbers.  When it is valid
  and the input is known, the cached part is at most the input and both parts together are too;
  the miss count is then always known when the hit count is, so that the record is complete; and
  the reported hit rate of a record with both parts is between zero and one.
\<close>

theorem normalize_usage_consistent:
  "let u = normalize_usage json_text py_text usage in
    counted (nu_provider_input_tokens u) \<and> counted (nu_provider_output_tokens u) \<and> counted (nu_hit_tokens u) \<and>
    counted (nu_miss_tokens u) \<and> counted (nu_creation_tokens u) \<and>
    (nu_valid u \<longrightarrow> (\<forall>h n. nu_hit_tokens u = Some h \<and> nu_provider_input_tokens u = Some n \<longrightarrow>
       nu_complete u \<and> (\<exists>m. nu_miss_tokens u = Some m \<and> h + m \<le> n))) \<and>
    (\<forall>x. dict_get ''kv_cache_hit_rate'' (usage_metrics u) = PFloat (Fin x) \<longrightarrow> 0 \<le> x \<and> x \<le> 1)"
proof -
  define u where "u = normalize_usage json_text py_text usage"
  obtain miss invalid where c: "nu_miss_tokens u = derived_miss (nu_hit_tokens u) miss (nu_provider_input_tokens u)"
    "nu_validation_error u = usage_error invalid (nu_hit_tokens u) (nu_miss_tokens u) (nu_provider_input_tokens u)"
    "counted (nu_provider_input_tokens u)" "counted (nu_provider_output_tokens u)" "counted (nu_hit_tokens u)"
    "counted miss" "counted (nu_creation_tokens u)" "nu_valid u \<longleftrightarrow> nu_validation_error u = None"
    "nu_complete u \<longleftrightarrow> nu_hit_tokens u \<noteq> None \<and> nu_miss_tokens u \<noteq> None \<and> nu_validation_error u = None"
    unfolding u_def by (rule normalize_usage_cases)
  have miss: "counted (nu_miss_tokens u)" unfolding c(1) by (rule derived_miss_counted [OF c(6)])
  have fits: "nu_complete u \<and> (\<exists>m. nu_miss_tokens u = Some m \<and> h + m \<le> n)"
    if "nu_valid u" "nu_hit_tokens u = Some h" "nu_provider_input_tokens u = Some n" for h n
    using that c(1,2,8,9) by (cases miss) (auto simp: usage_error_def derived_miss_def split: if_splits)
  have rate: "0 \<le> x \<and> x \<le> 1" if x: "dict_get ''kv_cache_hit_rate'' (usage_metrics u) = PFloat (Fin x)" for x
  proof -
    obtain h m where hm: "nu_hit_tokens u = Some h" "nu_miss_tokens u = Some m"
      using x by (cases "nu_hit_tokens u"; cases "nu_miss_tokens u"; cases "nu_provider_input_tokens u";
          cases "nu_provider_output_tokens u"; cases "nu_creation_tokens u")
        (simp_all add: usage_metrics_def dict_get_def)
    have q: "x = of_int h / of_int (h + m)" "h + m \<noteq> 0"
      using x hm by (cases "nu_provider_input_tokens u"; cases "nu_provider_output_tokens u";
          cases "nu_creation_tokens u"; simp add: usage_metrics_def dict_get_def split: if_splits)+
    have "0 \<le> h" "0 \<le> m" using hm c(5) miss by simp_all
    with q(2) have "0 < h + m" by linarith
    with unit_ratio [of h "h + m"] \<open>0 \<le> h\<close> \<open>0 \<le> m\<close> show ?thesis unfolding q(1) by simp
  qed
  show ?thesis unfolding u_def [symmetric] Let_def using c(3-5,7) miss fits rate by blast
qed

theorem normalize_usage_consistent_witness:
  "nu_miss_tokens (normalize_usage (\<lambda>_. None) (\<lambda>_. []) [(KStr ''prompt_tokens'', PInt 10),
     (KStr ''prompt_tokens_details'', PDict [(KStr ''cached_tokens'', PInt 4)])]) = Some 6"
proof -
  let ?u = "normalize_usage (\<lambda>_. None) (\<lambda>_. []) [(KStr ''prompt_tokens'', PInt 10),
     (KStr ''prompt_tokens_details'', PDict [(KStr ''cached_tokens'', PInt 4)])]"
  have e: "?u = ?u\<lparr>nu_hit_tokens := Some 4, nu_provider_input_tokens := Some 10, nu_miss_tokens := Some 6, nu_valid := True\<rparr>"
    by code_simp
  have "counted (nu_hit_tokens ?u)"
    using normalize_usage_consistent [of "\<lambda>_. None" "\<lambda>_. []" "[(KStr ''prompt_tokens'', PInt 10),
     (KStr ''prompt_tokens_details'', PDict [(KStr ''cached_tokens'', PInt 4)])]"] unfolding Let_def by blast
  then show ?thesis by (subst e) simp
qed

end
