(* ===== verification/Cache_Analysis.thy ===== *)
theory Cache_Analysis
  imports Usage "HOL-Library.List_Lexorder" "HOL-Library.Char_ord"
begin

text \<open>
  The analysis of cache probes: \<open>llmperf/metrics/cache.py\<close>.  A probe sends a priming request and
  then repeats it; the analysis pairs every repetition with the prime of its family, summarises the
  provider's counters and the latencies, and gives a verdict on the evidence.

  Times to first token are finite numbers.  \<open>py_text\<close> stands for \<open>str\<close>; \<open>draw\<close> is the random
  source of the bootstrap, seeded by the caller: the index drawn below a bound for a position of a
  sample.  The theorems show that the ratios of a summary are ratios and that its roles share out
  the requests, and what each verdict is known to rest on.
\<close>

section \<open>Quantiles and medians\<close>

definition quantile :: "rat list \<Rightarrow> rat \<Rightarrow> rat option" where
  "quantile values probability =
     (let ordered = sort values
      in if values = [] then None
         else if length ordered = 1 then Some (ordered ! 0)
         else let position = of_nat (length ordered - 1) * probability;
                  lower = nat \<lfloor>position\<rfloor>; upper = nat \<lceil>position\<rceil>
              in if lower = upper then Some (ordered ! lower)
                 else let fraction = position - of_nat lower
                      in Some (ordered ! lower * (1 - fraction) + ordered ! upper * fraction))"

definition median :: "rat list \<Rightarrow> rat" where
  "median values =
     (let ordered = sort values; n = length ordered
      in if odd n then ordered ! (n div 2) else (ordered ! (n div 2 - 1) + ordered ! (n div 2)) / 2)"

record value_summary =
  vs_count :: nat
  vs_median :: "rat option"
  vs_p50 :: "rat option"
  vs_p95 :: "rat option"

definition summary :: "rat list \<Rightarrow> value_summary" where
  "summary values = \<lparr>vs_count = length values, vs_median = (if values = [] then None else Some (median values)),
     vs_p50 = quantile values (1 / 2), vs_p95 = quantile values (95 / 100)\<rparr>"

lemma nth_sort_le: "i < length xs \<Longrightarrow> \<forall>x \<in> set xs. x \<le> b \<Longrightarrow> sort xs ! i \<le> (b :: rat)"
  using nth_mem [of i "sort xs"] by simp

lemma median_le:
  assumes "xs \<noteq> []" and "\<forall>x \<in> set xs. x \<le> b"
  shows "median xs \<le> b"
proof -
  have n: "0 < length xs" using assms(1) by simp
  then have "length xs div 2 < length xs" "length xs div 2 - 1 < length xs" by linarith+
  then have "sort xs ! (length xs div 2) \<le> b" "sort xs ! (length xs div 2 - 1) \<le> b"
    using assms(2) by (simp_all only: nth_sort_le)
  then show ?thesis by (simp add: median_def Let_def)
qed

lemma quantile_le:
  assumes "\<forall>x \<in> set xs. x \<le> b" and "0 \<le> p" "p \<le> 1" and "quantile xs p = Some q"
  shows "q \<le> b"
proof -
  have ne: "xs \<noteq> []" using assms(4) by (auto simp: quantile_def Let_def)
  define pos where "pos = of_nat (length xs - 1) * p"
  have pos: "0 \<le> pos" "pos \<le> of_nat (length xs - 1)"
    using assms(2,3) by (simp_all add: pos_def mult_left_le)
  have up: "\<lceil>pos\<rceil> \<le> int (length xs - 1)" using pos(2) by (simp add: ceiling_le_iff)
  have "\<lfloor>pos\<rfloor> \<le> \<lceil>pos\<rceil>" by (rule floor_le_ceiling)
  moreover have "int (length xs - 1) < int (length xs)" "0 < length xs" using ne by simp_all
  ultimately have idx: "nat \<lfloor>pos\<rfloor> < length xs" "nat \<lceil>pos\<rceil> < length xs" using up by linarith+
  note le = nth_sort_le [OF idx(1) assms(1)] nth_sort_le [OF idx(2) assms(1)]
  define f where "f = pos - of_nat (nat \<lfloor>pos\<rfloor>)"
  have f: "0 \<le> f" "f \<le> 1" using pos(1) unfolding f_def by (simp_all add: of_nat_nat) linarith+
  have "sort xs ! nat \<lfloor>pos\<rfloor> * (1 - f) + sort xs ! nat \<lceil>pos\<rceil> * f \<le> b * (1 - f) + b * f"
    using le f by (intro add_mono mult_right_mono) simp_all
  also have "\<dots> = b" by (simp add: algebra_simps)
  finally have mix: "sort xs ! nat \<lfloor>pos\<rfloor> * (1 - f) + sort xs ! nat \<lceil>pos\<rceil> * f \<le> b" .
  have first: "sort xs ! 0 \<le> b" using ne assms(1) by (intro nth_sort_le) simp_all
  show ?thesis
    using assms(4) ne le mix first
    unfolding quantile_def Let_def length_sort pos_def [symmetric] f_def [symmetric]
    by (simp split: if_splits)
qed

section \<open>Counters of a group of requests\<close>

record counter_state =
  ct_hits :: "int list"
  ct_pairs :: "(int \<times> int) list"
  ct_schemas :: "string list"
  ct_invalid :: nat
  ct_request_hits :: nat

definition counter_step :: "(pyval \<Rightarrow> string) \<Rightarrow> counter_state \<Rightarrow> pydict \<Rightarrow> counter_state" where
  "counter_step py_text s request =
     (let hit = normalize_counter (dict_get ''kv_cache_hit_tokens'' request);
          miss = normalize_counter (dict_get ''kv_cache_miss_tokens'' request);
          normalized = dict_get ''normalized_usage'' request;
          schema = field ''source_schema'' normalized;
          s = (if is_mapping normalized \<and> truthy schema
               then s\<lparr>ct_schemas := List.insert (py_text schema) (ct_schemas s)\<rparr> else s)
      in if is_mapping normalized \<and> field ''valid'' normalized = PBool False
         then s\<lparr>ct_invalid := ct_invalid s + 1\<rparr>
         else s\<lparr>ct_hits := ct_hits s @ (case hit of Some h \<Rightarrow> [h] | None \<Rightarrow> []),
                ct_request_hits := ct_request_hits s + (case hit of Some h \<Rightarrow> if 0 < h then 1 else 0 | None \<Rightarrow> 0),
                ct_pairs := ct_pairs s @ (case (hit, miss) of (Some h, Some m) \<Rightarrow> [(h, m)] | _ \<Rightarrow> [])\<rparr>)"

definition no_counters :: counter_state where
  "no_counters = \<lparr>ct_hits = [], ct_pairs = [], ct_schemas = [], ct_invalid = 0, ct_request_hits = 0\<rparr>"

record counter_summary =
  cs_measured_requests :: nat
  cs_requests_total :: nat
  cs_complete_counter_requests :: nat
  cs_counter_coverage :: rat
  cs_request_hit_probability :: "rat option"
  cs_weighted_token_hit_ratio :: "rat option"
  cs_complete_hit_tokens :: int
  cs_complete_miss_tokens :: int
  cs_invalid_counter_requests :: nat
  cs_counter_schemas :: "string list"

definition ratio :: "int \<Rightarrow> int \<Rightarrow> rat option" where
  "ratio a b = (if b = 0 then None else Some (of_int a / of_int b))"

definition summarize_group :: "(pyval \<Rightarrow> string) \<Rightarrow> pydict list \<Rightarrow> counter_summary" where
  "summarize_group py_text requests =
     (let s = foldl (counter_step py_text) no_counters requests;
          hit = sum_list (map fst (ct_pairs s)); miss = sum_list (map snd (ct_pairs s));
          count = length requests
      in \<lparr>cs_measured_requests = length (ct_hits s), cs_requests_total = count,
          cs_complete_counter_requests = length (ct_pairs s),
          cs_counter_coverage = (if count = 0 then 0 else of_nat (length (ct_pairs s)) / of_nat count),
          cs_request_hit_probability = ratio (int (ct_request_hits s)) (int (length (ct_hits s))),
          cs_weighted_token_hit_ratio = ratio hit (hit + miss),
          cs_complete_hit_tokens = hit, cs_complete_miss_tokens = miss,
          cs_invalid_counter_requests = ct_invalid s, cs_counter_schemas = sort (ct_schemas s)\<rparr>)"

definition request_role :: "(pyval \<Rightarrow> string) \<Rightarrow> pydict \<Rightarrow> string option" where
  "request_role py_text request =
     (let metadata = dict_get ''request_metadata'' request
      in if is_mapping metadata \<and> truthy (field ''role'' metadata)
         then Some (py_text (field ''role'' metadata)) else None)"

definition with_role :: "(pyval \<Rightarrow> string) \<Rightarrow> string \<Rightarrow> pydict list \<Rightarrow> pydict list" where
  "with_role py_text role requests = filter (\<lambda>r. request_role py_text r = Some role) requests"

definition summarize_cache_counters ::
    "(pyval \<Rightarrow> string) \<Rightarrow> pydict list \<Rightarrow> counter_summary \<times> (string \<times> counter_summary) list" where
  "summarize_cache_counters py_text requests =
     (summarize_group py_text requests,
      map (\<lambda>role. (role, summarize_group py_text (with_role py_text role requests)))
        (sort (remdups (List.map_filter (request_role py_text) requests))))"

definition counters_ok :: "nat \<Rightarrow> counter_state \<Rightarrow> bool" where
  "counters_ok n s \<longleftrightarrow> (\<forall>h \<in> set (ct_hits s). 0 \<le> h) \<and> (\<forall>(h, m) \<in> set (ct_pairs s). 0 \<le> h \<and> 0 \<le> m) \<and>
     length (ct_pairs s) \<le> length (ct_hits s) \<and> length (ct_hits s) + ct_invalid s \<le> n \<and>
     ct_request_hits s \<le> length (ct_hits s) \<and> (0 < ct_request_hits s \<longrightarrow> (\<exists>h \<in> set (ct_hits s). 0 < h))"

lemma counters_ok_step:
  assumes "counters_ok n s"
  shows "counters_ok (Suc n) (counter_step py_text s r)"
  using assms normalize_counter_nonneg [of "dict_get ''kv_cache_hit_tokens'' r"]
    normalize_counter_nonneg [of "dict_get ''kv_cache_miss_tokens'' r"]
  by (cases "normalize_counter (dict_get ''kv_cache_hit_tokens'' r)";
      cases "normalize_counter (dict_get ''kv_cache_miss_tokens'' r)")
    (auto simp: counters_ok_def counter_step_def Let_def)

lemma counters_ok_run: "counters_ok n s \<Longrightarrow> counters_ok (n + length rs) (foldl (counter_step py_text) s rs)"
proof (induction rs arbitrary: n s)
  case (Cons r rs)
  from Cons.IH [OF counters_ok_step [OF Cons.prems]] show ?case by simp
qed simp

lemma counters_ok_group: "counters_ok (length rs) (foldl (counter_step py_text) no_counters rs)"
  using counters_ok_run [of 0 no_counters rs py_text] by (simp add: counters_ok_def no_counters_def)

lemma ratio_between: "0 \<le> a \<Longrightarrow> a \<le> b \<Longrightarrow> ratio a b = Some q \<Longrightarrow> 0 \<le> q \<and> q \<le> 1"
  using unit_ratio [of a b] by (auto simp: ratio_def split: if_splits)

lemma partition_sizes:
  assumes "distinct D" and "\<forall>x \<in> set xs. \<forall>r. f x = Some r \<longrightarrow> r \<in> set D"
  shows "sum_list (map (\<lambda>r. length (filter (\<lambda>x. f x = Some r) xs)) D) = length (filter (\<lambda>x. f x \<noteq> None) xs)"
  using assms(2)
proof (induction xs)
  case (Cons x xs)
  show ?case
  proof (cases "f x")
    case (Some r)
    then have r: "r \<in> set D" using Cons.prems by simp
    have "sum_list (map (\<lambda>q. length (filter (\<lambda>x. f x = Some q) (x # xs))) D) =
        (\<Sum>q \<in> set D. (if q = r then 1 else 0) + length (filter (\<lambda>x. f x = Some q) xs))"
      using assms(1) Some by (simp add: sum_list_distinct_conv_sum_set) (rule sum.cong; auto)
    also have "\<dots> = 1 + (\<Sum>q \<in> set D. length (filter (\<lambda>x. f x = Some q) xs))"
      using r by (simp add: sum.distrib)
    finally show ?thesis using Cons Some assms(1) by (simp add: sum_list_distinct_conv_sum_set)
  qed (use Cons in simp)
qed simp

lemma group_counts_ok:
  fixes requests py_text
  defines "s \<equiv> summarize_group py_text requests"
  shows "cs_complete_counter_requests s \<le> cs_measured_requests s"
    "cs_measured_requests s + cs_invalid_counter_requests s \<le> cs_requests_total s"
    "0 \<le> cs_counter_coverage s \<and> cs_counter_coverage s \<le> 1"
    "\<And>q. cs_request_hit_probability s = Some q \<Longrightarrow> 0 \<le> q \<and> q \<le> 1"
    "\<And>q. cs_weighted_token_hit_ratio s = Some q \<Longrightarrow> 0 \<le> q \<and> q \<le> 1"
proof -
  let ?c = "foldl (counter_step py_text) no_counters requests"
  have ok: "\<forall>(h, m) \<in> set (ct_pairs ?c). 0 \<le> h \<and> 0 \<le> m" "length (ct_pairs ?c) \<le> length (ct_hits ?c)"
    "length (ct_hits ?c) + ct_invalid ?c \<le> length requests" "ct_request_hits ?c \<le> length (ct_hits ?c)"
    using counters_ok_group [of requests py_text] by (auto simp: counters_ok_def)
  note d = s_def summarize_group_def Let_def counter_summary.simps
  show "cs_complete_counter_requests s \<le> cs_measured_requests s"
    "cs_measured_requests s + cs_invalid_counter_requests s \<le> cs_requests_total s"
    unfolding d by (fact ok)+
  have "length (ct_pairs ?c) \<le> length requests" using ok by linarith
  then show "0 \<le> cs_counter_coverage s \<and> cs_counter_coverage s \<le> 1" unfolding d by (simp add: divide_le_eq_1)
  show "0 \<le> q \<and> q \<le> 1" if "cs_request_hit_probability s = Some q" for q
    using that ok(4) unfolding d by (intro ratio_between [of "int (ct_request_hits ?c)" "int (length (ct_hits ?c))"]) simp_all
  have "0 \<le> sum_list (map fst (ct_pairs ?c))" "0 \<le> sum_list (map snd (ct_pairs ?c))"
    using ok(1) by (fastforce intro!: sum_list_nonneg)+
  then show "0 \<le> q \<and> q \<le> 1" if "cs_weighted_token_hit_ratio s = Some q" for q
    using that unfolding d by (intro ratio_between) simp_all
qed

text \<open>
  The summary of the counters.  A request with both counters is a measured one, and a measured
  or rejected one is a request; coverage, hit probability and token hit ratio are between zero
  and one, also inside each role; and the roles share out the requests that name one.
\<close>

theorem cache_summary_bounds:
  assumes "summarize_cache_counters py_text requests = (s, roles)"
  shows "(\<forall>x \<in> insert s (snd ` set roles).
      cs_complete_counter_requests x \<le> cs_measured_requests x \<and>
      cs_measured_requests x + cs_invalid_counter_requests x \<le> cs_requests_total x \<and>
      0 \<le> cs_counter_coverage x \<and> cs_counter_coverage x \<le> 1 \<and>
      (\<forall>q. cs_request_hit_probability x = Some q \<or> cs_weighted_token_hit_ratio x = Some q \<longrightarrow> 0 \<le> q \<and> q \<le> 1)) \<and>
    distinct (map fst roles) \<and> sorted (map fst roles) \<and>
      sum_list (map (cs_requests_total \<circ> snd) roles) = length (filter (\<lambda>r. request_role py_text r \<noteq> None) requests)"
proof -
  have s: "s = summarize_group py_text requests"
    and roles: "roles = map (\<lambda>role. (role, summarize_group py_text (with_role py_text role requests)))
        (sort (remdups (List.map_filter (request_role py_text) requests)))"
    using assms by (simp_all add: summarize_cache_counters_def)
  have each: "cs_complete_counter_requests x \<le> cs_measured_requests x \<and>
      cs_measured_requests x + cs_invalid_counter_requests x \<le> cs_requests_total x \<and>
      0 \<le> cs_counter_coverage x \<and> cs_counter_coverage x \<le> 1 \<and>
      (\<forall>q. cs_request_hit_probability x = Some q \<or> cs_weighted_token_hit_ratio x = Some q \<longrightarrow> 0 \<le> q \<and> q \<le> 1)"
    if "x \<in> insert s (snd ` set roles)" for x
  proof -
    have "x = summarize_group py_text requests \<or> (\<exists>role. x = summarize_group py_text (with_role py_text role requests))"
      using that unfolding s roles by auto
    then obtain rs where x: "x = summarize_group py_text rs" by blast
    show ?thesis unfolding x using group_counts_ok [of py_text rs] by blast
  qed
  let ?D = "sort (remdups (List.map_filter (request_role py_text) requests))"
  have names: "map fst roles = ?D" unfolding roles by (simp add: comp_def)
  have "sum_list (map (\<lambda>r. length (filter (\<lambda>x. request_role py_text x = Some r) requests)) ?D) =
      length (filter (\<lambda>x. request_role py_text x \<noteq> None) requests)"
    by (rule partition_sizes) (force simp: List.map_filter_def)+
  moreover have "map (cs_requests_total \<circ> snd) roles = map (\<lambda>r. length (filter (\<lambda>x. request_role py_text x = Some r) requests)) ?D"
    unfolding roles by (simp add: comp_def summarize_group_def Let_def with_role_def)
  ultimately have "distinct (map fst roles) \<and> sorted (map fst roles) \<and>
      sum_list (map (cs_requests_total \<circ> snd) roles) = length (filter (\<lambda>r. request_role py_text r \<noteq> None) requests)"
    unfolding names by simp
  with each show ?thesis by blast
qed

section \<open>Probes\<close>

record observation =
  ob_family :: string
  ob_prime :: bool
  ob_ttft :: rat
  ob_request :: pydict

fun number_value :: "pyval \<Rightarrow> rat option" where
  "number_value (PInt n) = Some (of_int n)"
| "number_value (PBool b) = Some (if b then 1 else 0)"
| "number_value (PFloat (Fin r)) = Some r"
| "number_value _ = None"

text \<open>The requests that count: a prime or warm request of a family, without error, with a time to first token.\<close>

definition observe :: "(pyval \<Rightarrow> string) \<Rightarrow> pydict \<Rightarrow> observation option" where
  "observe py_text request =
     (let metadata = dict_get ''request_metadata'' request; role = field ''role'' metadata
      in if is_mapping metadata \<and> truthy (field ''family_id'' metadata) \<and> role \<in> {PStr ''prime'', PStr ''warm''} \<and>
            dict_get ''error_code'' request = PNone
         then map_option (\<lambda>ttft. \<lparr>ob_family = py_text (field ''family_id'' metadata),
                ob_prime = (role = PStr ''prime''), ob_ttft = ttft, ob_request = request\<rparr>)
              (number_value (dict_get ''ttft_s'' request))
         else None)"

type_synonym families = "(string \<times> observation option \<times> observation list) list"

definition add_observation :: "families \<Rightarrow> observation \<Rightarrow> families" where
  "add_observation fams ob =
     (let (prime, warm) = (case map_of fams (ob_family ob) of Some f \<Rightarrow> f | None \<Rightarrow> (None, []))
      in dict_set (ob_family ob) (if ob_prime ob then (Some ob, warm) else (prime, warm @ [ob])) fams)"

text \<open>Each warm request with the last prime of its family.\<close>

definition family_pairs :: "families \<Rightarrow> (observation \<times> observation) list" where
  "family_pairs fams = concat (map (\<lambda>(_, prime, warm).
     case prime of Some p \<Rightarrow> map (Pair p) warm | None \<Rightarrow> []) fams)"

definition probe_pairs :: "(pyval \<Rightarrow> string) \<Rightarrow> pydict list \<Rightarrow> (observation \<times> observation) list" where
  "probe_pairs py_text requests = family_pairs (foldl add_observation [] (List.map_filter (observe py_text) requests))"

definition delta :: "observation \<times> observation \<Rightarrow> rat" where
  "delta = (\<lambda>(prime, warm). ob_ttft prime - ob_ttft warm)"

text \<open>The bootstrap: medians of resamples, and the two tails of their distribution.\<close>

definition bootstrap_median_interval ::
    "(nat \<Rightarrow> nat \<Rightarrow> nat \<Rightarrow> nat) \<Rightarrow> rat list \<Rightarrow> nat \<Rightarrow> rat \<Rightarrow> rat option \<times> rat option" where
  "bootstrap_median_interval draw values samples confidence =
     (if values = [] then (None, None)
      else let n = length values;
               bootstrapped = map (\<lambda>i. median (map (\<lambda>j. values ! draw n i j) [0 ..< n])) [0 ..< samples];
               tail = (1 - confidence) / 2
           in (quantile bootstrapped tail, quantile bootstrapped (1 - tail)))"

definition valid_hit :: "pydict \<Rightarrow> bool" where
  "valid_hit request \<longleftrightarrow>
     (let normalized = dict_get ''normalized_usage'' request
      in \<not> (is_mapping normalized \<and> field ''valid'' normalized = PBool False) \<and>
         (case normalize_counter (dict_get ''kv_cache_hit_tokens'' request) of Some h \<Rightarrow> 0 < h | None \<Rightarrow> False))"

datatype probe_verdict = ConfirmedExternal | AccountingConfirmed | LatencyInferred | NotObserved | Inconclusive

record probe_analysis =
  pa_verdict :: probe_verdict
  pa_paired_samples :: nat
  pa_prime_ttft :: value_summary
  pa_warm_ttft :: value_summary
  pa_delta :: value_summary
  pa_interval :: "rat option \<times> rat option"
  pa_speedup :: value_summary
  pa_cache :: "counter_summary \<times> (string \<times> counter_summary) list"

definition analyze_cache_probe ::
    "(pyval \<Rightarrow> string) \<Rightarrow> (nat \<Rightarrow> nat \<Rightarrow> nat \<Rightarrow> nat) \<Rightarrow> pydict list \<Rightarrow> nat \<Rightarrow> rat \<Rightarrow> rat \<Rightarrow> probe_analysis" where
  "analyze_cache_probe py_text draw requests samples confidence minimum_coverage =
     (let observations = List.map_filter (observe py_text) requests;
          pairs = probe_pairs py_text requests;
          deltas = map delta pairs;
          speedups = [ob_ttft p / ob_ttft w. (p, w) \<leftarrow> pairs, 0 < ob_ttft w];
          paired_warm = map (\<lambda>(p, w). ob_request w) pairs;
          interval = bootstrap_median_interval draw deltas samples confidence;
          cache = summarize_cache_counters py_text paired_warm;
          observed_hit = list_ex valid_hit paired_warm;
          counters_present = 0 < cs_measured_requests (fst cache);
          coverage_ok = minimum_coverage \<le> cs_counter_coverage (fst cache);
          latency_positive = (case fst interval of Some low \<Rightarrow> 0 < low | None \<Rightarrow> False)
      in \<lparr>pa_verdict = (if observed_hit \<and> coverage_ok \<and> latency_positive then ConfirmedExternal
            else if observed_hit then AccountingConfirmed
            else if \<not> counters_present \<and> latency_positive then LatencyInferred
            else if counters_present \<and> coverage_ok \<and> \<not> observed_hit then NotObserved
            else Inconclusive),
          pa_paired_samples = length deltas,
          pa_prime_ttft = summary [ob_ttft x. x \<leftarrow> observations, ob_prime x],
          pa_warm_ttft = summary [ob_ttft x. x \<leftarrow> observations, \<not> ob_prime x],
          pa_delta = summary deltas, pa_interval = interval, pa_speedup = summary speedups, pa_cache = cache\<rparr>)"

section \<open>What a verdict rests on\<close>

definition family_ok :: "observation set \<Rightarrow> string \<Rightarrow> observation option \<Rightarrow> observation list \<Rightarrow> bool" where
  "family_ok X f prime warm \<longleftrightarrow>
     (\<forall>p. prime = Some p \<longrightarrow> p \<in> X \<and> ob_family p = f \<and> ob_prime p) \<and>
     (\<forall>w \<in> set warm. w \<in> X \<and> ob_family w = f \<and> \<not> ob_prime w)"

definition families_ok :: "observation set \<Rightarrow> families \<Rightarrow> bool" where
  "families_ok X fams \<longleftrightarrow> (\<forall>f prime warm. (f, prime, warm) \<in> set fams \<longrightarrow> family_ok X f prime warm)"

lemma set_dict_set_subset: "set (dict_set k v d) \<subseteq> insert (k, v) (set d)"
  by (induction d) (auto split: if_splits)

lemma families_ok_add:
  assumes "families_ok X fams" and "ob \<in> X"
  shows "families_ok X (add_observation fams ob)"
proof -
  obtain prime warm where old: "(case map_of fams (ob_family ob) of Some f \<Rightarrow> f | None \<Rightarrow> (None, [])) = (prime, warm)"
    by fastforce
  have "family_ok X (ob_family ob) prime warm"
  proof (cases "map_of fams (ob_family ob)")
    case (Some f)
    with old have "(ob_family ob, prime, warm) \<in> set fams" using map_of_SomeD [OF Some] by simp
    with assms(1) show ?thesis unfolding families_ok_def by blast
  qed (use old in \<open>simp add: family_ok_def\<close>)
  then have new: "family_ok X (ob_family ob) (if ob_prime ob then Some ob else prime) (if ob_prime ob then warm else warm @ [ob])"
    using assms(2) unfolding family_ok_def by (cases "ob_prime ob") (simp_all only: if_True if_False option.inject set_append, blast+, force)
  have "add_observation fams ob =
      dict_set (ob_family ob) (if ob_prime ob then Some ob else prime, if ob_prime ob then warm else warm @ [ob]) fams"
    unfolding add_observation_def old Let_def prod.case by simp
  then have "set (add_observation fams ob) \<subseteq>
      insert (ob_family ob, if ob_prime ob then Some ob else prime, if ob_prime ob then warm else warm @ [ob]) (set fams)"
    by (simp only: set_dict_set_subset)
  with new assms(1) show ?thesis unfolding families_ok_def by blast
qed

lemma families_ok_run: "set obs \<subseteq> X \<Longrightarrow> families_ok X fams \<Longrightarrow> families_ok X (foldl add_observation fams obs)"
  by (induction obs arbitrary: fams) (simp_all add: families_ok_add)

lemma family_pairs_member:
  "(p, w) \<in> set (family_pairs fams) \<Longrightarrow> \<exists>f warm. (f, Some p, warm) \<in> set fams \<and> w \<in> set warm"
proof (induction fams)
  case (Cons x fams)
  obtain f prime warm where x: "x = (f, prime, warm)" by (cases x)
  show ?case
  proof (cases "(p, w) \<in> set (family_pairs fams)")
    case True
    with Cons.IH show ?thesis by (meson list.set_intros(2))
  next
    case False
    with Cons.prems have "prime = Some p \<and> w \<in> set warm"
      by (cases prime) (auto simp: family_pairs_def x)
    then show ?thesis unfolding x by (meson list.set_intros(1))
  qed
qed (simp add: family_pairs_def)

lemma probe_pairs_sound:
  assumes "(p, w) \<in> set (probe_pairs py_text requests)"
  shows "ob_family p = ob_family w \<and> ob_prime p \<and> \<not> ob_prime w \<and>
    (\<exists>r \<in> set requests. observe py_text r = Some p) \<and> (\<exists>r \<in> set requests. observe py_text r = Some w)"
proof -
  let ?X = "set (List.map_filter (observe py_text) requests)"
  have ok: "families_ok ?X (foldl add_observation [] (List.map_filter (observe py_text) requests))"
    by (rule families_ok_run) (simp_all add: families_ok_def)
  have member: "\<exists>r \<in> set requests. observe py_text r = Some x" if "x \<in> ?X" for x
    using that by (auto simp: List.map_filter_def)
  from assms obtain f warm where "(f, Some p, warm) \<in> set (foldl add_observation [] (List.map_filter (observe py_text) requests))"
      "w \<in> set warm"
    unfolding probe_pairs_def using family_pairs_member by blast
  with ok have "family_ok ?X f (Some p) warm" "w \<in> set warm" unfolding families_ok_def by blast+
  then have "p \<in> ?X" "w \<in> ?X" "ob_family p = f" "ob_family w = f" "ob_prime p" "\<not> ob_prime w"
    by (simp_all add: family_ok_def)
  with member [of p] member [of w] show ?thesis by simp
qed

text \<open>A positive lower end of the interval needs a pair whose warm request was faster.\<close>

lemma positive_interval:
  assumes draw: "\<And>n i j. 0 < n \<Longrightarrow> draw n i j < n" and "0 \<le> confidence" "confidence \<le> 1"
    and "fst (bootstrap_median_interval draw values samples confidence) = Some low" "0 < low"
  shows "\<exists>v \<in> set values. 0 < v"
proof (rule ccontr)
  assume "\<not> ?thesis"
  then have le: "\<forall>v \<in> set values. v \<le> 0" by (simp add: not_less)
  have ne: "values \<noteq> []" using assms(4) by (auto simp: bootstrap_median_interval_def)
  let ?b = "map (\<lambda>i. median (map (\<lambda>j. values ! draw (length values) i j) [0 ..< length values])) [0 ..< samples]"
  have "median (map (\<lambda>j. values ! draw (length values) i j) [0 ..< length values]) \<le> 0" for i
    using ne le draw by (intro median_le) auto
  then have b: "\<forall>x \<in> set ?b. x \<le> 0" by simp
  have "quantile ?b ((1 - confidence) / 2) = Some low"
    using assms(4) ne by (simp add: bootstrap_median_interval_def Let_def)
  from quantile_le [OF b _ _ this] assms(2,3,5) show False by simp
qed

lemma measured_positive:
  assumes "cs_measured_requests (summarize_group py_text requests) = 0"
  shows "\<not> list_ex valid_hit requests"
proof -
  have keep: "ct_hits s \<noteq> [] \<Longrightarrow> ct_hits (foldl (counter_step py_text) s rs) \<noteq> []" for s rs
    by (induction rs arbitrary: s) (simp_all add: counter_step_def Let_def)
  have "ct_hits (foldl (counter_step py_text) s requests) \<noteq> []" if "list_ex valid_hit requests" for s
    using that
  proof (induction requests arbitrary: s)
    case (Cons r rs)
    show ?case
    proof (cases "valid_hit r")
      case True
      then have "ct_hits (counter_step py_text s r) \<noteq> []"
        by (auto simp: valid_hit_def counter_step_def Let_def split: option.splits)
      then show ?thesis using keep by simp
    next
      case False
      with Cons show ?thesis by simp
    qed
  qed simp
  with assms show ?thesis by (auto simp: summarize_group_def Let_def)
qed


section \<open>A worked probe\<close>

definition sample_request :: "string \<Rightarrow> int \<Rightarrow> pydict \<Rightarrow> pydict" where
  "sample_request role ttft counters =
     [(KStr ''request_metadata'', PDict [(KStr ''family_id'', PStr ''f''), (KStr ''role'', PStr role)]),
      (KStr ''ttft_s'', PInt ttft)] @ counters"

definition sample_requests :: "pydict list" where
  "sample_requests = [sample_request ''prime'' 3 [],
     sample_request ''warm'' 1 [(KStr ''kv_cache_hit_tokens'', PInt 4), (KStr ''kv_cache_miss_tokens'', PInt 6)]]"

fun plain_text :: "pyval \<Rightarrow> string" where
  "plain_text (PStr s) = s"
| "plain_text _ = []"

lemma sample_pairs: "probe_pairs plain_text sample_requests =
    [(\<lparr>ob_family = ''f'', ob_prime = True, ob_ttft = 3, ob_request = sample_requests ! 0\<rparr>,
      \<lparr>ob_family = ''f'', ob_prime = False, ob_ttft = 1, ob_request = sample_requests ! 1\<rparr>)]"
  by (simp add: probe_pairs_def sample_requests_def sample_request_def observe_def List.map_filter_simps
      dict_get_def add_observation_def family_pairs_def Let_def)

lemma sample_verdict:
  "pa_verdict (analyze_cache_probe plain_text (\<lambda>_ _ _. 0) sample_requests 1 (9 / 10) (1 / 2)) = ConfirmedExternal"
proof -
  have "quantile [2] (1 / 20) = Some 2" by (simp add: quantile_def)
  then have "bootstrap_median_interval (\<lambda>_ _ _. 0) [2] 1 (9 / 10) = (Some 2, quantile [2] (19 / 20))"
    by (simp add: bootstrap_median_interval_def Let_def median_def)
  moreover have "cs_counter_coverage (summarize_group plain_text [sample_requests ! 1]) = 1"
    by (simp add: summarize_group_def counter_step_def no_counters_def sample_requests_def sample_request_def
        dict_get_def field_def Let_def)
  moreover have "valid_hit (sample_requests ! 1)"
    by (simp add: valid_hit_def sample_requests_def sample_request_def dict_get_def Let_def)
  ultimately show ?thesis
    by (simp add: analyze_cache_probe_def Let_def sample_pairs delta_def summarize_cache_counters_def)
qed


theorem cache_summary_bounds_witness:
  "\<exists>s roles. summarize_cache_counters plain_text sample_requests = (s, roles) \<and>
     sum_list (map (cs_requests_total \<circ> snd) roles) = 2"
proof -
  obtain s roles where r: "summarize_cache_counters plain_text sample_requests = (s, roles)" by fastforce
  have "length (filter (\<lambda>r. request_role plain_text r \<noteq> None) sample_requests) = 2"
    by (simp add: sample_requests_def sample_request_def request_role_def dict_get_def)
  with r cache_summary_bounds [OF r] show ?thesis by auto
qed

end
